(* ===== verification/Prelude.thy ===== *)
theory Prelude
  imports Main "HOL-Library.Word"
begin

text \<open>
  Shared vocabulary of the development: the machine integers and byte strings of the Rust
  sources, big-endian conversions, the part of the standard library's string handling that the
  sources rely on (UTF-8 validation, ASCII case folding, splitting and trimming), and the
  interfaces that several components implement:
  \<^item> \<open>incremental\<close>: a parser that is asked again with more bytes until it decides;
  \<^item> \<open>codec\<close>: an encoder and a decoder that agree in front of any remaining input;
  \<^item> \<open>invariant_system\<close>: a step relation with an invariant.
\<close>

unbundle bit_operations_syntax

section \<open>Types\<close>

type_synonym u8 = "8 word"
type_synonym u16 = "16 word"
type_synonym u32 = "32 word"
type_synonym u64 = "64 word"
type_synonym bytes = "u8 list"

named_theorems wire_simps \<open>equations that evaluate wire-format encoders and decoders\<close>
named_theorems state_defs \<open>definitions of state predicates\<close>

text \<open>Byte-string literals: \<^verbatim>\<open>b"GET"\<close> of the source is \<open>bs ''GET''\<close>.\<close>

definition bs :: "string \<Rightarrow> bytes" where
  "bs s = map of_char s"

lemma bs_simps [simp]:
  "bs [] = []"
  "bs (c # cs) = of_char c # bs cs"
  by (simp_all add: bs_def)

lemma length_bs [simp]: "length (bs s) = length s"
  by (simp add: bs_def)

section \<open>Words put together from fields\<close>

lemma nat_bit_less: "(m :: nat) < 2 ^ n \<Longrightarrow> n \<le> k \<Longrightarrow> \<not> bit m k"
proof -
  assume m: "m < 2 ^ n" and "n \<le> k"
  then have "(2 :: nat) ^ n \<le> 2 ^ k" by (simp add: power_increasing)
  with m have "m < 2 ^ k" by (rule less_le_trans)
  then show ?thesis by (simp add: bit_iff_odd)
qed

lemma nat_or_push: "(b :: nat) < 2 ^ n \<Longrightarrow> push_bit n a OR b = 2 ^ n * a + b"
proof -
  assume b: "b < 2 ^ n"
  have "push_bit n a + b = push_bit n a OR b"
    by (rule disjunctive_add) (use nat_bit_less [OF b] in \<open>auto simp: bit_push_bit_iff_nat not_le\<close>)
  then show ?thesis by (simp add: push_bit_eq_mult ac_simps)
qed

lemma unat_or_push:
  fixes x y :: "'a :: len word"
  assumes "unat x < 2 ^ n" "2 ^ n * unat y < 2 ^ LENGTH('a)"
  shows "unat (push_bit n y OR x) = 2 ^ n * unat y + unat x"
proof -
  have "unat (push_bit n y) = push_bit n (unat y)"
    using assms(2)
    by (simp only: unsigned_push_bit_eq)
      (simp add: push_bit_eq_mult [where 'a = nat] take_bit_nat_eq_self ac_simps)
  then show ?thesis using nat_or_push [OF assms(1)] by (simp add: unsigned_or_eq)
qed

lemma unat_eqI: "unat (a :: 'a :: len word) = unat b \<Longrightarrow> a = b"
  by (rule unsigned_word_eqI)

lemma unat_take_bit_add:
  fixes a b :: "'a :: len word"
  assumes "k \<le> LENGTH('a)"
  shows "unat (take_bit k (a + b)) = (unat a + unat b) mod 2 ^ k"
proof -
  have "(2 :: nat) ^ k dvd 2 ^ LENGTH('a)" using assms by (rule le_imp_power_dvd)
  then show ?thesis
    by (simp add: unsigned_take_bit_eq take_bit_eq_mod [where 'a = nat] unat_word_ariths mod_mod_cancel)
qed

lemma take_bit_word_add_left:
  fixes a b :: "'a :: len word"
  assumes "k \<le> LENGTH('a)"
  shows "take_bit k (take_bit k a + b) = take_bit k (a + b)"
  by (rule unat_eqI, simp only: unat_take_bit_add [OF assms])
    (simp add: unsigned_take_bit_eq take_bit_eq_mod [where 'a = nat] mod_simps)

lemma word_bit_less: "unat (w :: 'a :: len word) < 2 ^ k \<Longrightarrow> k \<le> n \<Longrightarrow> \<not> bit w n"
  using nat_bit_less [of "unat w" k n] bit_imp_le_length [of w n] by (auto simp: bit_unsigned_iff)

lemma word_bit_bound: "unat (w :: 'a :: len word) < 2 ^ k \<Longrightarrow> bit w n \<Longrightarrow> n < k"
  using word_bit_less [of w k n] by force

section \<open>Big-endian conversions\<close>

definition to_be16 :: "u16 \<Rightarrow> bytes" where
  "to_be16 w = [ucast (drop_bit 8 w), ucast w]"

definition from_be16 :: "u8 \<Rightarrow> u8 \<Rightarrow> u16" where
  "from_be16 a b = push_bit 8 (ucast a) OR ucast b"

definition to_be32 :: "u32 \<Rightarrow> bytes" where
  "to_be32 w = [ucast (drop_bit 24 w), ucast (drop_bit 16 w), ucast (drop_bit 8 w), ucast w]"

definition from_be32 :: "u8 \<Rightarrow> u8 \<Rightarrow> u8 \<Rightarrow> u8 \<Rightarrow> u32" where
  "from_be32 a b c d =
     push_bit 24 (ucast a) OR push_bit 16 (ucast b) OR push_bit 8 (ucast c) OR ucast d"

definition to_be64 :: "u64 \<Rightarrow> bytes" where
  "to_be64 w = to_be32 (ucast (drop_bit 32 w)) @ to_be32 (ucast w)"

lemma length_to_be [simp]:
  "length (to_be16 w) = 2" "length (to_be32 x) = 4" "length (to_be64 y) = 8"
  by (simp_all add: to_be16_def to_be32_def to_be64_def)

lemma unat_bounds [simp]:
  "unat (b :: u8) < 256" "unat (h :: u16) < 65536" "unat (w :: u32) < 4294967296"
  "unat (d :: u64) < 18446744073709551616"
  using unsigned_less [of b] unsigned_less [of h] unsigned_less [of w] unsigned_less [of d]
  by simp_all

lemma unat_ucast_up [simp]:
  "unat (ucast (b :: u8) :: u16) = unat b" "unat (ucast (b :: u8) :: u32) = unat b"
  "unat (ucast (b :: u8) :: u64) = unat b" "unat (ucast (h :: u16) :: u32) = unat h"
  "unat (ucast (h :: u16) :: u64) = unat h" "unat (ucast (w :: u32) :: u64) = unat w"
  by (simp_all add: unsigned_ucast_eq take_bit_nat_eq_self_iff order_less_le_trans
      [OF unat_bounds(1)] order_less_le_trans [OF unat_bounds(2)]
      order_less_le_trans [OF unat_bounds(3)])

lemma bit_u8_ge [simp]: "8 \<le> n \<Longrightarrow> \<not> bit (b :: u8) n"
  using bit_imp_le_length [of b n] by auto

lemma from_be16_to_be16 [simp]: "from_be16 (ucast (drop_bit 8 w)) (ucast w) = w"
  unfolding from_be16_def
  by (rule bit_word_eqI) (auto simp: bit_simps)

lemma from_be32_to_be32 [simp]:
  "from_be32 (ucast (drop_bit 24 w)) (ucast (drop_bit 16 w)) (ucast (drop_bit 8 w)) (ucast w) = w"
proof (rule bit_word_eqI)
  fix n
  assume "n < LENGTH(32)"
  then consider "n < 8" | "8 \<le> n" "n < 16" | "16 \<le> n" "n < 24" | "24 \<le> n" "n < 32"
    by fastforce
  then show "bit (from_be32 (ucast (drop_bit 24 w)) (ucast (drop_bit 16 w))
      (ucast (drop_bit 8 w)) (ucast w)) n = bit w n"
    by cases (auto simp: from_be32_def bit_simps)
qed

lemma unat_from_be16: "unat (from_be16 a b) = 256 * unat a + unat b"
proof -
  have d: "push_bit 8 (ucast a) OR (ucast b :: u16) = push_bit 8 (ucast a) + ucast b"
    by (rule disjunctive_add [symmetric]) (auto simp: bit_simps)
  have "unat (push_bit 8 (ucast a) :: u16) = 256 * unat a"
    using unat_bounds(1) [of a] by (simp add: push_bit_eq_mult unat_word_ariths)
  moreover have "256 * unat a + unat b < 65536"
    using unat_bounds(1) [of a] unat_bounds(1) [of b] by linarith
  ultimately show ?thesis
    by (simp add: from_be16_def d unat_word_ariths)
qed

section \<open>Strings of the standard library\<close>

text \<open>
  A Rust \<^verbatim>\<open>str\<close> is a byte sequence that is well-formed UTF-8 (the Unicode standard's table of
  well-formed sequences); \<open>from_utf8\<close> is the check that makes one.
\<close>

definition is_cont :: "u8 \<Rightarrow> bool" where
  "is_cont b \<longleftrightarrow> 0x80 \<le> b \<and> b \<le> 0xBF"

definition utf8_width :: "u8 \<Rightarrow> nat" where
  "utf8_width a =
    (if a < 0x80 then 1 else if 0xC2 \<le> a \<and> a \<le> 0xDF then 2
     else if 0xE0 \<le> a \<and> a \<le> 0xEF then 3 else if 0xF0 \<le> a \<and> a \<le> 0xF4 then 4 else 0)"

fun utf8_tail_ok :: "u8 \<Rightarrow> bytes \<Rightarrow> bool" where
  "utf8_tail_ok a (b # r) =
    ((if a = 0xE0 then 0xA0 \<le> b \<and> b \<le> 0xBF
      else if a = 0xED then 0x80 \<le> b \<and> b \<le> 0x9F
      else if a = 0xF0 then 0x90 \<le> b \<and> b \<le> 0xBF
      else if a = 0xF4 then 0x80 \<le> b \<and> b \<le> 0x8F
      else is_cont b) \<and> list_all is_cont r)"
| "utf8_tail_ok a [] = True"

definition utf8_head :: "bytes \<Rightarrow> nat" where
  "utf8_head s =
    (case s of [] \<Rightarrow> 0
     | a # r \<Rightarrow>
        let n = utf8_width a
        in if n \<noteq> 0 \<and> n \<le> length s \<and> utf8_tail_ok a (take (n - 1) r) then n else 0)"

lemma utf8_head_Nil [simp]: "utf8_head [] = 0"
  by (simp add: utf8_head_def)

lemma utf8_head_le: "utf8_head s \<le> length s"
  by (cases s) (auto simp: utf8_head_def Let_def)

lemma utf8_head_append:
  assumes "utf8_head xs \<noteq> 0"
  shows "utf8_head (xs @ ys) = utf8_head xs"
proof -
  obtain a r where xs: "xs = a # r" using assms by (cases xs) auto
  with assms have w: "utf8_width a \<noteq> 0" "utf8_width a \<le> Suc (length r)"
    by (auto simp: utf8_head_def Let_def split: if_splits)
  then have "take (utf8_width a - 1) (r @ ys) = take (utf8_width a - 1) r" by simp
  with w xs show ?thesis by (simp add: utf8_head_def Let_def)
qed

text \<open>Whole strings: one character after the other; a malformed one ends the check.\<close>

function utf8_valid :: "bytes \<Rightarrow> bool" where
  "utf8_valid s =
    (if s = [] then True
     else if utf8_head s = 0 then False
     else utf8_valid (drop (utf8_head s) s))"
  by pat_completeness auto
termination
  by (relation "measure length") auto

declare utf8_valid.simps [simp del]

lemma utf8_valid_Nil [simp]: "utf8_valid []"
  by (simp add: utf8_valid.simps)

definition from_utf8 :: "bytes \<Rightarrow> bytes option" where
  "from_utf8 b = (if utf8_valid b then Some b else None)"

lemma utf8_valid_Cons_ascii: "a < 0x80 \<Longrightarrow> utf8_valid (a # s) = utf8_valid s"
  by (subst utf8_valid.simps) (simp add: utf8_head_def utf8_width_def)

lemma utf8_valid_ascii: "list_all (\<lambda>b. b < 0x80) s \<Longrightarrow> utf8_valid s"
  by (induction s) (auto simp: utf8_valid_Cons_ascii)

lemma utf8_valid_append: "utf8_valid xs \<Longrightarrow> utf8_valid ys \<Longrightarrow> utf8_valid (xs @ ys)"
proof (induction xs rule: utf8_valid.induct)
  case (1 xs)
  show ?case
  proof (cases "xs = []")
    case True
    with "1.prems" show ?thesis by simp
  next
    case False
    with "1.prems"(1) have h: "utf8_head xs \<noteq> 0" and v: "utf8_valid (drop (utf8_head xs) xs)"
      by (auto simp: utf8_valid.simps [of xs] split: if_splits)
    from "1.IH" [OF False h v "1.prems"(2)] h False show ?thesis
      using utf8_head_le [of xs]
      by (simp add: utf8_valid.simps [of "xs @ ys"] utf8_head_append)
  qed
qed

text \<open>
  \<^verbatim>\<open>String::from_utf8_lossy\<close>: characters are kept, and each longest prefix of a character that cannot
  be completed, or stray byte, becomes U+FFFD.
\<close>

definition bad_len :: "bytes \<Rightarrow> nat" where
  "bad_len s =
    (if utf8_width (hd s) < 2 \<or> tl s = [] \<or> \<not> utf8_tail_ok (hd s) (take 1 (tl s)) then 1
     else if utf8_width (hd s) = 4 \<and> 2 < length s \<and> is_cont (s ! 2) then 3 else 2)"

function from_utf8_lossy :: "bytes \<Rightarrow> bytes" where
  "from_utf8_lossy s =
    (if s = [] then []
     else if utf8_head s \<noteq> 0 then take (utf8_head s) s @ from_utf8_lossy (drop (utf8_head s) s)
     else [0xEF, 0xBF, 0xBD] @ from_utf8_lossy (drop (bad_len s) s))"
  by pat_completeness auto
termination
  by (relation "measure length") (auto simp: bad_len_def)

declare from_utf8_lossy.simps [simp del]

lemma from_utf8_lossy_valid: "utf8_valid s \<Longrightarrow> from_utf8_lossy s = s"
proof (induction s rule: from_utf8_lossy.induct)
  case (1 s)
  show ?case
  proof (cases "s = []")
    case False
    with 1(3) have "utf8_head s \<noteq> 0" "utf8_valid (drop (utf8_head s) s)"
      by (auto simp: utf8_valid.simps [of s] split: if_splits)
    with 1(1) [OF False] False show ?thesis by (simp add: from_utf8_lossy.simps [of s])
  qed (simp add: from_utf8_lossy.simps)
qed

text \<open>ASCII classes and case folding (\<^verbatim>\<open>u8::is_ascii_*\<close>, \<^verbatim>\<open>eq_ignore_ascii_case\<close>).\<close>

definition is_ascii_digit :: "u8 \<Rightarrow> bool" where
  "is_ascii_digit c \<longleftrightarrow> 0x30 \<le> c \<and> c \<le> 0x39"

definition is_ascii_alphanumeric :: "u8 \<Rightarrow> bool" where
  "is_ascii_alphanumeric c \<longleftrightarrow>
     is_ascii_digit c \<or> (0x41 \<le> c \<and> c \<le> 0x5A) \<or> (0x61 \<le> c \<and> c \<le> 0x7A)"

definition to_ascii_lowercase :: "u8 \<Rightarrow> u8" where
  "to_ascii_lowercase c = (if 0x41 \<le> c \<and> c \<le> 0x5A then c + 0x20 else c)"

definition to_ascii_uppercase :: "u8 \<Rightarrow> u8" where
  "to_ascii_uppercase c = (if 0x61 \<le> c \<and> c \<le> 0x7A then c - 0x20 else c)"

definition eq_ignore_ascii_case :: "bytes \<Rightarrow> bytes \<Rightarrow> bool" where
  "eq_ignore_ascii_case a b \<longleftrightarrow> map to_ascii_lowercase a = map to_ascii_lowercase b"

lemma eq_ignore_ascii_case_refl [simp]: "eq_ignore_ascii_case a a"
  by (simp add: eq_ignore_ascii_case_def)

lemma eq_ignore_ascii_case_length: "eq_ignore_ascii_case a b \<Longrightarrow> length a = length b"
  unfolding eq_ignore_ascii_case_def by (metis length_map)

text \<open>\<^verbatim>\<open>str::split\<close> on one ASCII character: always at least one piece.\<close>

fun split_on :: "'a \<Rightarrow> 'a list \<Rightarrow> 'a list list" where
  "split_on c [] = [[]]"
| "split_on c (x # xs) =
    (if x = c then [] # split_on c xs
     else (case split_on c xs of [] \<Rightarrow> [[x]] | p # ps \<Rightarrow> (x # p) # ps))"

lemma split_on_nonempty [simp]: "split_on c xs \<noteq> []"
  by (induction xs) (auto split: list.splits)

lemma split_on_no_sep: "c \<notin> set xs \<Longrightarrow> split_on c xs = [xs]"
  by (induction xs) auto

lemma split_on_append:
  "c \<notin> set xs \<Longrightarrow> split_on c (xs @ c # ys) = xs # split_on c ys"
  by (induction xs) auto

text \<open>\<^verbatim>\<open>str::trim\<close>: the length of the Unicode white-space character at the front, 0 if none.\<close>

fun ws_len :: "bytes \<Rightarrow> nat" where
  "ws_len [] = 0"
| "ws_len (a # r) =
    (if (9 \<le> a \<and> a \<le> 13) \<or> a = 32 then 1
     else (case r of
        b # c # _ \<Rightarrow>
          if a = 0xC2 \<and> (b = 0x85 \<or> b = 0xA0) then 2
          else if (a = 0xE1 \<and> b = 0x9A \<and> c = 0x80)
            \<or> (a = 0xE2 \<and> b = 0x80 \<and> ((0x80 \<le> c \<and> c \<le> 0x8A) \<or> c = 0xA8 \<or> c = 0xA9 \<or> c = 0xAF))
            \<or> (a = 0xE2 \<and> b = 0x81 \<and> c = 0x9F) \<or> (a = 0xE3 \<and> b = 0x80 \<and> c = 0x80) then 3
          else 0
      | [b] \<Rightarrow> if a = 0xC2 \<and> (b = 0x85 \<or> b = 0xA0) then 2 else 0
      | [] \<Rightarrow> 0))"

lemma ws_len_le: "ws_len s \<le> length s"
  by (cases s) (auto split: list.splits)

lemma ws_len_pos: "0 < ws_len s \<Longrightarrow> s \<noteq> []"
  by auto

function trim_start :: "bytes \<Rightarrow> bytes" where
  "trim_start s = (if ws_len s = 0 then s else trim_start (drop (ws_len s) s))"
  by pat_completeness auto
termination
  by (relation "measure length") (auto intro: diff_less dest: ws_len_pos)

declare trim_start.simps [simp del]

definition ws_len_end :: "bytes \<Rightarrow> nat" where
  "ws_len_end s =
    (if 1 \<le> length s \<and> ws_len (drop (length s - 1) s) = 1 then 1
     else if 2 \<le> length s \<and> ws_len (drop (length s - 2) s) = 2 then 2
     else if 3 \<le> length s \<and> ws_len (drop (length s - 3) s) = 3 then 3 else 0)"

function trim_end :: "bytes \<Rightarrow> bytes" where
  "trim_end s = (if ws_len_end s = 0 then s else trim_end (take (length s - ws_len_end s) s))"
  by pat_completeness auto
termination
  by (relation "measure length") (auto simp: ws_len_end_def split: if_splits)

declare trim_end.simps [simp del]

definition trim :: "bytes \<Rightarrow> bytes" where
  "trim s = trim_end (trim_start s)"

text \<open>
  \<^verbatim>\<open>str::parse::<u64>\<close>: an optional plus sign, then at least one decimal digit, and a value
  below \<open>2 ^ 64\<close>; anything else is an error.
\<close>

fun dec_value :: "nat \<Rightarrow> bytes \<Rightarrow> nat option" where
  "dec_value n [] = Some n"
| "dec_value n (c # cs) =
    (if is_ascii_digit c then dec_value (10 * n + (unat c - 48)) cs else None)"

definition parse_unsigned :: "nat \<Rightarrow> bytes \<Rightarrow> nat option" where
  "parse_unsigned bits s =
    (let digits = (case s of c # r \<Rightarrow> if c = 0x2B then r else s | [] \<Rightarrow> s)
     in if digits = [] then None
        else (case dec_value 0 digits of
                Some n \<Rightarrow> if n < 2 ^ bits then Some n else None
              | None \<Rightarrow> None))"

text \<open>\<^verbatim>\<open>to_string\<close> of an unsigned integer.\<close>

fun dec_digits :: "nat \<Rightarrow> bytes" where
  "dec_digits n =
    (if n < 10 then [of_nat (48 + n)] else dec_digits (n div 10) @ [of_nat (48 + n mod 10)])"

declare dec_digits.simps [simp del]

text \<open>\<^verbatim>\<open>usize::next_power_of_two\<close>, and the FNV-1a hash the limiter zones share.\<close>

fun next_power_of_two_from :: "nat \<Rightarrow> nat \<Rightarrow> nat \<Rightarrow> nat" where
  "next_power_of_two_from 0 p n = p"
| "next_power_of_two_from (Suc fuel) p n =
    (if n \<le> p then p else next_power_of_two_from fuel (2 * p) n)"

definition next_power_of_two :: "nat \<Rightarrow> nat" where
  "next_power_of_two n = next_power_of_two_from 64 1 n"

definition fnv1a :: "u64 \<Rightarrow> bytes \<Rightarrow> u64" where
  "fnv1a sd key = fold (\<lambda>b h. (h XOR ucast b) * 0x100000001b3) key (0xcbf29ce484222325 XOR sd)"

lemma next_power_of_two_from_le: "next_power_of_two_from k p n \<le> max p (2 * n)"
  by (induction k p n rule: next_power_of_two_from.induct) (auto simp: le_max_iff_disj)

text \<open>\<^verbatim>\<open>Iterator::position\<close>: the index of the first element that satisfies the predicate.\<close>

fun position :: "('a \<Rightarrow> bool) \<Rightarrow> 'a list \<Rightarrow> nat option" where
  "position P [] = None"
| "position P (x # xs) = (if P x then Some 0 else map_option Suc (position P xs))"

lemma position_Some: "position P xs = Some i \<Longrightarrow> i < length xs \<and> P (xs ! i)"
  by (induction xs arbitrary: i) (auto split: if_splits)

lemma position_None: "position P xs = None \<longleftrightarrow> list_all (\<lambda>x. \<not> P x) xs"
  by (induction xs) auto

lemma find_filter: "find P xs = (case filter P xs of [] \<Rightarrow> None | x # _ \<Rightarrow> Some x)"
  by (induction xs) auto

lemma find_append: "find P (xs @ ys) = (case find P xs of Some x \<Rightarrow> Some x | None \<Rightarrow> find P ys)"
  by (induction xs) auto

section \<open>Interfaces\<close>

text \<open>
  The read loop every incremental parser of the server is driven by: ask; if the answer is
  undecided, append the next chunk that arrives and ask again.
\<close>

fun feed :: "(bytes \<Rightarrow> 'r) \<Rightarrow> ('r \<Rightarrow> bool) \<Rightarrow> bytes \<Rightarrow> bytes list \<Rightarrow> 'r" where
  "feed p u buf [] = p buf"
| "feed p u buf (c # cs) = (if u (p buf) then feed p u (buf @ c) cs else p buf)"

locale incremental =
  fixes parse :: "bytes \<Rightarrow> 'r" and undecided :: "'r \<Rightarrow> bool"
  assumes stable: "\<not> undecided (parse b) \<Longrightarrow> parse (b @ c) = parse b"
begin

lemma undecided_prefix: "undecided (parse (b @ c)) \<Longrightarrow> undecided (parse b)"
  using stable by metis

lemma decided_take: "\<not> undecided (parse (take n b)) \<Longrightarrow> parse b = parse (take n b)"
  using stable [of "take n b" "drop n b"] by simp

lemma feed_parse: "feed parse undecided buf cs = parse (buf @ concat cs)"
proof (induction cs arbitrary: buf)
  case Nil
  then show ?case by simp
next
  case (Cons c cs)
  then show ?case using stable [of buf "c @ concat cs"] by simp
qed

lemma feed_chunking_independent:
  "concat cs = concat ds \<Longrightarrow> feed parse undecided [] cs = feed parse undecided [] ds"
  by (simp add: feed_parse)

end

text \<open>
  An encoder and a decoder that agree whatever follows the encoding: encodings can be
  concatenated, and a concatenation has one reading only.
\<close>

fun decode_n :: "(bytes \<Rightarrow> ('a \<times> bytes) option) \<Rightarrow> nat \<Rightarrow> bytes \<Rightarrow> ('a list \<times> bytes) option" where
  "decode_n dec 0 b = Some ([], b)"
| "decode_n dec (Suc n) b =
    (case dec b of None \<Rightarrow> None
     | Some (x, r) \<Rightarrow> (case decode_n dec n r of None \<Rightarrow> None | Some (xs, r') \<Rightarrow> Some (x # xs, r')))"

locale codec =
  fixes enc :: "'a \<Rightarrow> bytes" and dec :: "bytes \<Rightarrow> ('a \<times> bytes) option" and ok :: "'a \<Rightarrow> bool"
  assumes dec_enc: "ok x \<Longrightarrow> dec (enc x @ rest) = Some (x, rest)"
begin

lemma enc_unambiguous:
  assumes "ok x" "ok y" "enc x @ r = enc y @ s"
  shows "x = y \<and> r = s"
proof -
  have "Some (x, r) = dec (enc x @ r)" by (rule dec_enc [OF assms(1), symmetric])
  also have "\<dots> = dec (enc y @ s)" by (rule arg_cong [OF assms(3)])
  also have "\<dots> = Some (y, s)" by (rule dec_enc [OF assms(2)])
  finally show ?thesis by simp
qed

lemma enc_inj_on: "inj_on enc {x. ok x}"
proof (rule inj_onI)
  fix x y
  assume "x \<in> {x. ok x}" "y \<in> {x. ok x}" "enc x = enc y"
  then show "x = y" using enc_unambiguous [of x y "[]" "[]"] by simp
qed

lemma decode_stream:
  "list_all ok xs \<Longrightarrow> decode_n dec (length xs) (concat (map enc xs) @ rest) = Some (xs, rest)"
  by (induction xs) (auto simp: dec_enc)

end

text \<open>A state machine given by its initial states and steps, and an invariant of it.\<close>

inductive reachable :: "('s \<Rightarrow> bool) \<Rightarrow> ('s \<Rightarrow> 's \<Rightarrow> bool) \<Rightarrow> 's \<Rightarrow> bool"
  for init :: "'s \<Rightarrow> bool" and step :: "'s \<Rightarrow> 's \<Rightarrow> bool" where
  reach_init: "init s \<Longrightarrow> reachable init step s"
| reach_step: "reachable init step s \<Longrightarrow> step s t \<Longrightarrow> reachable init step t"

locale invariant_system =
  fixes init :: "'s \<Rightarrow> bool" and step :: "'s \<Rightarrow> 's \<Rightarrow> bool" and inv :: "'s \<Rightarrow> bool"
  assumes inv_init: "init s \<Longrightarrow> inv s"
    and inv_step: "inv s \<Longrightarrow> step s t \<Longrightarrow> inv t"
begin

lemma reachable_inv: "reachable init step s \<Longrightarrow> inv s"
  by (induction rule: reachable.induct) (auto intro: inv_init inv_step)

lemma reachable_weaken: "(\<And>s. inv s \<Longrightarrow> P s) \<Longrightarrow> reachable init step s \<Longrightarrow> P s"
  using reachable_inv by blast

end

end
