(* ===== verification/Uri.thy ===== *)
theory Uri
  imports Prelude
begin

text \<open>
  URI decoding and path normalisation (\<^verbatim>\<open>src/http/uri.rs\<close>). Paths are byte strings; a Rust
  \<^verbatim>\<open>str\<close> argument is one that satisfies \<open>utf8_valid\<close>. The index-driven loops of the source are
  recursions over the bytes that are left; \<open>out\<close> and \<open>starts\<close> are kept as the source has them,
  and the refinement below relates them to a stack of path segments.
\<close>

section \<open>Definitions\<close>

abbreviation slash :: u8 where "slash \<equiv> 0x2F"
abbreviation percent :: u8 where "percent \<equiv> 0x25"
abbreviation dot :: u8 where "dot \<equiv> 0x2E"

datatype uri_error = UriInvalid | NotAbsolute

fun split_query :: "bytes \<Rightarrow> bytes \<times> bytes" where
  "split_query [] = ([], [])"
| "split_query (c # r) =
    (if c = 0x3F then ([], r) else (let (p, q) = split_query r in (c # p, q)))"

definition hex :: "u8 \<Rightarrow> u8 option" where
  "hex c =
    (if 0x30 \<le> c \<and> c \<le> 0x39 then Some (c - 0x30)
     else if 0x61 \<le> c \<and> c \<le> 0x66 then Some (c - 0x61 + 10)
     else if 0x41 \<le> c \<and> c \<le> 0x46 then Some (c - 0x41 + 10)
     else None)"

text \<open>One segment, decoded as it is collected; the rest starts at the separator or is empty.\<close>

fun collect_seg :: "bytes \<Rightarrow> bytes \<Rightarrow> uri_error + bytes \<times> bytes" where
  "collect_seg seg [] = Inr (seg, [])"
| "collect_seg seg (c # r) =
    (if c = slash then Inr (seg, c # r)
     else if c = percent then
       (case r of
          h # l # r' \<Rightarrow>
            (case hex h of None \<Rightarrow> Inl UriInvalid
             | Some hv \<Rightarrow>
                (case hex l of None \<Rightarrow> Inl UriInvalid
                 | Some lv \<Rightarrow>
                    let d = push_bit 4 hv OR lv
                    in if d = 0 \<or> d = slash then Inl UriInvalid else collect_seg (seg @ [d]) r'))
        | _ \<Rightarrow> Inl UriInvalid)
     else if c = 0 \<or> c = slash then Inl UriInvalid
     else collect_seg (seg @ [c]) r)"

text \<open>What one segment does to the output and to the stack of segment offsets.\<close>

definition apply_seg :: "bytes \<Rightarrow> nat list \<Rightarrow> bytes \<Rightarrow> uri_error + bytes \<times> nat list" where
  "apply_seg out starts seg =
    (if seg = [] \<or> seg = [dot] then Inr (out, starts)
     else if seg = [dot, dot] then
       (case starts of [] \<Rightarrow> Inl UriInvalid | lst # starts' \<Rightarrow> Inr (take lst out, starts'))
     else Inr (out @ seg @ [slash], length out # starts))"

lemma collect_seg_length:
  "collect_seg seg b = Inr (s, r) \<Longrightarrow> length r \<le> length b"
  by (induction seg b arbitrary: s r rule: collect_seg.induct)
    (fastforce simp: Let_def split: if_splits list.splits option.splits)+

function normalize_loop :: "bytes \<Rightarrow> nat list \<Rightarrow> bytes \<Rightarrow> uri_error + bytes" where
  "normalize_loop out starts b =
    (case collect_seg [] b of Inl e \<Rightarrow> Inl e
     | Inr (seg, rest) \<Rightarrow>
        (case apply_seg out starts seg of Inl e \<Rightarrow> Inl e
         | Inr (out', starts') \<Rightarrow>
            (case rest of [] \<Rightarrow> Inr out' | _ # r \<Rightarrow> normalize_loop out' starts' r)))"
  by pat_completeness auto
termination
  by (relation "measure (\<lambda>(out, starts, b). length b)") (auto dest!: collect_seg_length)

declare normalize_loop.simps [simp del]

definition normalize_full :: "bytes \<Rightarrow> uri_error + bytes" where
  "normalize_full path =
    (let trailing_slash = 1 < length path \<and> last path = slash
     in case normalize_loop [slash] [] (tl path) of Inl e \<Rightarrow> Inl e
        | Inr out \<Rightarrow>
           (let out' = (if \<not> trailing_slash \<and> 1 < length out then butlast out else out)
            in case from_utf8 out' of Some s \<Rightarrow> Inr s | None \<Rightarrow> Inl UriInvalid))"

fun already_normal_from :: "u8 \<Rightarrow> bytes \<Rightarrow> bool" where
  "already_normal_from prev [] = True"
| "already_normal_from prev (c # r) =
    (if c = percent then False
     else if c = slash \<and> prev = slash then False
     else if c = dot \<and> prev = slash then False
     else if c = 0 then False
     else already_normal_from c r)"

definition is_already_normal :: "bytes \<Rightarrow> bool" where
  "is_already_normal b = (case b of [] \<Rightarrow> True | c # r \<Rightarrow> already_normal_from c r)"

definition normalize :: "bytes \<Rightarrow> uri_error + bytes" where
  "normalize path =
    (if path = [] \<or> hd path \<noteq> slash then Inl NotAbsolute
     else if is_already_normal path then Inr path
     else normalize_full path)"

definition HEX :: bytes where
  "HEX = bs ''0123456789ABCDEF''"

definition encode_safe :: "u8 \<Rightarrow> bool" where
  "encode_safe c \<longleftrightarrow> is_ascii_alphanumeric c \<or> c \<in> set (bs ''-_.~/@:+$,;='')"

definition encode_byte :: "u8 \<Rightarrow> bytes" where
  "encode_byte c =
    (if encode_safe c then [c]
     else [percent, HEX ! unat (drop_bit 4 c), HEX ! unat (c AND 0xF)])"

definition encode_path :: "bytes \<Rightarrow> bytes" where
  "encode_path s = concat (map encode_byte s)"

definition escape_html_char :: "u8 \<Rightarrow> bytes" where
  "escape_html_char c =
    (if c = 0x26 then bs ''&amp;'' else if c = 0x3C then bs ''&lt;''
     else if c = 0x3E then bs ''&gt;'' else if c = 0x22 then bs ''&quot;''
     else if c = 0x27 then bs ''&#39;'' else [c])"

definition escape_html :: "bytes \<Rightarrow> bytes" where
  "escape_html s = concat (map escape_html_char s)"

fun split_once :: "u8 \<Rightarrow> bytes \<Rightarrow> (bytes \<times> bytes) option" where
  "split_once c [] = None"
| "split_once c (x # xs) =
    (if x = c then Some ([], xs)
     else (case split_once c xs of None \<Rightarrow> None | Some (k, v) \<Rightarrow> Some (x # k, v)))"

fun query_param_in :: "bytes list \<Rightarrow> bytes \<Rightarrow> bytes option" where
  "query_param_in [] name = None"
| "query_param_in (pair # ps) name =
    (let (k, v) = (case split_once 0x3D pair of Some kv \<Rightarrow> kv | None \<Rightarrow> (pair, []))
     in if k = name then Some v else query_param_in ps name)"

definition query_param :: "bytes \<Rightarrow> bytes \<Rightarrow> bytes option" where
  "query_param query name = query_param_in (split_on 0x26 query) name"

section \<open>Collecting a segment\<close>

definition seg_char :: "u8 \<Rightarrow> bool" where
  "seg_char c \<longleftrightarrow> c \<noteq> 0 \<and> c \<noteq> slash"

abbreviation at_sep :: "bytes \<Rightarrow> bool" where
  "at_sep t \<equiv> t = [] \<or> hd t = slash"

lemma collect_seg_percent:
  "collect_seg seg (percent # r) = Inr (s, t) \<longleftrightarrow>
     (\<exists>h l r' hv lv. r = h # l # r' \<and> hex h = Some hv \<and> hex l = Some lv \<and>
        seg_char (push_bit 4 hv OR lv) \<and> collect_seg (seg @ [push_bit 4 hv OR lv]) r' = Inr (s, t))"
  by (auto simp: Let_def seg_char_def split: list.splits option.splits)

lemma collect_seg_chars:
  "collect_seg seg b = Inr (s, r) \<Longrightarrow> list_all seg_char seg \<Longrightarrow> list_all seg_char s \<and> at_sep r"
proof (induction "length b" arbitrary: seg b rule: less_induct)
  case less
  show ?case
  proof (cases b)
    case Nil
    with less.prems show ?thesis by simp
  next
    case b: (Cons c b')
    consider "c = slash" | "c = percent" | "c \<noteq> slash" "c \<noteq> percent" by blast
    then show ?thesis
    proof cases
      case 1
      with b less.prems show ?thesis by auto
    next
      case 2
      with b less.prems(1) obtain h l r' d where "b' = h # l # r'" "seg_char d"
        "collect_seg (seg @ [d]) r' = Inr (s, r)"
        by (auto simp only: collect_seg_percent)
      with less.hyps [of r' "seg @ [d]"] less.prems(2) b show ?thesis by simp
    next
      case 3
      with b less.prems(1) have "seg_char c" "collect_seg (seg @ [c]) b' = Inr (s, r)"
        by (auto simp: seg_char_def split: if_splits)
      with less.hyps [of b' "seg @ [c]"] less.prems(2) b show ?thesis by simp
    qed
  qed
qed

lemma collect_seg_sep [simp]: "at_sep t \<Longrightarrow> collect_seg seg t = Inr (seg, t)"
  by (cases t) auto

lemma collect_seg_plain:
  "list_all seg_char s \<Longrightarrow> percent \<notin> set s \<Longrightarrow> at_sep t \<Longrightarrow>
   collect_seg seg (s @ t) = Inr (seg @ s, t)"
  by (induction s arbitrary: seg) (auto simp: seg_char_def)

section \<open>The output as a stack of segments\<close>

text \<open>
  \<open>stack_out ss\<close> is the output buffer that holds the segments \<open>ss\<close>, the last one pushed first;
  \<open>stack_starts ss\<close> are their offsets in it.
\<close>

fun stack_out :: "bytes list \<Rightarrow> bytes" where
  "stack_out [] = [slash]"
| "stack_out (s # ss) = stack_out ss @ s @ [slash]"

fun stack_starts :: "bytes list \<Rightarrow> nat list" where
  "stack_starts [] = []"
| "stack_starts (s # ss) = length (stack_out ss) # stack_starts ss"

text \<open>The abstract effect of one segment, and of a list of them.\<close>

definition resolve_seg :: "bytes list \<Rightarrow> bytes \<Rightarrow> bytes list option" where
  "resolve_seg ss seg =
    (if seg = [] \<or> seg = [dot] then Some ss
     else if seg = [dot, dot] then (case ss of [] \<Rightarrow> None | _ # ss' \<Rightarrow> Some ss')
     else Some (seg # ss))"

definition good_seg :: "bytes \<Rightarrow> bool" where
  "good_seg s \<longleftrightarrow> list_all seg_char s \<and> s \<noteq> [] \<and> s \<noteq> [dot] \<and> s \<noteq> [dot, dot]"

lemma apply_seg_resolve:
  "apply_seg (stack_out ss) (stack_starts ss) seg =
    (case resolve_seg ss seg of None \<Rightarrow> Inl UriInvalid
     | Some ss' \<Rightarrow> Inr (stack_out ss', stack_starts ss'))"
  by (cases ss) (auto simp: apply_seg_def resolve_seg_def)

lemma resolve_seg_good:
  "resolve_seg ss seg = Some ss' \<Longrightarrow> list_all seg_char seg \<Longrightarrow> list_all good_seg ss \<Longrightarrow>
   list_all good_seg ss'"
  by (auto simp: resolve_seg_def good_seg_def split: if_splits list.splits)

lemma normalize_loop_stack:
  assumes "normalize_loop (stack_out ss) (stack_starts ss) b = Inr out" "list_all good_seg ss"
  shows "\<exists>ss'. out = stack_out ss' \<and> list_all good_seg ss'"
  using assms
proof (induction "length b" arbitrary: b ss rule: less_induct)
  case less
  obtain seg rest where c: "collect_seg [] b = Inr (seg, rest)"
    using less.prems(1) by (auto simp: normalize_loop.simps [of _ _ b] split: sum.splits)
  obtain ss' where r: "resolve_seg ss seg = Some ss'"
    using less.prems(1) c
    by (auto simp: normalize_loop.simps [of _ _ b] apply_seg_resolve split: sum.splits option.splits)
  have g: "list_all good_seg ss'"
    using resolve_seg_good [OF r _ less.prems(2)] collect_seg_chars [OF c] by simp
  show ?case
  proof (cases rest)
    case Nil
    with less.prems(1) c r g show ?thesis
      by (auto simp: normalize_loop.simps [of _ _ b] apply_seg_resolve)
  next
    case (Cons x rest')
    with less.prems(1) c r have "normalize_loop (stack_out ss') (stack_starts ss') rest' = Inr out"
      by (simp add: normalize_loop.simps [of _ _ b] apply_seg_resolve)
    moreover have "length rest' < length b" using collect_seg_length [OF c] Cons by simp
    ultimately show ?thesis using less.hyps g by blast
  qed
qed

section \<open>Joining and splitting segments\<close>

fun join_segs :: "bytes list \<Rightarrow> bytes" where
  "join_segs [] = []"
| "join_segs [s] = s"
| "join_segs (s # t # ts) = s @ slash # join_segs (t # ts)"

lemma join_segs_split_on: "join_segs (split_on slash xs) = xs"
proof (induction xs)
  case (Cons x xs)
  then show ?case by (cases "split_on slash xs" rule: join_segs.cases) auto
qed simp

lemma split_on_seg_free: "s \<in> set (split_on c xs) \<Longrightarrow> c \<notin> set s \<and> set s \<subseteq> set xs"
  by (induction xs arbitrary: s) (fastforce split: if_splits list.splits)+

lemma split_on_join_segs:
  "ss \<noteq> [] \<Longrightarrow> list_all (\<lambda>s. slash \<notin> set s) ss \<Longrightarrow> split_on slash (join_segs ss) = ss"
  by (induction ss rule: join_segs.induct) (auto simp: split_on_no_sep split_on_append)

lemma join_segs_Nil_iff: "join_segs ss = [] \<longleftrightarrow> ss = [] \<or> ss = [[]]"
  by (cases ss rule: join_segs.cases) auto

lemma stack_out_join: "stack_out ss = join_segs ([] # rev ss @ [[]])"
proof (induction ss)
  case (Cons s ss)
  have "join_segs (xs @ [[]]) @ s @ [slash] = join_segs (xs @ [s, []])" if "xs \<noteq> []" for xs
    using that by (induction xs rule: join_segs.induct) auto
  from this [of "[] # rev ss"] Cons show ?case by simp
qed simp

lemma butlast_stack_out: "ss \<noteq> [] \<Longrightarrow> butlast (stack_out ss) = join_segs ([] # rev ss)"
proof -
  have "butlast (join_segs (xs @ [[]])) = join_segs xs" if "xs \<noteq> []" for xs
    using that by (induction xs rule: join_segs.induct) (auto simp: butlast_append join_segs_Nil_iff)
  from this [of "[] # rev ss"] show ?thesis by (simp add: stack_out_join)
qed

text \<open>
  What the rest of the server relies on: the path is absolute, has no NUL, no empty segment but
  a possible last one (the trailing slash), and no dot segment anywhere.
\<close>

definition safe_path :: "bytes \<Rightarrow> bool" where
  "safe_path p \<longleftrightarrow>
    (case split_on slash p of
       [] \<Rightarrow> False
     | s # segs \<Rightarrow>
         s = [] \<and> segs \<noteq> [] \<and> 0 \<notin> set p
         \<and> list_all (\<lambda>t. t \<noteq> [] \<and> t \<noteq> [dot] \<and> t \<noteq> [dot, dot]) (butlast segs)
         \<and> last segs \<noteq> [dot] \<and> last segs \<noteq> [dot, dot])"

lemma good_seg_slash: "good_seg s \<Longrightarrow> slash \<notin> set s" and good_seg_NUL: "good_seg s \<Longrightarrow> 0 \<notin> set s"
  by (auto simp: good_seg_def seg_char_def list_all_iff)

lemma set_join_segs: "set (join_segs ss) \<subseteq> insert slash (\<Union>s\<in>set ss. set s)"
  by (induction ss rule: join_segs.induct) auto

lemma safe_path_join:
  assumes "segs \<noteq> []" "list_all good_seg (butlast segs)" "last segs = [] \<or> good_seg (last segs)"
  shows "safe_path (slash # join_segs segs)"
proof -
  have split: "split_on slash (slash # join_segs segs) = [] # segs"
  proof -
    have "slash \<notin> set s" if "s \<in> set segs" for s
      using that assms in_set_butlastD [of s segs]
      by (cases segs rule: rev_cases) (auto simp: list_all_iff dest: good_seg_slash)
    then show ?thesis using assms(1) by (simp add: split_on_join_segs list_all_iff)
  qed
  have "0 \<notin> set s" if "s \<in> set segs" for s
    using that assms by (cases segs rule: rev_cases) (auto simp: list_all_iff dest: good_seg_NUL)
  then have "0 \<notin> set (slash # join_segs segs)"
    using set_join_segs [of segs] by auto
  moreover have "list_all (\<lambda>t. t \<noteq> [] \<and> t \<noteq> [dot] \<and> t \<noteq> [dot, dot]) (butlast segs)"
    using assms(2) by (rule list.pred_mono_strong) (simp add: good_seg_def)
  moreover have "last segs \<noteq> [dot] \<and> last segs \<noteq> [dot, dot]"
    using assms(3) by (auto simp: good_seg_def)
  ultimately show ?thesis
    using assms(1) unfolding safe_path_def split by simp
qed

lemma safe_path_cases:
  assumes "safe_path p"
  obtains segs where "p = slash # join_segs segs" "segs \<noteq> []" "list_all good_seg (butlast segs)"
    "last segs = [] \<or> good_seg (last segs)"
proof -
  obtain segs where s: "split_on slash p = [] # segs" "segs \<noteq> []" "0 \<notin> set p"
    "list_all (\<lambda>t. t \<noteq> [] \<and> t \<noteq> [dot] \<and> t \<noteq> [dot, dot]) (butlast segs)"
    "last segs \<noteq> [dot]" "last segs \<noteq> [dot, dot]"
    using assms by (auto simp: safe_path_def split: list.splits)
  have c: "list_all seg_char t" if "t \<in> set segs" for t
  proof -
    have "slash \<notin> set t" "set t \<subseteq> set p" using split_on_seg_free [of t slash p] that s(1) by auto
    then show ?thesis using s(3) by (auto simp: list_all_iff seg_char_def)
  qed
  have "p = join_segs ([] # segs)" using join_segs_split_on [of p] s(1) by simp
  then have "p = slash # join_segs segs" using s(2) by (cases segs) auto
  moreover have "list_all good_seg (butlast segs)"
    using s(4) c by (auto simp: list_all_iff good_seg_def dest: in_set_butlastD)
  moreover have "last segs = [] \<or> good_seg (last segs)"
    using s(2,5,6) c by (auto simp: good_seg_def)
  ultimately show ?thesis using that s(2) by blast
qed

lemma normalize_full_safe:
  assumes "normalize_full path = Inr p"
  shows "safe_path p \<and> utf8_valid p"
proof -
  obtain out where l: "normalize_loop [slash] [] (tl path) = Inr out"
    using assms by (auto simp: normalize_full_def Let_def split: sum.splits)
  obtain ss where ss: "out = stack_out ss" "list_all good_seg ss"
    using normalize_loop_stack [of "[]" "tl path" out] l by auto
  have p: "p = out \<or> (p = butlast out \<and> ss \<noteq> [])" and u: "utf8_valid p"
    using assms l ss(1)
    by (auto simp: normalize_full_def Let_def from_utf8_def split: if_splits)
  have "out = slash # join_segs (rev ss @ [[]])"
    by (cases "rev ss") (auto simp: ss(1) stack_out_join)
  moreover have "ss \<noteq> [] \<Longrightarrow> butlast out = slash # join_segs (rev ss)"
    unfolding ss(1) butlast_stack_out by (cases "rev ss") auto
  moreover have "list_all good_seg (butlast (rev ss))" "ss \<noteq> [] \<Longrightarrow> good_seg (last (rev ss))"
    using ss(2) by (cases ss; auto simp: list_all_iff)+
  ultimately have "safe_path p"
    using p ss(2) safe_path_join [of "rev ss"] safe_path_join [of "rev ss @ [[]]"]
    by (auto simp: list_all_iff)
  with u show ?thesis by simp
qed

section \<open>The fast path\<close>

fun dotless_segs :: "bytes list \<Rightarrow> bool" where
  "dotless_segs [] = False"
| "dotless_segs [s] = (s = [] \<or> hd s \<noteq> dot)"
| "dotless_segs (s # t # ts) = (s \<noteq> [] \<and> hd s \<noteq> dot \<and> dotless_segs (t # ts))"

lemma already_normal_chars:
  "already_normal_from prev r \<Longrightarrow> percent \<notin> set r \<and> 0 \<notin> set r"
  by (induction prev r rule: already_normal_from.induct) (auto split: if_splits)

lemma already_normal_segs:
  "already_normal_from prev r \<Longrightarrow> split_on slash r = h # t \<Longrightarrow>
   (prev = slash \<longrightarrow> dotless_segs (h # t)) \<and> (t \<noteq> [] \<longrightarrow> dotless_segs t)"
proof (induction prev r arbitrary: h t rule: already_normal_from.induct)
  case (1 prev)
  then show ?case by auto
next
  case (2 prev c r)
  obtain h' t' where s: "split_on slash r = h' # t'" by (cases "split_on slash r") auto
  from "2.prems"(1) have n: "already_normal_from c r" "c = slash \<longrightarrow> prev \<noteq> slash"
    "prev = slash \<longrightarrow> c \<noteq> dot" by (auto split: if_splits)
  from "2.IH" s "2.prems"(1) have
    "(c = slash \<longrightarrow> dotless_segs (h' # t')) \<and> (t' \<noteq> [] \<longrightarrow> dotless_segs t')"
    by (auto split: if_splits)
  then show ?case
    using n "2.prems"(2) by (cases t') (auto simp: s split: if_splits)
qed

lemma dotless_segs_safe:
  "dotless_segs segs \<Longrightarrow> segs \<noteq> [] \<and>
   list_all (\<lambda>t. t \<noteq> [] \<and> t \<noteq> [dot] \<and> t \<noteq> [dot, dot]) (butlast segs)
   \<and> last segs \<noteq> [dot] \<and> last segs \<noteq> [dot, dot]"
  by (induction segs rule: dotless_segs.induct) auto

lemma already_normal_safe:
  assumes "is_already_normal p" "p \<noteq> []" "hd p = slash"
  shows "safe_path p \<and> percent \<notin> set p"
proof -
  obtain r where p: "p = slash # r" using assms(2,3) by (cases p) auto
  have n: "already_normal_from slash r" using assms(1) p by (simp add: is_already_normal_def)
  obtain h t where s: "split_on slash r = h # t" by (cases "split_on slash r") auto
  have "dotless_segs (h # t)" using already_normal_segs [OF n s] by simp
  from dotless_segs_safe [OF this] already_normal_chars [OF n] show ?thesis
    by (auto simp: safe_path_def p s)
qed

section \<open>Canonical paths are fixed points\<close>

lemma loop_segs:
  assumes "segs \<noteq> []" "list_all good_seg (butlast segs)" "last segs = [] \<or> good_seg (last segs)"
    and "\<And>s t. s \<in> set segs \<Longrightarrow> at_sep t \<Longrightarrow> collect_seg [] (e s @ t) = Inr (s, t)"
  shows "normalize_loop (stack_out ss) (stack_starts ss) (join_segs (map e segs)) =
    Inr (stack_out (rev (if last segs = [] then butlast segs else segs) @ ss))"
  using assms
proof (induction segs arbitrary: ss rule: join_segs.induct)
  case 1
  then show ?case by simp
next
  case (2 s)
  have "collect_seg [] (e s) = Inr (s, [])" using "2.prems"(4) [of s "[]"] by simp
  with "2.prems"(3) show ?case
    by (auto simp: normalize_loop.simps [of _ _ "e s"] apply_seg_resolve resolve_seg_def good_seg_def)
next
  case (3 s t ts)
  let ?r = "join_segs (map e (t # ts))"
  have c: "collect_seg [] (e s @ slash # ?r) = Inr (s, slash # ?r)"
    using "3.prems"(4) [of s "slash # ?r"] by simp
  have "good_seg s" using "3.prems"(2) by simp
  then have "resolve_seg ss s = Some (s # ss)" by (auto simp: resolve_seg_def good_seg_def)
  with c have "normalize_loop (stack_out ss) (stack_starts ss) (e s @ slash # ?r) =
      normalize_loop (stack_out (s # ss)) (stack_starts (s # ss)) ?r"
    by (subst normalize_loop.simps) (simp add: apply_seg_resolve)
  also have "\<dots> = Inr (stack_out (rev (if last (t # ts) = [] then butlast (t # ts) else t # ts) @ s # ss))"
    by (rule "3.IH") (use "3.prems" in auto)
  finally show ?case by simp
qed

lemma last_join_segs:
  "segs \<noteq> [] \<Longrightarrow> list_all (\<lambda>s. slash \<notin> set s) segs \<Longrightarrow>
   last (slash # join_segs segs) = slash \<longleftrightarrow> last segs = []"
proof (induction segs rule: join_segs.induct)
  case (2 s)
  then have "s \<noteq> [] \<Longrightarrow> last s \<noteq> slash" using last_in_set [of s] by force
  then show ?case by auto
qed auto

lemma normalize_full_segs:
  assumes "segs \<noteq> []" "list_all good_seg (butlast segs)" "last segs = [] \<or> good_seg (last segs)"
    and "\<And>s t. s \<in> set segs \<Longrightarrow> at_sep t \<Longrightarrow> collect_seg [] (e s @ t) = Inr (s, t)"
    and "\<And>s. s \<in> set segs \<Longrightarrow> slash \<notin> set (e s) \<and> (e s = [] \<longleftrightarrow> s = [])"
    and "utf8_valid (slash # join_segs segs)"
  shows "normalize_full (slash # join_segs (map e segs)) = Inr (slash # join_segs segs)"
proof -
  have loop: "normalize_loop [slash] [] (join_segs (map e segs)) =
      Inr (stack_out (rev (if last segs = [] then butlast segs else segs)))"
    using loop_segs [OF assms(1-4), of "[]"] by simp
  have lst: "last (slash # join_segs (map e segs)) = slash \<longleftrightarrow> last segs = []"
    using last_join_segs [of "map e segs"] assms(1,5) by (simp add: list_all_iff last_map)
  have path: "slash # join_segs (ts :: bytes list) = join_segs ([] # ts)" if "ts \<noteq> []" for ts
    using that by (cases ts) auto
  show ?thesis
  proof (cases "last segs = []")
    case True
    then have segs: "segs = butlast segs @ [[]]" using append_butlast_last_id [OF assms(1)] by simp
    have out: "stack_out (rev (butlast segs)) = slash # join_segs segs"
      using segs path [OF assms(1)] by (simp add: stack_out_join)
    show ?thesis
    proof (cases "segs = [[]]")
      case True
      with loop assms(5,6) show ?thesis
        by (auto simp: normalize_full_def Let_def from_utf8_def)
    next
      case False
      then have "join_segs (map e segs) \<noteq> []"
        using assms(1,5) by (auto simp: join_segs_Nil_iff)
      then show ?thesis using loop lst True assms(6) out
        by (auto simp: normalize_full_def Let_def from_utf8_def)
    qed
  next
    case False
    have "rev segs \<noteq> []" using assms(1) by simp
    then have "butlast (stack_out (rev segs)) = slash # join_segs segs"
      using butlast_stack_out [of "rev segs"] path [OF assms(1)] by simp
    moreover from this have "1 < length (stack_out (rev segs))"
      by (cases "stack_out (rev segs)" rule: rev_cases) auto
    ultimately show ?thesis using loop lst False assms(6)
      by (simp add: normalize_full_def Let_def from_utf8_def)
  qed
qed

section \<open>Percent-encoding\<close>

lemma hex_HEX:
  assumes "k < 16"
  shows "hex (HEX ! k) = Some (of_nat k)"
proof -
  have "list_all (\<lambda>k. hex (HEX ! k) = Some (of_nat k)) [0..<16]"
    by code_simp
  with assms show ?thesis by (simp add: list_all_iff)
qed

lemma unat_nibbles: "unat (drop_bit 4 (c :: u8)) < 16" "unat (c AND 0xF) < 16"
proof -
  have "c AND 0xF = take_bit 4 c" by (simp add: take_bit_eq_mask mask_eq_exp_minus_1)
  then show "unat (c AND 0xF) < 16"
    using take_bit_nat_less_exp [of 4 "unat c"] by (simp add: unsigned_take_bit_eq)
  have "unat (drop_bit 4 c) = unat c div 2 ^ 4"
    unfolding unat_drop_bit_eq by (rule drop_bit_eq_div)
  then show "unat (drop_bit 4 c) < 16"
    by (simp add: less_mult_imp_div_less)
qed

lemma nibbles_join: "push_bit 4 (drop_bit 4 (c :: u8)) OR (c AND 0xF) = c"
proof -
  have "c AND 0xF = take_bit 4 c" by (simp add: take_bit_eq_mask mask_eq_exp_minus_1)
  then show ?thesis by (simp only:) (rule bit_word_eqI, auto simp: bit_simps)
qed

lemma encode_safe_percent: "encode_safe c \<Longrightarrow> c \<noteq> percent"
  by (auto simp: encode_safe_def is_ascii_alphanumeric_def is_ascii_digit_def)

lemma collect_seg_encode:
  "list_all seg_char s \<Longrightarrow> at_sep t \<Longrightarrow> collect_seg seg (encode_path s @ t) = Inr (seg @ s, t)"
proof (induction s arbitrary: seg)
  case Nil
  then show ?case by (simp add: encode_path_def)
next
  case (Cons c s)
  have IH: "collect_seg (seg @ [c]) (concat (map encode_byte s) @ t) = Inr (seg @ c # s, t)"
    using Cons.IH [of "seg @ [c]"] Cons.prems by (simp add: encode_path_def)
  have c: "c \<noteq> 0" "c \<noteq> slash" using Cons.prems(1) by (auto simp: seg_char_def)
  show ?case
  proof (cases "encode_safe c")
    case True
    then show ?thesis using IH c encode_safe_percent [OF True]
      by (simp add: encode_path_def encode_byte_def)
  next
    case False
    then show ?thesis using IH c
      by (simp add: encode_path_def encode_byte_def hex_HEX unat_nibbles nibbles_join Let_def)
  qed
qed

lemma encode_path_slash: "list_all seg_char s \<Longrightarrow> slash \<notin> set (encode_path s)"
proof -
  have "HEX ! k \<noteq> slash" if "k < 16" for k
    using hex_HEX [OF that] by (auto simp: hex_def)
  then have "slash \<notin> set (encode_byte c)" if "seg_char c" for c
    using that unat_nibbles [of c] by (auto simp: encode_byte_def seg_char_def)
  then show "list_all seg_char s \<Longrightarrow> slash \<notin> set (encode_path s)"
    by (auto simp: encode_path_def list_all_iff)
qed

lemma encode_byte_nonempty [simp]: "encode_byte c \<noteq> []"
  by (simp add: encode_byte_def)

lemma encode_path_Nil_iff: "encode_path s = [] \<longleftrightarrow> s = []"
  by (cases s) (auto simp: encode_path_def)

lemma encode_path_join: "encode_path (join_segs segs) = join_segs (map encode_path segs)"
proof -
  have "encode_byte slash = [slash]" by (simp add: encode_byte_def encode_safe_def)
  then show ?thesis
    by (induction segs rule: join_segs.induct) (auto simp: encode_path_def)
qed

section \<open>The specification: split, decode, resolve\<close>

definition decode_seg :: "bytes \<Rightarrow> bytes option" where
  "decode_seg raw = (case collect_seg [] raw of Inr (s, _) \<Rightarrow> Some s | Inl _ \<Rightarrow> None)"

fun resolve_segs :: "bytes list \<Rightarrow> bytes list \<Rightarrow> bytes list option" where
  "resolve_segs ss [] = Some ss"
| "resolve_segs ss (raw # raws) =
    (case decode_seg raw of None \<Rightarrow> None
     | Some s \<Rightarrow> (case resolve_seg ss s of None \<Rightarrow> None | Some ss' \<Rightarrow> resolve_segs ss' raws))"

definition normalize_spec :: "bytes \<Rightarrow> bytes option" where
  "normalize_spec path =
    (case resolve_segs [] (split_on slash (tl path)) of None \<Rightarrow> None
     | Some ss \<Rightarrow>
        let p = slash # join_segs (rev ss @ (if ss = [] \<or> last path = slash then [[]] else []))
        in if utf8_valid p then Some p else None)"

lemma collect_seg_error: "collect_seg seg b \<noteq> Inl NotAbsolute"
proof (induction "length b" arbitrary: seg b rule: less_induct)
  case less
  show ?case
  proof (cases b)
    case b: (Cons c b')
    consider "c = slash" | "c = percent" | "c \<noteq> slash" "c \<noteq> percent" by blast
    then show ?thesis
    proof cases
      case 2
      then show ?thesis using b less by (auto simp: Let_def split: list.splits option.splits)
    qed (use b less in auto)
  qed simp
qed

lemma hex_slash [simp]: "hex slash = None"
  by (simp add: hex_def)

lemma collect_seg_split:
  assumes "split_on slash b = h # t"
  shows "collect_seg seg b =
    (case collect_seg seg h of Inl e \<Rightarrow> Inl e
     | Inr (s, _) \<Rightarrow> Inr (s, if t = [] then [] else slash # join_segs t))"
  using assms
proof (induction "length b" arbitrary: seg b h rule: less_induct)
  case less
  show ?case
  proof (cases b)
    case Nil
    with less.prems show ?thesis by simp
  next
    case b: (Cons c b')
    obtain h' t' where s: "split_on slash b' = h' # t'" by (cases "split_on slash b'") auto
    have j: "join_segs (split_on slash b') = b'" by (rule join_segs_split_on)
    consider "c = slash" | "c = percent" | "c \<noteq> slash" "c \<noteq> percent" by blast
    then show ?thesis
    proof cases
      case 1
      with b less.prems s j show ?thesis by (cases t) auto
    next
      case 3
      with b less.prems s have h: "h = c # h'" "t = t'" by auto
      from less.hyps [of b' h' "seg @ [c]"] b s h 3 show ?thesis by auto
    next
      case 2
      with b less.prems s have h: "h = percent # h'" "t = t'" by auto
      show ?thesis
      proof (cases "\<exists>x y r. b' = x # y # r \<and> x \<noteq> slash \<and> y \<noteq> slash")
        case True
        then obtain x y r where r: "b' = x # y # r" "x \<noteq> slash" "y \<noteq> slash" by blast
        obtain h'' t'' where s'': "split_on slash r = h'' # t''" by (cases "split_on slash r") auto
        have "h' = x # y # h''" "t' = t''" using s r s'' by auto
        with less.hyps [of r h''] b h r s'' 2 show ?thesis
          by (auto simp: Let_def split: option.splits)
      next
        case False
        then consider "b' = []" | x where "b' = [x]" | r where "b' = slash # r"
          | x r where "b' = x # slash # r" "x \<noteq> slash"
          by (metis neq_Nil_conv)
        then have "collect_seg seg b = Inl UriInvalid \<and> collect_seg seg h = Inl UriInvalid"
          using b h 2 s by cases (auto split: list.splits option.splits if_splits)
        then show ?thesis by simp
      qed
    qed
  qed
qed

lemma normalize_loop_spec:
  assumes "split_on slash b = raws"
  shows "normalize_loop (stack_out ss) (stack_starts ss) b =
    (case resolve_segs ss raws of None \<Rightarrow> Inl UriInvalid | Some ss' \<Rightarrow> Inr (stack_out ss'))"
  using assms
proof (induction raws arbitrary: ss b)
  case Nil
  then show ?case by simp
next
  case (Cons h t)
  note c = collect_seg_split [OF Cons.prems, of "[]"]
  show ?case
  proof (cases "collect_seg [] h")
    case (Inl e)
    with c collect_seg_error [of "[]" h] show ?thesis
      by (cases e) (simp_all add: normalize_loop.simps [of _ _ b] decode_seg_def)
  next
    case (Inr sr)
    obtain s r where sr: "sr = (s, r)" by (cases sr)
    have "split_on slash (join_segs t) = t" if "t \<noteq> []"
      using split_on_seg_free [of _ slash b] Cons.prems that
      by (intro split_on_join_segs) (auto simp: list_all_iff)
    with c Inr sr Cons.IH [of "join_segs t"] show ?thesis
      by (auto simp: normalize_loop.simps [of _ _ b] decode_seg_def apply_seg_resolve
          split: option.splits)
  qed
qed

lemma seg_chars_of_segs:
  assumes "list_all good_seg (butlast segs)" "last segs = [] \<or> good_seg (last segs)" "s \<in> set segs"
  shows "list_all seg_char s"
proof (cases "s \<in> set (butlast segs)")
  case True
  with assms(1) have "good_seg s" unfolding list_all_iff by blast
  then show ?thesis by (simp only: good_seg_def)
next
  case False
  with assms(3) have "s = last segs" by (cases segs rule: rev_cases) auto
  with assms(2) show ?thesis by (auto simp only: good_seg_def list.pred_inject)
qed

lemma set_segs_join: "s \<in> set segs \<Longrightarrow> set s \<subseteq> set (join_segs segs)"
  by (induction segs rule: join_segs.induct) auto

lemma normalize_full_plain:
  assumes "safe_path p" "utf8_valid p" "percent \<notin> set p"
  shows "normalize_full p = Inr p"
proof -
  from assms(1) obtain segs where segs: "p = slash # join_segs segs" "segs \<noteq> []"
    "list_all good_seg (butlast segs)" "last segs = [] \<or> good_seg (last segs)"
    by (rule safe_path_cases)
  note chars = seg_chars_of_segs [OF segs(3,4)]
  have "normalize_full (slash # join_segs (map (\<lambda>s. s) segs)) = Inr (slash # join_segs segs)"
  proof (rule normalize_full_segs [OF segs(2-4)])
    fix s t
    assume s: "s \<in> set segs" and t: "at_sep t"
    have "percent \<notin> set s" using set_segs_join [OF s] assms(3) segs(1) by auto
    then show "collect_seg [] (s @ t) = Inr (s, t)"
      using collect_seg_plain [OF chars [OF s] _ t, of "[]"] by simp
  next
    fix s
    assume "s \<in> set segs"
    then show "slash \<notin> set s \<and> (s = [] \<longleftrightarrow> s = [])"
      using chars [of s] by (auto simp: list_all_iff seg_char_def)
  next
    show "utf8_valid (slash # join_segs segs)" using assms(2) segs(1) by simp
  qed
  then show ?thesis using segs(1) by simp
qed

lemma safe_path_absolute: "safe_path p \<Longrightarrow> p \<noteq> [] \<and> hd p = slash"
  by (erule safe_path_cases) simp

lemma encode_path_plain: "percent \<notin> set (encode_path s) \<Longrightarrow> encode_path s = s"
  by (induction s) (auto simp: encode_path_def encode_byte_def split: if_splits)

lemma stack_path:
  "slash # join_segs (rev ss @ [[]]) = stack_out ss"
  "ss \<noteq> [] \<Longrightarrow> slash # join_segs (rev ss) = butlast (stack_out ss)"
proof -
  show "slash # join_segs (rev ss @ [[]]) = stack_out ss"
    unfolding stack_out_join by (cases "rev ss") auto
  show "ss \<noteq> [] \<Longrightarrow> slash # join_segs (rev ss) = butlast (stack_out ss)"
    unfolding butlast_stack_out by (cases "rev ss") auto
qed

lemma stack_out_longer: "Suc 0 < length (stack_out ss) \<longleftrightarrow> ss \<noteq> []"
  by (induction ss) auto

section \<open>Properties\<close>

text \<open>C1.
  Whatever the client sends, a path that normalisation accepts is safe to append to a document
  root: it is absolute, has no NUL byte, no empty segment except a possible trailing slash, and no
  \<^verbatim>\<open>.\<close> or \<^verbatim>\<open>..\<close> segment (also not a percent-encoded one), and it is well-formed UTF-8.
\<close>

theorem normalize_safe:
  assumes "utf8_valid path" "normalize path = Inr p"
  shows "safe_path p \<and> utf8_valid p"
proof (cases "is_already_normal path")
  case True
  with assms show ?thesis
    using already_normal_safe [of path] by (auto simp: normalize_def split: if_splits)
next
  case False
  with assms(2) have "normalize_full path = Inr p" by (auto simp: normalize_def split: if_splits)
  then show ?thesis by (rule normalize_full_safe)
qed

theorem normalize_safe_witness:
  "normalize (bs ''/a/./b/%2e%2E//c%20d/'') = Inr (bs ''/a/c d/'') \<and>
   safe_path (bs ''/a/c d/'') \<and> utf8_valid (bs ''/a/c d/'')"
proof -
  have u: "utf8_valid (bs ''/a/./b/%2e%2E//c%20d/'')" by code_simp
  have n: "normalize (bs ''/a/./b/%2e%2E//c%20d/'') = Inr (bs ''/a/c d/'')" by code_simp
  from n normalize_safe [OF u n] show ?thesis by simp
qed

text \<open>
  The fast path is sound: on every path that \<^verbatim>\<open>is_already_normal\<close> lets through, the full
  decode-and-resolve loop, with all its traversal checks, returns the path unchanged.
\<close>

theorem fast_path_agrees:
  assumes "path \<noteq> []" "hd path = slash" "utf8_valid path" "is_already_normal path"
  shows "normalize_full path = Inr path"
  using already_normal_safe [OF assms(4,1,2)] assms(3) by (simp add: normalize_full_plain)

theorem fast_path_agrees_witness:
  "is_already_normal (bs ''/a/b..c/'') \<and> normalize_full (bs ''/a/b..c/'') = Inr (bs ''/a/b..c/'')"
proof -
  have "is_already_normal (bs ''/a/b..c/'')" "utf8_valid (bs ''/a/b..c/'')"
    "hd (bs ''/a/b..c/'') = slash" by code_simp+
  with fast_path_agrees [of "bs ''/a/b..c/''"] show ?thesis by simp
qed

text \<open>C33.
  The byte loop refines the specification of path resolution: cut the path at the slashes,
  percent-decode each segment (failing on a bad escape and on a decoded NUL or slash), then
  resolve the dot segments against a stack, where a \<^verbatim>\<open>..\<close> with nothing to pop is an error and
  never a no-op.
\<close>

theorem normalize_full_refines_spec:
  assumes "path \<noteq> []" "hd path = slash"
  shows "normalize_full path =
    (case normalize_spec path of Some p \<Rightarrow> Inr p | None \<Rightarrow> Inl UriInvalid)"
proof -
  obtain b where path: "path = slash # b" using assms by (cases path) auto
  have loop: "normalize_loop [slash] [] b =
     (case resolve_segs [] (split_on slash b) of None \<Rightarrow> Inl UriInvalid | Some ss \<Rightarrow> Inr (stack_out ss))"
    using normalize_loop_spec [OF refl, of "[]" b] by simp
  have short: "ss = []" if "resolve_segs [] (split_on slash b) = Some ss" "b = []" for ss
    using that by (auto simp: decode_seg_def resolve_seg_def)
  show ?thesis
  proof (cases "resolve_segs [] (split_on slash b)")
    case None
    with loop show ?thesis by (simp add: normalize_full_def normalize_spec_def path)
  next
    case (Some ss)
    have "(if \<not> (1 < length path \<and> last path = slash) \<and> 1 < length (stack_out ss)
        then butlast (stack_out ss) else stack_out ss) =
      slash # join_segs (rev ss @ (if ss = [] \<or> last path = slash then [[]] else []))"
      using short [OF Some] stack_path [of ss] by (auto simp: path stack_out_longer)
    with loop Some show ?thesis
      by (simp add: normalize_full_def normalize_spec_def path Let_def from_utf8_def)
  qed
qed

theorem normalize_full_refines_spec_witness:
  "normalize_full (bs ''/a/../../b'') = Inl UriInvalid \<and> normalize_spec (bs ''/a/../../b'') = None"
proof -
  have "normalize_spec (bs ''/a/../../b'') = None" by code_simp
  with normalize_full_refines_spec [of "bs ''/a/../../b''"] show ?thesis by simp
qed

text \<open>
  Normalisation is idempotent on every result that carries no percent sign.
\<close>

theorem normalize_idempotent:
  assumes "utf8_valid path" "normalize path = Inr p" "percent \<notin> set p"
  shows "normalize p = Inr p"
proof (cases "is_already_normal path")
  case True
  with assms(2) have "p = path" by (auto simp: normalize_def split: if_splits)
  with assms(2) show ?thesis by simp
next
  case False
  with assms(2) have "normalize_full path = Inr p" by (auto simp: normalize_def split: if_splits)
  from normalize_full_safe [OF this] assms(3) show ?thesis
    using safe_path_absolute [of p] normalize_full_plain [of p] by (simp add: normalize_def)
qed

theorem normalize_idempotent_witness: "normalize (bs ''/x/y'') = Inr (bs ''/x/y'')"
proof -
  have "utf8_valid (bs ''//x/./%79'')" "normalize (bs ''//x/./%79'') = Inr (bs ''/x/y'')"
    "percent \<notin> set (bs ''/x/y'')" by code_simp+
  then show ?thesis by (rule normalize_idempotent)
qed

text \<open>
  Round trip: percent-encoding a safe path (as redirects and directory listings do) and
  normalising the result gives the path back.
\<close>

theorem normalize_encode_path:
  assumes "safe_path p" "utf8_valid p"
  shows "normalize (encode_path p) = Inr p"
proof -
  from assms(1) obtain segs where segs: "p = slash # join_segs segs" "segs \<noteq> []"
    "list_all good_seg (butlast segs)" "last segs = [] \<or> good_seg (last segs)"
    by (rule safe_path_cases)
  note chars = seg_chars_of_segs [OF segs(3,4)]
  have enc: "encode_path p = slash # join_segs (map encode_path segs)"
    using encode_path_join [of segs]
    by (simp add: segs(1) encode_path_def encode_byte_def encode_safe_def)
  have "normalize_full (slash # join_segs (map encode_path segs)) = Inr (slash # join_segs segs)"
    using assms(2) collect_seg_encode [OF chars, of _ _ "[]"] encode_path_slash [OF chars]
    by (intro normalize_full_segs [OF segs(2-4)]) (auto simp: segs(1) encode_path_Nil_iff)
  then have full: "normalize_full (encode_path p) = Inr p" by (simp only: enc) (simp only: segs(1))
  have abs: "encode_path p \<noteq> []" "hd (encode_path p) = slash" unfolding enc by simp_all
  have "encode_path p = p" if "is_already_normal (encode_path p)"
    using already_normal_safe [OF that abs] encode_path_plain by blast
  with full abs show ?thesis by (simp add: normalize_def)
qed

theorem normalize_encode_path_witness:
  "encode_path (bs ''/a b/c%d'') = bs ''/a%20b/c%25d'' \<and>
   normalize (encode_path (bs ''/a b/c%d'')) = Inr (bs ''/a b/c%d'')"
proof -
  have s: "safe_path (bs ''/a b/c%d'')" "utf8_valid (bs ''/a b/c%d'')"
    and e: "encode_path (bs ''/a b/c%d'') = bs ''/a%20b/c%25d''"
    by code_simp+
  from e normalize_encode_path [OF s] show ?thesis by simp
qed

end
