(* ===== verification/Limit_Req.thy ===== *)
theory Limit_Req
  imports Prelude
begin

text \<open>
  Request rate limiting (\<^verbatim>\<open>src/server/limit_req.rs\<close>, and \<^verbatim>\<open>apply_limit_req\<close> of
  \<^verbatim>\<open>src/server/handler.rs\<close>): the leaky-bucket step, the packed state word and the fixed-size
  open-addressing table in shared memory. A \<^verbatim>\<open>u64\<close> that only takes part in arithmetic is a
  \<open>nat\<close>, with saturation and the final narrowing cast written out; the packed words and hashes
  are \<open>64 word\<close>s. \<open>lr_check\<close> and \<open>lr_bump\<close> are the operations as one worker executes them
  without interference, where a compare-exchange on a word just loaded succeeds.
\<close>

section \<open>Definitions\<close>

abbreviation SCALE :: nat where "SCALE \<equiv> 1000"
abbreviation U64_MAX :: nat where "U64_MAX \<equiv> 18446744073709551615"

datatype decision = Pass | Delay nat | Reject

text \<open>The drain and this request in one signed expression, clamped at the end.\<close>

definition lr_excess :: "nat \<Rightarrow> nat \<Rightarrow> nat \<Rightarrow> nat" where
  "lr_excess prev_excess elapsed_ms rate =
    (let drained = min (int rate * int elapsed_ms) (2 ^ 127 - 1) div int SCALE
     in nat (max (int prev_excess - drained + int SCALE) 0) mod 2 ^ 64)"

definition lr_step :: "nat \<Rightarrow> nat \<Rightarrow> nat \<Rightarrow> nat \<Rightarrow> bool \<Rightarrow> nat \<Rightarrow> nat \<times> decision" where
  "lr_step prev_excess elapsed_ms rate burst nodelay delay_after =
    (let excess = lr_excess prev_excess elapsed_ms rate
     in if burst < excess then (prev_excess, Reject)
        else if excess = 0 \<or> nodelay \<or> excess \<le> delay_after then (excess, Pass)
        else (excess, Delay (min ((excess - delay_after) * SCALE) U64_MAX div max rate 1)))"

abbreviation PROBE :: nat where "PROBE \<equiv> 16"
abbreviation EXCESS_BITS :: nat where "EXCESS_BITS \<equiv> 24"
abbreviation EXCESS_MASK :: u64 where "EXCESS_MASK \<equiv> 0xFFFFFF"
abbreviation MS_MASK :: u64 where "MS_MASK \<equiv> 0x7FFFFFFFFF"
abbreviation PRESENT :: u64 where "PRESENT \<equiv> 0x8000000000000000"

definition lr_pack :: "nat \<Rightarrow> nat \<Rightarrow> u64" where
  "lr_pack last_ms excess =
     PRESENT OR push_bit EXCESS_BITS (of_nat last_ms AND MS_MASK) OR of_nat (min excess (unat EXCESS_MASK))"

definition lr_unpack :: "u64 \<Rightarrow> nat \<times> nat" where
  "lr_unpack w = (unat (drop_bit EXCESS_BITS w AND MS_MASK), unat (w AND EXCESS_MASK))"

text \<open>One zone: \<open>mem\<close> is the shared mapping, two words per slot.\<close>

record lr_zone =
  rate :: nat
  max_entries :: nat
  origin :: nat
  seed :: u64
  slots :: nat
  mem :: "u64 list"

definition lr_zone_new :: "nat \<Rightarrow> nat \<Rightarrow> nat \<Rightarrow> u64 \<Rightarrow> lr_zone" where
  "lr_zone_new rt entries orig sd =
    (let n = max (next_power_of_two entries) 64
     in \<lparr>rate = rt, max_entries = entries, origin = orig, seed = sd, slots = n,
         mem = replicate (n * 2) 0\<rparr>)"

definition hash_slot :: "lr_zone \<Rightarrow> nat \<Rightarrow> u64" where
  "hash_slot z i = mem z ! (i * 2)"

definition state_slot :: "lr_zone \<Rightarrow> nat \<Rightarrow> u64" where
  "state_slot z i = mem z ! (i * 2 + 1)"

definition store_hash :: "lr_zone \<Rightarrow> nat \<Rightarrow> u64 \<Rightarrow> lr_zone" where
  "store_hash z i h = z\<lparr>mem := (mem z)[i * 2 := h]\<rparr>"

definition store_state :: "lr_zone \<Rightarrow> nat \<Rightarrow> u64 \<Rightarrow> lr_zone" where
  "store_state z i w = z\<lparr>mem := (mem z)[i * 2 + 1 := w]\<rparr>"

definition lr_hash_key :: "lr_zone \<Rightarrow> bytes \<Rightarrow> u64" where
  "lr_hash_key z key = (let h = fnv1a (seed z) key in if h = 0 then 1 else h)"

definition lr_bump ::
  "lr_zone \<Rightarrow> nat \<Rightarrow> u64 \<Rightarrow> nat \<Rightarrow> nat \<Rightarrow> bool \<Rightarrow> nat \<Rightarrow> lr_zone \<times> decision" where
  "lr_bump z i h now_ms burst nodelay delay_after =
    (if hash_slot z i \<noteq> h
     then (z, snd (lr_step 0 (U64_MAX div SCALE) (rate z) burst nodelay delay_after))
     else
       (let cur = state_slot z i;
            (prev_excess, elapsed) =
              (if cur = 0 then (0, U64_MAX div SCALE)
               else (let (lst, excess) = lr_unpack cur in (excess, now_ms - lst)));
            (excess, decision) = lr_step prev_excess elapsed (rate z) burst nodelay delay_after
        in if decision = Reject then (z, decision)
           else (store_state z i (lr_pack now_ms excess), decision)))"

text \<open>What a probe of the window ends with.\<close>

datatype probe_result = Found nat | Claim nat | Full nat

fun lr_probe :: "lr_zone \<Rightarrow> u64 \<Rightarrow> (nat \<times> nat) option \<Rightarrow> nat list \<Rightarrow> probe_result option" where
  "lr_probe z h stalest [] = (case stalest of None \<Rightarrow> None | Some (i, _) \<Rightarrow> Some (Full i))"
| "lr_probe z h stalest (i # is) =
    (let eh = hash_slot z i
     in if eh = h then Some (Found i)
        else if eh = 0 then Some (Claim i)
        else (let lst = fst (lr_unpack (state_slot z i));
                  stalest' = (case stalest of None \<Rightarrow> Some (i, lst)
                              | Some (_, l) \<Rightarrow> if lst < l then Some (i, lst) else stalest)
              in lr_probe z h stalest' is))"

definition window :: "lr_zone \<Rightarrow> u64 \<Rightarrow> nat list" where
  "window z h = map (\<lambda>p. unat ((h + of_nat p) AND of_nat (slots z - 1))) [0..<PROBE]"

definition lr_check ::
  "lr_zone \<Rightarrow> bytes \<Rightarrow> nat \<Rightarrow> nat \<Rightarrow> bool \<Rightarrow> nat \<Rightarrow> lr_zone \<times> decision" where
  "lr_check z key now burst nodelay delay_after =
    (let now_ms = now - origin z;
         h = lr_hash_key z key
     in case lr_probe z h None (window z h) of
          Some (Found i) \<Rightarrow> lr_bump z i h now_ms burst nodelay delay_after
        | Some (Claim i) \<Rightarrow>
            lr_bump (store_state (store_hash z i h) i 0) i h now_ms burst nodelay delay_after
        | Some (Full i) \<Rightarrow>
            lr_bump (store_state (store_hash z i h) i 0) i h now_ms burst nodelay delay_after
        | None \<Rightarrow> (z, Reject))"

definition lr_tracked :: "lr_zone \<Rightarrow> nat" where
  "lr_tracked z = length (filter (\<lambda>i. hash_slot z i \<noteq> 0) [0..<slots z])"

text \<open>
  The handler: every \<^verbatim>\<open>limit_req\<close> of the location in order; the first rejection answers with
  the configured status, otherwise the longest delay is slept. \<open>keys\<close> renders the zone's key
  template for the request; an empty key skips the limit.
\<close>

record limit_req =
  lreq_zone :: string
  lreq_burst :: nat
  lreq_nodelay :: bool
  lreq_delay_after :: nat

fun apply_limit_req ::
  "(string \<rightharpoonup> lr_zone) \<Rightarrow> (string \<Rightarrow> bytes) \<Rightarrow> nat \<Rightarrow> nat \<Rightarrow> nat \<Rightarrow> limit_req list
   \<Rightarrow> (string \<rightharpoonup> lr_zone) \<times> (nat option \<times> nat)" where
  "apply_limit_req zones keys start status longest [] = (zones, (None, longest))"
| "apply_limit_req zones keys start status longest (l # ls) =
    (case zones (lreq_zone l) of
       None \<Rightarrow> apply_limit_req zones keys start status longest ls
     | Some zone \<Rightarrow>
        let key = keys (lreq_zone l)
        in if key = [] then apply_limit_req zones keys start status longest ls
           else (let (zone', d) = lr_check zone key start (lreq_burst l) (lreq_nodelay l) (lreq_delay_after l);
                     zones' = zones(lreq_zone l \<mapsto> zone')
                 in case d of
                      Pass \<Rightarrow> apply_limit_req zones' keys start status longest ls
                    | Delay ms \<Rightarrow> apply_limit_req zones' keys start status (max longest ms) ls
                    | Reject \<Rightarrow> (zones', (Some status, 0))))"

section \<open>The packed state word\<close>

lemma EXCESS_MASK_eq: "EXCESS_MASK = mask 24" and MS_MASK_eq: "MS_MASK = mask 39"
  by (simp_all add: mask_eq_exp_minus_1)

lemma lr_unpack_eq: "lr_unpack w = (unat w div 2 ^ 24 mod 2 ^ 39, unat w mod 2 ^ 24)"
proof -
  have "drop_bit 24 w AND MS_MASK = take_bit 39 (drop_bit 24 w)" "w AND EXCESS_MASK = take_bit 24 w"
    by (simp_all add: take_bit_eq_mask mask_eq_exp_minus_1)
  then show ?thesis
    by (simp only: lr_unpack_def unsigned_take_bit_eq unat_drop_bit_eq)
      (simp add: take_bit_eq_mod [where 'a = nat] drop_bit_eq_div [where 'a = nat])
qed

lemma unat_lr_pack:
  "unat (lr_pack l e) = 2 ^ 63 + 2 ^ 24 * (l mod 2 ^ 39) + min e (2 ^ 24 - 1)"
proof -
  define m where "m = of_nat l AND MS_MASK"
  define x :: u64 where "x = of_nat (min e (unat EXCESS_MASK))"
  have m: "unat m = l mod 2 ^ 39"
  proof -
    have "m = take_bit 39 (of_nat l)" by (simp add: m_def take_bit_eq_mask mask_eq_exp_minus_1)
    also have "\<dots> = of_nat (take_bit 39 l)" by (simp add: of_nat_take_bit)
    finally show ?thesis
      by (simp add: take_bit_eq_mod unsigned_of_nat take_bit_nat_eq_self)
  qed
  have x: "unat x = min e (2 ^ 24 - 1)"
    by (simp add: x_def unsigned_of_nat take_bit_nat_eq_self)
  have "lr_pack l e = push_bit 63 1 OR (push_bit 24 m OR x)"
    by (simp add: lr_pack_def m_def x_def or.assoc)
  moreover have mx: "unat (push_bit 24 m OR x) = 2 ^ 24 * (l mod 2 ^ 39) + min e (2 ^ 24 - 1)"
    using m x by (subst unat_or_push) (simp_all add: min_def)
  moreover have "2 ^ 24 * (l mod 2 ^ 39) + min e (2 ^ 24 - 1) < (2 :: nat) ^ 63"
  proof -
    have "l mod 2 ^ 39 < 2 ^ 39" "min e (2 ^ 24 - 1) < (2 :: nat) ^ 24" by simp_all
    then show ?thesis by simp
  qed
  ultimately show ?thesis
    by (simp only:) (subst unat_or_push, simp_all)
qed

lemma lr_unpack_pack: "lr_unpack (lr_pack l e) = (l mod 2 ^ 39, min e (2 ^ 24 - 1))"
proof -
  define a where "a = l mod 2 ^ 39"
  define b where "b = min e (2 ^ 24 - 1)"
  have b: "b < 2 ^ 24" and a: "a < 2 ^ 39" by (simp_all add: a_def b_def)
  have "2 ^ 63 + 2 ^ 24 * a + b = b + (a + 2 ^ 39) * 2 ^ 24" by (simp add: algebra_simps)
  then have "(2 ^ 63 + 2 ^ 24 * a + b) div 2 ^ 24 = a + 2 ^ 39"
    and "(2 ^ 63 + 2 ^ 24 * a + b) mod 2 ^ 24 = b"
    using b by (simp_all only: div_mult_self1 mod_mult_self1 mod_less) simp_all
  then show ?thesis
    using a unfolding lr_unpack_eq unat_lr_pack a_def [symmetric] b_def [symmetric] by simp
qed

lemma lr_pack_nonzero: "lr_pack l e \<noteq> 0"
proof
  assume "lr_pack l e = 0"
  then have "unat (lr_pack l e) = 0" by simp
  then show False by (simp add: unat_lr_pack)
qed

section \<open>The step\<close>

text \<open>An admitted request raises the excess by one request, less what leaked out meanwhile.\<close>

lemma lr_excess_bounds:
  assumes "prev < 2 ^ 63"
  shows "SCALE * (prev + SCALE) \<le> SCALE * lr_excess prev elapsed rt + rt * elapsed"
    "lr_excess prev elapsed rt \<le> prev + SCALE"
proof -
  define drained where "drained = min (int rt * int elapsed) (2 ^ 127 - 1) div 1000"
  have dr: "0 \<le> drained" "1000 * drained \<le> int rt * int elapsed"
    unfolding drained_def by (auto simp: min_def intro: pos_imp_zdiv_nonneg_iff [THEN iffD2])
  have "nat (max (int prev - drained + 1000) 0) < 2 ^ 64" using assms dr(1) by simp
  then have e: "lr_excess prev elapsed rt = nat (max (int prev - drained + 1000) 0)"
    by (simp add: lr_excess_def drained_def)
  have "int (SCALE * (prev + SCALE)) \<le> int (SCALE * lr_excess prev elapsed rt + rt * elapsed)"
    using dr unfolding e by (simp add: algebra_simps max_def)
  then show "SCALE * (prev + SCALE) \<le> SCALE * lr_excess prev elapsed rt + rt * elapsed" by linarith
  show "lr_excess prev elapsed rt \<le> prev + SCALE" using dr(1) unfolding e by simp
qed

lemma lr_step_admit:
  assumes "lr_step prev elapsed rt burst nodelay da = (e, d)" "d \<noteq> Reject" "prev < 2 ^ 63"
  shows "e \<le> burst" "SCALE * (prev + SCALE) \<le> SCALE * e + rt * elapsed"
proof -
  have "e = lr_excess prev elapsed rt \<and> e \<le> burst"
    using assms(1,2) by (auto simp: lr_step_def Let_def split: if_splits)
  then show "e \<le> burst" "SCALE * (prev + SCALE) \<le> SCALE * e + rt * elapsed"
    using lr_excess_bounds(1) [OF assms(3)] by auto
qed

lemma lr_step_reject: "lr_step prev elapsed rt burst nodelay da = (e, Reject) \<Longrightarrow> e = prev"
  by (auto simp: lr_step_def Let_def split: if_splits)

section \<open>The table\<close>

definition lr_wf :: "lr_zone \<Rightarrow> bool" where
  "lr_wf z \<longleftrightarrow> length (mem z) = slots z * 2 \<and> 0 < slots z \<and> slots z \<le> 2 ^ 63"

lemma window_bound: "lr_wf z \<Longrightarrow> i \<in> set (window z h) \<Longrightarrow> i < slots z"
proof -
  assume wf: "lr_wf z" and "i \<in> set (window z h)"
  then obtain p where i: "i = unat ((h + of_nat p) AND of_nat (slots z - 1))"
    by (auto simp: window_def)
  have "i \<le> unat (of_nat (slots z - 1) :: u64)"
    unfolding i by (simp add: word_and_le1 word_le_nat_alt [symmetric])
  also have "\<dots> = slots z - 1"
  proof -
    have "slots z - 1 < 2 ^ 64" using wf by (auto simp: lr_wf_def)
    then show ?thesis by (simp add: unsigned_of_nat take_bit_nat_eq_self del: of_nat_diff)
  qed
  finally show ?thesis using wf unfolding lr_wf_def by linarith
qed

lemma slot_updates:
  assumes "lr_wf z" "i < slots z" "j < slots z"
  shows "hash_slot (store_hash z i h) j = (if j = i then h else hash_slot z j)"
    "state_slot (store_hash z i h) j = state_slot z j"
    "hash_slot (store_state z i w) j = hash_slot z j"
    "state_slot (store_state z i w) j = (if j = i then w else state_slot z j)"
  using assms
  by (auto simp: lr_wf_def hash_slot_def state_slot_def store_hash_def store_state_def
      nth_list_update) presburger+

lemma store_wf [simp]:
  "lr_wf (store_hash z i h) = lr_wf z" "lr_wf (store_state z i w) = lr_wf z"
  "slots (store_hash z i h) = slots z" "slots (store_state z i w) = slots z"
  "rate (store_hash z i h) = rate z" "rate (store_state z i w) = rate z"
  "origin (store_hash z i h) = origin z" "origin (store_state z i w) = origin z"
  "seed (store_hash z i h) = seed z" "seed (store_state z i w) = seed z"
  by (simp_all add: lr_wf_def store_hash_def store_state_def)

lemma window_store [simp]:
  "window (store_hash z i h) k = window z k" "window (store_state z i w) k = window z k"
  by (simp_all add: window_def)

lemma hash_key_store [simp]:
  "lr_hash_key (store_hash z i h) k = lr_hash_key z k"
  "lr_hash_key (store_state z i w) k = lr_hash_key z k"
  by (simp_all add: lr_hash_key_def)

lemma lr_hash_key_nonzero: "lr_hash_key z k \<noteq> 0"
  by (simp add: lr_hash_key_def Let_def)

lemma lr_probe_Found:
  "lr_probe z h st is = Some (Found i) \<longleftrightarrow>
     (\<exists>pre post. is = pre @ i # post \<and> hash_slot z i = h \<and>
        (\<forall>j\<in>set pre. hash_slot z j \<noteq> h \<and> hash_slot z j \<noteq> 0))"
proof (induction "is" arbitrary: st)
  case Nil
  then show ?case by (auto split: option.splits)
next
  case (Cons a "is")
  consider "hash_slot z a = h" | "hash_slot z a = 0" "h \<noteq> 0" | "hash_slot z a \<noteq> h" "hash_slot z a \<noteq> 0"
    by blast
  then show ?case
  proof cases
    case 1
    then show ?thesis by (auto simp: Let_def Cons_eq_append_conv)
  next
    case 2
    then show ?thesis by (auto simp: Let_def Cons_eq_append_conv)
  next
    case False: 3
    then have "lr_probe z h st (a # is) = Some (Found i) \<longleftrightarrow>
      (\<exists>pre post. is = pre @ i # post \<and> hash_slot z i = h \<and>
        (\<forall>j\<in>set pre. hash_slot z j \<noteq> h \<and> hash_slot z j \<noteq> 0))"
      by (simp add: Let_def Cons.IH)
    also have "\<dots> \<longleftrightarrow> (\<exists>pre post. a # is = pre @ i # post \<and> hash_slot z i = h \<and>
        (\<forall>j\<in>set pre. hash_slot z j \<noteq> h \<and> hash_slot z j \<noteq> 0))"
    proof
      assume "\<exists>pre post. is = pre @ i # post \<and> hash_slot z i = h \<and>
        (\<forall>j\<in>set pre. hash_slot z j \<noteq> h \<and> hash_slot z j \<noteq> 0)"
      then obtain pre post where "is = pre @ i # post" "hash_slot z i = h"
        "\<forall>j\<in>set pre. hash_slot z j \<noteq> h \<and> hash_slot z j \<noteq> 0" by blast
      with False show "\<exists>pre post. a # is = pre @ i # post \<and> hash_slot z i = h \<and>
        (\<forall>j\<in>set pre. hash_slot z j \<noteq> h \<and> hash_slot z j \<noteq> 0)"
        by (intro exI [of _ "a # pre"] exI [of _ post]) auto
    qed (use False in \<open>auto simp: Cons_eq_append_conv\<close>)
    finally show ?thesis .
  qed
qed

lemma lr_probe_Claim:
  "lr_probe z h st is = Some (Claim i) \<Longrightarrow>
     \<exists>pre post. is = pre @ i # post \<and> hash_slot z i = 0 \<and>
        (\<forall>j\<in>set pre. hash_slot z j \<noteq> h \<and> hash_slot z j \<noteq> 0)"
proof (induction "is" arbitrary: st)
  case Nil
  then show ?case by (auto split: option.splits)
next
  case (Cons a "is")
  show ?case
  proof (cases "hash_slot z a = h \<or> hash_slot z a = 0")
    case True
    with Cons.prems have "i = a" "hash_slot z a = 0" by (auto simp: Let_def split: if_splits)
    then show ?thesis by (intro exI [of _ "[]"] exI [of _ "is"]) auto
  next
    case False
    with Cons.prems Cons.IH obtain pre post where "is = pre @ i # post" "hash_slot z i = 0"
      "\<forall>j\<in>set pre. hash_slot z j \<noteq> h \<and> hash_slot z j \<noteq> 0"
      by (fastforce simp: Let_def split: if_splits)
    with False show ?thesis by (intro exI [of _ "a # pre"] exI [of _ post]) auto
  qed
qed

lemma lr_probe_nonempty: "is \<noteq> [] \<or> st \<noteq> None \<Longrightarrow> lr_probe z h st is \<noteq> None"
  by (induction "is" arbitrary: st) (auto simp: Let_def split: option.splits)

lemma window_nonempty [simp]: "window z h \<noteq> []"
  by (simp add: window_def)

section \<open>Runs\<close>

text \<open>
  A run of requests against one zone, each with its own key, start time and limit parameters
  (several \<^verbatim>\<open>limit_req\<close> directives may share a zone).
\<close>

record lr_event =
  ev_key :: bytes
  ev_now :: nat
  ev_burst :: nat
  ev_nodelay :: bool
  ev_delay :: nat

definition lr_check_ev :: "lr_zone \<Rightarrow> lr_event \<Rightarrow> lr_zone \<times> decision" where
  "lr_check_ev z ev = lr_check z (ev_key ev) (ev_now ev) (ev_burst ev) (ev_nodelay ev) (ev_delay ev)"

text \<open>Requests admitted (at once or after a delay) whose key hashes to \<open>h\<close>.\<close>

fun lr_admitted :: "lr_zone \<Rightarrow> u64 \<Rightarrow> lr_event list \<Rightarrow> nat" where
  "lr_admitted z h [] = 0"
| "lr_admitted z h (ev # evs) =
    (let (z', d) = lr_check_ev z ev
     in (if lr_hash_key z (ev_key ev) = h \<and> d \<noteq> Reject then 1 else 0) + lr_admitted z' h evs)"

text \<open>No request of the run finds its probe window full of other keys.\<close>

fun lr_no_eviction :: "lr_zone \<Rightarrow> lr_event list \<Rightarrow> bool" where
  "lr_no_eviction z [] = True"
| "lr_no_eviction z (ev # evs) =
    (let h = lr_hash_key z (ev_key ev)
     in if (case lr_probe z h None (window z h) of Some (Full _) \<Rightarrow> True | _ \<Rightarrow> False) then False
        else (let (z', d) = lr_check_ev z ev in lr_no_eviction z' evs))"

definition lr_tracks :: "lr_zone \<Rightarrow> u64 \<Rightarrow> nat \<Rightarrow> bool" where
  "lr_tracks z h i \<longleftrightarrow> lr_probe z h None (window z h) = Some (Found i)"

lemma lr_tracksD:
  assumes "lr_tracks z h i"
  shows "hash_slot z i = h" "i \<in> set (window z h)"
  using assms by (auto simp: lr_tracks_def lr_probe_Found)

lemma lr_tracks_cong:
  assumes "lr_tracks z h i" "window z' h = window z h"
    and "\<And>j. j \<in> set (window z h) \<Longrightarrow>
      (hash_slot z' j = h) = (hash_slot z j = h) \<and> (hash_slot z j \<noteq> 0 \<longrightarrow> hash_slot z' j \<noteq> 0)"
  shows "lr_tracks z' h i"
proof -
  obtain pre post where w: "window z h = pre @ i # post" "hash_slot z i = h"
    "\<forall>j\<in>set pre. hash_slot z j \<noteq> h \<and> hash_slot z j \<noteq> 0"
    using assms(1) by (auto simp: lr_tracks_def lr_probe_Found)
  have "hash_slot z' i = h" using assms(3) [of i] w by simp
  moreover have "\<forall>j\<in>set pre. hash_slot z' j \<noteq> h \<and> hash_slot z' j \<noteq> 0"
    using assms(3) w by auto
  ultimately show ?thesis
    using w(1) unfolding lr_tracks_def lr_probe_Found assms(2) by blast
qed

lemma lr_bump_frame:
  assumes "lr_wf z" "i < slots z" "lr_bump z i h t burst nd da = (z', d)"
  shows "lr_wf z'" "window z' k = window z k" "lr_hash_key z' = lr_hash_key z"
    "rate z' = rate z" "origin z' = origin z" "slots z' = slots z"
    "j < slots z \<Longrightarrow> hash_slot z' j = hash_slot z j"
    "j < slots z \<Longrightarrow> j \<noteq> i \<Longrightarrow> state_slot z' j = state_slot z j"
proof -
  have "z' = z \<or> (\<exists>w. z' = store_state z i w)"
    using assms(3) by (auto simp: lr_bump_def Let_def split: if_splits prod.splits)
  then show "lr_wf z'" "window z' k = window z k" "lr_hash_key z' = lr_hash_key z"
    "rate z' = rate z" "origin z' = origin z" "slots z' = slots z"
    "j < slots z \<Longrightarrow> hash_slot z' j = hash_slot z j"
    "j < slots z \<Longrightarrow> j \<noteq> i \<Longrightarrow> state_slot z' j = state_slot z j"
    using assms(1,2) by (auto simp: slot_updates fun_eq_iff)
qed

text \<open>
  A check that evicts nothing: it writes one slot only, which held the key's hash or was empty,
  and holds the key's hash afterwards.
\<close>

lemma lr_check_frame:
  assumes "lr_wf z" "lr_check_ev z ev = (z', d)" "lr_no_eviction z (ev # evs)"
  defines "h \<equiv> lr_hash_key z (ev_key ev)"
  obtains i where "i < slots z" "lr_wf z'" "window z' = window z" "lr_hash_key z' = lr_hash_key z"
    "rate z' = rate z" "origin z' = origin z" "slots z' = slots z"
    "hash_slot z i = h \<or> hash_slot z i = 0" "hash_slot z' i = h"
    "\<And>j. j < slots z \<Longrightarrow> j \<noteq> i \<Longrightarrow> hash_slot z' j = hash_slot z j \<and> state_slot z' j = state_slot z j"
proof -
  have "lr_probe z h None (window z h) \<noteq> None" by (rule lr_probe_nonempty) simp
  then consider i where "lr_probe z h None (window z h) = Some (Found i)"
    | i where "lr_probe z h None (window z h) = Some (Claim i)"
    using assms(3) unfolding h_def [symmetric]
    by (auto simp: Let_def h_def [symmetric] split: option.splits probe_result.splits if_splits)
  then show ?thesis
  proof cases
    case (1 i)
    then have t: "lr_tracks z h i" by (simp add: lr_tracks_def)
    have w: "i < slots z" "hash_slot z i = h"
      using window_bound [OF assms(1) lr_tracksD(2) [OF t]] lr_tracksD(1) [OF t] by simp_all
    have b: "lr_bump z i h (ev_now ev - origin z) (ev_burst ev) (ev_nodelay ev) (ev_delay ev) = (z', d)"
      using assms(2) 1 by (simp add: lr_check_ev_def lr_check_def Let_def h_def [symmetric])
    show ?thesis
      by (rule that [of i]) (use w lr_bump_frame [OF assms(1) w(1) b] in auto)
  next
    case (2 i)
    have "i \<in> set (window z h)" and h0: "hash_slot z i = 0" using lr_probe_Claim [OF 2] by auto
    then have w: "i < slots z" "hash_slot z i = 0" using window_bound [OF assms(1)] by blast+
    let ?z = "store_state (store_hash z i h) i 0"
    have b: "lr_bump ?z i h (ev_now ev - origin z) (ev_burst ev) (ev_nodelay ev) (ev_delay ev) = (z', d)"
      using assms(2) 2 by (simp add: lr_check_ev_def lr_check_def Let_def h_def [symmetric])
    have wf: "lr_wf ?z" "i < slots ?z" using assms(1) w(1) by simp_all
    show ?thesis
      by (rule that [of i])
        (use w assms(1) lr_bump_frame [OF wf b] in \<open>auto simp: slot_updates fun_eq_iff\<close>)
  qed
qed

lemma lr_check_tracked:
  assumes "lr_tracks z (lr_hash_key z (ev_key ev)) i"
  shows "lr_check_ev z ev =
    lr_bump z i (lr_hash_key z (ev_key ev)) (ev_now ev - origin z) (ev_burst ev) (ev_nodelay ev) (ev_delay ev)"
  using assms by (simp add: lr_check_ev_def lr_check_def Let_def lr_tracks_def)

lemma lr_check_keeps_tracking:
  assumes "lr_wf z" "lr_check_ev z ev = (z', d)" "lr_no_eviction z (ev # evs)" "lr_tracks z h i"
    and h0: "h \<noteq> 0"
  shows "lr_wf z' \<and> lr_tracks z' h i \<and> lr_hash_key z' = lr_hash_key z \<and> rate z' = rate z
    \<and> origin z' = origin z
    \<and> (lr_hash_key z (ev_key ev) \<noteq> h \<longrightarrow> state_slot z' i = state_slot z i)"
proof -
  obtain k where k: "k < slots z" "lr_wf z'" "window z' = window z" "lr_hash_key z' = lr_hash_key z"
    "rate z' = rate z" "origin z' = origin z"
    "hash_slot z k = lr_hash_key z (ev_key ev) \<or> hash_slot z k = 0"
    "hash_slot z' k = lr_hash_key z (ev_key ev)"
    "\<And>j. j < slots z \<Longrightarrow> j \<noteq> k \<Longrightarrow> hash_slot z' j = hash_slot z j \<and> state_slot z' j = state_slot z j"
    by (rule lr_check_frame [OF assms(1-3)]) blast
  note t = lr_tracksD [OF assms(4)]
  have i: "i < slots z" using window_bound [OF assms(1) t(2)] .
  have h: "lr_hash_key z (ev_key ev) \<noteq> h \<Longrightarrow> i \<noteq> k" using t(1) k(7) h0 by auto
  have "lr_tracks z' h i"
  proof (cases "lr_hash_key z (ev_key ev) = h")
    case True
    then have f: "lr_check_ev z ev = lr_bump z i h (ev_now ev - origin z) (ev_burst ev) (ev_nodelay ev) (ev_delay ev)"
      using lr_check_tracked assms(4) by simp
    show ?thesis
      by (rule lr_tracks_cong [OF assms(4)])
        (use lr_bump_frame [OF assms(1) i f [symmetric, unfolded assms(2)]] window_bound [OF assms(1)] in auto)
  next
    case False
    show ?thesis
    proof (rule lr_tracks_cong [OF assms(4)])
      fix j
      assume "j \<in> set (window z h)"
      then have "j < slots z" by (rule window_bound [OF assms(1)])
      then show "(hash_slot z' j = h) = (hash_slot z j = h) \<and> (hash_slot z j \<noteq> 0 \<longrightarrow> hash_slot z' j \<noteq> 0)"
        using False k(7,8,9) lr_hash_key_nonzero [of z "ev_key ev"] h0
        by (cases "j = k") auto
    qed (simp add: k(3))
  qed
  then show ?thesis using k i h t(1) lr_hash_key_nonzero by auto
qed

text \<open>
  The accounting: as long as the key keeps its slot, every admitted request is paid for, either
  by room left below the burst or by time that passed.
\<close>

lemma lr_bump_account:
  assumes "lr_wf z" "i < slots z" "hash_slot z i = h" "state_slot z i = lr_pack l e"
    and "l < 2 ^ 39" "e \<le> B" "B < 2 ^ 24" "burst \<le> B" "l \<le> t" "t < 2 ^ 39"
    and "lr_bump z i h t burst nd da = (z', d)"
  shows "(d = Reject \<and> z' = z) \<or>
    (d \<noteq> Reject \<and> (\<exists>e'. state_slot z' i = lr_pack t e' \<and> e' \<le> B \<and>
      SCALE * (e + SCALE) \<le> SCALE * e' + rate z * (t - l)))"
proof -
  have u: "lr_unpack (lr_pack l e) = (l, e)" using assms(5-7) by (simp add: lr_unpack_pack min_def)
  obtain e' d' where st: "lr_step e (t - l) (rate z) burst nd da = (e', d')"
    by (cases "lr_step e (t - l) (rate z) burst nd da") auto
  have b: "z' = (if d' = Reject then z else store_state z i (lr_pack t e'))" "d = d'"
    using assms(3,4,11) u st lr_pack_nonzero by (auto simp: lr_bump_def Let_def split: if_splits)
  show ?thesis
  proof (cases "d' = Reject")
    case True
    with b show ?thesis by simp
  next
    case False
    have "e < 2 ^ 63" using assms(6,7) by simp
    from lr_step_admit [OF st False this] False b assms(1,2,8) show ?thesis
      by (auto simp: slot_updates intro!: exI [of _ e'])
  qed
qed

lemma lr_admitted_tracked:
  assumes "lr_wf z" "lr_tracks z h i" "h \<noteq> 0" "state_slot z i = lr_pack l e" "e \<le> B" "B < 2 ^ 24"
    and "lr_no_eviction z evs" "sorted (map ev_now evs)"
    and "\<forall>ev\<in>set evs. origin z + l \<le> ev_now ev \<and> ev_now ev \<le> origin z + T \<and> ev_burst ev \<le> B"
    and "l \<le> T" "T < 2 ^ 39"
  shows "SCALE * (SCALE * lr_admitted z h evs + e) \<le> SCALE * B + rate z * (T - l)"
  using assms
proof (induction evs arbitrary: z l e)
  case Nil
  then show ?case by simp
next
  case (Cons ev evs)
  obtain z' d where c: "lr_check_ev z ev = (z', d)" by (cases "lr_check_ev z ev") auto
  have k: "lr_wf z'" "lr_tracks z' h i" "lr_hash_key z' = lr_hash_key z" "rate z' = rate z"
    "origin z' = origin z" "lr_hash_key z (ev_key ev) \<noteq> h \<longrightarrow> state_slot z' i = state_slot z i"
    using lr_check_keeps_tracking [OF Cons.prems(1) c Cons.prems(7,2,3)] by auto
  have ne: "lr_no_eviction z' evs" using Cons.prems(7) c by (simp add: Let_def split: if_splits)
  have so: "sorted (map ev_now evs)" using Cons.prems(8) by simp
  have i: "i < slots z" "hash_slot z i = h"
    using window_bound [OF Cons.prems(1) lr_tracksD(2) [OF Cons.prems(2)]] lr_tracksD(1) [OF Cons.prems(2)]
    by simp_all
  let ?t = "ev_now ev - origin z"
  have t: "l \<le> ?t" "?t \<le> T" "origin z + ?t = ev_now ev" using Cons.prems(9) by auto
  show ?case
  proof (cases "lr_hash_key z (ev_key ev) = h \<and> d \<noteq> Reject")
    case True
    have b: "lr_bump z i h ?t (ev_burst ev) (ev_nodelay ev) (ev_delay ev) = (z', d)"
      using lr_check_tracked [of z ev i] True Cons.prems(2) c by simp
    obtain e' where e': "state_slot z' i = lr_pack ?t e'" "e' \<le> B"
      "SCALE * (e + SCALE) \<le> SCALE * e' + rate z * (?t - l)"
      using lr_bump_account [OF Cons.prems(1) i Cons.prems(4) _ Cons.prems(5,6) _ t(1) _ b]
        Cons.prems(9-11) t True by auto
    have "SCALE * (SCALE * lr_admitted z' h evs + e') \<le> SCALE * B + rate z' * (T - ?t)"
    proof (rule Cons.IH [OF k(1,2) Cons.prems(3) e'(1,2) Cons.prems(6) ne so])
      show "\<forall>ev\<in>set evs. origin z' + ?t \<le> ev_now ev \<and> ev_now ev \<le> origin z' + T \<and> ev_burst ev \<le> B"
        using Cons.prems(8,9) t(3) k(5) by auto
    qed (use t Cons.prems(11) in simp_all)
    moreover have "rate z * (T - ?t) + rate z * (?t - l) = rate z * (T - l)"
      using t by (simp flip: distrib_left)
    ultimately show ?thesis using e'(3) k(4) True c by (simp add: algebra_simps)
  next
    case False
    have "state_slot z' i = lr_pack l e"
    proof (cases "lr_hash_key z (ev_key ev) = h")
      case True
      with False have b: "lr_bump z i h ?t (ev_burst ev) (ev_nodelay ev) (ev_delay ev) = (z', Reject)"
        using lr_check_tracked [of z ev i] Cons.prems(2) c by simp
      then show ?thesis
        using lr_bump_account [OF Cons.prems(1) i Cons.prems(4) _ Cons.prems(5,6) _ t(1) _ b]
          Cons.prems(4,9-11) t by auto
    qed (use k(6) Cons.prems(4) in simp)
    with Cons.IH [OF k(1,2) Cons.prems(3) _ Cons.prems(5,6) ne so, of l] Cons.prems(9-11) False c k
    show ?thesis by auto
  qed
qed

section \<open>From an empty zone\<close>

definition lr_fresh :: "lr_zone \<Rightarrow> u64 \<Rightarrow> bool" where
  "lr_fresh z h \<longleftrightarrow>
    (\<forall>j < slots z. hash_slot z j \<noteq> h) \<or> (\<exists>i. lr_tracks z h i \<and> state_slot z i = 0)"

lemma lr_bump_fresh:
  assumes "lr_wf z" "i < slots z" "hash_slot z i = h" "state_slot z i = 0"
    and "lr_bump z i h t burst nd da = (z', d)"
  shows "(d = Reject \<and> z' = z) \<or>
    (d \<noteq> Reject \<and> (\<exists>e'. state_slot z' i = lr_pack t e' \<and> e' \<le> burst))"
proof -
  obtain e' d' where st: "lr_step 0 (U64_MAX div SCALE) (rate z) burst nd da = (e', d')"
    by (cases "lr_step 0 (U64_MAX div SCALE) (rate z) burst nd da") auto
  have b: "z' = (if d' = Reject then z else store_state z i (lr_pack t e'))" "d = d'"
    using assms(3-5) st by (auto simp: lr_bump_def Let_def split: if_splits)
  show ?thesis
  proof (cases "d' = Reject")
    case False
    from lr_step_admit(1) [OF st False] False b assms(1,2) show ?thesis
      by (auto simp: slot_updates)
  qed (use b in simp)
qed

lemma lr_fresh_check:
  assumes "lr_wf z" "lr_fresh z h" "lr_hash_key z (ev_key ev) = h" "lr_no_eviction z (ev # evs)"
    and c: "lr_check_ev z ev = (z', d)"
  obtains i where "lr_tracks z' h i" "(d = Reject \<and> state_slot z' i = 0) \<or>
    (d \<noteq> Reject \<and> (\<exists>e'. state_slot z' i = lr_pack (ev_now ev - origin z) e' \<and> e' \<le> ev_burst ev))"
proof -
  have h0: "h \<noteq> 0" using assms(3) lr_hash_key_nonzero by auto
  consider (t) i where "lr_tracks z h i" "state_slot z i = 0"
    | (u) "\<forall>j < slots z. hash_slot z j \<noteq> h"
    using assms(2) by (auto simp: lr_fresh_def)
  then show ?thesis
  proof cases
    case t
    note w = lr_tracksD [OF t(1)] window_bound [OF assms(1) lr_tracksD(2) [OF t(1)]]
    have b: "lr_bump z i h (ev_now ev - origin z) (ev_burst ev) (ev_nodelay ev) (ev_delay ev) = (z', d)"
      using lr_check_tracked [of z ev i] t(1) c assms(3) by simp
    have "lr_tracks z' h i" using lr_check_keeps_tracking [OF assms(1) c assms(4) t(1) h0] by simp
    then show ?thesis
      by (rule that) (use lr_bump_fresh [OF assms(1) w(3,1) t(2) b] t(2) in auto)
  next
    case u
    have "\<nexists>i. lr_probe z h None (window z h) = Some (Found i)"
      using u window_bound [OF assms(1), of _ h] lr_tracksD unfolding lr_tracks_def by blast
    moreover have "lr_probe z h None (window z h) \<noteq> None" by (rule lr_probe_nonempty) simp
    ultimately obtain i where p: "lr_probe z h None (window z h) = Some (Claim i)"
      using assms(3,4) by (auto simp: Let_def split: option.splits probe_result.splits if_splits)
    obtain pre post where w: "window z h = pre @ i # post" "hash_slot z i = 0"
      "\<forall>j\<in>set pre. hash_slot z j \<noteq> h \<and> hash_slot z j \<noteq> 0"
      using lr_probe_Claim [OF p] by blast
    have i: "i < slots z" using window_bound [OF assms(1), of i h] w(1) by simp
    have pre: "j < slots z \<and> j \<noteq> i" if "j \<in> set pre" for j
      using window_bound [OF assms(1), of j h] w that by auto
    let ?z = "store_state (store_hash z i h) i 0"
    have z: "lr_wf ?z" "i < slots ?z" "hash_slot ?z i = h" "state_slot ?z i = 0"
      using assms(1) i by (simp_all add: slot_updates)
    have b: "lr_bump ?z i h (ev_now ev - origin z) (ev_burst ev) (ev_nodelay ev) (ev_delay ev) = (z', d)"
      using c p assms(3) by (simp add: lr_check_ev_def lr_check_def Let_def)
    note fr = lr_bump_frame [OF z(1,2) b]
    have "hash_slot z' i = h" using fr(7) [of i] z i by simp
    moreover have "\<forall>j\<in>set pre. hash_slot z' j \<noteq> h \<and> hash_slot z' j \<noteq> 0"
      using fr(7) pre w(3) assms(1) i by (auto simp: slot_updates)
    ultimately have "lr_tracks z' h i"
      unfolding lr_tracks_def lr_probe_Found using w(1) fr(2) [of h] by auto
    then show ?thesis
      by (rule that) (use lr_bump_fresh [OF z b] z(4) in auto)
  qed
qed

lemma lr_fresh_other:
  assumes "lr_wf z" "lr_fresh z h" "h \<noteq> 0" "lr_hash_key z (ev_key ev) \<noteq> h"
    and "lr_no_eviction z (ev # evs)" "lr_check_ev z ev = (z', d)"
  shows "lr_fresh z' h"
proof (cases "\<exists>i. lr_tracks z h i \<and> state_slot z i = 0")
  case True
  then obtain i where "lr_tracks z h i" "state_slot z i = 0" by blast
  then show ?thesis
    using lr_check_keeps_tracking [OF assms(1,6,5) _ assms(3), of i] assms(4)
    by (auto simp: lr_fresh_def)
next
  case False
  obtain k where k: "k < slots z" "slots z' = slots z" "hash_slot z' k = lr_hash_key z (ev_key ev)"
    "\<And>j. j < slots z \<Longrightarrow> j \<noteq> k \<Longrightarrow> hash_slot z' j = hash_slot z j \<and> state_slot z' j = state_slot z j"
    by (rule lr_check_frame [OF assms(1,6,5)]) blast
  have "hash_slot z' j \<noteq> h" if "j < slots z" for j
    using that k False assms(2,4) by (cases "j = k") (auto simp: lr_fresh_def)
  then show ?thesis by (simp add: lr_fresh_def k(2))
qed

lemma lr_admitted_fresh:
  assumes "lr_wf z" "lr_fresh z h" "h \<noteq> 0" "B < 2 ^ 24"
    and "lr_no_eviction z evs" "sorted (map ev_now evs)"
    and "\<forall>ev\<in>set evs. origin z + t0 \<le> ev_now ev \<and> ev_now ev \<le> origin z + T \<and> ev_burst ev \<le> B"
    and "t0 \<le> T" "T < 2 ^ 39"
  shows "SCALE * (SCALE * (lr_admitted z h evs - 1)) \<le> SCALE * B + rate z * (T - t0)"
  using assms
proof (induction evs arbitrary: z)
  case Nil
  then show ?case by simp
next
  case (Cons ev evs)
  obtain z' d where c: "lr_check_ev z ev = (z', d)" by (cases "lr_check_ev z ev") auto
  obtain i where fr: "lr_wf z'" "lr_hash_key z' = lr_hash_key z" "rate z' = rate z" "origin z' = origin z"
    by (rule lr_check_frame [OF Cons.prems(1) c Cons.prems(5)]) blast
  have ne: "lr_no_eviction z' evs" using Cons.prems(5) c by (simp add: Let_def split: if_splits)
  have so: "sorted (map ev_now evs)" using Cons.prems(6) by simp
  note IH = Cons.IH [OF fr(1) _ Cons.prems(3,4) ne so]
  show ?case
  proof (cases "lr_hash_key z (ev_key ev) = h")
    case False
    have "lr_fresh z' h" by (rule lr_fresh_other [OF Cons.prems(1-3) False Cons.prems(5) c])
    with IH Cons.prems(7-9) fr False c show ?thesis by auto
  next
    case True
    obtain i where i: "lr_tracks z' h i" "(d = Reject \<and> state_slot z' i = 0) \<or>
      (d \<noteq> Reject \<and> (\<exists>e'. state_slot z' i = lr_pack (ev_now ev - origin z) e' \<and> e' \<le> ev_burst ev))"
      by (rule lr_fresh_check [OF Cons.prems(1,2) True Cons.prems(5) c])
    show ?thesis
    proof (cases "d = Reject")
      case True
      with i have "lr_fresh z' h" by (auto simp: lr_fresh_def)
      with IH Cons.prems(7-9) fr True c show ?thesis by auto
    next
      case False
      with i obtain e' where e': "state_slot z' i = lr_pack (ev_now ev - origin z) e'" "e' \<le> ev_burst ev"
        by auto
      let ?t = "ev_now ev - origin z"
      have t: "t0 \<le> ?t" "?t \<le> T" "origin z + ?t = ev_now ev" "ev_burst ev \<le> B" using Cons.prems(7) by auto
      have "SCALE * (SCALE * lr_admitted z' h evs + e') \<le> SCALE * B + rate z' * (T - ?t)"
      proof (rule lr_admitted_tracked [OF fr(1) i(1) Cons.prems(3) e'(1) _ Cons.prems(4) ne so])
        show "\<forall>ev\<in>set evs. origin z' + ?t \<le> ev_now ev \<and> ev_now ev \<le> origin z' + T \<and> ev_burst ev \<le> B"
          using Cons.prems(6,7) t(3) fr(4) by auto
      qed (use t e'(2) Cons.prems(9) in simp_all)
      moreover have "rate z * (T - ?t) \<le> rate z * (T - t0)" by (intro mult_le_mono2 diff_le_mono2) (rule t(1))
      ultimately show ?thesis using True False c fr(3) by (simp add: algebra_simps)
    qed
  qed
qed

lemma lr_zone_new_wf:
  assumes "entries \<le> 2 ^ 62"
  shows "lr_wf (lr_zone_new rt entries org sd)"
  using next_power_of_two_from_le [of 64 1 entries] assms
  by (simp add: lr_wf_def lr_zone_new_def Let_def next_power_of_two_def) linarith

lemma lr_zone_new_fresh: "h \<noteq> 0 \<Longrightarrow> lr_fresh (lr_zone_new rt entries org sd) h"
  by (simp add: lr_fresh_def lr_zone_new_def Let_def hash_slot_def)

section \<open>Properties\<close>

text \<open>C7.
  The rate limit holds. In a zone that starts empty, for any interleaving of requests with
  any keys in the order of their start times, as long as no probe window fills up, the number of
  requests admitted for one key in a stretch of \<open>T - t0\<close> milliseconds is at most one, plus the
  burst, plus what the configured rate allows in that time: with \<open>N\<close> admitted requests, \<open>B\<close> the
  largest burst (scaled by 1000) and a rate scaled by 1000,
  \<open>1000 * 1000 * (N - 1) \<le> 1000 * B + rate * (T - t0)\<close>.
\<close>

theorem limit_req_rate_bound:
  assumes "entries \<le> 2 ^ 62" "z = lr_zone_new rt entries org sd"
    and "lr_no_eviction z evs" "sorted (map ev_now evs)"
    and "\<forall>ev\<in>set evs. org + t0 \<le> ev_now ev \<and> ev_now ev \<le> org + T \<and> ev_burst ev \<le> B"
    and "t0 \<le> T" "T < 2 ^ 39" "B < 2 ^ 24"
  shows "SCALE * (SCALE * (lr_admitted z (lr_hash_key z key) evs - 1)) \<le> SCALE * B + rt * (T - t0)"
proof -
  have z: "lr_wf z" "rate z = rt" "origin z = org"
    using lr_zone_new_wf [OF assms(1)] assms(2) by (simp_all add: lr_zone_new_def Let_def)
  have h: "lr_hash_key z key \<noteq> 0" by (rule lr_hash_key_nonzero)
  have "lr_fresh z (lr_hash_key z key)" using lr_zone_new_fresh [OF h] assms(2) by simp
  from lr_admitted_fresh [OF z(1) this h assms(8,3,4), of t0 T] assms(5-7) z(2,3)
  show ?thesis by simp
qed

definition lr_demo_zone :: lr_zone where
  "lr_demo_zone = lr_zone_new 1000 1 0 0"

definition lr_demo_ev :: "nat \<Rightarrow> nat \<Rightarrow> lr_event" where
  "lr_demo_ev t b = \<lparr>ev_key = bs ''k'', ev_now = t, ev_burst = b, ev_nodelay = True, ev_delay = 0\<rparr>"

lemma lr_demo_size: "max (next_power_of_two (Suc 0)) 64 = 64"
  using next_power_of_two_from_le [of 64 1 1] by (simp add: next_power_of_two_def max_def)

lemma lr_demo_facts [simp]:
  "lr_wf lr_demo_zone" "slots lr_demo_zone = 64" "rate lr_demo_zone = 1000" "origin lr_demo_zone = 0"
  "j < 64 \<Longrightarrow> hash_slot lr_demo_zone j = 0"
  "lr_hash_key lr_demo_zone [107] = 12638198195671924106"
  using lr_demo_size
  by (simp_all add: lr_wf_def lr_demo_zone_def lr_zone_new_def hash_slot_def lr_hash_key_def fnv1a_def)

lemma lr_demo_window:
  "\<exists>ws. window lr_demo_zone 12638198195671924106 = 10 # ws"
  by (simp add: window_def upt_rec [of 0])

lemmas lr_eval = lr_check_ev_def lr_check_def lr_bump_def lr_step_def lr_excess_def slot_updates
  lr_unpack_pack lr_pack_nonzero lr_demo_ev_def Let_def

definition lr_demo_zone1 :: lr_zone where
  "lr_demo_zone1 = store_state (store_state (store_hash lr_demo_zone 10 12638198195671924106) 10 0) 10 (lr_pack 0 0)"

lemma lr_demo_facts1 [simp]:
  "lr_wf lr_demo_zone1" "slots lr_demo_zone1 = 64" "rate lr_demo_zone1 = 1000" "origin lr_demo_zone1 = 0"
  "hash_slot lr_demo_zone1 10 = 12638198195671924106" "state_slot lr_demo_zone1 10 = lr_pack 0 0"
  "lr_hash_key lr_demo_zone1 [107] = 12638198195671924106"
  by (simp_all add: lr_demo_zone1_def slot_updates)

lemma lr_demo_window1: "\<exists>ws. window lr_demo_zone1 12638198195671924106 = 10 # ws"
  using lr_demo_window by (simp add: lr_demo_zone1_def)

lemma lr_demo_check1: "lr_check_ev lr_demo_zone (lr_demo_ev 0 1000) = (lr_demo_zone1, Pass)"
  using lr_demo_window by (auto simp: lr_eval lr_demo_zone1_def)

lemma lr_demo_check2:
  "lr_check_ev lr_demo_zone1 (lr_demo_ev 0 1000) = (store_state lr_demo_zone1 10 (lr_pack 0 1000), Pass)"
  using lr_demo_window1 by (auto simp: lr_eval)

theorem limit_req_rate_bound_witness:
  "lr_admitted lr_demo_zone (lr_hash_key lr_demo_zone (bs ''k''))
     [lr_demo_ev 0 1000, lr_demo_ev 0 1000] = 2 \<and>
   SCALE * (SCALE * (2 - 1)) \<le> SCALE * 1000 + 1000 * (0 - 0)"
proof -
  let ?evs = "[lr_demo_ev 0 1000, lr_demo_ev 0 1000]"
  have e: "lr_no_eviction lr_demo_zone ?evs"
    using lr_demo_window lr_demo_window1 lr_demo_check1 lr_demo_check2
    by (auto simp: Let_def lr_demo_ev_def)
  have a: "lr_admitted lr_demo_zone (lr_hash_key lr_demo_zone (bs ''k'')) ?evs = 2"
    using lr_demo_check1 lr_demo_check2 by (simp add: Let_def) (simp add: lr_demo_ev_def)
  have "SCALE * (SCALE * (lr_admitted lr_demo_zone (lr_hash_key lr_demo_zone (bs ''k'')) ?evs - 1))
      \<le> SCALE * 1000 + 1000 * (0 - 0)"
    by (rule limit_req_rate_bound [OF _ lr_demo_zone_def e]) (simp_all add: lr_demo_ev_def)
  with a show ?thesis by simp
qed

text \<open>
  The packed state word loses nothing but what its two fields cannot hold: unpacking gives the
  timestamp modulo \<open>2 ^ 39\<close> milliseconds and the excess capped at \<open>2 ^ 24 - 1\<close>, and a stored state
  is never the 0 that marks a freshly claimed slot.
\<close>

theorem limit_req_pack_roundtrip:
  "lr_unpack (lr_pack l e) = (l mod 2 ^ 39, min e (2 ^ 24 - 1)) \<and> lr_pack l e \<noteq> 0"
  by (simp add: lr_unpack_pack lr_pack_nonzero)

text \<open>
  A burst the packed excess cannot reach switches the limiter off: from 16778 requests of burst
  on (\<open>2 ^ 24 + 999\<close> milli-requests and more), no state of the table makes \<^verbatim>\<open>check\<close> reject a
  request, at any rate of arrival.
\<close>

theorem limit_req_large_burst_never_rejects:
  assumes "lr_wf z" "2 ^ 24 + 999 \<le> burst"
  shows "snd (lr_check z key now burst nodelay da) \<noteq> Reject"
proof -
  have small: "snd (lr_step prev el rt burst nodelay da) \<noteq> Reject" if "prev < 2 ^ 24" for prev el rt
  proof -
    have "lr_excess prev el rt \<le> prev + SCALE" by (rule lr_excess_bounds) (use that in simp)
    with that assms(2) have "lr_excess prev el rt \<le> burst" by simp
    then show ?thesis by (auto simp: lr_step_def Let_def)
  qed
  have bump: "snd (lr_bump z' i h t burst nodelay da) \<noteq> Reject" for z' i h t
  proof -
    have u: "b < 2 ^ 24" if "lr_unpack w = (a, b)" for w a b using that by (auto simp: lr_unpack_eq)
    have s: "lr_step prev el rt burst nodelay da \<noteq> (x, Reject)" if "prev < 2 ^ 24" for prev el rt x
      using small [OF that, of el rt] by auto
    show ?thesis
      using s [of 0] s [OF u] by (auto simp: lr_bump_def Let_def split: prod.splits if_splits)
  qed
  have "lr_probe z (lr_hash_key z key) None (window z (lr_hash_key z key)) \<noteq> None"
    by (rule lr_probe_nonempty) simp
  then show ?thesis
    using bump by (auto simp: lr_check_def Let_def split: option.splits probe_result.splits)
qed

theorem limit_req_large_burst_never_rejects_witness:
  "snd (lr_check lr_demo_zone (bs ''k'') 0 20000000 True 0) \<noteq> Reject"
  by (rule limit_req_large_burst_never_rejects) simp_all

text \<open>
  A request that started before the last one accounted moves the bucket's clock back: it is
  charged, and the stored timestamp becomes its own earlier start, so the interval between the two
  leaks out of the bucket a second time.
\<close>

theorem limit_req_clock_moves_back:
  assumes "lr_wf z" "i < slots z" "hash_slot z i = h" "state_slot z i = lr_pack l e"
    and "t < l" "l < 2 ^ 39" "e + SCALE \<le> burst" "e < 2 ^ 24"
  shows "state_slot (fst (lr_bump z i h t burst nodelay da)) i = lr_pack t (e + SCALE)"
proof -
  have u: "lr_unpack (lr_pack l e) = (l, e)" using assms(6,8) by (simp add: lr_unpack_pack min_def)
  have x: "lr_excess e 0 (rate z) = e + SCALE" using assms(8) by (simp add: lr_excess_def nat_add_distrib)
  obtain d where d: "lr_step e 0 (rate z) burst nodelay da = (e + SCALE, d)" "d \<noteq> Reject"
    using assms(7) by (cases "nodelay \<or> e + SCALE \<le> da") (auto simp: lr_step_def x Let_def)
  have "t - l = 0" using assms(5) by simp
  then show ?thesis
    using assms(1-4) u d lr_pack_nonzero by (auto simp: lr_bump_def Let_def slot_updates)
qed

theorem limit_req_clock_moves_back_witness:
  "state_slot (fst (lr_bump (store_state lr_demo_zone1 10 (lr_pack 1000 0)) 10 12638198195671924106
     0 2000 True 0)) 10 = lr_pack 0 1000"
proof -
  have "state_slot (fst (lr_bump (store_state lr_demo_zone1 10 (lr_pack 1000 0)) 10 12638198195671924106
     0 2000 True 0)) 10 = lr_pack 0 (0 + SCALE)"
    by (rule limit_req_clock_moves_back [where l = 1000]) (simp_all add: slot_updates)
  then show ?thesis by simp
qed

text \<open>
  Requests of different keys do not interfere: as long as the probe window of the request is
  not full of other keys, a check leaves the slot, the state and the findability of every other
  tracked key unchanged.
\<close>

theorem limit_req_keys_independent:
  assumes "lr_wf z" "lr_tracks z h i" "h \<noteq> 0" "lr_hash_key z (ev_key ev) \<noteq> h" "lr_no_eviction z [ev]"
  shows "lr_tracks (fst (lr_check_ev z ev)) h i
    \<and> state_slot (fst (lr_check_ev z ev)) i = state_slot z i \<and> lr_wf (fst (lr_check_ev z ev))"
  using lr_check_keeps_tracking [OF assms(1) _ assms(5,2,3)] assms(4)
  by (cases "lr_check_ev z ev") auto

theorem limit_req_keys_independent_witness:
  "lr_tracks (fst (lr_check_ev lr_demo_zone1 ((lr_demo_ev 0 0)\<lparr>ev_key := bs ''q''\<rparr>))) 12638198195671924106 10"
proof -
  let ?ev = "(lr_demo_ev 0 0)\<lparr>ev_key := bs ''q''\<rparr>"
  have hq: "lr_hash_key lr_demo_zone1 (ev_key ?ev) = 12638204792741693372"
    by (simp add: lr_demo_ev_def lr_demo_zone1_def lr_hash_key_def lr_demo_zone_def lr_zone_new_def
        Let_def fnv1a_def)
  have t: "lr_tracks lr_demo_zone1 12638198195671924106 10"
    using lr_demo_window1 by (auto simp: lr_tracks_def Let_def)
  have "\<exists>ws. window lr_demo_zone1 12638204792741693372 = 60 # ws"
    by (simp add: window_def upt_rec [of 0])
  moreover have "hash_slot lr_demo_zone1 60 = 0" by (simp add: lr_demo_zone1_def slot_updates)
  ultimately have e: "lr_no_eviction lr_demo_zone1 [?ev]"
    using hq by (auto simp: Let_def)
  show ?thesis
    using limit_req_keys_independent [OF _ t _ _ e] hq by simp
qed

text \<open>
  A delayed or passed request keeps the excess within its burst, a rejected one leaves the
  bucket as it was, and a request is rejected exactly when the leaked-and-charged excess would
  exceed the burst.
\<close>

theorem limit_req_step_decision:
  assumes "prev < 2 ^ 63" "lr_step prev elapsed rt burst nodelay da = (e, d)"
  shows "(d = Reject \<longleftrightarrow> burst < lr_excess prev elapsed rt)
    \<and> (d = Reject \<longrightarrow> e = prev) \<and> (d \<noteq> Reject \<longrightarrow> e \<le> burst)
    \<and> SCALE * (prev + SCALE) \<le> SCALE * lr_excess prev elapsed rt + rt * elapsed
    \<and> lr_excess prev elapsed rt \<le> prev + SCALE"
  using assms(2) lr_excess_bounds [OF assms(1)]
  by (auto simp: lr_step_def Let_def split: if_splits)

theorem limit_req_step_decision_witness:
  "lr_step 1000 500 1000 1000 True 0 = (1000, Reject) \<and> 1000 < lr_excess 1000 500 1000"
proof -
  have s: "lr_step 1000 500 1000 1000 True 0 = (1000, Reject)"
    by (simp add: lr_step_def lr_excess_def Let_def)
  from limit_req_step_decision [OF _ s] s show ?thesis by simp
qed

end
