(* ===== verification/Limit_Conn.thy ===== *)
theory Limit_Conn
  imports Prelude
begin

text \<open>
  Concurrency limiting (\<^verbatim>\<open>src/server/limit_conn.rs\<close>, and \<^verbatim>\<open>apply_limit_conn\<close> of
  \<^verbatim>\<open>src/server/handler.rs\<close>). The table is modelled twice: \<open>lc_acquire\<close>, \<open>lc_increment\<close> and
  \<open>lc_release\<close> are the operations of one worker without interference; \<open>lc_exec\<close> is one atomic
  load or compare-exchange of a worker at a given point of the same code, and \<open>lc_step\<close> the
  interleaving of any number of workers on the shared mapping. The two are related by
  \<open>limit_conn_solo_run\<close>.
\<close>

section \<open>Definitions\<close>

abbreviation LC_PROBE :: nat where "LC_PROBE \<equiv> 16"
abbreviation MAX_CONNS :: u32 where "MAX_CONNS \<equiv> 65535"
abbreviation COUNT_BITS :: nat where "COUNT_BITS \<equiv> 16"
abbreviation COUNT_MASK :: u64 where "COUNT_MASK \<equiv> 0xFFFF"

definition pack :: "u64 \<Rightarrow> u64 \<Rightarrow> u64" where
  "pack tag count = push_bit COUNT_BITS tag OR (count AND COUNT_MASK)"

definition tag_of :: "u64 \<Rightarrow> u64" where
  "tag_of w = drop_bit COUNT_BITS w"

definition count_of :: "u64 \<Rightarrow> u64" where
  "count_of w = w AND COUNT_MASK"

record lc_zone =
  lc_max_entries :: nat
  lc_seed :: u64
  lc_slots :: nat
  lc_mem :: "u64 list"

definition lc_zone_new :: "nat \<Rightarrow> u64 \<Rightarrow> lc_zone" where
  "lc_zone_new entries sd =
    (let n = max (next_power_of_two entries) 64
     in \<lparr>lc_max_entries = entries, lc_seed = sd, lc_slots = n, lc_mem = replicate n 0\<rparr>)"

definition lc_slot :: "lc_zone \<Rightarrow> nat \<Rightarrow> u64" where
  "lc_slot z i = lc_mem z ! i"

definition lc_store :: "lc_zone \<Rightarrow> nat \<Rightarrow> u64 \<Rightarrow> lc_zone" where
  "lc_store z i w = z\<lparr>lc_mem := (lc_mem z)[i := w]\<rparr>"

definition lc_tag :: "lc_zone \<Rightarrow> bytes \<Rightarrow> u64" where
  "lc_tag z key =
    (let h = fnv1a (lc_seed z) key;
         t = (h XOR drop_bit 48 h) AND 0xFFFFFFFFFFFF
     in if t = 0 then 1 else t)"

text \<open>The slot of probe \<open>p\<close>: the table has a power-of-two size, so the mask is a remainder.\<close>

definition lc_index :: "lc_zone \<Rightarrow> u64 \<Rightarrow> nat \<Rightarrow> nat" where
  "lc_index z tag p =
    (let mask = of_nat (lc_slots z - 1); start = tag AND mask
     in unat ((start + of_nat p) AND mask))"

text \<open>A guard: the slot and the tag it counts for.\<close>

type_synonym guard = "nat \<times> u64"

definition lc_increment :: "lc_zone \<Rightarrow> nat \<Rightarrow> u64 \<Rightarrow> u64 \<Rightarrow> lc_zone \<times> guard option" where
  "lc_increment z i tag limit =
    (let w = lc_slot z i
     in if w \<noteq> 0 \<and> tag_of w \<noteq> tag then (z, None)
        else (let count = count_of w
              in if limit \<le> count \<or> COUNT_MASK \<le> count then (z, None)
                 else (lc_store z i (pack tag (count + 1)), Some (i, tag))))"

text \<open>The probe loop; the list holds the probe numbers still to come.\<close>

fun lc_probe :: "lc_zone \<Rightarrow> u64 \<Rightarrow> u64 \<Rightarrow> nat option \<Rightarrow> nat list \<Rightarrow> lc_zone \<times> guard option" where
  "lc_probe z tag limit reusable [] =
    (case reusable of
       Some i \<Rightarrow>
         (let w = lc_slot z i
          in if count_of w = 0 then (lc_store z i (pack tag 1), Some (i, tag)) else (z, None))
     | None \<Rightarrow> (z, None))"
| "lc_probe z tag limit reusable (p # ps) =
    (let i = lc_index z tag p; w = lc_slot z i
     in if w = 0 then (lc_store z i (pack tag 1), Some (i, tag))
        else if tag_of w = tag then lc_increment z i tag limit
        else lc_probe z tag limit
          (if reusable = None \<and> count_of w = 0 then Some i else reusable) ps)"

definition lc_acquire :: "lc_zone \<Rightarrow> bytes \<Rightarrow> u32 \<Rightarrow> lc_zone \<times> guard option" where
  "lc_acquire z key limit =
     lc_probe z (lc_tag z key) (ucast (min limit MAX_CONNS)) None [0..<LC_PROBE]"

definition lc_release :: "lc_zone \<Rightarrow> guard \<Rightarrow> lc_zone" where
  "lc_release z g =
    (case g of (i, tag) \<Rightarrow>
      (let w = lc_slot z i
       in if tag_of w \<noteq> tag \<or> count_of w = 0 then z
          else lc_store z i (pack tag (count_of w - 1))))"

fun lc_count_from :: "lc_zone \<Rightarrow> u64 \<Rightarrow> nat list \<Rightarrow> u64" where
  "lc_count_from z tag [] = 0"
| "lc_count_from z tag (p # ps) =
    (let w = lc_slot z (unat ((tag + of_nat p) AND of_nat (lc_slots z - 1)))
     in if w = 0 then 0 else if tag_of w = tag then count_of w else lc_count_from z tag ps)"

definition lc_count :: "lc_zone \<Rightarrow> bytes \<Rightarrow> u64" where
  "lc_count z key = lc_count_from z (lc_tag z key) [0..<LC_PROBE]"

definition lc_active :: "lc_zone \<Rightarrow> nat" where
  "lc_active z = length (filter (\<lambda>i. count_of (lc_slot z i) \<noteq> 0) [0..<lc_slots z])"

text \<open>
  The handler: a slot in every zone that applies; the guards stay on the request context, on a
  rejection too. \<open>keys\<close> renders the zone's key template for the request.
\<close>

record limit_conn =
  lconn_zone :: string
  lconn_limit :: u32

fun apply_limit_conn ::
  "(string \<Rightarrow> bytes) \<Rightarrow> bool \<Rightarrow> nat \<Rightarrow> (string \<rightharpoonup> lc_zone) \<Rightarrow> (string \<times> guard) list \<Rightarrow> limit_conn list
   \<Rightarrow> (string \<rightharpoonup> lc_zone) \<times> (string \<times> guard) list \<times> nat option" where
  "apply_limit_conn keys dry_run status zones guards [] = (zones, guards, None)"
| "apply_limit_conn keys dry_run status zones guards (l # ls) =
    (case zones (lconn_zone l) of
       None \<Rightarrow> apply_limit_conn keys dry_run status zones guards ls
     | Some zone \<Rightarrow>
        let key = keys (lconn_zone l)
        in if key = [] then apply_limit_conn keys dry_run status zones guards ls
           else (case lc_acquire zone key (lconn_limit l) of
              (zone', Some g) \<Rightarrow>
                apply_limit_conn keys dry_run status (zones(lconn_zone l \<mapsto> zone'))
                  (guards @ [(lconn_zone l, g)]) ls
            | (zone', None) \<Rightarrow>
                (let zones' = zones(lconn_zone l \<mapsto> zone')
                 in if dry_run then apply_limit_conn keys dry_run status zones' guards ls
                    else (zones', guards, Some status))))"

text \<open>The end of the request drops the guards in the order they were taken.\<close>

fun drop_guards :: "(string \<rightharpoonup> lc_zone) \<Rightarrow> (string \<times> guard) list \<Rightarrow> (string \<rightharpoonup> lc_zone)" where
  "drop_guards zones [] = zones"
| "drop_guards zones ((name, g) # gs) =
    (case zones name of None \<Rightarrow> drop_guards zones gs
     | Some z \<Rightarrow> drop_guards (zones(name \<mapsto> lc_release z g)) gs)"

section \<open>Workers interleaved\<close>

text \<open>
  Where a worker is: before the load or the compare-exchange named by the constructor, between
  requests (\<open>Idle\<close>), refused, or processing a request with its guard (\<open>Holding\<close>).
\<close>

datatype lc_pc =
    Idle
  | Probing u64 u64 nat "nat option"
  | Claiming u64 u64 nat "nat option"
  | Reusing u64 nat
  | Takeover u64 nat u64
  | Incr nat u64 u64
  | IncrCas nat u64 u64 u64
  | Refused
  | Holding nat u64
  | Releasing nat u64
  | ReleaseCas nat u64 u64

definition lc_next_probe :: "u64 \<Rightarrow> u64 \<Rightarrow> nat \<Rightarrow> nat option \<Rightarrow> lc_pc" where
  "lc_next_probe tag limit p reusable =
    (if Suc p < LC_PROBE then Probing tag limit (Suc p) reusable
     else (case reusable of Some i \<Rightarrow> Reusing tag i | None \<Rightarrow> Refused))"

definition compare_exchange :: "lc_zone \<Rightarrow> nat \<Rightarrow> u64 \<Rightarrow> u64 \<Rightarrow> lc_zone \<times> bool" where
  "compare_exchange z i expected new =
    (if lc_slot z i = expected then (lc_store z i new, True) else (z, False))"

fun lc_exec :: "lc_zone \<Rightarrow> lc_pc \<Rightarrow> lc_zone \<times> lc_pc" where
  "lc_exec z (Probing tag limit p reusable) =
    (let i = lc_index z tag p; w = lc_slot z i
     in (z, if w = 0 then Claiming tag limit p reusable
            else if tag_of w = tag then Incr i tag limit
            else lc_next_probe tag limit p
              (if reusable = None \<and> count_of w = 0 then Some i else reusable)))"
| "lc_exec z (Claiming tag limit p reusable) =
    (let i = lc_index z tag p
     in case compare_exchange z i 0 (pack tag 1) of
          (z', True) \<Rightarrow> (z', Holding i tag)
        | (z', False) \<Rightarrow>
            (z', if tag_of (lc_slot z i) = tag then Incr i tag limit
                 else lc_next_probe tag limit p reusable))"
| "lc_exec z (Reusing tag i) =
    (let w = lc_slot z i in (z, if count_of w = 0 then Takeover tag i w else Refused))"
| "lc_exec z (Takeover tag i w) =
    (case compare_exchange z i w (pack tag 1) of
       (z', True) \<Rightarrow> (z', Holding i tag) | (z', False) \<Rightarrow> (z', Refused))"
| "lc_exec z (Incr i tag limit) =
    (let w = lc_slot z i; count = count_of w
     in (z, if w \<noteq> 0 \<and> tag_of w \<noteq> tag then Refused
            else if limit \<le> count \<or> COUNT_MASK \<le> count then Refused
            else IncrCas i tag limit w))"
| "lc_exec z (IncrCas i tag limit w) =
    (case compare_exchange z i w (pack tag (count_of w + 1)) of
       (z', True) \<Rightarrow> (z', Holding i tag) | (z', False) \<Rightarrow> (z', Incr i tag limit))"
| "lc_exec z (Releasing i tag) =
    (let w = lc_slot z i
     in (z, if tag_of w \<noteq> tag \<or> count_of w = 0 then Idle else ReleaseCas i tag w))"
| "lc_exec z (ReleaseCas i tag w) =
    (case compare_exchange z i w (pack tag (count_of w - 1)) of
       (z', True) \<Rightarrow> (z', Idle) | (z', False) \<Rightarrow> (z', Releasing i tag))"
| "lc_exec z Refused = (z, Idle)"
| "lc_exec z Idle = (z, Idle)"
| "lc_exec z (Holding i tag) = (z, Holding i tag)"

definition lc_start :: "lc_zone \<Rightarrow> bytes \<Rightarrow> u32 \<Rightarrow> lc_pc" where
  "lc_start z key limit = Probing (lc_tag z key) (ucast (min limit MAX_CONNS)) 0 None"

type_synonym lc_sys = "lc_zone \<times> lc_pc list"

text \<open>
  One step of the system: an idle worker starts a request with a limit between 1 and \<open>L\<close>, a
  worker ends its request, or a worker executes its next atomic operation.
\<close>

inductive lc_step :: "u32 \<Rightarrow> lc_sys \<Rightarrow> lc_sys \<Rightarrow> bool" for L :: u32 where
  begin_acquire: "\<lbrakk>t < length ths; ths ! t = Idle; 1 \<le> limit; limit \<le> L\<rbrakk>
    \<Longrightarrow> lc_step L (z, ths) (z, ths[t := lc_start z key limit])"
| begin_release: "\<lbrakk>t < length ths; ths ! t = Holding i tag\<rbrakk>
    \<Longrightarrow> lc_step L (z, ths) (z, ths[t := Releasing i tag])"
| atomic_op: "\<lbrakk>t < length ths; lc_exec z (ths ! t) = (z', pc')\<rbrakk>
    \<Longrightarrow> lc_step L (z, ths) (z', ths[t := pc'])"

inductive_cases lc_stepE: "lc_step L s s'"

definition lc_init :: "lc_sys \<Rightarrow> bool" where
  "lc_init s \<longleftrightarrow>
    (\<exists>entries sd n. entries \<le> 2 ^ 62 \<and> s = (lc_zone_new entries sd, replicate n Idle))"

section \<open>The slot word\<close>

abbreviation lc_tag_ok :: "u64 \<Rightarrow> bool" where
  "lc_tag_ok t \<equiv> t \<noteq> 0 \<and> unat t < 2 ^ 48"

lemma unat_count_of: "unat (count_of w) = unat w mod 2 ^ 16"
proof -
  have "count_of w = take_bit 16 w"
    by (simp add: count_of_def take_bit_eq_mask mask_eq_exp_minus_1)
  then show ?thesis by (simp add: unsigned_take_bit_eq take_bit_eq_mod [where 'a = nat])
qed

lemma unat_tag_of: "unat (tag_of w) = unat w div 2 ^ 16"
  by (simp add: tag_of_def unat_drop_bit_eq drop_bit_eq_div [where 'a = nat])

lemma unat_pack:
  assumes "unat t < 2 ^ 48"
  shows "unat (pack t c) = 2 ^ 16 * unat t + unat c mod 2 ^ 16"
proof -
  have c: "unat (c AND COUNT_MASK) = unat c mod 2 ^ 16"
    using unat_count_of [of c] by (simp add: count_of_def)
  then have "unat (c AND COUNT_MASK) < 2 ^ 16" by simp
  then show ?thesis
    using assms unfolding pack_def by (subst unat_or_push) (simp_all add: c)
qed

lemma tag_of_pack [simp]: "unat t < 2 ^ 48 \<Longrightarrow> tag_of (pack t c) = t"
  by (rule unat_eqI) (simp only: unat_tag_of unat_pack, simp)

lemma unat_count_of_pack: "unat t < 2 ^ 48 \<Longrightarrow> unat (count_of (pack t c)) = unat c mod 2 ^ 16"
  by (simp only: unat_count_of unat_pack) simp

lemma count_of_pack_1 [simp]: "unat t < 2 ^ 48 \<Longrightarrow> count_of (pack t 1) = 1"
  by (rule unat_eqI) (simp only: unat_count_of_pack, simp)

lemma pack_nonzero [simp]: "lc_tag_ok t \<Longrightarrow> pack t c \<noteq> 0"
  by (metis tag_of_pack drop_bit_of_0 tag_of_def)

lemma count_tag_0 [simp]: "count_of 0 = 0" "tag_of 0 = 0"
  by (simp_all add: count_of_def tag_of_def)

lemma unat_count_less [simp]: "unat (count_of w) < 65536"
  by (simp add: unat_count_of)

lemma count_of_pack_Suc:
  assumes "unat t < 2 ^ 48" "count_of w < COUNT_MASK"
  shows "unat (count_of (pack t (count_of w + 1))) = Suc (unat (count_of w))"
proof -
  have c: "unat (count_of w) < 65535" using assms(2) by (simp add: word_less_nat_alt)
  then have "unat (count_of w + 1) = Suc (unat (count_of w))"
    by (simp add: unat_word_ariths)
  with c show ?thesis by (simp add: unat_count_of_pack [OF assms(1)])
qed

lemma count_of_pack_pred:
  assumes "unat t < 2 ^ 48" "count_of w \<noteq> 0"
  shows "Suc (unat (count_of (pack t (count_of w - 1)))) = unat (count_of w)"
proof -
  have c: "0 < unat (count_of w)" using assms(2) by (simp add: unat_gt_0)
  then have "unat (count_of w - 1) = unat (count_of w) - 1"
    by (simp add: unat_sub word_le_nat_alt)
  moreover have "unat (count_of w) - 1 < 65536" using unat_count_less [of w] by linarith
  ultimately show ?thesis using c by (simp add: unat_count_of_pack [OF assms(1)])
qed

section \<open>The table\<close>

lemma lc_tag_ok: "lc_tag_ok (lc_tag z key)"
proof -
  have "unat ((h XOR drop_bit 48 h) AND 0xFFFFFFFFFFFF) < 2 ^ 48" for h :: u64
  proof -
    have "(h XOR drop_bit 48 h) AND 0xFFFFFFFFFFFF = take_bit 48 (h XOR drop_bit 48 h)"
      by (simp add: take_bit_eq_mask mask_eq_exp_minus_1)
    then show ?thesis by (simp only: unsigned_take_bit_eq) (simp add: take_bit_eq_mod [where 'a = nat])
  qed
  then show ?thesis by (simp add: lc_tag_def Let_def)
qed

definition lc_wf :: "lc_zone \<Rightarrow> bool" where
  "lc_wf z \<longleftrightarrow> (\<exists>k < 64. lc_slots z = 2 ^ k) \<and> length (lc_mem z) = lc_slots z"

lemma lc_index_less [simp]: "lc_wf z \<Longrightarrow> lc_index z tag p < lc_slots z"
proof -
  assume "lc_wf z"
  then obtain k where k: "k < 64" "lc_slots z = 2 ^ k" by (auto simp: lc_wf_def)
  have "(of_nat (lc_slots z - 1) :: u64) = mask k" by (simp add: k(2) mask_eq_exp_minus_1 of_nat_diff)
  then have "lc_index z tag p = unat (take_bit k ((tag AND mask k) + of_nat p))"
    by (simp add: lc_index_def Let_def take_bit_eq_mask)
  then show ?thesis
    by (simp add: k unsigned_take_bit_eq take_bit_eq_mod [where 'a = nat])
qed

lemma lc_index_eq:
  "lc_wf z \<Longrightarrow> unat ((tag + of_nat p) AND of_nat (lc_slots z - 1)) = lc_index z tag p"
proof -
  assume "lc_wf z"
  then obtain k where k: "k < 64" "lc_slots z = 2 ^ k" by (auto simp: lc_wf_def)
  have m: "(of_nat (lc_slots z - 1) :: u64) = mask k" by (simp add: k(2) mask_eq_exp_minus_1 of_nat_diff)
  have "take_bit k (take_bit k tag + of_nat p) = take_bit k (tag + of_nat p)"
    by (rule take_bit_word_add_left) (use k in simp)
  then show ?thesis unfolding lc_index_def Let_def m take_bit_eq_mask by simp
qed

lemma next_power_of_two_pow: "n \<le> 2 ^ 62 \<Longrightarrow> \<exists>k < 64. next_power_of_two n = 2 ^ k"
proof -
  have "\<exists>k'. next_power_of_two_from f (2 ^ k) n = 2 ^ k'" for f k
  proof (induction f arbitrary: k)
    case (Suc f)
    show ?case using Suc [of "Suc k"] by auto
  qed auto
  from this [of 64 0] obtain k where k: "next_power_of_two n = 2 ^ k" by (auto simp: next_power_of_two_def)
  assume "n \<le> 2 ^ 62"
  then have "(2 :: nat) ^ k \<le> 2 ^ 63"
    using next_power_of_two_from_le [of 64 1 n] k unfolding next_power_of_two_def by simp
  then have "k \<le> 63" using power_increasing_iff [of "2 :: nat" k 63] by simp
  with k show ?thesis by (intro exI [of _ k]) simp
qed

lemma lc_zone_new_wf: "n \<le> 2 ^ 62 \<Longrightarrow> lc_wf (lc_zone_new n sd)"
proof -
  assume "n \<le> 2 ^ 62"
  then obtain k where "k < 64" "next_power_of_two n = 2 ^ k" using next_power_of_two_pow by auto
  then have "\<exists>k < 64. max (next_power_of_two n) 64 = 2 ^ k"
    by (cases "64 \<le> (2 :: nat) ^ k") (auto simp: max_def intro: exI [of _ k] exI [of _ 6])
  then show ?thesis by (simp add: lc_wf_def lc_zone_new_def Let_def)
qed

lemma lc_store_simps [simp]:
  "lc_slots (lc_store z i w) = lc_slots z" "lc_seed (lc_store z i w) = lc_seed z"
  "lc_tag (lc_store z i w) key = lc_tag z key" "lc_index (lc_store z i w) tag p = lc_index z tag p"
  "lc_wf (lc_store z i w) = lc_wf z"
  by (simp_all add: lc_store_def lc_tag_def lc_index_def lc_wf_def Let_def)

lemma lc_slot_store [simp]:
  "lc_wf z \<Longrightarrow> i < lc_slots z \<Longrightarrow> lc_slot (lc_store z i w) j = (if j = i then w else lc_slot z j)"
  by (auto simp: lc_slot_def lc_store_def lc_wf_def)

section \<open>The invariant of the interleaved system\<close>

fun owns :: "nat \<Rightarrow> u64 \<Rightarrow> lc_pc \<Rightarrow> bool" where
  "owns i t (Holding j u) \<longleftrightarrow> j = i \<and> u = t"
| "owns i t (Releasing j u) \<longleftrightarrow> j = i \<and> u = t"
| "owns i t (ReleaseCas j u w) \<longleftrightarrow> j = i \<and> u = t"
| "owns i t _ \<longleftrightarrow> False"

definition owners :: "nat \<Rightarrow> u64 \<Rightarrow> lc_pc list \<Rightarrow> nat" where
  "owners i t ths = length (filter (owns i t) ths)"

text \<open>What each point of the code may rely on about its own registers.\<close>

fun pc_ok :: "u32 \<Rightarrow> nat \<Rightarrow> lc_pc \<Rightarrow> bool" where
  "pc_ok L n (Probing t l p r) \<longleftrightarrow> 1 \<le> L \<and> lc_tag_ok t \<and> l \<le> ucast L \<and> (\<forall>i. r = Some i \<longrightarrow> i < n)"
| "pc_ok L n (Claiming t l p r) \<longleftrightarrow> 1 \<le> L \<and> lc_tag_ok t \<and> l \<le> ucast L \<and> (\<forall>i. r = Some i \<longrightarrow> i < n)"
| "pc_ok L n (Reusing t i) \<longleftrightarrow> 1 \<le> L \<and> lc_tag_ok t \<and> i < n"
| "pc_ok L n (Takeover t i w) \<longleftrightarrow> 1 \<le> L \<and> lc_tag_ok t \<and> i < n \<and> count_of w = 0"
| "pc_ok L n (Incr i t l) \<longleftrightarrow> lc_tag_ok t \<and> i < n \<and> l \<le> ucast L"
| "pc_ok L n (IncrCas i t l w) \<longleftrightarrow>
     lc_tag_ok t \<and> i < n \<and> l \<le> ucast L \<and> (w = 0 \<or> tag_of w = t) \<and> count_of w < l \<and> count_of w < COUNT_MASK"
| "pc_ok L n (Holding i t) \<longleftrightarrow> lc_tag_ok t \<and> i < n"
| "pc_ok L n (Releasing i t) \<longleftrightarrow> lc_tag_ok t \<and> i < n"
| "pc_ok L n (ReleaseCas i t w) \<longleftrightarrow> lc_tag_ok t \<and> i < n \<and> tag_of w = t \<and> count_of w \<noteq> 0"
| "pc_ok L n _ \<longleftrightarrow> True"

text \<open>
  Exact accounting of one slot: its count is the number of workers that hold a guard for its
  tag, nobody holds a guard of that slot for another tag, and the limit is respected.
\<close>

definition slot_ok :: "u32 \<Rightarrow> u64 \<Rightarrow> nat \<Rightarrow> lc_pc list \<Rightarrow> bool" where
  "slot_ok L w i ths \<longleftrightarrow>
     unat (count_of w) = owners i (tag_of w) ths \<and> (\<forall>t. t \<noteq> tag_of w \<longrightarrow> owners i t ths = 0) \<and>
     count_of w \<le> ucast L"

definition lc_inv :: "u32 \<Rightarrow> lc_sys \<Rightarrow> bool" where
  "lc_inv L s = (case s of (z, ths) \<Rightarrow>
     lc_wf z \<and> list_all (pc_ok L (lc_slots z)) ths \<and> (\<forall>i < lc_slots z. slot_ok L (lc_slot z i) i ths))"

lemma length_filter_update:
  "k < length xs \<Longrightarrow>
   length (filter P (xs[k := x])) + of_bool (P (xs ! k)) = length (filter P xs) + of_bool (P x)"
proof (induction xs arbitrary: k)
  case (Cons y ys)
  then show ?case by (cases k) auto
qed simp

lemma owners_update:
  "k < length ths \<Longrightarrow>
   owners i t (ths[k := pc]) + of_bool (owns i t (ths ! k)) = owners i t ths + of_bool (owns i t pc)"
  unfolding owners_def by (rule length_filter_update)

lemma owners_update_same:
  "k < length ths \<Longrightarrow> owns i t pc = owns i t (ths ! k) \<Longrightarrow> owners i t (ths[k := pc]) = owners i t ths"
  using owners_update [of k ths i t pc] by simp

lemma slot_ok_frame:
  "slot_ok L w i ths \<Longrightarrow> k < length ths \<Longrightarrow> (\<And>t. owns i t pc = owns i t (ths ! k)) \<Longrightarrow>
   slot_ok L w i (ths[k := pc])"
  by (simp add: slot_ok_def owners_update_same)

text \<open>Steps that change no slot and no ownership keep the invariant.\<close>

lemma lc_inv_local:
  assumes "lc_inv L (z, ths)" "k < length ths" "pc_ok L (lc_slots z) pc"
    and "\<And>i t. i < lc_slots z \<Longrightarrow> owns i t pc = owns i t (ths ! k)"
  shows "lc_inv L (z, ths[k := pc])"
  using assms
  by (auto simp: lc_inv_def list_all_length nth_list_update intro!: slot_ok_frame)

text \<open>A compare-exchange that succeeds: one slot and the ownership of that slot change.\<close>

lemma lc_inv_cas:
  assumes inv: "lc_inv L (z, ths)" and k: "k < length ths" "pc_ok L (lc_slots z) pc" and i: "i < lc_slots z"
    and other: "\<And>j t. j \<noteq> i \<Longrightarrow> owns j t pc = owns j t (ths ! k)"
    and slot: "slot_ok L (lc_slot z i) i ths \<Longrightarrow> slot_ok L new i (ths[k := pc])"
  shows "lc_inv L (lc_store z i new, ths[k := pc])"
proof -
  have wf: "lc_wf z" using inv by (simp add: lc_inv_def)
  have "slot_ok L (lc_slot (lc_store z i new) j) j (ths[k := pc])" if j: "j < lc_slots z" for j
  proof (cases "j = i")
    case True
    with slot inv i wf show ?thesis by (simp add: lc_inv_def)
  next
    case False
    then have "slot_ok L (lc_slot z j) j (ths[k := pc])"
      using inv j other k(1) by (intro slot_ok_frame) (auto simp: lc_inv_def)
    with False wf i show ?thesis by simp
  qed
  with inv wf k show ?thesis by (simp add: lc_inv_def list_all_length nth_list_update)
qed

text \<open>The three ways a slot changes hands.\<close>

lemma slot_ok_first:
  assumes "slot_ok L w i ths" "count_of w = 0" "k < length ths" "lc_tag_ok t" "1 \<le> L"
    and "\<And>u. \<not> owns i u (ths ! k)"
  shows "slot_ok L (pack t 1) i (ths[k := Holding i t])"
proof -
  have none: "owners i u ths = 0" for u using assms(1,2) by (cases "u = tag_of w") (auto simp: slot_ok_def)
  have one: "owners i u (ths[k := Holding i t]) = of_bool (u = t)" for u
    using owners_update [OF assms(3), of i u "Holding i t"] assms(6) [of u] none [of u] by auto
  have "(1 :: u64) \<le> ucast L" using assms(5) by (simp add: word_le_nat_alt)
  with one assms(4) show ?thesis by (simp add: slot_ok_def)
qed

lemma slot_ok_increment:
  assumes "slot_ok L w i ths" "w = 0 \<or> tag_of w = t" "count_of w < l" "count_of w < COUNT_MASK"
    and "l \<le> ucast L" "k < length ths" "lc_tag_ok t" "\<And>u. \<not> owns i u (ths ! k)"
  shows "slot_ok L (pack t (count_of w + 1)) i (ths[k := Holding i t])"
proof -
  have c: "unat (count_of (pack t (count_of w + 1))) = Suc (unat (count_of w))"
    by (rule count_of_pack_Suc) (use assms in auto)
  have own: "owners i u ths = (if u = t then unat (count_of w) else 0)" for u
    using assms(1,2) by (cases "u = 0") (auto simp: slot_ok_def)
  have new: "owners i u (ths[k := Holding i t]) = owners i u ths + of_bool (u = t)" for u
    using owners_update [OF assms(6), of i u "Holding i t"] assms(8) [of u] by auto
  have "unat (count_of w) < unat l" "unat l \<le> unat L"
    using assms(3,5) by (auto simp: word_less_nat_alt word_le_nat_alt)
  then have "count_of (pack t (count_of w + 1)) \<le> ucast L"
    using c by (simp add: word_le_nat_alt)
  with c own new assms(7) show ?thesis by (simp add: slot_ok_def)
qed

lemma slot_ok_release:
  assumes "slot_ok L w i ths" "tag_of w = t" "count_of w \<noteq> 0" "k < length ths" "lc_tag_ok t"
    and "\<And>u. owns i u (ths ! k) = (u = t)"
  shows "slot_ok L (pack t (count_of w - 1)) i (ths[k := Idle])"
proof -
  have c: "Suc (unat (count_of (pack t (count_of w - 1)))) = unat (count_of w)"
    by (rule count_of_pack_pred) (use assms in auto)
  have own: "owners i u ths = (if u = t then unat (count_of w) else 0)" for u
    using assms(1,2) by (auto simp: slot_ok_def)
  have new: "owners i u (ths[k := Idle]) + of_bool (u = t) = owners i u ths" for u
    using owners_update [OF assms(4), of i u Idle] assms(6) [of u] by simp
  have "owners i u (ths[k := Idle]) = (if u = t then unat (count_of (pack t (count_of w - 1))) else 0)" for u
    using new [of u] own [of u] c by (simp split: if_splits)
  moreover have "count_of (pack t (count_of w - 1)) \<le> ucast L"
    using c assms(1) by (simp add: slot_ok_def word_le_nat_alt)
  ultimately show ?thesis using assms(5) by (simp add: slot_ok_def)
qed

lemma lc_next_probe_facts [simp]:
  "owns i t (lc_next_probe tag l p r) = False"
  "pc_ok L n (Probing tag l p r) \<Longrightarrow> pc_ok L n (lc_next_probe tag l p r)"
  by (auto simp: lc_next_probe_def split: option.splits)

lemma lc_inv_owner:
  assumes "lc_inv L (z, ths)" "k < length ths" "owns i t (ths ! k)" "i < lc_slots z"
  shows "tag_of (lc_slot z i) = t" "count_of (lc_slot z i) \<noteq> 0"
proof -
  have "0 < owners i t ths" using assms(2,3) by (auto simp: owners_def filter_empty_conv)
  moreover have "slot_ok L (lc_slot z i) i ths" using assms(1,4) by (simp add: lc_inv_def)
  ultimately show "tag_of (lc_slot z i) = t" "count_of (lc_slot z i) \<noteq> 0"
    unfolding slot_ok_def by (metis less_numeral_extra(3), metis less_numeral_extra(3) unat_0)
qed

lemma lc_inv_exec:
  assumes inv: "lc_inv L (z, ths)" and k: "k < length ths"
    and ex: "lc_exec z (ths ! k) = (z', pc')"
  shows "lc_inv L (z', ths[k := pc'])"
proof -
  have wf: "lc_wf z" using inv by (simp add: lc_inv_def)
  have ok: "pc_ok L (lc_slots z) (ths ! k)" using inv k by (simp add: lc_inv_def list_all_length)
  note local = lc_inv_local [OF inv k]
  show ?thesis
  proof (cases "ths ! k")
    case (Probing t l p r)
    with ex ok wf have "z' = z" "pc_ok L (lc_slots z) pc'" "\<And>i u. \<not> owns i u pc'"
      by (auto simp: Let_def split: if_splits)
    with Probing show ?thesis by (auto intro!: local)
  next
    case (Claiming t l p r)
    show ?thesis
    proof (cases "lc_slot z (lc_index z t p) = 0")
      case True
      with Claiming ex have "z' = lc_store z (lc_index z t p) (pack t 1)" "pc' = Holding (lc_index z t p) t"
        by (auto simp: compare_exchange_def Let_def)
      moreover have "lc_inv L (lc_store z (lc_index z t p) (pack t 1), ths[k := Holding (lc_index z t p) t])"
        by (rule lc_inv_cas [OF inv k _ _ _ slot_ok_first]) (use Claiming True ok wf k in auto)
      ultimately show ?thesis by simp
    next
      case False
      with Claiming ex ok wf have "z' = z" "pc_ok L (lc_slots z) pc'" "\<And>i u. \<not> owns i u pc'"
        by (auto simp: Let_def compare_exchange_def split: if_splits)
      with Claiming show ?thesis by (auto intro!: local)
    qed
  next
    case (Reusing t i)
    with ex ok have "z' = z" "pc_ok L (lc_slots z) pc'" "\<And>i u. \<not> owns i u pc'"
      by (auto simp: Let_def split: if_splits)
    with Reusing show ?thesis by (auto intro!: local)
  next
    case (Takeover t i w)
    show ?thesis
    proof (cases "lc_slot z i = w")
      case True
      with Takeover ex have "z' = lc_store z i (pack t 1)" "pc' = Holding i t"
        by (auto simp: compare_exchange_def)
      moreover have "lc_inv L (lc_store z i (pack t 1), ths[k := Holding i t])"
        by (rule lc_inv_cas [OF inv k _ _ _ slot_ok_first]) (use Takeover True ok k in auto)
      ultimately show ?thesis by simp
    next
      case False
      with Takeover ex have "z' = z" "pc' = Refused" by (auto simp: compare_exchange_def)
      with Takeover show ?thesis by (auto intro!: local)
    qed
  next
    case (Incr i t l)
    with ex ok have "z' = z" "pc_ok L (lc_slots z) pc'" "\<And>i u. \<not> owns i u pc'"
      by (auto simp: Let_def not_le split: if_splits)
    with Incr show ?thesis by (auto intro!: local)
  next
    case (IncrCas i t l w)
    show ?thesis
    proof (cases "lc_slot z i = w")
      case True
      with IncrCas ex have "z' = lc_store z i (pack t (count_of w + 1))" "pc' = Holding i t"
        by (auto simp: compare_exchange_def)
      moreover have "lc_inv L (lc_store z i (pack t (count_of w + 1)), ths[k := Holding i t])"
        by (rule lc_inv_cas [OF inv k _ _ _ slot_ok_increment]) (use IncrCas True ok k in auto)
      ultimately show ?thesis by simp
    next
      case False
      with IncrCas ex ok have "z' = z" "pc_ok L (lc_slots z) pc'" "\<And>i u. \<not> owns i u pc'"
        by (auto simp: compare_exchange_def)
      with IncrCas show ?thesis by (auto intro!: local)
    qed
  next
    case (Releasing i t)
    have "tag_of (lc_slot z i) = t" "count_of (lc_slot z i) \<noteq> 0"
      by (rule lc_inv_owner [OF inv k], use Releasing ok in simp_all)+
    with Releasing ex ok have "z' = z" "pc' = ReleaseCas i t (lc_slot z i)" "pc_ok L (lc_slots z) pc'"
      by (auto simp: Let_def)
    with Releasing show ?thesis by (auto intro!: local)
  next
    case (ReleaseCas i t w)
    show ?thesis
    proof (cases "lc_slot z i = w")
      case True
      with ReleaseCas ex have "z' = lc_store z i (pack t (count_of w - 1))" "pc' = Idle"
        by (auto simp: compare_exchange_def)
      moreover have "lc_inv L (lc_store z i (pack t (count_of w - 1)), ths[k := Idle])"
        by (rule lc_inv_cas [OF inv k _ _ _ slot_ok_release]) (use ReleaseCas True ok k in auto)
      ultimately show ?thesis by simp
    next
      case False
      with ReleaseCas ex ok have "z' = z" "pc' = Releasing i t" by (auto simp: compare_exchange_def)
      with ReleaseCas ok show ?thesis by (auto intro!: local)
    qed
  next
    case Refused
    with ex local [of Idle] show ?thesis by auto
  qed (use ex inv list_update_id [of ths k] in auto)
qed

lemma lc_inv_lc_step: "lc_inv L s \<Longrightarrow> lc_step L s s' \<Longrightarrow> lc_inv L s'"
proof (erule lc_stepE)
  fix t ths limit z key
  assume inv: "lc_inv L s" and s: "s = (z, ths)" "s' = (z, ths[t := lc_start z key limit])"
    and t: "t < length ths" "ths ! t = Idle" and l: "limit \<le> L" "1 \<le> limit"
  have "min limit 65535 \<le> L" using l by (simp add: min.coboundedI1)
  then have "ucast (min limit 65535) \<le> (ucast L :: u64)" by (simp add: word_le_nat_alt)
  then have "pc_ok L (lc_slots z) (lc_start z key limit)"
    using lc_tag_ok [of z key] order_trans [OF l(2,1)] by (simp add: lc_start_def)
  with inv s t show "lc_inv L s'" by (auto intro!: lc_inv_local simp: lc_start_def)
next
  fix t ths i tag z
  assume inv: "lc_inv L s" and s: "s = (z, ths)" "s' = (z, ths[t := Releasing i tag])"
    and t: "t < length ths" "ths ! t = Holding i tag"
  have "pc_ok L (lc_slots z) (ths ! t)" using inv s(1) t(1) by (simp add: lc_inv_def list_all_length)
  with inv s t show "lc_inv L s'" by (simp add: lc_inv_local)
qed (auto intro: lc_inv_exec)

lemma lc_inv_init: "lc_init s \<Longrightarrow> lc_inv L s"
  using lc_zone_new_wf
  by (auto simp: lc_init_def lc_inv_def list_all_length slot_ok_def owners_def lc_slot_def
      lc_zone_new_def Let_def)

interpretation lcsys: invariant_system lc_init "lc_step L" "lc_inv L" for L
  by unfold_locales (auto intro: lc_inv_init lc_inv_lc_step)

section \<open>One worker alone\<close>

fun lc_finished :: "lc_pc \<Rightarrow> bool" where
  "lc_finished Idle = True"
| "lc_finished Refused = True"
| "lc_finished (Holding i t) = True"
| "lc_finished _ = False"

fun lc_run :: "nat \<Rightarrow> lc_zone \<Rightarrow> lc_pc \<Rightarrow> lc_zone \<times> lc_pc" where
  "lc_run 0 z pc = (z, pc)"
| "lc_run (Suc n) z pc =
    (if lc_finished pc then (z, pc) else (case lc_exec z pc of (z', pc') \<Rightarrow> lc_run n z' pc'))"

definition lc_outcome :: "lc_zone \<times> guard option \<Rightarrow> lc_zone \<times> lc_pc" where
  "lc_outcome r = (fst r, case snd r of Some (i, t) \<Rightarrow> Holding i t | None \<Rightarrow> Refused)"

lemma lc_run_finished [simp]: "lc_finished pc \<Longrightarrow> lc_run n z pc = (z, pc)"
  by (cases n) auto

lemma lc_run_Incr: "2 \<le> n \<Longrightarrow> lc_run n z (Incr i t l) = lc_outcome (lc_increment z i t l)"
proof -
  assume "2 \<le> n"
  then obtain m where n: "n = Suc (Suc m)" by (auto dest: le_Suc_ex)
  show ?thesis
    by (simp add: n lc_increment_def lc_outcome_def Let_def compare_exchange_def)
qed

lemma lc_run_Reusing:
  "2 \<le> n \<Longrightarrow> lc_run n z (case r of Some i \<Rightarrow> Reusing t i | None \<Rightarrow> Refused) = lc_outcome (lc_probe z t l r [])"
proof -
  assume "2 \<le> n"
  then obtain m where n: "n = Suc (Suc m)" by (auto dest: le_Suc_ex)
  show ?thesis
    by (cases r) (simp_all add: n lc_outcome_def Let_def compare_exchange_def)
qed

lemma lc_run_Probing_step:
  assumes m: "2 \<le> m" and p: "p < 16"
    and nxt: "\<And>r. lc_run m z (lc_next_probe t l p r) = lc_outcome (lc_probe z t l r [Suc p..<16])"
  shows "lc_run (Suc m) z (Probing t l p r) = lc_outcome (lc_probe z t l r [p..<16])"
proof -
  let ?i = "lc_index z t p"
  have u: "[p..<16] = p # [Suc p..<16]" using p by (simp add: upt_rec [of p])
  obtain m' where m': "m = Suc m'" using m by (cases m) auto
  consider "lc_slot z ?i = 0" | "lc_slot z ?i \<noteq> 0" "tag_of (lc_slot z ?i) = t"
    | "lc_slot z ?i \<noteq> 0" "tag_of (lc_slot z ?i) \<noteq> t" by blast
  then show ?thesis
  proof cases
    case 1
    then show ?thesis by (simp add: u m' Let_def compare_exchange_def lc_outcome_def)
  next
    case 2
    have "lc_run (Suc m) z (Probing t l p r) = lc_run m z (Incr ?i t l)"
      using 2 by (simp add: Let_def)
    with 2 show ?thesis by (simp add: u lc_run_Incr [OF m] Let_def)
  next
    case 3
    have "lc_run (Suc m) z (Probing t l p r)
      = lc_run m z (lc_next_probe t l p (if r = None \<and> count_of (lc_slot z ?i) = 0 then Some ?i else r))"
      using 3 by (simp add: Let_def)
    with 3 show ?thesis by (simp add: u nxt Let_def)
  qed
qed

lemma lc_run_Probing:
  assumes "p < 16" "18 \<le> n + p"
  shows "lc_run n z (Probing t l p r) = lc_outcome (lc_probe z t l r [p..<16])"
  using assms
proof (induction "16 - Suc p" arbitrary: p n r)
  case (0 p)
  then have p: "p = 15" by simp
  obtain m where n: "n = Suc m" "2 \<le> m" using "0.prems" p by (cases n) auto
  show ?case
    unfolding n(1) by (rule lc_run_Probing_step [OF n(2) "0.prems"(1)])
      (use lc_run_Reusing [OF n(2)] in \<open>simp add: p lc_next_probe_def\<close>)
next
  case (Suc d p)
  have sp: "Suc p < 16" using Suc.hyps(2) by simp
  obtain m where n: "n = Suc m" "18 \<le> m + Suc p" using Suc.prems by (cases n) auto
  have "lc_run m z (Probing t l (Suc p) r') = lc_outcome (lc_probe z t l r' [Suc p..<16])" for r'
    by (rule Suc.hyps(1)) (use Suc.hyps(2) sp n(2) in auto)
  with sp n(2) show ?case
    unfolding n(1) by (intro lc_run_Probing_step) (simp_all add: lc_next_probe_def)
qed

section \<open>The sequential operations\<close>

lemma lc_count_from_eq:
  "lc_wf z \<Longrightarrow> lc_count_from z tag (p # ps) =
    (let w = lc_slot z (lc_index z tag p)
     in if w = 0 then 0 else if tag_of w = tag then count_of w else lc_count_from z tag ps)"
  by (simp only: lc_count_from.simps lc_index_eq)

declare lc_count_from.simps(2) [simp del]

lemma lc_release_store:
  assumes "lc_wf z" "i < lc_slots z" "lc_tag_ok tag"
  shows "lc_release (lc_store z i (pack tag c)) (i, tag) =
    (if count_of (pack tag c) = 0 then lc_store z i (pack tag c)
     else lc_store z i (pack tag (count_of (pack tag c) - 1)))"
  using assms by (simp add: lc_release_def Let_def) (simp add: lc_store_def)

text \<open>
  What a probe of the remaining window does: \<open>busy\<close> are the slots it passed over, which hold
  other keys; a refusal leaves the table alone.
\<close>

definition lc_busy :: "lc_zone \<Rightarrow> u64 \<Rightarrow> nat list \<Rightarrow> bool" where
  "lc_busy z tag ps \<longleftrightarrow>
    (\<forall>p\<in>set ps. let w = lc_slot z (lc_index z tag p) in tag_of w \<noteq> tag \<and> count_of w \<noteq> 0)"

lemma lc_increment_cases:
  assumes "lc_wf z" "i < lc_slots z" "lc_tag_ok tag" "tag_of (lc_slot z i) = tag" "l \<le> COUNT_MASK"
  shows "(lc_increment z i tag l = (z, None) \<and> l \<le> count_of (lc_slot z i)) \<or>
    (lc_increment z i tag l = (lc_store z i (pack tag (count_of (lc_slot z i) + 1)), Some (i, tag))
      \<and> count_of (lc_slot z i) < l)"
  using assms(4,5) by (auto simp: lc_increment_def Let_def not_le)

text \<open>The table after a slot of the window went to the key: the key's count is read there.\<close>

lemma lc_count_from_store:
  assumes wf: "lc_wf z" "lc_tag_ok tag"
    and pre: "\<forall>q\<in>set qs. lc_slot z (lc_index z tag q) \<noteq> 0 \<and> tag_of (lc_slot z (lc_index z tag q)) \<noteq> tag"
  shows "lc_count_from (lc_store z (lc_index z tag p) (pack tag c)) tag (qs @ p # ps)
    = count_of (pack tag c)"
  using pre
proof (induction qs)
  case Nil
  then show ?case using wf by (simp add: lc_count_from_eq Let_def)
next
  case (Cons q qs)
  then show ?case
    using wf by (cases "lc_index z tag q = lc_index z tag p") (simp_all add: lc_count_from_eq Let_def)
qed

lemma lc_probe_result:
  assumes wf: "lc_wf z" "lc_tag_ok tag" "l \<le> COUNT_MASK" "1 \<le> l"
    and pre: "\<forall>q\<in>set qs. lc_slot z (lc_index z tag q) \<noteq> 0 \<and> tag_of (lc_slot z (lc_index z tag q)) \<noteq> tag"
    and reus: "case r of None \<Rightarrow> lc_busy z tag qs
       | Some i \<Rightarrow> (\<exists>q\<in>set qs. i = lc_index z tag q) \<and> count_of (lc_slot z i) = 0"
  shows "(lc_probe z tag l r ps = (z, None) \<and> (l \<le> lc_count_from z tag ps \<or> lc_busy z tag (qs @ ps))) \<or>
    (\<exists>p c. p \<in> set (qs @ ps) \<and> lc_probe z tag l r ps = (lc_store z (lc_index z tag p) (pack tag (c + 1)),
        Some (lc_index z tag p, tag)) \<and> lc_count_from z tag ps = c \<and> c < l \<and>
      (\<exists>qs' ps'. qs @ ps = qs' @ p # ps' \<and> (\<forall>q\<in>set qs'. lc_slot z (lc_index z tag q) \<noteq> 0
         \<and> tag_of (lc_slot z (lc_index z tag q)) \<noteq> tag)))"
  using pre reus
proof (induction ps arbitrary: qs r)
  case Nil
  show ?case
  proof (cases r)
    case None
    with Nil show ?thesis by simp
  next
    case (Some i)
    with Nil(2) obtain q where q: "q \<in> set qs" "i = lc_index z tag q" "count_of (lc_slot z i) = 0" by auto
    from split_list [OF q(1)] obtain a b where ab: "qs = a @ q # b" by blast
    have "0 < l" using wf(4) by (simp add: word_le_nat_alt word_less_nat_alt)
    with Some q ab Nil(1) show ?thesis
      by (intro disjI2 exI [of _ q] exI [of _ 0]) (auto simp: Let_def)
  qed
next
  case (Cons p ps)
  let ?i = "lc_index z tag p" and ?w = "lc_slot z (lc_index z tag p)"
  consider "?w = 0" | "?w \<noteq> 0" "tag_of ?w = tag" | "?w \<noteq> 0" "tag_of ?w \<noteq> tag" by blast
  then show ?case
  proof cases
    case 1
    have "0 < l" using wf(4) by (simp add: word_le_nat_alt word_less_nat_alt)
    with 1 Cons.prems(1) wf(1) show ?thesis
      by (intro disjI2 exI [of _ p] exI [of _ 0]) (auto simp: Let_def lc_count_from_eq)
  next
    case 2
    then have pr: "lc_probe z tag l r (p # ps) = lc_increment z ?i tag l"
      and c: "lc_count_from z tag (p # ps) = count_of ?w"
      using wf(1) by (simp_all add: Let_def lc_count_from_eq)
    show ?thesis
      using lc_increment_cases [OF wf(1) lc_index_less [OF wf(1)] wf(2) 2(2) wf(3)] Cons.prems(1)
      unfolding pr c by (elim disjE) auto
  next
    case 3
    let ?r = "if r = None \<and> count_of ?w = 0 then Some ?i else r"
    have pr: "lc_probe z tag l r (p # ps) = lc_probe z tag l ?r ps"
      and c: "lc_count_from z tag (p # ps) = lc_count_from z tag ps"
      using 3 wf(1) by (simp_all add: Let_def lc_count_from_eq)
    have "\<forall>q\<in>set (qs @ [p]). lc_slot z (lc_index z tag q) \<noteq> 0 \<and> tag_of (lc_slot z (lc_index z tag q)) \<noteq> tag"
      using 3 Cons.prems(1) by auto
    moreover have "case ?r of None \<Rightarrow> lc_busy z tag (qs @ [p])
       | Some i \<Rightarrow> (\<exists>q\<in>set (qs @ [p]). i = lc_index z tag q) \<and> count_of (lc_slot z i) = 0"
      using 3 Cons.prems(2) by (cases r) (auto simp: lc_busy_def Let_def)
    ultimately show ?thesis using Cons.IH [of "qs @ [p]" ?r] unfolding pr c by simp
  qed
qed

section \<open>Properties\<close>

text \<open>C6.
  Exact accounting under concurrency. However any number of workers interleave their loads and
  compare-exchanges, in every reachable state each slot's count is exactly the number of requests
  in flight that hold a guard of that slot for the slot's tag, no request holds a guard of the slot
  for another tag, and no slot's count exceeds the largest configured limit.
\<close>

theorem limit_conn_exact:
  assumes "reachable lc_init (lc_step L) (z, ths)" "i < lc_slots z"
  shows "unat (count_of (lc_slot z i)) = owners i (tag_of (lc_slot z i)) ths
    \<and> (\<forall>t. t \<noteq> tag_of (lc_slot z i) \<longrightarrow> owners i t ths = 0)
    \<and> unat (count_of (lc_slot z i)) \<le> unat L"
proof -
  have "slot_ok L (lc_slot z i) i ths"
    using lcsys.reachable_inv [OF assms(1)] assms(2) by (simp add: lc_inv_def)
  then show ?thesis by (auto simp: slot_ok_def word_le_nat_alt)
qed

definition lc_demo_zone :: lc_zone where
  "lc_demo_zone = lc_zone_new 1 0"

definition lc_demo_slot :: nat where
  "lc_demo_slot = lc_index lc_demo_zone (lc_tag lc_demo_zone (bs ''k'')) 0"

definition lc_demo_held :: lc_zone where
  "lc_demo_held = lc_store lc_demo_zone lc_demo_slot (pack (lc_tag lc_demo_zone (bs ''k'')) 1)"

lemma lc_demo_wf [simp]: "lc_wf lc_demo_zone"
  unfolding lc_demo_zone_def by (rule lc_zone_new_wf) simp

lemma lc_demo_empty [simp]: "i < lc_slots lc_demo_zone \<Longrightarrow> lc_slot lc_demo_zone i = 0"
  by (simp add: lc_demo_zone_def lc_zone_new_def lc_slot_def Let_def)

lemma lc_demo_slot_less [simp]: "lc_demo_slot < lc_slots lc_demo_zone"
  by (simp add: lc_demo_slot_def)

text \<open>One worker of two, with a request admitted.\<close>

lemma lc_demo_reachable:
  "reachable lc_init (lc_step 1)
     (lc_demo_held, [Holding lc_demo_slot (lc_tag lc_demo_zone (bs ''k'')), Idle])"
proof -
  let ?t = "lc_tag lc_demo_zone (bs ''k'')"
  have "lc_init (lc_demo_zone, [Idle, Idle])"
    unfolding lc_init_def lc_demo_zone_def
    by (intro exI [of _ 1] exI [of _ 0] exI [of _ 2]) (simp add: numeral_2_eq_2)
  note r0 = reach_init [of lc_init, OF this, of "lc_step 1"]
  have "lc_step 1 (lc_demo_zone, [Idle, Idle]) (lc_demo_zone, [Probing ?t 1 0 None, Idle])"
    using lc_step.begin_acquire [of 0 "[Idle, Idle]" 1 1 lc_demo_zone "bs ''k''"]
    by (simp add: lc_start_def)
  note r1 = reach_step [OF r0 this]
  have "lc_step 1 (lc_demo_zone, [Probing ?t 1 0 None, Idle]) (lc_demo_zone, [Claiming ?t 1 0 None, Idle])"
    using lc_step.atomic_op [of 0 "[Probing ?t 1 0 None, Idle]" lc_demo_zone]
    by (simp add: Let_def del: bs_simps)
  note r2 = reach_step [OF r1 this]
  have "lc_step 1 (lc_demo_zone, [Claiming ?t 1 0 None, Idle]) (lc_demo_held, [Holding lc_demo_slot ?t, Idle])"
    using lc_step.atomic_op [of 0 "[Claiming ?t 1 0 None, Idle]" lc_demo_zone]
    by (simp add: Let_def compare_exchange_def lc_demo_held_def lc_demo_slot_def del: bs_simps)
  from reach_step [OF r2 this] show ?thesis .
qed

theorem limit_conn_exact_witness:
  "unat (count_of (lc_slot lc_demo_held lc_demo_slot)) \<le> 1"
  using limit_conn_exact [OF lc_demo_reachable, of lc_demo_slot]
  by (simp add: lc_demo_held_def)

text \<open>
  Releases never miss. In every reachable state a worker that is about to give its slot back
  finds its tag there with a count above zero, so its next operation is the decrementing
  compare-exchange and never the silent return; and when no request is in flight no slot holds a
  live count.
\<close>

theorem limit_conn_release_exact:
  assumes "reachable lc_init (lc_step L) (z, ths)"
  shows "(\<forall>k < length ths. \<forall>i t. ths ! k = Releasing i t \<longrightarrow>
      lc_exec z (ths ! k) = (z, ReleaseCas i t (lc_slot z i)))
    \<and> (list_all (\<lambda>pc. pc = Idle) ths \<longrightarrow> lc_active z = 0)"
proof -
  have inv: "lc_inv L (z, ths)" by (rule lcsys.reachable_inv [OF assms])
  have "lc_exec z (ths ! k) = (z, ReleaseCas i t (lc_slot z i))"
    if k: "k < length ths" and pc: "ths ! k = Releasing i t" for k i t
  proof -
    have "pc_ok L (lc_slots z) (ths ! k)" using inv k by (simp add: lc_inv_def list_all_length)
    then have "i < lc_slots z" using pc by simp
    with lc_inv_owner [OF inv k] pc show ?thesis by (simp add: Let_def)
  qed
  moreover have "lc_active z = 0" if "list_all (\<lambda>pc. pc = Idle) ths"
  proof -
    have o: "owners i t ths = 0" for i t using that by (auto simp: owners_def list_all_iff filter_empty_conv)
    have "count_of (lc_slot z i) = 0" if "i < lc_slots z" for i
      using inv that o by (intro unat_eqI) (simp add: lc_inv_def slot_ok_def)
    then show ?thesis by (simp add: lc_active_def filter_empty_conv)
  qed
  ultimately show ?thesis by blast
qed

theorem limit_conn_release_exact_witness:
  "\<exists>z' i t. lc_exec lc_demo_held (Releasing lc_demo_slot (lc_tag lc_demo_zone (bs ''k'')))
     = (z', ReleaseCas i t (lc_slot lc_demo_held lc_demo_slot))"
proof -
  let ?t = "lc_tag lc_demo_zone (bs ''k'')"
  have "lc_step 1 (lc_demo_held, [Holding lc_demo_slot ?t, Idle]) (lc_demo_held, [Releasing lc_demo_slot ?t, Idle])"
    using lc_step.begin_release [of 0 "[Holding lc_demo_slot ?t, Idle]"] by simp
  from limit_conn_release_exact [OF reach_step [OF lc_demo_reachable this]] show ?thesis
    by (metis length_Cons nth_Cons_0 zero_less_Suc)
qed

text \<open>
  A worker that is not interfered with ends its acquisition within 18 atomic operations, and
  ends it with the table and the answer of the sequential \<open>lc_acquire\<close>.
\<close>

theorem limit_conn_solo_run:
  "lc_run (18 + n) z (lc_start z key limit) =
     (fst (lc_acquire z key limit),
      case snd (lc_acquire z key limit) of Some (i, t) \<Rightarrow> Holding i t | None \<Rightarrow> Refused)"
  by (simp only: lc_start_def lc_acquire_def lc_outcome_def [symmetric]) (rule lc_run_Probing; simp)

text \<open>
  The limit, sequentially: \<open>acquire\<close> refuses, leaving the table alone, only when the key has
  \<open>limit\<close> requests in flight or every slot of its probe window is busy with another key; otherwise
  the key was below its limit, its count goes up by one, and dropping the guard brings it back.
\<close>

theorem limit_conn_acquire_spec:
  assumes "lc_wf z" "1 \<le> limit" "limit \<le> MAX_CONNS"
  shows "case lc_acquire z key limit of
      (z', None) \<Rightarrow> z' = z \<and>
        (unat limit \<le> unat (lc_count z key) \<or> lc_busy z (lc_tag z key) [0..<LC_PROBE])
    | (z', Some g) \<Rightarrow> unat (lc_count z key) < unat limit
        \<and> unat (lc_count z' key) = Suc (unat (lc_count z key))
        \<and> lc_count (lc_release z' g) key = lc_count z key"
proof -
  let ?tag = "lc_tag z key" and ?l = "ucast (min limit MAX_CONNS) :: u64"
  have l: "?l = ucast limit" "?l \<le> COUNT_MASK" "1 \<le> ?l"
    using assms(2,3) by (simp_all add: min_def word_le_nat_alt)
  have tag: "lc_tag_ok ?tag" by (rule lc_tag_ok)
  note res = lc_probe_result [OF assms(1) tag l(2,3), of "[]" None "[0..<16]"]
  from res consider
      "lc_acquire z key limit = (z, None)" "?l \<le> lc_count z key \<or> lc_busy z ?tag [0..<16]"
    | p c qs ps where "lc_acquire z key limit = (lc_store z (lc_index z ?tag p) (pack ?tag (c + 1)),
        Some (lc_index z ?tag p, ?tag))" "lc_count z key = c" "c < ?l" "[0..<16] = qs @ p # ps"
        "\<forall>q\<in>set qs. lc_slot z (lc_index z ?tag q) \<noteq> 0 \<and> tag_of (lc_slot z (lc_index z ?tag q)) \<noteq> ?tag"
    unfolding lc_acquire_def lc_count_def by (auto simp: lc_busy_def)
  then show ?thesis
  proof cases
    case 1
    then show ?thesis by (simp add: l(1) word_le_nat_alt)
  next
    case 2
    have c: "unat c < unat limit" "unat limit \<le> 65535"
      using 2(3) l(1) assms(3) by (simp_all add: word_less_nat_alt word_le_nat_alt)
    have c1: "unat (c + 1) = Suc (unat c)" using c by (simp add: unat_word_ariths)
    have cp: "unat (count_of (pack ?tag (c + 1))) = Suc (unat c)"
      using c c1 tag by (simp add: unat_count_of_pack)
    have ne: "count_of (pack ?tag (c + 1)) \<noteq> 0" using cp by (metis nat.distinct(1) unat_0)
    have undo: "count_of (pack ?tag (count_of (pack ?tag (c + 1)) - 1)) = c"
      using count_of_pack_pred [of ?tag "pack ?tag (c + 1)"] tag ne cp by (simp add: unat_eqI)
    have store: "lc_count (lc_store z (lc_index z ?tag p) (pack ?tag d)) key = count_of (pack ?tag d)" for d
      unfolding lc_count_def lc_store_simps 2(4) by (rule lc_count_from_store [OF assms(1) tag 2(5)])
    show ?thesis
      using c 2(1,2) cp undo ne tag assms(1) by (simp add: store lc_release_store)
  qed
qed

theorem limit_conn_acquire_spec_witness:
  "unat (lc_count lc_demo_held (bs ''k'')) = Suc (unat (lc_count lc_demo_zone (bs ''k'')))"
proof -
  let ?t = "lc_tag lc_demo_zone (bs ''k'')"
  have "lc_acquire lc_demo_zone (bs ''k'') 1 = (lc_demo_held, Some (lc_demo_slot, ?t))"
    by (simp add: lc_acquire_def upt_rec [of 0] Let_def lc_demo_held_def lc_demo_slot_def del: bs_simps)
  with limit_conn_acquire_spec [of lc_demo_zone 1 "bs ''k''"] show ?thesis by (simp del: bs_simps)
qed

end
