(* ===== verification/Huffman.thy ===== *)
theory Huffman
  imports Prelude
begin

text \<open>
  The Huffman code of HPACK and QPACK strings (\<^verbatim>\<open>src/http2/huffman.rs\<close>): the code table, the
  encoder with its 64-bit accumulator, the decoding tree built from the table, and the decoder
  with its output limit and padding rules. The main result is that the decoder accepts exactly the
  encoder's output: every string has one accepted encoding, and nothing else is accepted.
\<close>

section \<open>Definitions\<close>

text \<open>Code and bit length for the symbols 0 to 255 and EOS.\<close>

definition TABLE :: "(u32 \<times> nat) list" where
  "TABLE = [
   (0x1ff8, 13), (0x7fffd8, 23), (0xfffffe2, 28), (0xfffffe3, 28), (0xfffffe4, 28), (0xfffffe5, 28),
   (0xfffffe6, 28), (0xfffffe7, 28), (0xfffffe8, 28), (0xffffea, 24), (0x3ffffffc, 30), (0xfffffe9, 28),
   (0xfffffea, 28), (0x3ffffffd, 30), (0xfffffeb, 28), (0xfffffec, 28), (0xfffffed, 28), (0xfffffee, 28),
   (0xfffffef, 28), (0xffffff0, 28), (0xffffff1, 28), (0xffffff2, 28), (0x3ffffffe, 30), (0xffffff3, 28),
   (0xffffff4, 28), (0xffffff5, 28), (0xffffff6, 28), (0xffffff7, 28), (0xffffff8, 28), (0xffffff9, 28),
   (0xffffffa, 28), (0xffffffb, 28), (0x14, 6), (0x3f8, 10), (0x3f9, 10), (0xffa, 12),
   (0x1ff9, 13), (0x15, 6), (0xf8, 8), (0x7fa, 11), (0x3fa, 10), (0x3fb, 10),
   (0xf9, 8), (0x7fb, 11), (0xfa, 8), (0x16, 6), (0x17, 6), (0x18, 6),
   (0x0, 5), (0x1, 5), (0x2, 5), (0x19, 6), (0x1a, 6), (0x1b, 6),
   (0x1c, 6), (0x1d, 6), (0x1e, 6), (0x1f, 6), (0x5c, 7), (0xfb, 8),
   (0x7ffc, 15), (0x20, 6), (0xffb, 12), (0x3fc, 10), (0x1ffa, 13), (0x21, 6),
   (0x5d, 7), (0x5e, 7), (0x5f, 7), (0x60, 7), (0x61, 7), (0x62, 7),
   (0x63, 7), (0x64, 7), (0x65, 7), (0x66, 7), (0x67, 7), (0x68, 7),
   (0x69, 7), (0x6a, 7), (0x6b, 7), (0x6c, 7), (0x6d, 7), (0x6e, 7),
   (0x6f, 7), (0x70, 7), (0x71, 7), (0x72, 7), (0xfc, 8), (0x73, 7),
   (0xfd, 8), (0x1ffb, 13), (0x7fff0, 19), (0x1ffc, 13), (0x3ffc, 14), (0x22, 6),
   (0x7ffd, 15), (0x3, 5), (0x23, 6), (0x4, 5), (0x24, 6), (0x5, 5),
   (0x25, 6), (0x26, 6), (0x27, 6), (0x6, 5), (0x74, 7), (0x75, 7),
   (0x28, 6), (0x29, 6), (0x2a, 6), (0x7, 5), (0x2b, 6), (0x76, 7),
   (0x2c, 6), (0x8, 5), (0x9, 5), (0x2d, 6), (0x77, 7), (0x78, 7),
   (0x79, 7), (0x7a, 7), (0x7b, 7), (0x7ffe, 15), (0x7fc, 11), (0x3ffd, 14),
   (0x1ffd, 13), (0xffffffc, 28), (0xfffe6, 20), (0x3fffd2, 22), (0xfffe7, 20), (0xfffe8, 20),
   (0x3fffd3, 22), (0x3fffd4, 22), (0x3fffd5, 22), (0x7fffd9, 23), (0x3fffd6, 22), (0x7fffda, 23),
   (0x7fffdb, 23), (0x7fffdc, 23), (0x7fffdd, 23), (0x7fffde, 23), (0xffffeb, 24), (0x7fffdf, 23),
   (0xffffec, 24), (0xffffed, 24), (0x3fffd7, 22), (0x7fffe0, 23), (0xffffee, 24), (0x7fffe1, 23),
   (0x7fffe2, 23), (0x7fffe3, 23), (0x7fffe4, 23), (0x1fffdc, 21), (0x3fffd8, 22), (0x7fffe5, 23),
   (0x3fffd9, 22), (0x7fffe6, 23), (0x7fffe7, 23), (0xffffef, 24), (0x3fffda, 22), (0x1fffdd, 21),
   (0xfffe9, 20), (0x3fffdb, 22), (0x3fffdc, 22), (0x7fffe8, 23), (0x7fffe9, 23), (0x1fffde, 21),
   (0x7fffea, 23), (0x3fffdd, 22), (0x3fffde, 22), (0xfffff0, 24), (0x1fffdf, 21), (0x3fffdf, 22),
   (0x7fffeb, 23), (0x7fffec, 23), (0x1fffe0, 21), (0x1fffe1, 21), (0x3fffe0, 22), (0x1fffe2, 21),
   (0x7fffed, 23), (0x3fffe1, 22), (0x7fffee, 23), (0x7fffef, 23), (0xfffea, 20), (0x3fffe2, 22),
   (0x3fffe3, 22), (0x3fffe4, 22), (0x7ffff0, 23), (0x3fffe5, 22), (0x3fffe6, 22), (0x7ffff1, 23),
   (0x3ffffe0, 26), (0x3ffffe1, 26), (0xfffeb, 20), (0x7fff1, 19), (0x3fffe7, 22), (0x7ffff2, 23),
   (0x3fffe8, 22), (0x1ffffec, 25), (0x3ffffe2, 26), (0x3ffffe3, 26), (0x3ffffe4, 26), (0x7ffffde, 27),
   (0x7ffffdf, 27), (0x3ffffe5, 26), (0xfffff1, 24), (0x1ffffed, 25), (0x7fff2, 19), (0x1fffe3, 21),
   (0x3ffffe6, 26), (0x7ffffe0, 27), (0x7ffffe1, 27), (0x3ffffe7, 26), (0x7ffffe2, 27), (0xfffff2, 24),
   (0x1fffe4, 21), (0x1fffe5, 21), (0x3ffffe8, 26), (0x3ffffe9, 26), (0xffffffd, 28), (0x7ffffe3, 27),
   (0x7ffffe4, 27), (0x7ffffe5, 27), (0xfffec, 20), (0xfffff3, 24), (0xfffed, 20), (0x1fffe6, 21),
   (0x3fffe9, 22), (0x1fffe7, 21), (0x1fffe8, 21), (0x7ffff3, 23), (0x3fffea, 22), (0x3fffeb, 22),
   (0x1ffffee, 25), (0x1ffffef, 25), (0xfffff4, 24), (0xfffff5, 24), (0x3ffffea, 26), (0x7ffff4, 23),
   (0x3ffffeb, 26), (0x7ffffe6, 27), (0x3ffffec, 26), (0x3ffffed, 26), (0x7ffffe7, 27), (0x7ffffe8, 27),
   (0x7ffffe9, 27), (0x7ffffea, 27), (0x7ffffeb, 27), (0xffffffe, 28), (0x7ffffec, 27), (0x7ffffed, 27),
   (0x7ffffee, 27), (0x7ffffef, 27), (0x7fffff0, 27), (0x3ffffee, 26), (0x3fffffff, 30)]"

abbreviation EOS :: nat where "EOS \<equiv> 256"

definition encoded_len :: "bytes \<Rightarrow> nat" where
  "encoded_len input = (let bits = sum_list (map (\<lambda>b. snd (TABLE ! unat b)) input) in (bits + 7) div 8)"

text \<open>The inner loop: while eight bits or more are held, push the topmost byte.\<close>

function flush_acc :: "u64 \<Rightarrow> nat \<Rightarrow> bytes \<Rightarrow> nat \<times> bytes" where
  "flush_acc acc n out =
    (if 8 \<le> n then flush_acc acc (n - 8) (out @ [ucast (drop_bit (n - 8) acc)]) else (n, out))"
  by pat_completeness auto
termination
  by (relation "measure (\<lambda>(_, n, _). n)") auto

declare flush_acc.simps [simp del]

fun encode_loop :: "u64 \<Rightarrow> nat \<Rightarrow> bytes \<Rightarrow> bytes \<Rightarrow> u64 \<times> nat \<times> bytes" where
  "encode_loop acc n out [] = (acc, n, out)"
| "encode_loop acc n out (b # input) =
    (let (code, len) = TABLE ! unat b;
         acc = push_bit len acc OR ucast code;
         (n, out) = flush_acc acc (n + len) out
     in encode_loop acc n out input)"

definition huff_encode :: "bytes \<Rightarrow> bytes" where
  "huff_encode input =
    (case encode_loop 0 0 [] input of (acc, n, out) \<Rightarrow>
      if 0 < n
      then (let pad = 8 - n in out @ [ucast ((push_bit pad acc OR (push_bit pad 1 - 1)) AND 0xff)])
      else out)"

text \<open>The decoding tree: an array of nodes, \<open>NONE\<close> for a missing child.\<close>

abbreviation NONE :: nat where "NONE \<equiv> 65535"

record huff_node =
  child0 :: nat
  child1 :: nat
  symbol :: "nat option"

definition child :: "huff_node \<Rightarrow> bool \<Rightarrow> nat" where
  "child n b = (if b then child1 n else child0 n)"

definition set_child :: "huff_node \<Rightarrow> bool \<Rightarrow> nat \<Rightarrow> huff_node" where
  "set_child n b i = (if b then n\<lparr>child1 := i\<rparr> else n\<lparr>child0 := i\<rparr>)"

abbreviation empty_node :: huff_node where
  "empty_node \<equiv> \<lparr>child0 = NONE, child1 = NONE, symbol = None\<rparr>"

definition code_bits :: "u32 \<times> nat \<Rightarrow> bool list" where
  "code_bits e = (case e of (code, len) \<Rightarrow> map (bit code) (rev [0..<len]))"

fun tree_insert_bits :: "huff_node list \<Rightarrow> nat \<Rightarrow> bool list \<Rightarrow> huff_node list \<times> nat" where
  "tree_insert_bits nodes cur [] = (nodes, cur)"
| "tree_insert_bits nodes cur (b # bits) =
    (let nodes' =
       (if child (nodes ! cur) b = NONE
        then (let nodes = nodes @ [empty_node]; idx = length nodes - 1
              in nodes[cur := set_child (nodes ! cur) b idx])
        else nodes)
     in tree_insert_bits nodes' (child (nodes' ! cur) b) bits)"

definition tree_insert :: "huff_node list \<Rightarrow> nat \<Rightarrow> u32 \<times> nat \<Rightarrow> huff_node list" where
  "tree_insert nodes smb e =
    (case tree_insert_bits nodes 0 (code_bits e) of (nodes', cur) \<Rightarrow>
       nodes'[cur := (nodes' ! cur)\<lparr>symbol := Some smb\<rparr>])"

fun tree_build :: "huff_node list \<Rightarrow> nat \<Rightarrow> (u32 \<times> nat) list \<Rightarrow> huff_node list" where
  "tree_build nodes smb [] = nodes"
| "tree_build nodes smb (e # es) = tree_build (tree_insert nodes smb e) (Suc smb) es"

definition tree :: "huff_node list" where
  "tree = tree_build [empty_node] 0 TABLE"

text \<open>
  The walk along the all-ones path; it ends because the path does, and the number of nodes is
  enough steps (\<open>all_ones_terminates\<close>).
\<close>

fun all_ones_loop :: "nat \<Rightarrow> nat \<Rightarrow> nat \<Rightarrow> bool option" where
  "all_ones_loop 0 cur node = None"
| "all_ones_loop (Suc fuel) cur node =
    (if cur = node then Some True
     else (let nxt = child (tree ! cur) True
           in if nxt = NONE then Some False else all_ones_loop fuel nxt node))"

definition is_all_ones_prefix :: "nat \<Rightarrow> bool" where
  "is_all_ones_prefix node = (all_ones_loop (length tree) 0 node = Some True)"

text \<open>The bits of a byte, most significant first.\<close>

definition byte_bits :: "u8 \<Rightarrow> bool list" where
  "byte_bits b = map (bit b) (rev [0..<8])"

fun decode_bits :: "nat \<Rightarrow> nat \<Rightarrow> nat \<Rightarrow> bytes \<Rightarrow> bool list \<Rightarrow> (nat \<times> nat \<times> bytes) option" where
  "decode_bits limit node consumed_bits out [] = Some (node, consumed_bits, out)"
| "decode_bits limit node consumed_bits out (b # bits) =
    (let nxt = child (tree ! node) b
     in if nxt = NONE then None
        else (case symbol (tree ! nxt) of
            Some smb \<Rightarrow>
              if smb = EOS then None
              else if limit \<le> length out then None
              else decode_bits limit 0 0 (out @ [of_nat smb]) bits
          | None \<Rightarrow> decode_bits limit nxt (consumed_bits + 1) out bits))"

fun decode_bytes :: "nat \<Rightarrow> nat \<Rightarrow> nat \<Rightarrow> bytes \<Rightarrow> bytes \<Rightarrow> (nat \<times> nat \<times> bytes) option" where
  "decode_bytes limit node consumed_bits out [] = Some (node, consumed_bits, out)"
| "decode_bytes limit node consumed_bits out (byte # input) =
    (case decode_bits limit node consumed_bits out (byte_bits byte) of
       None \<Rightarrow> None
     | Some (node, consumed_bits, out) \<Rightarrow> decode_bytes limit node consumed_bits out input)"

text \<open>\<open>None\<close> is the decoder's error.\<close>

definition huff_decode :: "bytes \<Rightarrow> nat \<Rightarrow> bytes option" where
  "huff_decode input limit =
    (case decode_bytes limit 0 0 [] input of
       None \<Rightarrow> None
     | Some (node, consumed_bits, out) \<Rightarrow>
         if 7 < consumed_bits then None
         else if 0 < consumed_bits \<and> \<not> is_all_ones_prefix node then None
         else Some out)"

section \<open>The code is prefix-free\<close>

text \<open>Splitting a set of codes by the first bit decides whether one is a prefix of another.\<close>

fun prefix_free :: "nat \<Rightarrow> bool list list \<Rightarrow> bool" where
  "prefix_free 0 cs = (cs = [])"
| "prefix_free (Suc d) cs =
    (cs = [] \<or> cs = [[]] \<or>
     (list_all (\<lambda>c. c \<noteq> []) cs \<and>
      prefix_free d (map tl (filter hd cs)) \<and> prefix_free d (map tl (filter (Not \<circ> hd) cs))))"

lemma table_prefix_free: "prefix_free 31 (map code_bits TABLE)"
  by code_simp

lemma table_length [simp]: "length TABLE = 257"
  by (simp add: TABLE_def)

lemma table_codes: "list_all (\<lambda>(code, len). 5 \<le> len \<and> len \<le> 30 \<and> code < 2 ^ len) TABLE"
  by (simp add: TABLE_def)

lemma table_eos: "code_bits (TABLE ! EOS) = replicate 30 True"
  by code_simp

section \<open>The tree is the trie of the codes\<close>

text \<open>\<open>ps ! i\<close> is the path from the root to node \<open>i\<close>.\<close>

definition trie :: "huff_node list \<Rightarrow> bool list list \<Rightarrow> bool" where
  "trie nodes ps \<longleftrightarrow>
     length nodes = length ps \<and> distinct ps \<and> ps \<noteq> [] \<and> ps ! 0 = [] \<and>
     (\<forall>p b. p @ [b] \<in> set ps \<longrightarrow> p \<in> set ps) \<and>
     (\<forall>i b. i < length ps \<longrightarrow>
        (if ps ! i @ [b] \<in> set ps
         then child (nodes ! i) b < length ps \<and> ps ! child (nodes ! i) b = ps ! i @ [b]
         else child (nodes ! i) b = NONE))"

lemma child_set_child [simp]:
  "child (set_child n b i) c = (if c = b then i else child n c)"
  "symbol (set_child n b i) = symbol n" "child (n\<lparr>symbol := s\<rparr>) c = child n c" "child empty_node c = NONE"
  by (auto simp: set_child_def child_def)

lemma trie_empty: "trie [empty_node] [[]]"
  by (simp add: trie_def)

lemma trie_symbol: "trie nodes ps \<Longrightarrow> trie (nodes[k := (nodes ! k)\<lparr>symbol := s\<rparr>]) ps"
  unfolding trie_def by (cases "k < length nodes") (auto simp: nth_list_update)

lemma trie_child:
  assumes "trie nodes ps" "i < length ps"
  shows "ps ! i @ [b] \<in> set ps \<Longrightarrow> child (nodes ! i) b < length ps \<and> ps ! child (nodes ! i) b = ps ! i @ [b]"
    "ps ! i @ [b] \<notin> set ps \<Longrightarrow> child (nodes ! i) b = NONE"
  using assms unfolding trie_def by metis+

lemma trie_push:
  assumes t: "trie nodes ps" and cur: "cur < length ps" and new: "ps ! cur @ [b] \<notin> set ps"
  shows "trie ((nodes @ [empty_node])[cur := set_child (nodes ! cur) b (length nodes)]) (ps @ [ps ! cur @ [b]])"
    (is "trie ?nodes ?ps")
proof -
  have len: "length nodes = length ps" and d: "distinct ps" and ne: "ps \<noteq> []" "ps ! 0 = []"
    and cl: "\<And>p c. p @ [c] \<in> set ps \<Longrightarrow> p \<in> set ps"
    using t by (auto simp: trie_def)
  have leaf: "ps ! cur @ [b, c] \<notin> set ps" for c
    using cl [of "ps ! cur @ [b]" c] new by auto
  have kids: "if ?ps ! i @ [c] \<in> set ?ps
      then child (?nodes ! i) c < length ?ps \<and> ?ps ! child (?nodes ! i) c = ?ps ! i @ [c]
      else child (?nodes ! i) c = NONE" if i: "i < length ?ps" for i c
  proof (cases "i = length ps")
    case True
    with leaf len cur show ?thesis by (auto simp: nth_append)
  next
    case False
    with i have i': "i < length ps" by simp
    show ?thesis
    proof (cases "i = cur \<and> c = b")
      case True
      with cur len show ?thesis by (auto simp: nth_append)
    next
      case ne: False
      have "ps ! i @ [c] \<noteq> ps ! cur @ [b]" using ne d i' cur by (auto simp: nth_eq_iff_index_eq)
      moreover have "child (?nodes ! i) c = child (nodes ! i) c"
        using ne i' len cur by (auto simp: nth_append nth_list_update)
      ultimately show ?thesis
        using trie_child [OF t i', of c] i' by (auto simp: nth_append)
    qed
  qed
  have closed: "p \<in> set ?ps" if "p @ [c] \<in> set ?ps" for p c
    using that cl cur by auto
  have rest: "length ?nodes = length ?ps" "distinct ?ps" "?ps \<noteq> []" "?ps ! 0 = []"
    using ne len d new by (simp_all add: nth_append)
  show ?thesis
    unfolding trie_def using kids closed rest by (intro conjI allI impI) (assumption | blast)+
qed

lemma trie_insert_bits:
  assumes "trie nodes ps" "cur < length ps" "tree_insert_bits nodes cur bits = (nodes', cur')"
    "\<forall>i < length ps. symbol (nodes ! i) = tab (ps ! i)" "\<forall>p. p \<notin> set ps \<longrightarrow> tab p = None"
    "length ps + length bits \<le> NONE"
  shows "\<exists>qs. trie nodes' qs \<and> cur' < length qs \<and> qs ! cur' = ps ! cur @ bits \<and>
    set qs = set ps \<union> {ps ! cur @ take k bits | k. k \<le> length bits} \<and>
    (\<forall>i < length qs. symbol (nodes' ! i) = tab (qs ! i)) \<and> length qs \<le> length ps + length bits"
  using assms
proof (induction bits arbitrary: nodes cur ps)
  case Nil
  then show ?case by (intro exI [of _ ps]) auto
next
  case (Cons b bits)
  have split: "{ps ! cur @ take k (b # bits) | k. k \<le> length (b # bits)}
    = {ps ! cur} \<union> {(ps ! cur @ [b]) @ take k bits | k. k \<le> length bits}" (is "?l = ?r")
  proof
    show "?l \<subseteq> ?r"
    proof
      fix p assume "p \<in> ?l"
      then obtain k where "p = ps ! cur @ take k (b # bits)" "k \<le> Suc (length bits)" by auto
      then show "p \<in> ?r" by (cases k) auto
    qed
    show "?r \<subseteq> ?l"
    proof
      fix p assume "p \<in> ?r"
      then consider "p = ps ! cur" | k where "p = (ps ! cur @ [b]) @ take k bits" "k \<le> length bits" by auto
      then show "p \<in> ?l"
      proof cases
        case 1
        then show ?thesis by (auto intro: exI [of _ 0])
      next
        case 2
        then show ?thesis by (auto intro: exI [of _ "Suc k"])
      qed
    qed
  qed
  have len: "length nodes = length ps" using Cons.prems(1) by (simp add: trie_def)
  have small: "cur < length nodes" using Cons.prems(2) len by simp
  show ?case
  proof (cases "ps ! cur @ [b] \<in> set ps")
    case True
    note c = trie_child(1) [OF Cons.prems(1,2) True]
    then have "child (nodes ! cur) b \<noteq> NONE" using Cons.prems(6) by auto
    with Cons.prems(3) have "tree_insert_bits nodes (child (nodes ! cur) b) bits = (nodes', cur')" by simp
    from Cons.IH [OF Cons.prems(1) _ this Cons.prems(4,5)] c Cons.prems(6)
    obtain qs where qs: "trie nodes' qs" "cur' < length qs" "qs ! cur' = (ps ! cur @ [b]) @ bits"
      "set qs = set ps \<union> {(ps ! cur @ [b]) @ take k bits | k. k \<le> length bits}"
      "\<forall>i < length qs. symbol (nodes' ! i) = tab (qs ! i)" "length qs \<le> length ps + length bits" by auto
    have "set qs = set ps \<union> {ps ! cur @ take k (b # bits) | k. k \<le> length (b # bits)}"
      unfolding qs(4) split using Cons.prems(2) by auto
    with qs show ?thesis by (intro exI [of _ qs]) simp
  next
    case False
    let ?nodes = "(nodes @ [empty_node])[cur := set_child (nodes ! cur) b (length nodes)]"
    let ?ps = "ps @ [ps ! cur @ [b]]"
    have "child (nodes ! cur) b = NONE" by (rule trie_child(2) [OF Cons.prems(1,2) False])
    with Cons.prems(3) small have ins: "tree_insert_bits ?nodes (length nodes) bits = (nodes', cur')"
      by (simp add: Let_def nth_append)
    have sy: "\<forall>i < length ?ps. symbol (?nodes ! i) = tab (?ps ! i)"
    proof (intro allI impI)
      fix i assume "i < length ?ps"
      then consider "i < length ps" | "i = length ps" by fastforce
      then show "symbol (?nodes ! i) = tab (?ps ! i)"
      proof cases
        case 1
        with Cons.prems(4) len show ?thesis by (cases "i = cur") (auto simp: nth_append)
      next
        case 2
        with Cons.prems(5) False len small show ?thesis by (simp add: nth_append)
      qed
    qed
    have nt: "\<forall>p. p \<notin> set ?ps \<longrightarrow> tab p = None" using Cons.prems(5) by simp
    have "length nodes < length ?ps" "?ps ! length nodes = ps ! cur @ [b]" using len by simp_all
    from Cons.IH [OF trie_push [OF Cons.prems(1,2) False] this(1) ins sy nt] this(2) Cons.prems(6)
    obtain qs where qs: "trie nodes' qs" "cur' < length qs" "qs ! cur' = (ps ! cur @ [b]) @ bits"
      "set qs = set ?ps \<union> {(ps ! cur @ [b]) @ take k bits | k. k \<le> length bits}"
      "\<forall>i < length qs. symbol (nodes' ! i) = tab (qs ! i)" "length qs \<le> length ?ps + length bits" by auto
    have "ps ! cur @ [b] \<in> {(ps ! cur @ [b]) @ take k bits | k. k \<le> length bits}"
      by (auto intro: exI [of _ 0])
    then have "set qs = set ps \<union> {ps ! cur @ take k (b # bits) | k. k \<le> length (b # bits)}"
      unfolding qs(4) split using Cons.prems(2) by auto
    with qs show ?thesis by (intro exI [of _ qs]) simp
  qed
qed

text \<open>What the finished tree is: its nodes are the prefixes of the codes, its symbols sit at the codes.\<close>

definition tree_of :: "huff_node list \<Rightarrow> bool list list \<Rightarrow> (u32 \<times> nat) list \<Rightarrow> (bool list \<rightharpoonup> nat) \<Rightarrow> bool" where
  "tree_of nodes ps es tab \<longleftrightarrow>
     trie nodes ps \<and> set ps = insert [] {take k (code_bits e) | e k. e \<in> set es \<and> k \<le> length (code_bits e)} \<and>
     (\<forall>i < length ps. symbol (nodes ! i) = tab (ps ! i)) \<and> (\<forall>p. p \<notin> set ps \<longrightarrow> tab p = None)"

lemma tree_of_insert:
  assumes t: "tree_of nodes ps es tab" and n: "length ps + length (code_bits e) \<le> NONE"
  shows "\<exists>qs. tree_of (tree_insert nodes smb e) qs (es @ [e]) (tab(code_bits e \<mapsto> smb))
    \<and> length qs \<le> length ps + length (code_bits e)"
proof -
  obtain nodes' cur where ins: "tree_insert_bits nodes 0 (code_bits e) = (nodes', cur)" by fastforce
  have ps1: "trie nodes ps" using t by (simp add: tree_of_def)
  then have ps: "trie nodes ps" "ps ! 0 = []" "0 < length ps" by (simp_all add: trie_def)
  obtain qs where qs: "trie nodes' qs" "cur < length qs" "qs ! cur = code_bits e"
      "set qs = set ps \<union> {take k (code_bits e) | k. k \<le> length (code_bits e)}"
      "\<forall>i < length qs. symbol (nodes' ! i) = tab (qs ! i)" "length qs \<le> length ps + length (code_bits e)"
    using trie_insert_bits [OF ps(1,3) ins _ _ n, of tab] t ps(2) by (auto simp: tree_of_def)
  have len: "length nodes' = length qs" "distinct qs" using qs(1) by (simp_all add: trie_def)
  have "symbol (tree_insert nodes smb e ! i) = (tab(code_bits e \<mapsto> smb)) (qs ! i)" if "i < length qs" for i
  proof -
    have "qs ! i = code_bits e \<longleftrightarrow> i = cur"
      using nth_eq_iff_index_eq [OF len(2) that qs(2)] qs(3) by simp
    with that qs(5) len(1) show ?thesis by (auto simp: tree_insert_def ins nth_list_update)
  qed
  moreover have "trie (tree_insert nodes smb e) qs"
    by (simp add: tree_insert_def ins trie_symbol [OF qs(1)])
  moreover have "set qs = insert [] {take k (code_bits c) | c k. c \<in> set (es @ [e]) \<and> k \<le> length (code_bits c)}"
  proof -
    have pset: "set ps = insert [] {take k (code_bits c) | c k. c \<in> set es \<and> k \<le> length (code_bits c)}"
      using t unfolding tree_of_def by blast
    have "set (es @ [e]) = set es \<union> {e}" by simp
    then show ?thesis unfolding qs(4) pset by blast
  qed
  moreover have "(tab(code_bits e \<mapsto> smb)) p = None" if "p \<notin> set qs" for p
    using that t qs(2,3,4) nth_mem [OF qs(2)] by (auto simp: tree_of_def)
  ultimately show ?thesis using qs(6) unfolding tree_of_def by blast
qed

fun code_map :: "nat \<Rightarrow> (u32 \<times> nat) list \<Rightarrow> (bool list \<rightharpoonup> nat) \<Rightarrow> (bool list \<rightharpoonup> nat)" where
  "code_map smb [] tab = tab"
| "code_map smb (e # es) tab = code_map (Suc smb) es (tab(code_bits e \<mapsto> smb))"

lemma tree_of_build:
  assumes "tree_of nodes ps es tab" "length ps + sum_list (map (length \<circ> code_bits) fs) \<le> NONE"
  shows "\<exists>qs. tree_of (tree_build nodes smb fs) qs (es @ fs) (code_map smb fs tab) \<and> length qs \<le> NONE"
  using assms
proof (induction fs arbitrary: nodes ps es tab smb)
  case (Cons f fs)
  then have "length ps + length (code_bits f) \<le> NONE" by simp
  from tree_of_insert [OF Cons.prems(1) this] obtain qs where
    qs: "tree_of (tree_insert nodes smb f) qs (es @ [f]) (tab(code_bits f \<mapsto> smb))"
    "length qs \<le> length ps + length (code_bits f)" by blast
  then have "length qs + sum_list (map (length \<circ> code_bits) fs) \<le> NONE" using Cons.prems(2) by (simp add: o_def)
  from Cons.IH [OF qs(1) this, of "Suc smb"] show ?case
    by (simp only: tree_build.simps code_map.simps append_assoc append_Cons append_Nil)
qed auto

lemma code_map_other: "p \<notin> code_bits ` set es \<Longrightarrow> code_map smb es tab p = tab p"
  by (induction es arbitrary: smb tab) auto

lemma code_map_distinct:
  "distinct (map code_bits es) \<Longrightarrow> i < length es \<Longrightarrow> code_map smb es tab (code_bits (es ! i)) = Some (smb + i)"
proof (induction es arbitrary: i smb tab)
  case (Cons e es)
  show ?case
  proof (cases i)
    case 0
    with Cons.prems(1) show ?thesis by (simp add: code_map_other)
  next
    case (Suc j)
    with Cons show ?thesis by simp
  qed
qed simp

section \<open>Prefix-freeness\<close>

lemma prefix_free_take:
  "prefix_free d cs \<Longrightarrow> c \<in> set cs \<Longrightarrow> c' \<in> set cs \<Longrightarrow> take k c' = c \<Longrightarrow> c' = c"
proof (induction d arbitrary: cs c c' k)
  case (Suc d)
  show ?case
  proof (cases "cs = [[]]")
    case True
    with Suc.prems show ?thesis by simp
  next
    case False
    with Suc.prems have ne: "c \<noteq> []" "c' \<noteq> []"
      and sub: "prefix_free d (map tl (filter hd cs))" "prefix_free d (map tl (filter (Not \<circ> hd) cs))"
      by (auto simp: list_all_iff)
    obtain b c0 where c: "c = b # c0" using ne by (cases c) auto
    with Suc.prems(4) ne obtain k' c1 where c': "c' = b # c1" "take k' c1 = c0" by (cases c'; cases k) auto
    show ?thesis
    proof (cases b)
      case True
      with c c' Suc.prems have "c0 \<in> set (map tl (filter hd cs))" "c1 \<in> set (map tl (filter hd cs))"
        by (force simp: image_iff)+
      from Suc.IH [OF sub(1) this c'(2)] c c' show ?thesis by simp
    next
      case False
      with c c' Suc.prems have "c0 \<in> set (map tl (filter (Not \<circ> hd) cs))" "c1 \<in> set (map tl (filter (Not \<circ> hd) cs))"
        by (force simp: image_iff)+
      from Suc.IH [OF sub(2) this c'(2)] c c' show ?thesis by simp
    qed
  qed
qed simp

lemma distinct_by_head:
  "distinct (map f (filter P cs)) \<Longrightarrow> distinct (map f (filter (Not \<circ> P) cs)) \<Longrightarrow> distinct cs"
  by (induction cs) (auto split: if_splits)

lemma prefix_free_distinct: "prefix_free d cs \<Longrightarrow> distinct cs"
  by (induction d arbitrary: cs) (auto intro: distinct_by_head)

lemma table_distinct: "distinct (map code_bits TABLE)"
  by (rule prefix_free_distinct [OF table_prefix_free])

abbreviation code :: "nat \<Rightarrow> bool list" where
  "code s \<equiv> code_bits (TABLE ! s)"

lemma code_length: "s < 257 \<Longrightarrow> 5 \<le> length (code s) \<and> length (code s) \<le> 30"
  using table_codes by (fastforce simp: list_all_length code_bits_def split: prod.splits)

lemma code_prefix: "s < 257 \<Longrightarrow> t < 257 \<Longrightarrow> take k (code t) = code s \<Longrightarrow> t = s"
  using prefix_free_take [OF table_prefix_free, of "code s" "code t" k] table_distinct
  by (auto simp: distinct_map inj_on_def distinct_conv_nth)

text \<open>The tree of the whole table.\<close>

definition paths :: "bool list list" where
  "paths = (SOME qs. tree_of tree qs TABLE (code_map 0 TABLE Map.empty) \<and> length qs \<le> NONE)"

lemma tree_of_tree:
  "tree_of tree paths TABLE (code_map 0 TABLE Map.empty) \<and> length paths \<le> NONE"
proof -
  have init: "tree_of [empty_node] [[]] [] Map.empty"
    using trie_empty by (simp add: tree_of_def)
  have "sum_list (map (length \<circ> code_bits) TABLE) \<le> sum_list (map (\<lambda>_. 30) TABLE)"
    using table_codes by (intro sum_list_mono) (auto simp: list_all_iff code_bits_def)
  then have "length [[] :: bool list] + sum_list (map (length \<circ> code_bits) TABLE) \<le> NONE"
    by (simp add: sum_list_triv)
  from tree_of_build [OF init this, of 0]
  have "\<exists>qs. tree_of tree qs TABLE (code_map 0 TABLE Map.empty) \<and> length qs \<le> NONE"
    by (simp add: tree_def)
  then show ?thesis unfolding paths_def by (rule someI_ex)
qed

lemma trie_tree: "trie tree paths"
  using tree_of_tree by (simp add: tree_of_def)

lemma code_map_table: "code_map 0 TABLE Map.empty p = Some s \<longleftrightarrow> s < 257 \<and> p = code s"
proof (cases "p \<in> code_bits ` set TABLE")
  case True
  then obtain i where "i < 257" "p = code i" by (auto simp: in_set_conv_nth)
  moreover have "code i = code s \<longleftrightarrow> i = s" if "s < 257" for s
    using nth_eq_iff_index_eq [OF table_distinct, of i s] that \<open>i < 257\<close> by simp
  ultimately show ?thesis using code_map_distinct [OF table_distinct, of i 0 Map.empty] by auto
next
  case False
  then have "p \<noteq> code s" if "s < 257" using that nth_mem [of s TABLE] by auto
  with False show ?thesis by (auto simp: code_map_other)
qed

lemma paths_iff: "p \<in> set paths \<longleftrightarrow> (\<exists>s < 257. \<exists>k. p = take k (code s))"
proof -
  have set: "set paths = insert [] {take k (code_bits e) | e k. e \<in> set TABLE \<and> k \<le> length (code_bits e)}"
    using tree_of_tree unfolding tree_of_def by blast
  show ?thesis
  proof
    assume "p \<in> set paths"
    then consider "p = take 0 (code 0)" | e k where "p = take k (code_bits e)" "e \<in> set TABLE"
      unfolding set by auto
    then show "\<exists>s < 257. \<exists>k. p = take k (code s)"
    proof cases
      case 1
      then show ?thesis by (intro exI [of _ 0] conjI exI [of _ 0]) simp_all
    next
      case 2
      then obtain i where "i < 257" "e = TABLE ! i" using in_set_conv_nth [of e TABLE] by auto
      with 2 show ?thesis by blast
    qed
  next
    assume "\<exists>s < 257. \<exists>k. p = take k (code s)"
    then obtain s k where "s < 257" "p = take (min k (length (code s))) (code s)" by (metis take_all_iff min_def nle_le)
    then show "p \<in> set paths"
      unfolding set
      by (intro insertI2 CollectI exI [of _ "TABLE ! s"] exI [of _ "min k (length (code s))"]) auto
  qed
qed

lemma tree_facts:
  "length tree = length paths" "0 < length paths" "paths ! 0 = []"
  using trie_tree by (auto simp: trie_def)

lemma tree_symbol:
  assumes "i < length paths"
  shows "symbol (tree ! i) = Some s \<longleftrightarrow> s < 257 \<and> paths ! i = code s"
  using tree_of_tree assms unfolding tree_of_def by (simp add: code_map_table)

lemma tree_child:
  assumes "i < length paths"
  shows "paths ! i @ [b] \<in> set paths \<Longrightarrow>
      child (tree ! i) b < length paths \<and> paths ! child (tree ! i) b = paths ! i @ [b] \<and> child (tree ! i) b \<noteq> NONE"
    "paths ! i @ [b] \<notin> set paths \<Longrightarrow> child (tree ! i) b = NONE"
  using trie_child [OF trie_tree assms, of b] tree_of_tree by auto

text \<open>A proper prefix of a code carries no symbol.\<close>

lemma internal_symbol:
  assumes "i < length paths" "paths ! i = take k (code s)" "s < 257" "k < length (code s)"
  shows "symbol (tree ! i) = None"
proof (cases "symbol (tree ! i)")
  case (Some t)
  then have "t < 257" "take k (code s) = code t" using assms by (auto simp: tree_symbol)
  with code_prefix [OF this(1) assms(3)] assms(4) show ?thesis by (metis length_take min_less_iff_conj nat_less_le)
qed simp

section \<open>Decoding\<close>

lemma decode_code:
  assumes "i < length paths" "paths ! i = take k (code s)" "k < length (code s)" "s < 256"
  shows "decode_bits limit i c out (drop k (code s) @ rest) =
    (if limit \<le> length out then None else decode_bits limit 0 0 (out @ [of_nat s]) rest)"
  using assms
proof (induction "length (code s) - Suc k" arbitrary: i k c)
  case (0 k i)
  then have k: "Suc k = length (code s)" by simp
  have d: "drop k (code s) = [code s ! k]" using 0 by (simp add: Cons_nth_drop_Suc [symmetric] k)
  have p: "paths ! i @ [code s ! k] = code s"
    using 0 k by (metis lessI take_Suc_conv_app_nth take_all_iff le_refl)
  have "paths ! i @ [code s ! k] \<in> set paths"
    unfolding p paths_iff using 0 by (intro exI [of _ s]) (auto intro: exI [of _ "length (code s)"])
  note ch = tree_child(1) [OF "0.prems"(1) this]
  then have "symbol (tree ! child (tree ! i) (code s ! k)) = Some s"
    using tree_symbol p 0 by simp
  with ch 0 d show ?case by simp
next
  case (Suc n k i)
  have d: "drop k (code s) = code s ! k # drop (Suc k) (code s)" using Suc.prems by (simp add: Cons_nth_drop_Suc)
  have p: "paths ! i @ [code s ! k] = take (Suc k) (code s)"
    using Suc.prems by (simp add: take_Suc_conv_app_nth)
  have "paths ! i @ [code s ! k] \<in> set paths"
    unfolding p paths_iff using Suc.prems by (intro exI [of _ s]) auto
  note ch = tree_child(1) [OF Suc.prems(1) this]
  have k: "Suc k < length (code s)" using Suc.hyps(2) by simp
  have "symbol (tree ! child (tree ! i) (code s ! k)) = None"
    using internal_symbol [of _ "Suc k" s] ch p k Suc.prems by simp
  with ch d Suc.hyps(1) [of "Suc k" "child (tree ! i) (code s ! k)"] Suc.hyps(2) Suc.prems k p show ?case
    by simp
qed

lemma decode_codes:
  "decode_bits limit 0 0 out (concat (map (\<lambda>b. code (unat b)) s) @ rest) =
    (if s \<noteq> [] \<and> limit < length out + length s then None else decode_bits limit 0 0 (out @ s) rest)"
proof (induction s arbitrary: out)
  case (Cons b s)
  have "unat b < 256" by simp
  moreover have "0 < length (code (unat b))" using code_length [of "unat b"] calculation by linarith
  ultimately have "decode_bits limit 0 0 out (code (unat b) @ rest') =
      (if limit \<le> length out then None else decode_bits limit 0 0 (out @ [b]) rest')" for rest'
    using decode_code [of 0 0 "unat b" limit 0 out rest'] tree_facts by simp
  with Cons.IH [of "out @ [b]"] show ?case by auto
qed simp

lemma decode_pad:
  assumes "i < length paths" "paths ! i = replicate k True" "k + m < 30"
  shows "\<exists>j. j < length paths \<and> paths ! j = replicate (k + m) True \<and>
    decode_bits limit i c out (replicate m True) = Some (j, c + m, out)"
  using assms
proof (induction m arbitrary: i k c)
  case 0
  then show ?case by auto
next
  case (Suc m)
  have e: "replicate (Suc k) True = take (Suc k) (code EOS)" using Suc.prems by (simp add: table_eos min_def del: replicate.simps)
  have p: "paths ! i @ [True] = replicate (Suc k) True"
    by (simp add: Suc.prems replicate_append_same)
  have "paths ! i @ [True] \<in> set paths"
    unfolding p e paths_iff by (intro exI [of _ EOS]) auto
  note ch = tree_child(1) [OF Suc.prems(1) this]
  have "symbol (tree ! child (tree ! i) True) = None"
    using internal_symbol [of _ "Suc k" EOS] ch p e Suc.prems by (simp add: table_eos)
  with ch p Suc.IH [of "child (tree ! i) True" "Suc k" "Suc c"] Suc.prems show ?case by auto
qed

text \<open>Whatever the decoder accepts is a sequence of codes and the path it stopped on.\<close>

lemma decode_bits_inverse:
  assumes "decode_bits limit i c out bits = Some (j, c', out')"
    and "i < length paths" "c = length (paths ! i)" "length out \<le> limit"
  shows "j < length paths \<and> c' = length (paths ! j) \<and> length out' \<le> limit \<and>
    (\<exists>s. out' = out @ s \<and> paths ! i @ bits = concat (map (\<lambda>b. code (unat b)) s) @ paths ! j)"
  using assms
proof (induction bits arbitrary: i c out)
  case Nil
  then show ?case by auto
next
  case (Cons b bits)
  let ?n = "child (tree ! i) b"
  have "?n \<noteq> NONE" using Cons.prems(1) by (auto simp: Let_def)
  then have "paths ! i @ [b] \<in> set paths" using tree_child(2) [OF Cons.prems(2)] by blast
  note ch = tree_child(1) [OF Cons.prems(2) this]
  show ?case
  proof (cases "symbol (tree ! ?n)")
    case None
    with Cons.prems(1) ch have "decode_bits limit ?n (c + 1) out bits = Some (j, c', out')" by simp
    from Cons.IH [OF this] ch Cons.prems(3,4) show ?thesis by simp
  next
    case (Some s)
    with ch have s: "s < 257" "paths ! i @ [b] = code s" using tree_symbol by auto
    from Some Cons.prems(1) ch have e: "s \<noteq> EOS" "length out < limit"
      "decode_bits limit 0 0 (out @ [of_nat s]) bits = Some (j, c', out')"
      by (auto split: if_splits)
    from Cons.IH [OF e(3)] tree_facts e(2) obtain s' where
      "j < length paths" "c' = length (paths ! j)" "length out' \<le> limit" "out' = (out @ [of_nat s]) @ s'"
      "bits = concat (map (\<lambda>b. code (unat b)) s') @ paths ! j" by auto
    moreover have "unat (of_nat s :: u8) = s"
      using s(1) e(1) by (simp add: unsigned_of_nat take_bit_nat_eq_self)
    ultimately show ?thesis using s(2) by (auto intro!: exI [of _ "of_nat s # s'"])
  qed
qed

lemma decode_bytes_bits:
  "decode_bytes limit node c out input = decode_bits limit node c out (concat (map byte_bits input))"
proof (induction input arbitrary: node c out)
  case (Cons b input)
  have "decode_bits limit node c out (xs @ ys) = (case decode_bits limit node c out xs of
      None \<Rightarrow> None | Some (node, c, out) \<Rightarrow> decode_bits limit node c out ys)" for xs ys
    by (induction xs arbitrary: node c out) (auto simp: Let_def split: option.splits)
  with Cons show ?case by (auto split: option.splits)
qed simp

text \<open>The all-ones walk: node by node along the prefixes of EOS, at most 31 of them.\<close>

lemma ones_in_paths: "replicate k True \<in> set paths \<longleftrightarrow> k \<le> 30"
proof
  assume "replicate k True \<in> set paths"
  then obtain s m where s: "s < 257" "replicate k True = take m (code s)" by (auto simp: paths_iff)
  then have "k \<le> length (code s)" by (metis length_replicate length_take min.cobounded1)
  with code_length [OF s(1)] show "k \<le> 30" by simp
next
  assume "k \<le> 30"
  then have "replicate k True = take k (code EOS)" by (simp add: table_eos min_def)
  then show "replicate k True \<in> set paths" unfolding paths_iff by (intro exI [of _ EOS]) auto
qed

lemma all_ones_loop:
  assumes "i < length paths" "paths ! i = replicate k True" "k \<le> 30" "31 \<le> fuel + k" "j < length paths"
  shows "all_ones_loop fuel i j = Some (\<exists>m. k \<le> m \<and> paths ! j = replicate m True)"
  using assms
proof (induction fuel arbitrary: i k)
  case (Suc fuel)
  have d: "distinct paths" using trie_tree by (simp add: trie_def)
  show ?case
  proof (cases "i = j")
    case True
    with Suc.prems show ?thesis by auto
  next
    case ne: False
    then have nej: "paths ! j \<noteq> replicate k True"
      using nth_eq_iff_index_eq [OF d Suc.prems(1,5)] Suc.prems(2) by simp
    have p: "paths ! i @ [True] = replicate (Suc k) True" by (simp add: Suc.prems replicate_append_same)
    show ?thesis
    proof (cases "Suc k \<le> 30")
      case True
      then have "paths ! i @ [True] \<in> set paths" unfolding p by (simp only: ones_in_paths)
      note ch = tree_child(1) [OF Suc.prems(1) this]
      have "(\<exists>m. Suc k \<le> m \<and> paths ! j = replicate m True) = (\<exists>m. k \<le> m \<and> paths ! j = replicate m True)"
        using nej by (metis Suc_leD le_antisym not_less_eq_eq)
      with ch p Suc.IH [of "child (tree ! i) True" "Suc k"] Suc.prems True ne show ?thesis by simp
    next
      case False
      then have "paths ! i @ [True] \<notin> set paths" unfolding p by (simp only: ones_in_paths) simp
      note ch = tree_child(2) [OF Suc.prems(1) this]
      have "\<not> (\<exists>m. k \<le> m \<and> paths ! j = replicate m True)"
      proof
        assume "\<exists>m. k \<le> m \<and> paths ! j = replicate m True"
        then obtain m where m: "k \<le> m" "paths ! j = replicate m True" by blast
        with nth_mem [OF Suc.prems(5)] have "m \<le> 30" by (simp add: ones_in_paths)
        with m False nej Suc.prems(3) show False by (metis le_antisym not_less_eq_eq)
      qed
      with ch ne show ?thesis by (simp add: Let_def)
    qed
  qed
qed simp

lemma length_paths: "31 \<le> length paths"
proof -
  have "(\<lambda>k. replicate k True) ` {..30} \<subseteq> set paths" by (auto simp: ones_in_paths)
  then have "card ((\<lambda>k. replicate k True) ` {..30}) \<le> card (set paths)" by (intro card_mono) auto
  moreover have "inj_on (\<lambda>k. replicate k True) {..30 :: nat}"
    by (rule inj_onI) (metis length_replicate)
  ultimately show ?thesis using card_length [of paths] by (simp add: card_image)
qed

lemma all_ones_terminates: "j < length paths \<Longrightarrow> all_ones_loop (length tree) 0 j \<noteq> None"
  using all_ones_loop [of 0 0 "length tree" j] tree_facts length_paths by simp

lemma is_all_ones_prefix_iff:
  "j < length paths \<Longrightarrow> is_all_ones_prefix j \<longleftrightarrow> (\<exists>m. paths ! j = replicate m True)"
  using all_ones_loop [of 0 0 "length tree" j] tree_facts length_paths by (simp add: is_all_ones_prefix_def)

section \<open>Encoding\<close>

abbreviation codes :: "bytes \<Rightarrow> bool list" where
  "codes s \<equiv> concat (map (\<lambda>b. code (unat b)) s)"

abbreviation all_bits :: "bytes \<Rightarrow> bool list" where
  "all_bits s \<equiv> concat (map byte_bits s)"

definition low_bits :: "nat \<Rightarrow> u64 \<Rightarrow> bool list" where
  "low_bits n w = map (bit w) (rev [0..<n])"

lemma length_low_bits [simp]: "length (low_bits n w) = n"
  by (simp add: low_bits_def)

lemma length_byte_bits [simp]: "length (byte_bits b) = 8"
  by (simp add: byte_bits_def)

lemma length_all_bits [simp]: "length (all_bits s) = 8 * length s"
  by (induction s) auto

lemma nth_low_bits [simp]: "i < n \<Longrightarrow> low_bits n w ! i = bit w (n - Suc i)"
  by (simp add: low_bits_def rev_nth)

lemma nth_byte_bits [simp]: "i < 8 \<Longrightarrow> byte_bits b ! i = bit b (7 - i)"
  by (simp add: byte_bits_def rev_nth)

lemma table_code_bits: "s < 257 \<Longrightarrow> TABLE ! s = (w, len) \<Longrightarrow> len \<le> 30 \<and> (\<forall>i \<ge> len. \<not> bit w i)"
proof -
  assume s: "s < 257" "TABLE ! s = (w, len)"
  then have "len \<le> 30 \<and> w < 2 ^ len" using table_codes by (fastforce simp: list_all_length)
  then have len: "len \<le> 30" and w': "unat w < unat (2 ^ len :: u32)"
    by (auto simp: word_less_nat_alt)
  have "unat (of_nat (2 ^ len) :: u32) = 2 ^ len"
    using len by (simp only: unsigned_of_nat) (simp add: take_bit_nat_eq_self)
  then have w: "unat w < 2 ^ len" using w' by simp
  have "\<not> bit w i" if "len \<le> i" for i
    using nat_bit_less [OF w that] by (simp add: bit_unsigned_iff)
  with len show ?thesis by blast
qed

lemma low_bits_shift:
  assumes "n + len \<le> 64" "\<forall>i \<ge> len. \<not> bit (c :: u32) i" "len \<le> 30"
  shows "low_bits (n + len) (push_bit len acc OR ucast c) = low_bits n acc @ code_bits (c, len)"
proof (rule nth_equalityI)
  fix i
  assume "i < length (low_bits (n + len) (push_bit len acc OR ucast c))"
  then have i: "i < n + len" by simp
  show "low_bits (n + len) (push_bit len acc OR ucast c) ! i = (low_bits n acc @ code_bits (c, len)) ! i"
  proof (cases "i < n")
    case True
    then obtain k where k: "n = Suc (i + k)" using less_iff_Suc_add by blast
    then have "n + len - Suc i = len + k" "len + k < 64" using assms(1) by simp_all
    with i assms k show ?thesis by (simp add: nth_append bit_simps)
  next
    case False
    with i assms show ?thesis
      by (simp add: nth_append bit_simps code_bits_def rev_nth) (auto simp: algebra_simps)
  qed
qed (simp add: code_bits_def)

lemma low_bits_byte:
  assumes "8 \<le> n" "n \<le> 64"
  shows "low_bits n acc = byte_bits (ucast (drop_bit (n - 8) acc)) @ low_bits (n - 8) acc"
proof (rule nth_equalityI)
  fix i
  assume "i < length (low_bits n acc)"
  then show "low_bits n acc ! i = (byte_bits (ucast (drop_bit (n - 8) acc)) @ low_bits (n - 8) acc) ! i"
    using assms by (cases "i < 8") (auto simp: nth_append bit_simps)
qed (use assms in simp)

lemma flush_acc_bits:
  assumes "n \<le> 64" "flush_acc acc n out = (n', out')"
  shows "n' < 8 \<and> all_bits out' @ low_bits n' acc = all_bits out @ low_bits n acc"
  using assms
proof (induction n arbitrary: out rule: less_induct)
  case (less n)
  show ?case
  proof (cases "8 \<le> n")
    case True
    with less.prems(2) have "flush_acc acc (n - 8) (out @ [ucast (drop_bit (n - 8) acc)]) = (n', out')"
      by (simp add: flush_acc.simps [of acc n])
    from less.IH [OF _ _ this] True less.prems(1) low_bits_byte [OF True less.prems(1), of acc]
    show ?thesis by simp
  next
    case False
    with less.prems(2) show ?thesis by (simp add: flush_acc.simps [of acc n])
  qed
qed

lemma encode_loop_bits:
  assumes "n < 8" "encode_loop acc n out s = (acc', n', out')"
  shows "n' < 8 \<and> all_bits out' @ low_bits n' acc' = all_bits out @ low_bits n acc @ codes s"
  using assms
proof (induction s arbitrary: acc n out)
  case (Cons b s)
  obtain c len where e: "TABLE ! unat b = (c, len)" by fastforce
  let ?acc = "push_bit len acc OR ucast c"
  obtain n1 out1 where f: "flush_acc ?acc (n + len) out = (n1, out1)" by fastforce
  have "unat b < 257" by (rule less_trans [OF unat_bounds(1)]) simp
  from table_code_bits [OF this e] have len: "len \<le> 30" "\<forall>i \<ge> len. \<not> bit c i" by auto
  have n: "n + len \<le> 64" using Cons.prems(1) len by simp
  from Cons.prems(2) e f have "encode_loop ?acc n1 out1 s = (acc', n', out')" by simp
  from Cons.IH [OF _ this] flush_acc_bits [OF n f] low_bits_shift [OF n len(2,1)] e
  show ?case by simp
qed simp

lemma pad_byte:
  assumes "n < 8" "0 < n"
  shows "byte_bits (ucast ((push_bit (8 - n) acc OR (push_bit (8 - n) 1 - 1)) AND (0xff :: u64)))
    = low_bits n acc @ replicate (8 - n) True"
proof (rule nth_equalityI)
  fix i
  assume "i < length (byte_bits (ucast ((push_bit (8 - n) acc OR (push_bit (8 - n) 1 - 1)) AND (0xff :: u64))))"
  then have i: "i < 8" by simp
  have m: "push_bit (8 - n) 1 - 1 = (mask (8 - n) :: u64)" "(0xff :: u64) = mask 8"
    by (simp_all add: mask_eq_exp_minus_1 push_bit_eq_mult)
  show "byte_bits (ucast ((push_bit (8 - n) acc OR (push_bit (8 - n) 1 - 1)) AND (0xff :: u64))) ! i
    = (low_bits n acc @ replicate (8 - n) True) ! i"
    unfolding m using i assms
    by (cases "i < n") (auto simp: nth_append bit_simps)
qed (use assms in simp)

lemma encode_bits: "\<exists>pad < 8. all_bits (huff_encode s) = codes s @ replicate pad True"
proof -
  obtain acc n out where e: "encode_loop 0 0 [] s = (acc, n, out)" by (cases "encode_loop 0 0 [] s") auto
  from encode_loop_bits [OF _ e] have n: "n < 8" and b: "all_bits out @ low_bits n acc = codes s"
    by (simp_all add: low_bits_def)
  show ?thesis
  proof (cases "n = 0")
    case True
    with e b show ?thesis by (intro exI [of _ 0]) (simp add: huff_encode_def low_bits_def)
  next
    case False
    then have "all_bits (huff_encode s) = (all_bits out @ low_bits n acc) @ replicate (8 - n) True"
      using e n pad_byte [of n acc] by (simp add: huff_encode_def Let_def)
    with b False n show ?thesis by (intro exI [of _ "8 - n"]) simp
  qed
qed

lemma all_bits_inj: "all_bits a = all_bits b \<Longrightarrow> a = b"
proof (induction a arbitrary: b)
  case Nil
  then show ?case by (cases b) (auto simp: byte_bits_def)
next
  case (Cons x a)
  then obtain y b' where b: "b = y # b'" by (cases b) (auto simp: byte_bits_def)
  with Cons.prems have e: "byte_bits x = byte_bits y" "all_bits a = all_bits b'" by auto
  have "bit x n = bit y n" if "n < 8" for n
    using arg_cong [OF e(1), of "\<lambda>l. l ! (7 - n)"] that by simp
  then have "x = y" by (intro bit_word_eqI) simp
  with b Cons.IH [OF e(2)] show ?case by simp
qed

lemma pad_unique:
  assumes "all_bits a = c @ replicate m True" "all_bits b = c @ replicate n True" "m < 8" "n < 8"
  shows "a = b"
proof -
  have "8 * length a = length c + m" "8 * length b = length c + n"
    using arg_cong [OF assms(1), of length] arg_cong [OF assms(2), of length] by simp_all
  then have "m = n" using assms(3,4) by presburger
  with assms show ?thesis by (intro all_bits_inj) simp
qed

lemma huff_decode_encode: "length s \<le> limit \<Longrightarrow> huff_decode (huff_encode s) limit = Some s"
proof -
  assume l: "length s \<le> limit"
  obtain pad where p: "pad < 8" "all_bits (huff_encode s) = codes s @ replicate pad True"
    using encode_bits by blast
  obtain j where j: "j < length paths" "paths ! j = replicate pad True"
    "decode_bits limit 0 0 s (replicate pad True) = Some (j, pad, s)"
    using decode_pad [of 0 0 pad limit 0 s] tree_facts p(1) by auto
  have "decode_bytes limit 0 0 [] (huff_encode s) = Some (j, pad, s)"
    using l j(3) by (auto simp: decode_bytes_bits p(2) decode_codes)
  then show ?thesis using p(1) j(1,2) by (auto simp: huff_decode_def is_all_ones_prefix_iff)
qed

lemma huff_decode_canonical:
  assumes "huff_decode input limit = Some s"
  shows "input = huff_encode s \<and> length s \<le> limit"
proof -
  obtain j c where d: "decode_bytes limit 0 0 [] input = Some (j, c, s)" "c \<le> 7"
      "0 < c \<longrightarrow> is_all_ones_prefix j"
    using assms by (auto simp: huff_decode_def split: option.splits if_splits)
  from decode_bits_inverse [OF d(1) [unfolded decode_bytes_bits]] tree_facts
  have j: "j < length paths" "c = length (paths ! j)" "length s \<le> limit" "all_bits input = codes s @ paths ! j"
    by auto
  have "paths ! j = replicate c True"
    using d(3) j(1,2) by (cases "c = 0") (auto simp: is_all_ones_prefix_iff)
  moreover obtain pad where "pad < 8" "all_bits (huff_encode s) = codes s @ replicate pad True"
    using encode_bits by blast
  ultimately have "input = huff_encode s"
    using j(4) d(2) by (intro pad_unique [of _ "codes s" c _ pad]) auto
  with j(3) show ?thesis by simp
qed

lemma encoded_len_encode: "encoded_len s = length (huff_encode s)"
proof -
  obtain pad where p: "pad < 8" "all_bits (huff_encode s) = codes s @ replicate pad True"
    using encode_bits by blast
  have "length (codes s) = sum_list (map (\<lambda>b. snd (TABLE ! unat b)) s)"
    by (induction s) (auto simp: code_bits_def split: prod.splits)
  moreover have "8 * length (huff_encode s) = length (codes s) + pad"
    using arg_cong [OF p(2), of length] by simp
  ultimately show ?thesis using p(1) unfolding encoded_len_def Let_def by linarith
qed

section \<open>Properties\<close>

text \<open>C14.
  The decoder accepts exactly the encoder's output: for every byte string and every limit,
  \<^verbatim>\<open>decode\<close> returns \<open>s\<close> if and only if the input is \<^verbatim>\<open>encode(s)\<close> and \<open>s\<close> is within the limit. So
  every string round-trips, and no header string has a second accepted encoding: wrong padding,
  padding of a byte or more and an explicit EOS are all refused.
\<close>

theorem huffman_decode_iff:
  "huff_decode input limit = Some s \<longleftrightarrow> input = huff_encode s \<and> length s \<le> limit"
  using huff_decode_encode huff_decode_canonical by blast

text \<open>
  The length announced before encoding is the length of the encoding, for every input.
\<close>

theorem huffman_encoded_len: "encoded_len s = length (huff_encode s)"
  by (rule encoded_len_encode)

end
