(* ===== verification/Hpack.thy ===== *)
theory Hpack
  imports Huffman
begin

text \<open>
  HPACK (\<^verbatim>\<open>src/http2/hpack.rs\<close>): prefixed integers, string literals, the decoder with its dynamic
  table and limits, and the encoder that uses the static table only. Strings are byte strings
  known to be UTF-8. A \<^verbatim>\<open>usize\<close> is a \<open>nat\<close>; the checked and truncating operations of the integer
  decoder are written out. The decoder returns its state next to the result, since a block that
  fails leaves the table as far as it was processed.
\<close>

section \<open>Definitions\<close>

definition STATIC :: "(bytes \<times> bytes) list" where
  "STATIC = [
   (bs '':authority'', bs ''''),
   (bs '':method'', bs ''GET''),
   (bs '':method'', bs ''POST''),
   (bs '':path'', bs ''/''),
   (bs '':path'', bs ''/index.html''),
   (bs '':scheme'', bs ''http''),
   (bs '':scheme'', bs ''https''),
   (bs '':status'', bs ''200''),
   (bs '':status'', bs ''204''),
   (bs '':status'', bs ''206''),
   (bs '':status'', bs ''304''),
   (bs '':status'', bs ''400''),
   (bs '':status'', bs ''404''),
   (bs '':status'', bs ''500''),
   (bs ''accept-charset'', bs ''''),
   (bs ''accept-encoding'', bs ''gzip, deflate''),
   (bs ''accept-language'', bs ''''),
   (bs ''accept-ranges'', bs ''''),
   (bs ''accept'', bs ''''),
   (bs ''access-control-allow-origin'', bs ''''),
   (bs ''age'', bs ''''),
   (bs ''allow'', bs ''''),
   (bs ''authorization'', bs ''''),
   (bs ''cache-control'', bs ''''),
   (bs ''content-disposition'', bs ''''),
   (bs ''content-encoding'', bs ''''),
   (bs ''content-language'', bs ''''),
   (bs ''content-length'', bs ''''),
   (bs ''content-location'', bs ''''),
   (bs ''content-range'', bs ''''),
   (bs ''content-type'', bs ''''),
   (bs ''cookie'', bs ''''),
   (bs ''date'', bs ''''),
   (bs ''etag'', bs ''''),
   (bs ''expect'', bs ''''),
   (bs ''expires'', bs ''''),
   (bs ''from'', bs ''''),
   (bs ''host'', bs ''''),
   (bs ''if-match'', bs ''''),
   (bs ''if-modified-since'', bs ''''),
   (bs ''if-none-match'', bs ''''),
   (bs ''if-range'', bs ''''),
   (bs ''if-unmodified-since'', bs ''''),
   (bs ''last-modified'', bs ''''),
   (bs ''link'', bs ''''),
   (bs ''location'', bs ''''),
   (bs ''max-forwards'', bs ''''),
   (bs ''proxy-authenticate'', bs ''''),
   (bs ''proxy-authorization'', bs ''''),
   (bs ''range'', bs ''''),
   (bs ''referer'', bs ''''),
   (bs ''refresh'', bs ''''),
   (bs ''retry-after'', bs ''''),
   (bs ''server'', bs ''''),
   (bs ''set-cookie'', bs ''''),
   (bs ''strict-transport-security'', bs ''''),
   (bs ''transfer-encoding'', bs ''''),
   (bs ''user-agent'', bs ''''),
   (bs ''vary'', bs ''''),
   (bs ''via'', bs ''''),
   (bs ''www-authenticate'', bs '''')]"

abbreviation ENTRY_OVERHEAD :: nat where "ENTRY_OVERHEAD \<equiv> 32"
abbreviation MAX_STRING :: nat where "MAX_STRING \<equiv> 65536"

datatype hpack_error = Compression | TooLarge

record header =
  hname :: bytes
  hvalue :: bytes

record decoder =
  dynamic :: "header list"
  table_size :: nat
  max_size :: nat
  settings_max :: nat

definition decoder_new :: "nat \<Rightarrow> decoder" where
  "decoder_new n = \<lparr>dynamic = [], table_size = 0, max_size = n, settings_max = n\<rparr>"

definition entry_size :: "header \<Rightarrow> nat" where
  "entry_size h = length (hname h) + length (hvalue h) + ENTRY_OVERHEAD"

text \<open>\<open>evict\<close> pops from the back until the table_size fits; the table is given back to front.\<close>

fun evict_back :: "header list \<Rightarrow> nat \<Rightarrow> nat \<Rightarrow> header list \<times> nat" where
  "evict_back [] sz mx = ([], if mx < sz then 0 else sz)"
| "evict_back (h # hs) sz mx =
    (if mx < sz then evict_back hs (sz - entry_size h) mx else (h # hs, sz))"

definition evict :: "decoder \<Rightarrow> decoder" where
  "evict d = (case evict_back (rev (dynamic d)) (table_size d) (max_size d) of
     (hs, sz) \<Rightarrow> d\<lparr>dynamic := rev hs, table_size := sz\<rparr>)"

definition set_max_size :: "decoder \<Rightarrow> nat \<Rightarrow> decoder" where
  "set_max_size d n =
    (let d = d\<lparr>settings_max := n\<rparr>
     in if n < max_size d then evict (d\<lparr>max_size := n\<rparr>) else d)"

definition insert_entry :: "decoder \<Rightarrow> header \<Rightarrow> decoder" where
  "insert_entry d h =
    (let cost = entry_size h
     in if max_size d < cost then d\<lparr>dynamic := [], table_size := 0\<rparr>
        else evict (d\<lparr>table_size := table_size d + cost, dynamic := h # dynamic d\<rparr>))"

definition hpack_lookup :: "decoder \<Rightarrow> nat \<Rightarrow> hpack_error + header" where
  "hpack_lookup d idx =
    (if idx = 0 then Inl Compression
     else if idx \<le> length STATIC
     then (case STATIC ! (idx - 1) of (n, v) \<Rightarrow> Inr \<lparr>hname = n, hvalue = v\<rparr>)
     else (let i = idx - length STATIC - 1
           in if i < length (dynamic d) then Inr (dynamic d ! i) else Inl Compression))"

definition charge :: "nat \<Rightarrow> header \<Rightarrow> nat \<Rightarrow> hpack_error + nat" where
  "charge listed h mx = (let n = listed + entry_size h in if mx < n then Inl TooLarge else Inr n)"

text \<open>Prefixed integers: the continuation bytes, with the shift cap and the checked addition.\<close>

fun int_loop :: "nat \<Rightarrow> nat \<Rightarrow> bytes \<Rightarrow> hpack_error + (nat \<times> bytes)" where
  "int_loop v shift [] = Inl Compression"
| "int_loop v shift (b # buf) =
    (if 63 \<le> shift then Inl Compression
     else (let v' = v + (unat (b AND 0x7f) * 2 ^ shift) mod 2 ^ 64
           in if 2 ^ 64 \<le> v' then Inl Compression
              else if b AND 0x80 = 0 then Inr (v', buf)
              else int_loop v' (shift + 7) buf))"

definition hp_int :: "bytes \<Rightarrow> nat \<Rightarrow> hpack_error + (nat \<times> bytes)" where
  "hp_int buf prefix =
    (case buf of
       [] \<Rightarrow> Inl Compression
     | b # rest \<Rightarrow>
         (let mask = 2 ^ prefix - 1; first = unat (b AND of_nat mask)
          in if first < mask then Inr (first, rest) else int_loop mask 0 rest))"

definition hp_string :: "bytes \<Rightarrow> hpack_error + (bytes \<times> bytes)" where
  "hp_string buf =
    (case buf of
       [] \<Rightarrow> Inl Compression
     | b # _ \<Rightarrow>
        (let huffman_coded = (b AND 0x80 \<noteq> 0)
         in case hp_int buf 7 of
              Inl e \<Rightarrow> Inl e
            | Inr (len, rest) \<Rightarrow>
                if length rest < len then Inl Compression
                else (let raw = take len rest; rest = drop len rest
                      in case (if huffman_coded then huff_decode raw MAX_STRING else Some raw) of
                           None \<Rightarrow> Inl Compression
                         | Some s \<Rightarrow>
                             (case from_utf8 s of None \<Rightarrow> Inl Compression | Some s \<Rightarrow> Inr (s, rest)))))"

definition hpack_literal :: "decoder \<Rightarrow> nat \<Rightarrow> bytes \<Rightarrow> hpack_error + (header \<times> bytes)" where
  "hpack_literal d idx buf =
    (case (if idx = 0 then hp_string buf
           else (case hpack_lookup d idx of Inl e \<Rightarrow> Inl e | Inr h \<Rightarrow> Inr (hname h, buf))) of
       Inl e \<Rightarrow> Inl e
     | Inr (n, buf) \<Rightarrow>
        (case hp_string buf of Inl e \<Rightarrow> Inl e | Inr (v, buf) \<Rightarrow> Inr (\<lparr>hname = n, hvalue = v\<rparr>, buf)))"

text \<open>
  One field of a block, by the pattern of its first byte: the decoder afterwards, and the rest of
  the block with the header it produced, if any.
\<close>

datatype field_result = Field bytes header nat | Update bytes

definition decode_field ::
  "decoder \<Rightarrow> u8 \<Rightarrow> bytes \<Rightarrow> nat \<Rightarrow> nat \<Rightarrow> bool \<Rightarrow> decoder \<times> (hpack_error + field_result)" where
  "decode_field d first buf max_list listed seen_field =
    (if first AND 0x80 \<noteq> 0 then
       (case hp_int buf 7 of Inl e \<Rightarrow> (d, Inl e)
        | Inr (idx, rest) \<Rightarrow>
           (case hpack_lookup d idx of Inl e \<Rightarrow> (d, Inl e)
            | Inr h \<Rightarrow>
               (case charge listed h max_list of Inl e \<Rightarrow> (d, Inl e)
                | Inr n \<Rightarrow> (d, Inr (Field rest h n)))))
     else if first AND 0x40 \<noteq> 0 then
       (case hp_int buf 6 of Inl e \<Rightarrow> (d, Inl e)
        | Inr (idx, rest) \<Rightarrow>
           (case hpack_literal d idx rest of Inl e \<Rightarrow> (d, Inl e)
            | Inr (h, rest) \<Rightarrow>
               (case charge listed h max_list of Inl e \<Rightarrow> (d, Inl e)
                | Inr n \<Rightarrow> (insert_entry d h, Inr (Field rest h n)))))
     else if first AND 0x20 \<noteq> 0 then
       (if seen_field then (d, Inl Compression)
        else (case hp_int buf 5 of Inl e \<Rightarrow> (d, Inl e)
              | Inr (n, rest) \<Rightarrow>
                  if settings_max d < n then (d, Inl Compression)
                  else (evict (d\<lparr>max_size := n\<rparr>), Inr (Update rest))))
     else
       (case hp_int buf 4 of Inl e \<Rightarrow> (d, Inl e)
        | Inr (idx, rest) \<Rightarrow>
           (case hpack_literal d idx rest of Inl e \<Rightarrow> (d, Inl e)
            | Inr (h, rest) \<Rightarrow>
               (case charge listed h max_list of Inl e \<Rightarrow> (d, Inl e)
                | Inr n \<Rightarrow> (d, Inr (Field rest h n))))))"

text \<open>Every field consumes at least one byte, so the loop over a block ends.\<close>

lemma int_loop_shorter: "int_loop v s buf = Inr (x, rest) \<Longrightarrow> length rest < length buf"
  by (induction v s buf rule: int_loop.induct) (auto simp: Let_def split: if_splits)

lemma hp_int_shorter: "hp_int buf p = Inr (x, rest) \<Longrightarrow> length rest < length buf"
  by (auto simp: hp_int_def Let_def split: list.splits if_splits dest: int_loop_shorter)

lemma hp_string_shorter: "hp_string buf = Inr (x, rest) \<Longrightarrow> length rest < length buf"
  by (auto simp: hp_string_def Let_def split: list.splits if_splits sum.splits option.splits
      dest!: hp_int_shorter)

lemma literal_shorter: "hpack_literal d idx buf = Inr (h, rest) \<Longrightarrow> length rest < length buf"
  by (auto simp: hpack_literal_def split: if_splits sum.splits dest!: hp_string_shorter)

lemma decode_field_shorter:
  "decode_field d b buf m l sf = (d', Inr (Field rest h n)) \<Longrightarrow> length rest < length buf"
  "decode_field d b buf m l sf = (d', Inr (Update rest)) \<Longrightarrow> length rest < length buf"
  by (auto simp: decode_field_def split: if_splits sum.splits dest!: hp_int_shorter literal_shorter)

function decode_loop ::
  "decoder \<Rightarrow> bytes \<Rightarrow> nat \<Rightarrow> nat \<Rightarrow> bool \<Rightarrow> header list \<Rightarrow> decoder \<times> (hpack_error + header list)" where
  "decode_loop d [] max_list listed seen_field out = (d, Inr out)"
| "decode_loop d (first # buf) max_list listed seen_field out =
    (case decode_field d first (first # buf) max_list listed seen_field of
       (d, Inl e) \<Rightarrow> (d, Inl e)
     | (d, Inr (Field rest h n)) \<Rightarrow> decode_loop d rest max_list n True (out @ [h])
     | (d, Inr (Update rest)) \<Rightarrow> decode_loop d rest max_list listed seen_field out)"
  by pat_completeness auto
termination
  by (relation "measure (\<lambda>(_, buf, _). length buf)") (auto dest!: decode_field_shorter [OF sym])

definition hpack_decode :: "decoder \<Rightarrow> bytes \<Rightarrow> nat \<Rightarrow> decoder \<times> (hpack_error + header list)" where
  "hpack_decode d buf max_list = decode_loop d buf max_list 0 False []"

text \<open>The encoder: the static table, otherwise literals without indexing.\<close>

record encoder =
  peer_max :: nat
  announced :: bool

definition encoder_new :: "nat \<Rightarrow> encoder" where
  "encoder_new n = \<lparr>peer_max = n, announced = False\<rparr>"

definition set_peer_max :: "encoder \<Rightarrow> nat \<Rightarrow> encoder" where
  "set_peer_max e n = (if n \<noteq> peer_max e then e\<lparr>peer_max := n, announced := False\<rparr> else e)"

function write_int_tail :: "nat \<Rightarrow> bytes" where
  "write_int_tail v =
    (if 0x80 \<le> v then (of_nat (v mod 128) OR 0x80) # write_int_tail (v div 128) else [of_nat v])"
  by pat_completeness auto
termination
  by (relation "measure id") auto

declare write_int_tail.simps [simp del]

definition write_int :: "nat \<Rightarrow> nat \<Rightarrow> u8 \<Rightarrow> bytes" where
  "write_int v prefix flags =
    (let mask = 2 ^ prefix - 1
     in if v < mask then [flags OR of_nat v] else (flags OR of_nat mask) # write_int_tail (v - mask))"

definition write_string :: "bytes \<Rightarrow> bytes" where
  "write_string s =
    (let hlen = encoded_len s
     in if hlen < length s then write_int hlen 7 0x80 @ huff_encode s
        else write_int (length s) 7 0x00 @ s)"

definition begin_block :: "encoder \<Rightarrow> encoder \<times> bytes" where
  "begin_block e = (if announced e then (e, []) else (e\<lparr>announced := True\<rparr>, write_int 0 5 0x20))"

definition hpack_encode :: "bytes \<Rightarrow> bytes \<Rightarrow> bytes" where
  "hpack_encode n v =
    (case position (\<lambda>(a, b). a = n \<and> b = v) STATIC of
       Some i \<Rightarrow> write_int (i + 1) 7 0x80
     | None \<Rightarrow>
         (case position (\<lambda>(a, _). a = n) STATIC of
            Some i \<Rightarrow> write_int (i + 1) 4 0x00
          | None \<Rightarrow> 0x00 # write_string n) @ write_string v)"

section \<open>Prefixed integers\<close>

lemma and_or_flag: "(a OR f) AND m = (a AND m) OR (f AND (m :: u8))"
  by (simp add: and.commute bit.conj_disj_distrib)

lemma unat_of_nat_and_mask:
  "p \<le> 8 \<Longrightarrow> unat (of_nat v AND (of_nat (2 ^ p - 1) :: u8)) = v mod 2 ^ p"
proof -
  assume p: "p \<le> 8"
  have "(of_nat (2 ^ p - 1) :: u8) = mask p" by (simp add: mask_eq_exp_minus_1 of_nat_diff)
  then have "of_nat v AND (of_nat (2 ^ p - 1) :: u8) = take_bit p (of_nat v)"
    by (simp only: take_bit_eq_mask)
  also have "\<dots> = of_nat (take_bit p v)" by (simp only: of_nat_take_bit)
  finally have "of_nat v AND (of_nat (2 ^ p - 1) :: u8) = of_nat (take_bit p v)" .
  moreover have "v mod 2 ^ p < 2 ^ 8"
    by (rule less_le_trans [of _ "2 ^ p"]) (use power_increasing [OF p, of "2 :: nat"] in simp_all)
  ultimately show ?thesis
    by (simp add: take_bit_eq_mod unsigned_of_nat take_bit_nat_eq_self)
qed

lemma tail_byte:
  "x < 128 \<Longrightarrow> unat ((of_nat x OR 0x80) AND (0x7f :: u8)) = x"
  "x < 128 \<Longrightarrow> unat (of_nat x AND (0x7f :: u8)) = x"
  "x < 128 \<Longrightarrow> (of_nat x :: u8) AND 0x80 = 0" "(y OR 0x80) AND (0x80 :: u8) \<noteq> 0"
proof -
  assume x: "x < 128"
  show m: "unat (of_nat x AND (0x7f :: u8)) = x"
    using unat_of_nat_and_mask [of 7 x] x by simp
  then show "unat ((of_nat x OR 0x80) AND (0x7f :: u8)) = x" by (simp add: and_or_flag)
  have "of_nat x AND (0x7f :: u8) = of_nat x" using m by (metis of_nat_unat ucast_id)
  then have "(of_nat x :: u8) AND 0x80 = (of_nat x AND 0x7f) AND 0x80" by simp
  also have "\<dots> = 0" by (simp add: and.assoc)
  finally show "(of_nat x :: u8) AND 0x80 = 0" .
next
  show "(y OR 0x80) AND (0x80 :: u8) \<noteq> 0" by (simp add: and_or_flag or_eq_0_iff)
qed

lemma int_loop_tail:
  assumes "shift < 63" "v < 2 ^ (63 - shift)" "acc + v * 2 ^ shift < 2 ^ 64"
  shows "int_loop acc shift (write_int_tail v @ rest) = Inr (acc + v * 2 ^ shift, rest)"
  using assms
proof (induction v arbitrary: acc shift rule: less_induct)
  case (less v)
  have small: "x * 2 ^ shift < 2 ^ 64" if "x \<le> v" for x
    using mult_le_mono1 [OF that, of "2 ^ shift"] less.prems(3) by linarith
  show ?case
  proof (cases "128 \<le> v")
    case True
    have "shift + 7 < 63"
    proof (rule ccontr)
      assume "\<not> shift + 7 < 63"
      then have "(2 :: nat) ^ (63 - shift) \<le> 2 ^ 7" by (intro power_increasing) auto
      with True less.prems(2) show False by simp
    qed
    moreover have "v div 128 < 2 ^ (63 - (shift + 7))"
    proof -
      have "63 - shift = 7 + (63 - (shift + 7))" using calculation by simp
      then have "(2 :: nat) ^ (63 - shift) = 128 * 2 ^ (63 - (shift + 7))" by (simp only: power_add) simp
      with less.prems(2) show ?thesis by (simp add: less_mult_imp_div_less)
    qed
    moreover have e: "acc + (v mod 128) * 2 ^ shift + v div 128 * 2 ^ (shift + 7) = acc + v * 2 ^ shift"
    proof -
      have "(v mod 128) * 2 ^ shift + v div 128 * 2 ^ (shift + 7) = (v mod 128 + 128 * (v div 128)) * 2 ^ shift"
        by (simp only: power_add add_mult_distrib) (simp add: ac_simps)
      also have "\<dots> = v * 2 ^ shift" by (simp only: mod_mult_div_eq)
      finally show ?thesis by simp
    qed
    ultimately have IH: "int_loop (acc + (v mod 128) * 2 ^ shift) (shift + 7) (write_int_tail (v div 128) @ rest)
        = Inr (acc + v * 2 ^ shift, rest)"
      using less.IH [of "v div 128" "shift + 7" "acc + (v mod 128) * 2 ^ shift"] True less.prems(3) by simp
    have "acc + (v mod 128) * 2 ^ shift < 2 ^ 64" using e less.prems(3) by linarith
    then show ?thesis
      using IH less.prems(1) small [of "v mod 128"] True
      by (simp add: write_int_tail.simps [of v] tail_byte Let_def)
  next
    case False
    then show ?thesis
      using less.prems small [of v] by (simp add: write_int_tail.simps [of v] tail_byte Let_def)
  qed
qed

abbreviation int_ok :: "nat \<Rightarrow> u8 \<Rightarrow> nat \<Rightarrow> bool" where
  "int_ok prefix flags v \<equiv> v < 2 ^ 63 \<and> 1 \<le> prefix \<and> prefix \<le> 8 \<and> flags AND of_nat (2 ^ prefix - 1) = 0"

lemma hp_int_write_int:
  assumes "int_ok prefix flags v"
  shows "hp_int (write_int v prefix flags @ rest) prefix = Inr (v, rest)"
proof -
  define m :: nat where "m = 2 ^ prefix - 1"
  have p: "prefix \<le> 8" and f: "flags AND of_nat m = 0" using assms by (auto simp: m_def)
  have first: "unat ((flags OR of_nat x) AND of_nat m) = x" if "x \<le> m" for x
    unfolding and_or_flag f using unat_of_nat_and_mask [OF p, of x] that by (simp add: m_def le_less_trans)
  have w: "write_int v prefix flags
      = (if v < m then [flags OR of_nat v] else (flags OR of_nat m) # write_int_tail (v - m))"
    by (simp only: write_int_def Let_def m_def)
  have i: "hp_int (b # r) prefix
      = (if unat (b AND of_nat m) < m then Inr (unat (b AND of_nat m), r) else int_loop m 0 r)" for b r
    by (simp only: hp_int_def Let_def m_def list.case)
  show ?thesis
  proof (cases "v < m")
    case True
    with first [of v] show ?thesis by (simp add: w i)
  next
    case False
    have m8: "m < 2 ^ 8"
      using power_increasing [OF p, of "2 :: nat"] by (simp add: m_def less_le_trans [of _ "2 ^ prefix"])
    have "v - m < 2 ^ 63" using assms by (auto intro: le_less_trans [OF diff_le_self])
    then have "int_loop m 0 (write_int_tail (v - m) @ rest) = Inr (m + (v - m) * 2 ^ 0, rest)"
      by (intro int_loop_tail) (use assms m8 False in auto)
    with False first [of m] show ?thesis by (simp add: w i)
  qed
qed

text \<open>The integer coding as a codec, for every prefix length and every flag pattern above it.\<close>

definition int_dec :: "nat \<Rightarrow> bytes \<Rightarrow> (nat \<times> bytes) option" where
  "int_dec prefix b = (case hp_int b prefix of Inl _ \<Rightarrow> None | Inr r \<Rightarrow> Some r)"

interpretation hint: codec "\<lambda>v. write_int v prefix flags" "int_dec prefix" "int_ok prefix flags"
  for prefix flags
  by unfold_locales (simp only: int_dec_def hp_int_write_int sum.case)

lemma int_loop_bound: "v < 2 ^ 64 \<Longrightarrow> int_loop v s buf = Inr (x, rest) \<Longrightarrow> v \<le> x \<and> x < 2 ^ 64"
proof (induction v s buf rule: int_loop.induct)
  case (2 v s b buf)
  then show ?case by (auto simp: Let_def split: if_splits)
qed simp

lemma hp_int_bound: "prefix \<le> 8 \<Longrightarrow> hp_int buf prefix = Inr (x, rest) \<Longrightarrow> x < 2 ^ 64"
proof -
  assume p: "prefix \<le> 8" and i: "hp_int buf prefix = Inr (x, rest)"
  define m :: nat where "m = 2 ^ prefix - 1"
  have "(2 :: nat) ^ prefix \<le> 2 ^ 8" using power_increasing [OF p, of "2 :: nat"] by simp
  then have m: "m < 2 ^ 64" by (simp add: m_def)
  obtain b r where b: "buf = b # r" using i by (cases buf) (auto simp: hp_int_def)
  have "hp_int buf prefix
      = (if unat (b AND of_nat m) < m then Inr (unat (b AND of_nat m), r) else int_loop m 0 r)"
    by (simp only: hp_int_def Let_def m_def list.case b)
  with i m show ?thesis using int_loop_bound [OF m] by (auto split: if_splits)
qed

section \<open>String literals\<close>

lemma write_int_Cons: "\<exists>b r. write_int v p f = b # r \<and> (b = f OR of_nat (min v (2 ^ p - 1)))"
  by (simp add: write_int_def Let_def min_def)

lemma write_int_flag:
  assumes "write_int v 7 f = b # r" "f = 0x80 \<or> f = 0"
  shows "b AND 0x80 \<noteq> 0 \<longleftrightarrow> f = 0x80"
proof -
  have b: "b = f OR of_nat (min v 127)" using write_int_Cons [of v 7 f] assms(1) by auto
  have "(of_nat (min v 127) :: u8) AND 0x80 = 0" by (rule tail_byte) simp
  then show ?thesis using assms(2) by (auto simp: b and_or_flag)
qed

lemma hp_string_prefixed:
  assumes "f = 0x80 \<or> f = 0" "length raw < 2 ^ 63"
    and "(if f = 0x80 then huff_decode raw MAX_STRING else Some raw) = Some s" "utf8_valid s"
  shows "hp_string (write_int (length raw) 7 f @ raw @ rest) = Inr (s, rest)"
proof -
  obtain b r where w: "write_int (length raw) 7 f = b # r" using write_int_Cons by blast
  have i: "hp_int (write_int (length raw) 7 f @ raw @ rest) 7 = Inr (length raw, raw @ rest)"
    by (rule hp_int_write_int) (use assms(1,2) in auto)
  show ?thesis
    using i assms(3,4) write_int_flag [OF w assms(1)]
    by (simp add: hp_string_def w Let_def from_utf8_def)
qed

abbreviation string_ok :: "bytes \<Rightarrow> bool" where
  "string_ok s \<equiv> utf8_valid s \<and> length s \<le> MAX_STRING"

lemma hp_string_write_string: "string_ok s \<Longrightarrow> hp_string (write_string s @ rest) = Inr (s, rest)"
proof -
  assume s: "string_ok s"
  show ?thesis
  proof (cases "encoded_len s < length s")
    case True
    then have w: "write_string s @ rest = write_int (length (huff_encode s)) 7 0x80 @ huff_encode s @ rest"
      by (simp add: write_string_def Let_def encoded_len_encode)
    show ?thesis
      unfolding w using s True by (intro hp_string_prefixed) (auto simp: encoded_len_encode huff_decode_encode)
  next
    case False
    then have w: "write_string s @ rest = write_int (length s) 7 0 @ s @ rest"
      by (simp add: write_string_def Let_def)
    show ?thesis unfolding w using s by (intro hp_string_prefixed) auto
  qed
qed

definition string_dec :: "bytes \<Rightarrow> (bytes \<times> bytes) option" where
  "string_dec b = (case hp_string b of Inl _ \<Rightarrow> None | Inr r \<Rightarrow> Some r)"

interpretation hstring: codec write_string string_dec string_ok
  by unfold_locales (simp add: string_dec_def hp_string_write_string)

section \<open>The dynamic table\<close>

definition entries_size :: "header list \<Rightarrow> nat" where
  "entries_size hs = sum_list (map entry_size hs)"

definition decoder_inv :: "decoder \<Rightarrow> bool" where
  "decoder_inv d \<longleftrightarrow>
     table_size d = entries_size (dynamic d) \<and> table_size d \<le> max_size d \<and> max_size d \<le> settings_max d"

lemma entries_size_simps [simp]:
  "entries_size [] = 0" "entries_size (h # hs) = entry_size h + entries_size hs"
  "entries_size (hs @ gs) = entries_size hs + entries_size gs" "entries_size (rev hs) = entries_size hs"
  by (simp_all add: entries_size_def sum_list_rev flip: rev_map)

lemma evict_back_size:
  "sz = entries_size hs \<Longrightarrow> evict_back hs sz mx = (hs', sz') \<Longrightarrow> sz' = entries_size hs' \<and> sz' \<le> mx"
  by (induction hs sz mx arbitrary: hs' sz' rule: evict_back.induct) (auto split: if_splits)

lemma evict_inv:
  assumes "table_size d = entries_size (dynamic d)" "max_size d \<le> settings_max d"
  shows "decoder_inv (evict d)"
proof -
  obtain hs sz where e: "evict_back (rev (dynamic d)) (table_size d) (max_size d) = (hs, sz)" by fastforce
  from evict_back_size [OF _ e] assms e show ?thesis by (simp add: decoder_inv_def evict_def)
qed

lemma evict_keeps [simp]: "max_size (evict d) = max_size d" "settings_max (evict d) = settings_max d"
  by (simp_all add: evict_def split: prod.splits)

lemma insert_entry_inv: "decoder_inv d \<Longrightarrow> decoder_inv (insert_entry d h)"
  unfolding insert_entry_def Let_def
  by (auto simp: decoder_inv_def [of "d\<lparr>dynamic := [], table_size := 0\<rparr>"] decoder_inv_def [of d] intro!: evict_inv)

lemma set_max_size_inv: "decoder_inv d \<Longrightarrow> decoder_inv (set_max_size d n)"
  by (cases "n < max_size d")
    (auto simp: set_max_size_def Let_def decoder_inv_def [of d] decoder_inv_def [of "d\<lparr>settings_max := n\<rparr>"]
      intro!: evict_inv)

lemma decode_field_state:
  "decode_field d b buf m l sf = (d', r) \<Longrightarrow>
    d' = d \<or> d' \<in> range (insert_entry d) \<or> (\<exists>n \<le> settings_max d. d' = evict (d\<lparr>max_size := n\<rparr>))"
  by (auto simp: decode_field_def not_less split: if_splits sum.splits)

lemma decode_field_inv: "decoder_inv d \<Longrightarrow> decode_field d b buf m l sf = (d', r) \<Longrightarrow> decoder_inv d'"
  using decode_field_state [of d b buf m l sf d' r] insert_entry_inv evict_inv [of "d\<lparr>max_size := _\<rparr>"]
  by (auto simp: decoder_inv_def [of d])

lemma decode_loop_inv:
  "decoder_inv d \<Longrightarrow> decode_loop d buf m l sf out = (d', r) \<Longrightarrow> decoder_inv d'"
proof (induction d buf m l sf out rule: decode_loop.induct)
  case (2 d first buf m l sf out)
  obtain d1 r1 where f: "decode_field d first (first # buf) m l sf = (d1, r1)" by fastforce
  have i: "decoder_inv d1" by (rule decode_field_inv [OF "2.prems"(1) f])
  with 2 f show ?case by (cases r1) (auto split: field_result.splits)
qed auto

text \<open>The life of a connection's decoder: blocks of any bytes, and changes of our own setting.\<close>

inductive decoder_step :: "decoder \<Rightarrow> decoder \<Rightarrow> bool" where
  block: "decoder_step d (fst (hpack_decode d buf max_list))"
| setting: "decoder_step d (set_max_size d n)"

inductive_cases decoder_stepE: "decoder_step d d'"

definition decoder_init :: "decoder \<Rightarrow> bool" where
  "decoder_init d \<longleftrightarrow> (\<exists>n. d = decoder_new n)"

interpretation hdec: invariant_system decoder_init decoder_step decoder_inv
proof
  show "decoder_inv d" if "decoder_init d" for d
    using that by (auto simp: decoder_init_def decoder_new_def decoder_inv_def)
  show "decoder_inv d'" if "decoder_inv d" "decoder_step d d'" for d d'
    using that(2)
  proof (rule decoder_stepE)
    fix buf m
    assume "d' = fst (hpack_decode d buf m)"
    then show "decoder_inv d'"
      using decode_loop_inv [OF that(1)] by (metis hpack_decode_def prod.collapse)
  qed (use set_max_size_inv [OF that(1)] in simp)
qed

section \<open>Decoding what the encoder writes\<close>

lemma decode_field_listed:
  "decode_field d b buf m l sf = (d', Inr (Field rest h n)) \<Longrightarrow> n = l + entry_size h \<and> n \<le> m"
  by (auto simp: decode_field_def charge_def Let_def split: if_splits sum.splits)

lemma decode_loop_listed:
  "decode_loop d buf m l sf out = (d', Inr hs) \<Longrightarrow> l = entries_size out \<Longrightarrow> l \<le> m \<Longrightarrow> entries_size hs \<le> m"
proof (induction d buf m l sf out rule: decode_loop.induct)
  case (2 d first buf m l sf out)
  obtain d1 r1 where f: "decode_field d first (first # buf) m l sf = (d1, r1)" by fastforce
  show ?case
  proof (cases r1)
    case (Inl e)
    with 2 f show ?thesis by simp
  next
    case (Inr fr)
    with 2 f decode_field_listed [of d first "first # buf" m l sf d1] show ?thesis
      by (cases fr) auto
  qed
qed auto

lemma low_nibble:
  "x < 16 \<Longrightarrow> (of_nat x :: u8) AND 0x80 = 0 \<and> (of_nat x :: u8) AND 0x40 = 0 \<and> (of_nat x :: u8) AND 0x20 = 0"
proof -
  assume x: "x < 16"
  have "unat (of_nat x AND (0xf :: u8)) = x" using unat_of_nat_and_mask [of 4 x] x by simp
  then have e: "(of_nat x :: u8) = of_nat x AND 0xf" by (metis of_nat_unat ucast_id)
  have m: "(of_nat x :: u8) AND m = of_nat x AND (0xf AND m)" for m :: u8
    by (subst e) (simp add: and.assoc)
  show ?thesis using m [of "0x80"] m [of "0x40"] m [of "0x20"] by simp
qed

lemma length_STATIC [simp]: "length STATIC = 61"
  by (simp add: STATIC_def)

definition header_ok :: "header \<Rightarrow> bool" where
  "header_ok h \<longleftrightarrow> string_ok (hname h) \<and> string_ok (hvalue h)"

lemma hpack_literal_new:
  "header_ok h \<Longrightarrow> hpack_literal d 0 (write_string (hname h) @ write_string (hvalue h) @ rest) = Inr (h, rest)"
  by (simp add: hpack_literal_def header_ok_def hp_string_write_string)

lemma hpack_literal_static:
  assumes "header_ok h" "i < 61" "fst (STATIC ! i) = hname h"
  shows "hpack_literal d (Suc i) (write_string (hvalue h) @ rest) = Inr (h, rest)"
proof -
  obtain a b where "STATIC ! i = (a, b)" by fastforce
  with assms show ?thesis
    by (simp add: hpack_literal_def hpack_lookup_def header_ok_def hp_string_write_string)
qed

lemma decode_field_encode:
  assumes h: "header_ok h" and l: "l + entry_size h \<le> m"
  shows "\<exists>b r. hpack_encode (hname h) (hvalue h) @ rest = b # r \<and>
    decode_field d b (b # r) m l sf = (d, Inr (Field rest h (l + entry_size h)))"
proof -
  have c: "charge l h m = Inr (l + entry_size h)" using l by (simp add: charge_def)
  show ?thesis
  proof (cases "position (\<lambda>(a, b). a = hname h \<and> b = hvalue h) STATIC")
    case (Some i)
    with position_Some [OF Some] have i: "i < 61" "STATIC ! i = (hname h, hvalue h)"
      by (auto split: prod.splits)
    obtain b r where w: "write_int (Suc i) 7 0x80 = b # r" using write_int_Cons by blast
    have "hp_int (write_int (Suc i) 7 0x80 @ rest) 7 = Inr (Suc i, rest)"
      by (rule hp_int_write_int) (use i in simp)
    moreover have "b AND 0x80 \<noteq> 0" using write_int_flag [OF w] by simp
    moreover have "hpack_lookup d (Suc i) = Inr h" using i by (simp add: hpack_lookup_def)
    ultimately show ?thesis
      using Some i c w by (auto simp: hpack_encode_def decode_field_def)
  next
    case none: None
    show ?thesis
    proof (cases "position (\<lambda>(a, _). a = hname h) STATIC")
      case (Some i)
      with position_Some [OF Some] have i: "i < 61" "fst (STATIC ! i) = hname h"
        by (auto split: prod.splits)
      obtain b r where w: "write_int (Suc i) 4 0x00 = b # r" "b = of_nat (min (Suc i) 15)"
        using write_int_Cons [of "Suc i" 4 0] by auto
      have "hp_int (write_int (Suc i) 4 0x00 @ write_string (hvalue h) @ rest) 4
          = Inr (Suc i, write_string (hvalue h) @ rest)"
        by (rule hp_int_write_int) (use i in simp)
      moreover have "b AND 0x80 = 0" "b AND 0x40 = 0" "b AND 0x20 = 0"
        using low_nibble [of "min (Suc i) 15"] w(2) by simp_all
      ultimately show ?thesis
        using none Some hpack_literal_static [OF h i] c w(1)
        by (auto simp: hpack_encode_def decode_field_def)
    next
      case None
      have "hp_int (0x00 # write_string (hname h) @ write_string (hvalue h) @ rest) 4
          = Inr (0, write_string (hname h) @ write_string (hvalue h) @ rest)"
        by (simp add: hp_int_def)
      with none None hpack_literal_new [OF h] c show ?thesis
        by (auto simp: hpack_encode_def decode_field_def)
    qed
  qed
qed

definition encode_all :: "header list \<Rightarrow> bytes" where
  "encode_all hs = concat (map (\<lambda>h. hpack_encode (hname h) (hvalue h)) hs)"

lemma decode_loop_encode_all:
  "list_all header_ok hs \<Longrightarrow> l + entries_size hs \<le> m \<Longrightarrow>
    decode_loop d (encode_all hs) m l sf out = (d, Inr (out @ hs))"
proof (induction hs arbitrary: l sf out)
  case Nil
  then show ?case by (simp add: encode_all_def)
next
  case (Cons h hs)
  have h: "header_ok h" "l + entry_size h \<le> m" using Cons.prems by auto
  from decode_field_encode [OF h, of "encode_all hs" d sf] obtain b r where
    b: "hpack_encode (hname h) (hvalue h) @ encode_all hs = b # r"
    "decode_field d b (b # r) m l sf = (d, Inr (Field (encode_all hs) h (l + entry_size h)))" by blast
  then have "decode_loop d (encode_all (h # hs)) m l sf out
      = decode_loop d (encode_all hs) m (l + entry_size h) True (out @ [h])"
    by (simp add: encode_all_def)
  with Cons.IH [of "l + entry_size h" True "out @ [h]"] Cons.prems show ?case by simp
qed

section \<open>Properties\<close>

text \<open>C15.
  The state a peer can make us keep is bounded: whatever sequence of blocks the decoder is
  given, malformed ones included, and however our own setting changes in between, the accounted
  table size is the sum of the entry sizes and never exceeds the limit in force, which never
  exceeds the limit we advertised.
\<close>

theorem hpack_table_bounded:
  assumes "reachable decoder_init decoder_step d"
  shows "table_size d = sum_list (map entry_size (dynamic d)) \<and> table_size d \<le> max_size d
    \<and> max_size d \<le> settings_max d"
  using hdec.reachable_inv [OF assms] by (simp add: decoder_inv_def entries_size_def)

theorem hpack_table_bounded_witness:
  "table_size (fst (hpack_decode (decoder_new 4096) [0x40, 1, 97, 1, 98] 100)) \<le> 4096"
proof -
  have d: "decoder_step (decoder_new 4096) (fst (hpack_decode (decoder_new 4096) [0x40, 1, 97, 1, 98] 100))"
    by (rule decoder_step.block)
  have "decoder_init (decoder_new 4096)" by (auto simp: decoder_init_def)
  note r = reach_step [OF reach_init [of decoder_init, OF this, of decoder_step] d]
  have "hp_string [1, 97, 1, 98] = Inr ([97], [1, 98])" "hp_string [1, 98] = Inr ([98], [])"
    by (simp_all add: hp_string_def hp_int_def from_utf8_def utf8_valid_Cons_ascii)
  then have "max_size (fst (hpack_decode (decoder_new 4096) [0x40, 1, 97, 1, 98] 100)) = 4096"
    by (simp add: hpack_decode_def decode_field_def hp_int_def hpack_literal_def charge_def
        entry_size_def insert_entry_def decoder_new_def)
  with hpack_table_bounded [OF r] show ?thesis by simp
qed

text \<open>
  The decoded header list is bounded: whatever the block, if it is accepted then the sum of
  name, value and 32 bytes per header is within the limit passed in, so a small block cannot expand
  without bound.
\<close>

theorem hpack_list_bounded:
  assumes "hpack_decode d buf max_list = (d', Inr hs)"
  shows "sum_list (map entry_size hs) \<le> max_list"
  using decode_loop_listed [of d buf max_list 0 False "[]" d' hs] assms
  by (simp add: hpack_decode_def entries_size_def)

theorem hpack_list_bounded_witness:
  "sum_list (map entry_size [\<lparr>hname = bs '':method'', hvalue = bs ''GET''\<rparr>]) \<le> 42"
proof -
  have "hpack_decode (decoder_new 0) [0x82] 42 = (decoder_new 0, Inr [\<lparr>hname = bs '':method'', hvalue = bs ''GET''\<rparr>])"
    by (simp add: hpack_decode_def decode_field_def hp_int_def hpack_lookup_def charge_def
        entry_size_def STATIC_def)
  from hpack_list_bounded [OF this] show ?thesis .
qed

text \<open>C13.
  What the encoder writes decodes to the headers it was given, in order, whatever the state
  of the decoder: the opening size update (when one is pending), static matches, static names and
  literals, raw or Huffman coded. The block leaves the decoder's table alone, except that the
  opening update empties it.
\<close>

theorem hpack_encode_decode:
  assumes "list_all header_ok hs" "sum_list (map entry_size hs) \<le> max_list"
  shows "\<exists>d'. hpack_decode d (snd (begin_block e) @ concat (map (\<lambda>h. hpack_encode (hname h) (hvalue h)) hs)) max_list
      = (d', Inr hs) \<and> d' = (if announced e then d else evict (d\<lparr>max_size := 0\<rparr>))"
proof -
  have all: "decode_loop c (encode_all hs) max_list 0 False [] = (c, Inr hs)" for c
    using decode_loop_encode_all [OF assms(1), of 0 max_list c False "[]"] assms(2)
    by (simp add: entries_size_def)
  show ?thesis
  proof (cases "announced e")
    case True
    with all show ?thesis by (simp add: begin_block_def hpack_decode_def encode_all_def)
  next
    case False
    have w: "write_int 0 5 0x20 = [0x20]" by (simp add: write_int_def)
    have "decode_field d 0x20 (0x20 # r) max_list 0 False = (evict (d\<lparr>max_size := 0\<rparr>), Inr (Update r))" for r
      by (simp add: decode_field_def hp_int_def)
    with False all w show ?thesis by (simp add: begin_block_def hpack_decode_def encode_all_def)
  qed
qed

theorem hpack_encode_decode_witness:
  "\<exists>d'. hpack_decode (decoder_new 100)
     (snd (begin_block (encoder_new 0)) @ concat (map (\<lambda>h. hpack_encode (hname h) (hvalue h))
        [\<lparr>hname = bs ''x'', hvalue = bs ''yy''\<rparr>, \<lparr>hname = bs '':status'', hvalue = bs ''200''\<rparr>])) 80
     = (d', Inr [\<lparr>hname = bs ''x'', hvalue = bs ''yy''\<rparr>, \<lparr>hname = bs '':status'', hvalue = bs ''200''\<rparr>])"
  using hpack_encode_decode [of "[\<lparr>hname = bs ''x'', hvalue = bs ''yy''\<rparr>, \<lparr>hname = bs '':status'', hvalue = bs ''200''\<rparr>]"
      80 "decoder_new 100" "encoder_new 0"]
  by (auto simp: header_ok_def utf8_valid_Cons_ascii entry_size_def)

text \<open>
  Prefixed integers: for every prefix length from 1 to 8 and every pattern of flag bits above
  the prefix, each value below \<open>2 ^ 63\<close> decodes from its encoding in front of any other bytes, two
  encodings followed by anything are equal only for equal values, and no input decodes to a value
  of \<open>2 ^ 64\<close> or more.
\<close>

theorem hpack_int_codec:
  assumes "1 \<le> prefix" "prefix \<le> 8" "flags AND of_nat (2 ^ prefix - 1) = 0"
  shows "(v < 2 ^ 63 \<longrightarrow> hp_int (write_int v prefix flags @ rest) prefix = Inr (v, rest))
    \<and> (v < 2 ^ 63 \<longrightarrow> u < 2 ^ 63 \<longrightarrow> write_int v prefix flags @ r = write_int u prefix flags @ s \<longrightarrow> v = u \<and> r = s)
    \<and> (hp_int buf prefix = Inr (x, q) \<longrightarrow> x < 2 ^ 64)"
  using assms hint.enc_unambiguous [where prefix = prefix and flags = flags and x = v and y = u]
    hp_int_write_int [of v prefix flags rest] hp_int_bound [OF assms(2)] by blast

theorem hpack_int_codec_witness:
  "hp_int (write_int 1337 5 0xE0 @ [7]) 5 = Inr (1337, [7]) \<and> write_int 1337 5 0xE0 = [0xFF, 0x9A, 0x0A]"
  using hpack_int_codec [of 5 "0xE0" 1337 "[7]"]
  by (simp add: write_int_def write_int_tail.simps [of 1306] write_int_tail.simps [of 10])

text \<open>
  A block that is refused for its size leaves the table out of step with the sender: for a
  literal the sender adds to the table whose size exceeds the header list limit, the decoder
  reports \<open>TooLarge\<close> with its table unchanged, although under any larger limit the same bytes add
  the entry. (The connection resets only the stream on \<open>TooLarge\<close> and keeps using this decoder.)
\<close>

theorem hpack_too_large_desynchronises:
  assumes "header_ok h" "max_list < entry_size h" "entry_size h \<le> max_size d" "dynamic d = []" "table_size d = 0"
  shows "hpack_decode d (0x40 # write_string (hname h) @ write_string (hvalue h)) max_list = (d, Inl TooLarge)
    \<and> (\<forall>lim \<ge> entry_size h. dynamic (fst
         (hpack_decode d (0x40 # write_string (hname h) @ write_string (hvalue h)) lim)) = [h])"
proof -
  let ?b = "write_string (hname h) @ write_string (hvalue h)"
  have i: "hp_int (0x40 # ?b) 6 = Inr (0, ?b)" by (simp add: hp_int_def)
  have lit: "hpack_literal d 0 ?b = Inr (h, [])" using hpack_literal_new [OF assms(1), of d "[]"] by simp
  have ins: "dynamic (insert_entry d h) = [h]" using assms(3-5) by (simp add: insert_entry_def evict_def)
  show ?thesis
    using assms(2) i lit ins by (auto simp: hpack_decode_def decode_field_def charge_def)
qed

theorem hpack_too_large_desynchronises_witness:
  "snd (hpack_decode (decoder_new 4096) (0x40 # write_string (bs ''a'') @ write_string (bs ''b'')) 33) = Inl TooLarge
   \<and> dynamic (fst (hpack_decode (decoder_new 4096) (0x40 # write_string (bs ''a'') @ write_string (bs ''b'')) 33)) = []
   \<and> dynamic (fst (hpack_decode (decoder_new 4096) (0x40 # write_string (bs ''a'') @ write_string (bs ''b'')) 34))
       = [\<lparr>hname = bs ''a'', hvalue = bs ''b''\<rparr>]"
  using hpack_too_large_desynchronises [of "\<lparr>hname = bs ''a'', hvalue = bs ''b''\<rparr>" 33 "decoder_new 4096"]
  by (simp add: header_ok_def entry_size_def decoder_new_def utf8_valid_Cons_ascii)

end
