(* ===== verification/H3_Frame.thy ===== *)
theory H3_Frame
  imports Prelude
begin

text \<open>
  HTTP/3 framing (\<^verbatim>\<open>src/http3/frame.rs\<close>): QUIC variable-length integers, frame headers and the
  SETTINGS payload. Values are \<open>64 word\<close>s as in the source; the reader returns the number of bytes
  it consumed, and \<open>None\<close> when the bytes seen so far do not decide.
\<close>

section \<open>Definitions\<close>

abbreviation H3_DATA :: u64 where "H3_DATA \<equiv> 0x00"
abbreviation H3_HEADERS :: u64 where "H3_HEADERS \<equiv> 0x01"
abbreviation H3_SETTINGS :: u64 where "H3_SETTINGS \<equiv> 0x04"
abbreviation FRAME_UNEXPECTED :: u64 where "FRAME_UNEXPECTED \<equiv> 0x0105"
abbreviation EXCESSIVE_LOAD :: u64 where "EXCESSIVE_LOAD \<equiv> 0x0107"
abbreviation SETTINGS_ERROR :: u64 where "SETTINGS_ERROR \<equiv> 0x0109"
abbreviation QPACK_DECOMPRESSION_FAILED :: u64 where "QPACK_DECOMPRESSION_FAILED \<equiv> 0x0200"
abbreviation VARINT_MAX :: u64 where "VARINT_MAX \<equiv> 0x3fffffffffffffff"

abbreviation QPACK_MAX_TABLE_CAPACITY :: u64 where "QPACK_MAX_TABLE_CAPACITY \<equiv> 0x01"
abbreviation MAX_FIELD_SECTION_SIZE :: u64 where "MAX_FIELD_SECTION_SIZE \<equiv> 0x06"
abbreviation QPACK_BLOCKED_STREAMS :: u64 where "QPACK_BLOCKED_STREAMS \<equiv> 0x07"

definition varint_len :: "u64 \<Rightarrow> nat" where
  "varint_len v = (if v \<le> 0x3f then 1 else if v \<le> 0x3fff then 2 else if v \<le> 0x3fffffff then 4 else 8)"

definition put_varint :: "u64 \<Rightarrow> bytes" where
  "put_varint v =
    (if varint_len v = 1 then [ucast v]
     else if varint_len v = 2 then to_be16 (ucast v OR 0x4000)
     else if varint_len v = 4 then to_be32 (ucast v OR 0x80000000)
     else to_be64 (v OR 0xc000000000000000))"

definition get_varint :: "bytes \<Rightarrow> (u64 \<times> nat) option" where
  "get_varint buf =
    (case buf of
       [] \<Rightarrow> None
     | first # _ \<Rightarrow>
        (let len = 2 ^ unat (drop_bit 6 first)
         in if length buf < len then None
            else Some (fold (\<lambda>b v. push_bit 8 v OR ucast b) (take (len - 1) (drop 1 buf)) (ucast (first AND 0x3f)),
                       len)))"

record h3_head =
  h3_kind :: u64
  h3_len :: u64
  head_len :: nat

definition is_reserved_h2 :: "u64 \<Rightarrow> bool" where
  "is_reserved_h2 k \<longleftrightarrow> k = 0x02 \<or> k = 0x06 \<or> k = 0x08 \<or> k = 0x09"

text \<open>\<open>Inl\<close> is the error code to close with, \<open>Inr None\<close> is incomplete.\<close>

definition parse_head :: "bytes \<Rightarrow> u64 + h3_head option" where
  "parse_head buf =
    (case get_varint buf of
       None \<Rightarrow> Inr None
     | Some (k, a) \<Rightarrow>
        (case get_varint (drop a buf) of
           None \<Rightarrow> Inr None
         | Some (len, b) \<Rightarrow>
             if is_reserved_h2 k then Inl FRAME_UNEXPECTED
             else Inr (Some \<lparr>h3_kind = k, h3_len = len, head_len = a + b\<rparr>)))"

definition is_grease :: "u64 \<Rightarrow> bool" where
  "is_grease v \<longleftrightarrow> 0x21 \<le> v \<and> (v - 0x21) mod 0x1f = 0"

definition put_frame :: "u64 \<Rightarrow> bytes \<Rightarrow> bytes" where
  "put_frame k payload = put_varint k @ put_varint (of_nat (length payload)) @ payload"

definition put_data_head :: "u64 \<Rightarrow> bytes" where
  "put_data_head len = put_varint H3_DATA @ put_varint len"

record settings =
  qpack_max_table_capacity :: u64
  qpack_blocked_streams :: u64
  max_field_section_size :: u64

definition settings_default :: settings where
  "settings_default =
    \<lparr>qpack_max_table_capacity = 0, qpack_blocked_streams = 0, max_field_section_size = 0x10000\<rparr>"

definition settings_encode :: "settings \<Rightarrow> bytes" where
  "settings_encode s =
    concat (map (\<lambda>(i, v). put_varint i @ put_varint v)
      [(QPACK_MAX_TABLE_CAPACITY, qpack_max_table_capacity s),
       (QPACK_BLOCKED_STREAMS, qpack_blocked_streams s),
       (MAX_FIELD_SECTION_SIZE, max_field_section_size s)])"

definition settings_apply :: "u64 \<Rightarrow> u64 \<Rightarrow> settings \<Rightarrow> settings" where
  "settings_apply i v s =
    (if i = QPACK_MAX_TABLE_CAPACITY then s\<lparr>qpack_max_table_capacity := v\<rparr>
     else if i = QPACK_BLOCKED_STREAMS then s\<lparr>qpack_blocked_streams := v\<rparr>
     else if i = MAX_FIELD_SECTION_SIZE then s\<lparr>max_field_section_size := v\<rparr>
     else s)"

lemma get_varint_len: "get_varint buf = Some (v, n) \<Longrightarrow> 0 < n \<and> n \<le> length buf"
  by (auto simp: get_varint_def Let_def split: list.splits if_splits)

function settings_loop :: "settings \<Rightarrow> bytes \<Rightarrow> u64 + settings" where
  "settings_loop s buf =
    (if buf = [] then Inr s
     else (case get_varint buf of
        None \<Rightarrow> Inl SETTINGS_ERROR
      | Some (i, n) \<Rightarrow>
          (case get_varint (drop n buf) of
             None \<Rightarrow> Inl SETTINGS_ERROR
           | Some (v, m) \<Rightarrow>
               if 0x02 \<le> i \<and> i \<le> 0x05 then Inl SETTINGS_ERROR
               else settings_loop (settings_apply i v s) (drop m (drop n buf)))))"
  by pat_completeness auto
termination
  by (relation "measure (\<lambda>(_, buf). length buf)") (auto dest!: get_varint_len)

declare settings_loop.simps [simp del]

definition settings_decode :: "bytes \<Rightarrow> u64 + settings" where
  "settings_decode buf = settings_loop settings_default buf"

section \<open>Variable-length integers\<close>

lemma mask_3f: "(0x3f :: u8) = mask 6"
  by (simp add: mask_eq_exp_minus_1)

lemma length_bits:
  "bit (0x4000 :: u16) n \<longleftrightarrow> n = 14" "bit (0x80000000 :: u32) n \<longleftrightarrow> n = 31"
  "bit (0xc000000000000000 :: u64) n \<longleftrightarrow> n = 62 \<or> n = 63"
proof -
  have "(0x4000 :: u16) = push_bit 14 1" "(0x80000000 :: u32) = push_bit 31 1"
    "(0xc000000000000000 :: u64) = push_bit 62 1 OR push_bit 63 1"
    by simp_all
  then show "bit (0x4000 :: u16) n \<longleftrightarrow> n = 14" "bit (0x80000000 :: u32) n \<longleftrightarrow> n = 31"
    "bit (0xc000000000000000 :: u64) n \<longleftrightarrow> n = 62 \<or> n = 63"
    by (simp_all only: bit_or_iff bit_push_bit_iff possible_bit_word bit_1_iff) auto
qed

lemma varint_1:
  assumes "unat (v :: u64) < 2 ^ 6"
  shows "drop_bit 6 (ucast v :: u8) = 0" "ucast ((ucast v :: u8) AND 0x3f) = v"
proof -
  note b = word_bit_bound [OF assms]
  show "drop_bit 6 (ucast v :: u8) = 0"
    by (rule bit_word_eqI) (auto simp: bit_simps dest: b)
  show "ucast ((ucast v :: u8) AND 0x3f) = v"
    unfolding mask_3f by (rule bit_word_eqI) (auto simp: bit_simps dest: b)
qed

text \<open>The wider forms: the length bits on top of the big-endian bytes of the value.\<close>

lemma varint_2:
  assumes "unat (v :: u64) < 2 ^ 14"
  defines "w \<equiv> (ucast v OR 0x4000 :: u16)"
  shows "drop_bit 6 (ucast (drop_bit 8 w) :: u8) = 1"
    "push_bit 8 (ucast ((ucast (drop_bit 8 w) :: u8) AND 0x3f)) OR ucast (ucast w :: u8) = v"
proof -
  note b = word_bit_bound [OF assms(1)]
  have w: "bit w n \<longleftrightarrow> bit v n \<or> n = 14" for n
    by (simp only: w_def bit_or_iff length_bits) (auto simp: bit_simps dest: b)
  show "drop_bit 6 (ucast (drop_bit 8 w) :: u8) = 1"
    by (rule bit_word_eqI) (auto simp: bit_simps w dest: b)
  show "push_bit 8 (ucast ((ucast (drop_bit 8 w) :: u8) AND 0x3f)) OR ucast (ucast w :: u8) = v"
    unfolding mask_3f by (rule bit_word_eqI) (auto simp: bit_simps w dest: b)
qed

lemma varint_4:
  assumes "unat (v :: u64) < 2 ^ 30"
  defines "w \<equiv> (ucast v OR 0x80000000 :: u32)"
  shows "drop_bit 6 (ucast (drop_bit 24 w) :: u8) = 2"
    "push_bit 8 (push_bit 8 (push_bit 8 (ucast ((ucast (drop_bit 24 w) :: u8) AND 0x3f))
       OR ucast (ucast (drop_bit 16 w) :: u8)) OR ucast (ucast (drop_bit 8 w) :: u8)) OR ucast (ucast w :: u8) = v"
proof -
  note b = word_bit_bound [OF assms(1)]
  have w: "bit w n \<longleftrightarrow> bit v n \<or> n = 31" for n
    by (simp only: w_def bit_or_iff length_bits) (auto simp: bit_simps dest: b)
  have two: "(2 :: u8) = push_bit 1 1" by simp
  show "drop_bit 6 (ucast (drop_bit 24 w) :: u8) = 2"
    by (rule bit_word_eqI, unfold two) (auto simp: bit_simps w dest: b)
  show "push_bit 8 (push_bit 8 (push_bit 8 (ucast ((ucast (drop_bit 24 w) :: u8) AND 0x3f))
       OR ucast (ucast (drop_bit 16 w) :: u8)) OR ucast (ucast (drop_bit 8 w) :: u8)) OR ucast (ucast w :: u8) = v"
    (is "?l = v")
  proof (rule bit_word_eqI)
    fix n
    assume "n < LENGTH(64)"
    then consider "n < 8" | "8 \<le> n" "n < 16" | "16 \<le> n" "n < 24" | "24 \<le> n" "n < 30" | "30 \<le> n" by fastforce
    then show "bit ?l n = bit v n"
      unfolding mask_3f using b [of n] by cases (auto simp: bit_simps w)
  qed
qed

lemma varint_8:
  assumes "unat (v :: u64) < 2 ^ 62"
  defines "w \<equiv> (v OR 0xc000000000000000 :: u64)"
  shows "drop_bit 6 (hd (to_be64 w)) = 3"
    "fold (\<lambda>b v. push_bit 8 v OR ucast b) (tl (to_be64 w)) (ucast (hd (to_be64 w) AND 0x3f)) = v"
proof -
  note b = word_bit_bound [OF assms(1)]
  have w: "bit w n \<longleftrightarrow> bit v n \<or> n = 62 \<or> n = 63" for n
    by (simp only: w_def bit_or_iff length_bits)
  have three: "(3 :: u8) = mask 2" by (simp add: mask_eq_exp_minus_1)
  show "drop_bit 6 (hd (to_be64 w)) = 3"
    by (rule bit_word_eqI, unfold three) (auto simp: to_be64_def to_be32_def bit_simps w dest: b)
  show "fold (\<lambda>b v. push_bit 8 v OR ucast b) (tl (to_be64 w)) (ucast (hd (to_be64 w) AND 0x3f)) = v"
    (is "?l = v")
  proof (rule bit_word_eqI)
    fix n
    assume "n < LENGTH(64)"
    then consider "n < 8" | "8 \<le> n" "n < 16" | "16 \<le> n" "n < 24" | "24 \<le> n" "n < 32"
      | "32 \<le> n" "n < 40" | "40 \<le> n" "n < 48" | "48 \<le> n" "n < 56" | "56 \<le> n" "n < 62" | "62 \<le> n" "n < 64"
      by fastforce
    then show "bit ?l n = bit v n"
      unfolding mask_3f using b [of n] by cases (auto simp: to_be64_def to_be32_def bit_simps w)
  qed
qed

lemma get_varint_put_varint:
  assumes "v \<le> VARINT_MAX"
  shows "get_varint (put_varint v @ rest) = Some (v, length (put_varint v)) \<and> length (put_varint v) = varint_len v"
proof -
  have v: "unat v < 2 ^ 62" using assms by (simp add: word_le_nat_alt)
  consider "v \<le> 0x3f" | "\<not> v \<le> 0x3f" "v \<le> 0x3fff" | "\<not> v \<le> 0x3f" "\<not> v \<le> 0x3fff" "v \<le> 0x3fffffff"
    | "\<not> v \<le> 0x3f" "\<not> v \<le> 0x3fff" "\<not> v \<le> 0x3fffffff" by blast
  then show ?thesis
  proof cases
    case 1
    then have "unat v < 2 ^ 6" by (simp add: word_le_nat_alt)
    from varint_1 [OF this] 1 show ?thesis
      by (simp add: put_varint_def varint_len_def get_varint_def)
  next
    case 2
    then have "unat v < 2 ^ 14" by (simp add: word_le_nat_alt)
    from varint_2 [OF this] 2 show ?thesis
      by (simp add: put_varint_def varint_len_def get_varint_def to_be16_def)
  next
    case 3
    then have "unat v < 2 ^ 30" by (simp add: word_le_nat_alt)
    from varint_4 [OF this] 3 show ?thesis
      by (simp add: put_varint_def varint_len_def get_varint_def to_be32_def numeral_3_eq_3)
  next
    case 4
    let ?w = "v OR 0xc000000000000000"
    obtain b r where w: "to_be64 ?w = b # r" "length r = 7"
      by (cases "to_be64 ?w") (auto simp: to_be64_def to_be32_def)
    with varint_8 [OF v] 4 show ?thesis
      by (simp add: put_varint_def varint_len_def get_varint_def)
  qed
qed

lemma get_varint_stable: "get_varint b = Some r \<Longrightarrow> get_varint (b @ c) = Some r"
  by (auto simp: get_varint_def Let_def split: list.splits if_splits)

interpretation varint_inc: incremental get_varint "\<lambda>r. r = None"
  by unfold_locales (auto simp: get_varint_stable)

definition varint_dec :: "bytes \<Rightarrow> (u64 \<times> bytes) option" where
  "varint_dec b = map_option (\<lambda>(v, n). (v, drop n b)) (get_varint b)"

interpretation varint: codec put_varint varint_dec "\<lambda>v. v \<le> VARINT_MAX"
  by unfold_locales (simp add: varint_dec_def get_varint_put_varint)

section \<open>Frame headers\<close>

lemma parse_head_stable: "parse_head b \<noteq> Inr None \<Longrightarrow> parse_head (b @ c) = parse_head b"
proof -
  assume "parse_head b \<noteq> Inr None"
  then obtain k a l n where v: "get_varint b = Some (k, a)" "get_varint (drop a b) = Some (l, n)"
    by (auto simp: parse_head_def split: option.splits)
  have "a \<le> length b" using get_varint_len [OF v(1)] by simp
  then have "get_varint (b @ c) = Some (k, a)" "get_varint (drop a (b @ c)) = Some (l, n)"
    using get_varint_stable [OF v(1)] get_varint_stable [OF v(2)] by simp_all
  with v show ?thesis by (simp add: parse_head_def)
qed

interpretation head_inc: incremental parse_head "\<lambda>r. r = Inr None"
  by unfold_locales (rule parse_head_stable)

lemma parse_head_put:
  assumes "k \<le> VARINT_MAX" "l \<le> VARINT_MAX" "\<not> is_reserved_h2 k"
  shows "parse_head (put_varint k @ put_varint l @ rest) = Inr (Some \<lparr>h3_kind = k, h3_len = l,
    head_len = length (put_varint k) + length (put_varint l)\<rparr>)"
  using get_varint_put_varint [OF assms(1), of "put_varint l @ rest"]
    get_varint_put_varint [OF assms(2), of rest] assms(3)
  by (simp add: parse_head_def)

lemma settings_loop_put:
  assumes "i \<le> VARINT_MAX" "v \<le> VARINT_MAX" "\<not> (0x02 \<le> i \<and> i \<le> 0x05)"
  shows "settings_loop s (put_varint i @ put_varint v @ rest) = settings_loop (settings_apply i v s) rest"
proof -
  note g = get_varint_put_varint [OF assms(1), of "put_varint v @ rest"]
    get_varint_put_varint [OF assms(2), of rest]
  have "put_varint i \<noteq> []" using g(1) by (auto simp: varint_len_def split: if_splits)
  then show ?thesis using g assms(3) by (subst settings_loop.simps) auto
qed

section \<open>Properties\<close>

text \<open>
  Frames written to a stream are read back however the bytes arrive. For every frame kind and
  length that QUIC can express, except the kinds reserved from HTTP/2, the header written for it
  is parsed to that kind and length and to a header size that leaves exactly the bytes after it;
  and for any cut of the bytes into chunks, asking again after each chunk gives that same answer.
\<close>

theorem h3_frame_header_roundtrip:
  assumes "k \<le> VARINT_MAX" "length payload < 2 ^ 62" "\<not> is_reserved_h2 k"
    and "concat chunks = put_frame k payload @ rest"
  shows "\<exists>h. feed parse_head (\<lambda>r. r = Inr None) [] chunks = Inr (Some h) \<and>
    h3_kind h = k \<and> unat (h3_len h) = length payload \<and>
    take (length payload) (drop (head_len h) (concat chunks)) = payload \<and>
    drop (head_len h + length payload) (concat chunks) = rest"
proof -
  let ?l = "of_nat (length payload) :: u64"
  have l: "unat ?l = length payload" using assms(2) by (simp add: unsigned_of_nat take_bit_nat_eq_self)
  then have "?l \<le> VARINT_MAX" using assms(2) by (simp add: word_le_nat_alt)
  from parse_head_put [OF assms(1) this assms(3), of "payload @ rest"]
  have "parse_head (concat chunks) = Inr (Some \<lparr>h3_kind = k, h3_len = ?l,
    head_len = length (put_varint k) + length (put_varint ?l)\<rparr>)"
    by (simp add: assms(4) put_frame_def)
  moreover have "feed parse_head (\<lambda>r. r = Inr None) [] chunks = parse_head (concat chunks)"
    using head_inc.feed_parse [of "[]" chunks] by simp
  ultimately show ?thesis
    using l assms(4) by (simp add: put_frame_def)
qed

theorem h3_frame_header_roundtrip_witness:
  "\<exists>h. feed parse_head (\<lambda>r. r = Inr None) [] [[0x01], [0x02], [7, 8, 9]] = Inr (Some h) \<and> h3_kind h = 0x01"
  using h3_frame_header_roundtrip [of 1 "[7, 8]" "[[0x01], [0x02], [7, 8, 9]]" "[9]"]
  by (auto simp: is_reserved_h2_def put_frame_def put_varint_def varint_len_def)

text \<open>
  The SETTINGS payload round-trips: every three setting values QUIC can express come back from
  \<^verbatim>\<open>encode\<close> and \<^verbatim>\<open>decode\<close>; and identifiers the server does not know, sent in front, are skipped
  unless they are the reserved HTTP/2 ones, which are refused.
\<close>

theorem h3_settings_roundtrip:
  assumes "qpack_max_table_capacity s \<le> VARINT_MAX" "qpack_blocked_streams s \<le> VARINT_MAX"
    "max_field_section_size s \<le> VARINT_MAX" "i \<le> VARINT_MAX" "v \<le> VARINT_MAX"
    and "i \<noteq> QPACK_MAX_TABLE_CAPACITY" "i \<noteq> QPACK_BLOCKED_STREAMS" "i \<noteq> MAX_FIELD_SECTION_SIZE"
  shows "settings_decode (settings_encode s) = Inr s
    \<and> settings_decode (put_varint i @ put_varint v @ settings_encode s) =
      (if 2 \<le> i \<and> i \<le> 5 then Inl SETTINGS_ERROR else Inr s)"
proof -
  have dec: "settings_loop t (settings_encode s) = Inr s" for t
  proof -
    have "settings_loop t (settings_encode s)
      = settings_loop (settings_apply MAX_FIELD_SECTION_SIZE (max_field_section_size s)
         (settings_apply QPACK_BLOCKED_STREAMS (qpack_blocked_streams s)
           (settings_apply QPACK_MAX_TABLE_CAPACITY (qpack_max_table_capacity s) t))) []"
      unfolding settings_encode_def using assms(1-3)
      by (simp add: settings_loop_put word_le_nat_alt
          settings_loop_put [where rest = "[]", simplified])
    also have "\<dots> = Inr s"
      by (cases s; cases t) (simp add: settings_apply_def settings_loop.simps)
    finally show ?thesis .
  qed
  have "settings_decode (put_varint i @ put_varint v @ settings_encode s) =
      (if 2 \<le> i \<and> i \<le> 5 then Inl SETTINGS_ERROR else Inr s)"
  proof (cases "2 \<le> i \<and> i \<le> 5")
    case True
    note g = get_varint_put_varint [OF assms(4), of "put_varint v @ settings_encode s"]
      get_varint_put_varint [OF assms(5), of "settings_encode s"]
    have "put_varint i \<noteq> []" using g(1) by (auto simp: varint_len_def split: if_splits)
    with True g show ?thesis unfolding settings_decode_def by (subst settings_loop.simps) auto
  next
    case False
    from settings_loop_put [OF assms(4,5) False] dec False show ?thesis
      by (simp add: settings_decode_def)
  qed
  with dec show ?thesis by (simp add: settings_decode_def)
qed

theorem h3_settings_roundtrip_witness:
  "settings_decode (put_varint 0x21 @ put_varint 9 @ settings_encode settings_default) = Inr settings_default
   \<and> is_grease 0x21"
  using h3_settings_roundtrip [of settings_default "0x21" 9]
  by (simp add: settings_default_def is_grease_def)

end
