(* ===== verification/Qpack.thy ===== *)
theory Qpack
  imports Hpack H3_Frame
begin

text \<open>
  QPACK without a dynamic table (\<^verbatim>\<open>src/http3/qpack.rs\<close>): the static table, field lines and the
  section decoder. Integers and the Huffman code are those of HPACK; an HPACK error becomes the
  connection error code. Errors are HTTP/3 error codes.
\<close>

section \<open>Definitions\<close>

abbreviation QPACK_MAX_STRING :: nat where "QPACK_MAX_STRING \<equiv> 32768"
abbreviation FIELD_OVERHEAD :: nat where "FIELD_OVERHEAD \<equiv> 32"

definition QSTATIC :: "(bytes \<times> bytes) list" where
  "QSTATIC = [
   (bs '':authority'', bs ''''),
   (bs '':path'', bs ''/''),
   (bs ''age'', bs ''0''),
   (bs ''content-disposition'', bs ''''),
   (bs ''content-length'', bs ''0''),
   (bs ''cookie'', bs ''''),
   (bs ''date'', bs ''''),
   (bs ''etag'', bs ''''),
   (bs ''if-modified-since'', bs ''''),
   (bs ''if-none-match'', bs ''''),
   (bs ''last-modified'', bs ''''),
   (bs ''link'', bs ''''),
   (bs ''location'', bs ''''),
   (bs ''referer'', bs ''''),
   (bs ''set-cookie'', bs ''''),
   (bs '':method'', bs ''CONNECT''),
   (bs '':method'', bs ''DELETE''),
   (bs '':method'', bs ''GET''),
   (bs '':method'', bs ''HEAD''),
   (bs '':method'', bs ''OPTIONS''),
   (bs '':method'', bs ''POST''),
   (bs '':method'', bs ''PUT''),
   (bs '':scheme'', bs ''http''),
   (bs '':scheme'', bs ''https''),
   (bs '':status'', bs ''103''),
   (bs '':status'', bs ''200''),
   (bs '':status'', bs ''304''),
   (bs '':status'', bs ''404''),
   (bs '':status'', bs ''503''),
   (bs ''accept'', bs ''*/*''),
   (bs ''accept'', bs ''application/dns-message''),
   (bs ''accept-encoding'', bs ''gzip, deflate, br''),
   (bs ''accept-ranges'', bs ''bytes''),
   (bs ''access-control-allow-headers'', bs ''cache-control''),
   (bs ''access-control-allow-headers'', bs ''content-type''),
   (bs ''access-control-allow-origin'', bs ''*''),
   (bs ''cache-control'', bs ''max-age=0''),
   (bs ''cache-control'', bs ''max-age=2592000''),
   (bs ''cache-control'', bs ''max-age=604800''),
   (bs ''cache-control'', bs ''no-cache''),
   (bs ''cache-control'', bs ''no-store''),
   (bs ''cache-control'', bs ''public, max-age=31536000''),
   (bs ''content-encoding'', bs ''br''),
   (bs ''content-encoding'', bs ''gzip''),
   (bs ''content-type'', bs ''application/dns-message''),
   (bs ''content-type'', bs ''application/javascript''),
   (bs ''content-type'', bs ''application/json''),
   (bs ''content-type'', bs ''application/x-www-form-urlencoded''),
   (bs ''content-type'', bs ''image/gif''),
   (bs ''content-type'', bs ''image/jpeg''),
   (bs ''content-type'', bs ''image/png''),
   (bs ''content-type'', bs ''text/css''),
   (bs ''content-type'', bs ''text/html; charset=utf-8''),
   (bs ''content-type'', bs ''text/plain''),
   (bs ''content-type'', bs ''text/plain;charset=utf-8''),
   (bs ''range'', bs ''bytes=0-''),
   (bs ''strict-transport-security'', bs ''max-age=31536000''),
   (bs ''strict-transport-security'', bs ''max-age=31536000; includesubdomains''),
   (bs ''strict-transport-security'', bs ''max-age=31536000; includesubdomains; preload''),
   (bs ''vary'', bs ''accept-encoding''),
   (bs ''vary'', bs ''origin''),
   (bs ''x-content-type-options'', bs ''nosniff''),
   (bs ''x-xss-protection'', bs ''1; mode=block''),
   (bs '':status'', bs ''100''),
   (bs '':status'', bs ''204''),
   (bs '':status'', bs ''206''),
   (bs '':status'', bs ''302''),
   (bs '':status'', bs ''400''),
   (bs '':status'', bs ''403''),
   (bs '':status'', bs ''421''),
   (bs '':status'', bs ''425''),
   (bs '':status'', bs ''500''),
   (bs ''accept-language'', bs ''''),
   (bs ''access-control-allow-credentials'', bs ''FALSE''),
   (bs ''access-control-allow-credentials'', bs ''TRUE''),
   (bs ''access-control-allow-headers'', bs ''*''),
   (bs ''access-control-allow-methods'', bs ''get''),
   (bs ''access-control-allow-methods'', bs ''get, post, options''),
   (bs ''access-control-allow-methods'', bs ''options''),
   (bs ''access-control-expose-headers'', bs ''content-length''),
   (bs ''access-control-request-headers'', bs ''content-type''),
   (bs ''access-control-request-method'', bs ''get''),
   (bs ''access-control-request-method'', bs ''post''),
   (bs ''alt-svc'', bs ''clear''),
   (bs ''authorization'', bs ''''),
   (bs ''content-security-policy'', bs (''script-src '' @ [CHR 0x27] @ ''none'' @ [CHR 0x27] @ ''; object-src '' @ [CHR 0x27] @ ''none'' @ [CHR 0x27] @ ''; base-uri '' @ [CHR 0x27] @ ''none'' @ [CHR 0x27])),
   (bs ''early-data'', bs ''1''),
   (bs ''expect-ct'', bs ''''),
   (bs ''forwarded'', bs ''''),
   (bs ''if-range'', bs ''''),
   (bs ''origin'', bs ''''),
   (bs ''purpose'', bs ''prefetch''),
   (bs ''server'', bs ''''),
   (bs ''timing-allow-origin'', bs ''*''),
   (bs ''upgrade-insecure-requests'', bs ''1''),
   (bs ''user-agent'', bs ''''),
   (bs ''x-forwarded-for'', bs ''''),
   (bs ''x-frame-options'', bs ''deny''),
   (bs ''x-frame-options'', bs ''sameorigin'')]"

definition begin_section :: bytes where
  "begin_section = [0x00, 0x00]"

definition qwrite_string :: "bytes \<Rightarrow> nat \<Rightarrow> u8 \<Rightarrow> bytes" where
  "qwrite_string s prefix flags =
    (let huff = push_bit prefix 1; hlen = encoded_len s
     in if hlen < length s then write_int hlen prefix (flags OR huff) @ huff_encode s
        else write_int (length s) prefix flags @ s)"

definition qpack_encode :: "bytes \<Rightarrow> bytes \<Rightarrow> bytes" where
  "qpack_encode n v =
    (case position (\<lambda>(a, b). a = n \<and> b = v) QSTATIC of
       Some i \<Rightarrow> write_int i 6 0xc0
     | None \<Rightarrow>
         (case position (\<lambda>(a, _). a = n) QSTATIC of
            Some i \<Rightarrow> write_int i 4 0x50
          | None \<Rightarrow> qwrite_string n 3 0x20) @ qwrite_string v 7 0x00)"

text \<open>\<^verbatim>\<open>impl From<HpackError> for QpackError\<close>, applied by the question mark.\<close>

definition qint :: "bytes \<Rightarrow> nat \<Rightarrow> u64 + (nat \<times> bytes)" where
  "qint buf prefix = (case hp_int buf prefix of Inl _ \<Rightarrow> Inl QPACK_DECOMPRESSION_FAILED | Inr r \<Rightarrow> Inr r)"

definition static_at :: "nat \<Rightarrow> u64 + (bytes \<times> bytes)" where
  "static_at i = (if i < length QSTATIC then Inr (QSTATIC ! i) else Inl QPACK_DECOMPRESSION_FAILED)"

definition dynamic_reference :: u64 where
  "dynamic_reference = QPACK_DECOMPRESSION_FAILED"

definition read_prefix :: "bytes \<Rightarrow> u64 + bytes" where
  "read_prefix buf =
    (case qint buf 8 of
       Inl e \<Rightarrow> Inl e
     | Inr (required_insert_count, rest) \<Rightarrow>
         if required_insert_count \<noteq> 0 then Inl dynamic_reference
         else (case qint rest 7 of Inl e \<Rightarrow> Inl e | Inr (_, rest) \<Rightarrow> Inr rest))"

definition read_string :: "bytes \<Rightarrow> nat \<Rightarrow> u64 + (bytes \<times> bytes)" where
  "read_string buf prefix =
    (case buf of
       [] \<Rightarrow> Inl QPACK_DECOMPRESSION_FAILED
     | first # _ \<Rightarrow>
        (let huffman_coded = (first AND push_bit prefix 1 \<noteq> 0)
         in case qint buf prefix of
              Inl e \<Rightarrow> Inl e
            | Inr (len, rest) \<Rightarrow>
                if length rest < len then Inl QPACK_DECOMPRESSION_FAILED
                else (let raw = take len rest; rest = drop len rest
                      in case (if huffman_coded then huff_decode raw QPACK_MAX_STRING else Some raw) of
                           None \<Rightarrow> Inl QPACK_DECOMPRESSION_FAILED
                         | Some s \<Rightarrow>
                             (case from_utf8 s of None \<Rightarrow> Inl QPACK_DECOMPRESSION_FAILED
                              | Some s \<Rightarrow> Inr (s, rest)))))"

text \<open>One field line and what follows it.\<close>

definition decode_line :: "u8 \<Rightarrow> bytes \<Rightarrow> u64 + (header \<times> bytes)" where
  "decode_line b rest =
    (if b AND 0x80 \<noteq> 0 then
       (if b AND 0x40 = 0 then Inl dynamic_reference
        else (case qint rest 6 of Inl e \<Rightarrow> Inl e
              | Inr (i, r) \<Rightarrow>
                 (case static_at i of Inl e \<Rightarrow> Inl e
                  | Inr (n, v) \<Rightarrow> Inr (\<lparr>hname = n, hvalue = v\<rparr>, r))))
     else if b AND 0x40 \<noteq> 0 then
       (if b AND 0x10 = 0 then Inl dynamic_reference
        else (case qint rest 4 of Inl e \<Rightarrow> Inl e
              | Inr (i, r) \<Rightarrow>
                 (case static_at i of Inl e \<Rightarrow> Inl e
                  | Inr (n, _) \<Rightarrow>
                     (case read_string r 7 of Inl e \<Rightarrow> Inl e
                      | Inr (v, r) \<Rightarrow> Inr (\<lparr>hname = n, hvalue = v\<rparr>, r)))))
     else if b AND 0x20 \<noteq> 0 then
       (case read_string rest 3 of Inl e \<Rightarrow> Inl e
        | Inr (n, r) \<Rightarrow>
           (case read_string r 7 of Inl e \<Rightarrow> Inl e
            | Inr (v, r) \<Rightarrow> Inr (\<lparr>hname = n, hvalue = v\<rparr>, r)))
     else Inl dynamic_reference)"

lemma qint_shorter: "qint buf p = Inr (x, rest) \<Longrightarrow> length rest < length buf"
  by (auto simp: qint_def split: sum.splits dest: hp_int_shorter)

lemma read_string_shorter: "read_string buf p = Inr (x, rest) \<Longrightarrow> length rest < length buf"
  by (auto simp: read_string_def Let_def split: list.splits if_splits sum.splits option.splits
      dest!: qint_shorter)

lemma decode_line_shorter: "decode_line b buf = Inr (h, rest) \<Longrightarrow> length rest < length buf"
  by (auto simp: decode_line_def split: if_splits sum.splits dest!: qint_shorter read_string_shorter)

function section_loop :: "bytes \<Rightarrow> nat \<Rightarrow> nat \<Rightarrow> header list \<Rightarrow> u64 + header list" where
  "section_loop [] max_section sz out = Inr out"
| "section_loop (b # buf) max_section sz out =
    (case decode_line b (b # buf) of
       Inl e \<Rightarrow> Inl e
     | Inr (h, rest) \<Rightarrow>
         (let sz = sz + length (hname h) + length (hvalue h) + FIELD_OVERHEAD
          in if max_section < sz then Inl EXCESSIVE_LOAD
             else section_loop rest max_section sz (out @ [h])))"
  by pat_completeness auto
termination
  by (relation "measure (\<lambda>(buf, _). length buf)") (auto dest!: decode_line_shorter)

definition qpack_decode :: "bytes \<Rightarrow> nat \<Rightarrow> u64 + header list" where
  "qpack_decode buf max_section =
    (case read_prefix buf of Inl e \<Rightarrow> Inl e | Inr rest \<Rightarrow> section_loop rest max_section 0 [])"

section \<open>Field lines read back\<close>

text \<open>The flag bits above the prefix are those the writer was given.\<close>

lemma write_int_first:
  assumes "write_int v p f = b # r" "p \<le> 8" "k AND of_nat (2 ^ p - 1) = 0"
  shows "b AND k = f AND k"
proof -
  let ?x = "min v (2 ^ p - 1)"
  have b: "b = f OR of_nat ?x" using write_int_Cons [of v p f] assms(1) by auto
  have "?x < 2 ^ p" by (simp add: min_less_iff_disj)
  then have "unat (of_nat ?x AND (of_nat (2 ^ p - 1) :: u8)) = ?x"
    using unat_of_nat_and_mask [OF assms(2), of ?x] by simp
  then have e: "(of_nat ?x :: u8) = of_nat ?x AND of_nat (2 ^ p - 1)" by (metis of_nat_unat ucast_id)
  have "(of_nat ?x :: u8) AND k = of_nat ?x AND (k AND of_nat (2 ^ p - 1))"
    by (subst e) (simp only: and.assoc and.commute [of k])
  then show ?thesis using assms(3) by (simp add: b and_or_flag)
qed

lemma read_string_prefixed:
  assumes p: "(p = 3 \<and> f = 0x20) \<or> (p = 7 \<and> f = 0)" and raw: "length raw < 2 ^ 63"
    and s: "(if h then huff_decode raw QPACK_MAX_STRING else Some raw) = Some s" "utf8_valid s"
  shows "read_string (write_int (length raw) p (if h then f OR push_bit p 1 else f) @ raw @ rest) p
    = Inr (s, rest)"
proof -
  let ?f = "if h then f OR push_bit p 1 else f"
  obtain b r where w: "write_int (length raw) p ?f = b # r" using write_int_Cons by blast
  have "hp_int (write_int (length raw) p ?f @ raw @ rest) p = Inr (length raw, raw @ rest)"
    by (rule hp_int_write_int) (use p raw in \<open>auto simp: and_or_flag\<close>)
  then have i: "qint (write_int (length raw) p ?f @ raw @ rest) p = Inr (length raw, raw @ rest)"
    by (simp add: qint_def)
  have "b AND push_bit p 1 = ?f AND push_bit p 1"
    by (rule write_int_first [OF w]) (use p in auto)
  then have "b AND push_bit p 1 \<noteq> 0 \<longleftrightarrow> h" using p by (auto simp: and_or_flag)
  with i s show ?thesis by (simp add: read_string_def w Let_def from_utf8_def)
qed

abbreviation qstring_ok :: "bytes \<Rightarrow> bool" where
  "qstring_ok s \<equiv> utf8_valid s \<and> length s \<le> QPACK_MAX_STRING"

lemma read_string_qwrite_string:
  assumes "(p = 3 \<and> f = 0x20) \<or> (p = 7 \<and> f = 0)" "qstring_ok s"
  shows "read_string (qwrite_string s p f @ rest) p = Inr (s, rest)"
proof (cases "encoded_len s < length s")
  case True
  then have "qwrite_string s p f @ rest
      = write_int (length (huff_encode s)) p (if True then f OR push_bit p 1 else f) @ huff_encode s @ rest"
    by (simp add: qwrite_string_def Let_def encoded_len_encode)
  then show ?thesis
    using read_string_prefixed [OF assms(1), of "huff_encode s" True s rest] assms(2) True
    by (simp add: encoded_len_encode huff_decode_encode)
next
  case False
  then have "qwrite_string s p f @ rest
      = write_int (length s) p (if False then f OR push_bit p 1 else f) @ s @ rest"
    by (simp add: qwrite_string_def Let_def)
  then show ?thesis
    using read_string_prefixed [OF assms(1), of s False s rest] assms(2) by simp
qed

interpretation qstring: codec "\<lambda>s. qwrite_string s 7 0x00"
  "\<lambda>b. case read_string b 7 of Inl _ \<Rightarrow> None | Inr r \<Rightarrow> Some r" qstring_ok
  by unfold_locales (simp add: read_string_qwrite_string)

lemma length_QSTATIC [simp]: "length QSTATIC = 99"
  by (simp add: QSTATIC_def)

definition qheader_ok :: "header \<Rightarrow> bool" where
  "qheader_ok h \<longleftrightarrow> qstring_ok (hname h) \<and> qstring_ok (hvalue h)"

lemma qint_write_int: "int_ok p f v \<Longrightarrow> qint (write_int v p f @ rest) p = Inr (v, rest)"
  by (simp only: qint_def hp_int_write_int sum.case)

lemma qwrite_string_Cons:
  "\<exists>b r. qwrite_string s 3 0x20 = b # r \<and> b AND 0x80 = 0 \<and> b AND 0x40 = 0 \<and> b AND 0x20 \<noteq> 0"
proof -
  have *: "\<exists>b r. write_int v 3 f @ x = b # r \<and> b AND 0x80 = 0 \<and> b AND 0x40 = 0 \<and> b AND 0x20 \<noteq> 0"
    if f: "f = 0x20 \<or> f = 0x28" for v f x
  proof -
    obtain b r where w: "write_int v 3 f = b # r" using write_int_Cons by blast
    have "b AND 0x80 = f AND 0x80" "b AND 0x40 = f AND 0x40" "b AND 0x20 = f AND 0x20"
      by (rule write_int_first [OF w]; simp)+
    with w f show ?thesis by auto
  qed
  have "qwrite_string s 3 0x20 = write_int (encoded_len s) 3 0x28 @ huff_encode s
      \<or> qwrite_string s 3 0x20 = write_int (length s) 3 0x20 @ s"
    by (simp add: qwrite_string_def Let_def)
  then show ?thesis using * [of "0x28"] * [of "0x20"] by metis
qed

lemma decode_line_encode:
  assumes h: "qheader_ok h"
  shows "\<exists>b r. qpack_encode (hname h) (hvalue h) @ rest = b # r \<and> decode_line b (b # r) = Inr (h, rest)"
proof (cases "position (\<lambda>(a, b). a = hname h \<and> b = hvalue h) QSTATIC")
  case (Some i)
  with position_Some [OF Some] have i: "i < 99" "QSTATIC ! i = (hname h, hvalue h)"
    by (auto split: prod.splits)
  obtain b r where w: "write_int i 6 0xc0 = b # r" using write_int_Cons by blast
  have "qint (write_int i 6 0xc0 @ rest) 6 = Inr (i, rest)" by (rule qint_write_int) (use i in simp)
  moreover have "b AND 0x80 = 0xc0 AND 0x80" "b AND 0x40 = 0xc0 AND 0x40"
    by (rule write_int_first [OF w]; simp)+
  moreover have "static_at i = Inr (hname h, hvalue h)" using i by (simp add: static_at_def)
  ultimately show ?thesis using Some w by (auto simp: qpack_encode_def decode_line_def)
next
  case none: None
  have v: "read_string (qwrite_string (hvalue h) 7 0 @ rest) 7 = Inr (hvalue h, rest)"
    by (rule read_string_qwrite_string) (use h in \<open>auto simp: qheader_ok_def\<close>)
  show ?thesis
  proof (cases "position (\<lambda>(a, _). a = hname h) QSTATIC")
    case (Some i)
    with position_Some [OF Some] have i: "i < 99" "fst (QSTATIC ! i) = hname h" by (auto split: prod.splits)
    obtain b r where w: "write_int i 4 0x50 = b # r" using write_int_Cons by blast
    have "qint (write_int i 4 0x50 @ qwrite_string (hvalue h) 7 0 @ rest) 4
        = Inr (i, qwrite_string (hvalue h) 7 0 @ rest)"
      by (rule qint_write_int) (use i in simp)
    moreover have "b AND 0x80 = 0x50 AND 0x80" "b AND 0x40 = 0x50 AND 0x40" "b AND 0x10 = 0x50 AND 0x10"
      by (rule write_int_first [OF w]; simp)+
    moreover have "\<exists>x. static_at i = Inr (hname h, x)"
      using i by (cases "QSTATIC ! i") (simp add: static_at_def)
    ultimately show ?thesis using none Some w v by (auto simp: qpack_encode_def decode_line_def)
  next
    case None
    have "read_string (qwrite_string (hname h) 3 0x20 @ qwrite_string (hvalue h) 7 0 @ rest) 3
        = Inr (hname h, qwrite_string (hvalue h) 7 0 @ rest)"
      by (rule read_string_qwrite_string) (use h in \<open>auto simp: qheader_ok_def\<close>)
    moreover obtain b r where "qwrite_string (hname h) 3 0x20 = b # r" "b AND 0x80 = 0" "b AND 0x40 = 0"
        "b AND 0x20 \<noteq> 0"
      using qwrite_string_Cons by blast
    ultimately show ?thesis using none None v by (auto simp: qpack_encode_def decode_line_def)
  qed
qed

definition qpack_encode_all :: "header list \<Rightarrow> bytes" where
  "qpack_encode_all hs = concat (map (\<lambda>h. qpack_encode (hname h) (hvalue h)) hs)"

lemma section_loop_encode_all:
  "list_all qheader_ok hs \<Longrightarrow> sz + entries_size hs \<le> m \<Longrightarrow>
    section_loop (qpack_encode_all hs) m sz out = Inr (out @ hs)"
proof (induction hs arbitrary: sz out)
  case Nil
  then show ?case by (simp add: qpack_encode_all_def)
next
  case (Cons h hs)
  from decode_line_encode [of h "qpack_encode_all hs"] Cons.prems obtain b r where
    b: "qpack_encode (hname h) (hvalue h) @ qpack_encode_all hs = b # r"
    "decode_line b (b # r) = Inr (h, qpack_encode_all hs)" by auto
  then have "section_loop (qpack_encode_all (h # hs)) m sz out
      = section_loop (qpack_encode_all hs) m (sz + entry_size h) (out @ [h])"
    using Cons.prems(2) by (simp add: qpack_encode_all_def entry_size_def add.assoc)
  with Cons.IH [of "sz + entry_size h" "out @ [h]"] Cons.prems show ?case by simp
qed

lemma section_loop_bounded:
  "section_loop buf m sz out = Inr hs \<Longrightarrow> sz = entries_size out \<Longrightarrow> sz \<le> m \<Longrightarrow> entries_size hs \<le> m"
proof (induction buf m sz out rule: section_loop.induct)
  case (2 b buf m sz out)
  then show ?case by (auto simp: Let_def entry_size_def add.assoc split: sum.splits if_splits)
qed simp

section \<open>Properties\<close>

text \<open>
  Every field section the server writes is read back to the fields it was given: static
  fields, static names, literal names with their 3-bit length prefix, and values, raw or Huffman
  coded, for any strings within the decoder's limits.
\<close>

theorem qpack_encode_decode:
  assumes "list_all qheader_ok hs" "sum_list (map entry_size hs) \<le> max_section"
  shows "qpack_decode (begin_section @ concat (map (\<lambda>h. qpack_encode (hname h) (hvalue h)) hs)) max_section = Inr hs"
proof -
  have "read_prefix (begin_section @ r) = Inr r" for r
    by (simp add: read_prefix_def begin_section_def qint_def hp_int_def)
  moreover have "section_loop (qpack_encode_all hs) max_section 0 [] = Inr hs"
    using section_loop_encode_all [OF assms(1), of 0 max_section "[]"] assms(2) by (simp add: entries_size_def)
  ultimately show ?thesis by (simp add: qpack_decode_def qpack_encode_all_def)
qed

theorem qpack_encode_decode_witness:
  "qpack_decode (begin_section @ concat (map (\<lambda>h. qpack_encode (hname h) (hvalue h))
     [\<lparr>hname = bs '':status'', hvalue = bs ''200''\<rparr>, \<lparr>hname = bs ''x-a'', hvalue = bs ''b''\<rparr>])) 100
   = Inr [\<lparr>hname = bs '':status'', hvalue = bs ''200''\<rparr>, \<lparr>hname = bs ''x-a'', hvalue = bs ''b''\<rparr>]"
  by (rule qpack_encode_decode) (simp_all add: qheader_ok_def utf8_valid_Cons_ascii entry_size_def)

text \<open>
  A decoded section is within the advertised size, and a section that claims to depend on the
  dynamic table, which does not exist, is never accepted.
\<close>

theorem qpack_section_bounded:
  assumes "qpack_decode buf max_section = Inr hs"
  shows "sum_list (map entry_size hs) \<le> max_section \<and> (\<exists>rest. qint buf 8 = Inr (0, rest))"
proof -
  obtain r where r: "read_prefix buf = Inr r" "section_loop r max_section 0 [] = Inr hs"
    using assms by (auto simp: qpack_decode_def split: sum.splits)
  then show ?thesis
    using section_loop_bounded [OF r(2)]
    by (auto simp: entries_size_def read_prefix_def split: sum.splits if_splits)
qed

theorem qpack_section_bounded_witness:
  "sum_list (map entry_size [\<lparr>hname = bs '':method'', hvalue = bs ''GET''\<rparr>]) \<le> 42"
proof -
  have "qpack_decode [0, 0, 0xd1] 42 = Inr [\<lparr>hname = bs '':method'', hvalue = bs ''GET''\<rparr>]"
    by (simp add: qpack_decode_def read_prefix_def qint_def hp_int_def decode_line_def static_at_def QSTATIC_def)
  from qpack_section_bounded [OF this] show ?thesis by blast
qed

end
