(* ===== verification/H2_Frame.thy ===== *)
theory H2_Frame
  imports Prelude
begin

text \<open>
  HTTP/2 framing (\<^verbatim>\<open>src/http2/frame.rs\<close>): the nine-byte frame header, padding, and the builders
  of the fixed-shape frames. \<open>read_frame\<close> is what a reader of the connection does with the parsed
  header: take the payload it announces.
\<close>

section \<open>Definitions\<close>

abbreviation HEADER_LEN :: nat where "HEADER_LEN \<equiv> 9"
abbreviation K_RST_STREAM :: u8 where "K_RST_STREAM \<equiv> 0x3"
abbreviation K_SETTINGS :: u8 where "K_SETTINGS \<equiv> 0x4"
abbreviation K_GOAWAY :: u8 where "K_GOAWAY \<equiv> 0x7"
abbreviation K_WINDOW_UPDATE :: u8 where "K_WINDOW_UPDATE \<equiv> 0x8"
abbreviation F_ACK :: u8 where "F_ACK \<equiv> 0x1"

datatype code =
    NoError | Protocol | Internal | FlowControl | SettingsTimeout | StreamClosed | FrameSize
  | RefusedStream | Cancel | CompressionErr | Connect | EnhanceYourCalm | InadequateSecurity
  | Http11Required

fun code_u32 :: "code \<Rightarrow> u32" where
  "code_u32 NoError = 0x0"
| "code_u32 Protocol = 0x1"
| "code_u32 Internal = 0x2"
| "code_u32 FlowControl = 0x3"
| "code_u32 SettingsTimeout = 0x4"
| "code_u32 StreamClosed = 0x5"
| "code_u32 FrameSize = 0x6"
| "code_u32 RefusedStream = 0x7"
| "code_u32 Cancel = 0x8"
| "code_u32 CompressionErr = 0x9"
| "code_u32 Connect = 0xa"
| "code_u32 EnhanceYourCalm = 0xb"
| "code_u32 InadequateSecurity = 0xc"
| "code_u32 Http11Required = 0xd"

record head =
  len :: u32
  kind :: u8
  flags :: u8
  stream :: u32

text \<open>The argument has nine bytes; \<open>head_parse\<close> reads each of them.\<close>

definition head_parse :: "bytes \<Rightarrow> head" where
  "head_parse b =
    \<lparr>len = from_be32 0 (b ! 0) (b ! 1) (b ! 2), kind = b ! 3, flags = b ! 4,
     stream = from_be32 (b ! 5) (b ! 6) (b ! 7) (b ! 8) AND 0x7fffffff\<rparr>"

definition has :: "head \<Rightarrow> u8 \<Rightarrow> bool" where
  "has h f \<longleftrightarrow> flags h AND f \<noteq> 0"

definition head_write :: "head \<Rightarrow> bytes" where
  "head_write h = drop 1 (to_be32 (len h)) @ [kind h, flags h] @ to_be32 (stream h)"

definition write_frame :: "u8 \<Rightarrow> u8 \<Rightarrow> u32 \<Rightarrow> bytes \<Rightarrow> bytes" where
  "write_frame k f st payload =
     head_write \<lparr>len = of_nat (length payload), kind = k, flags = f, stream = st\<rparr> @ payload"

definition unpad :: "bytes \<Rightarrow> bool \<Rightarrow> bytes option" where
  "unpad payload padded =
    (if \<not> padded then Some payload
     else (case payload of [] \<Rightarrow> None
           | p # rest \<Rightarrow> if length rest < unat p then None else Some (take (length rest - unat p) rest)))"

definition goaway :: "u32 \<Rightarrow> code \<Rightarrow> bytes \<Rightarrow> bytes" where
  "goaway last_stream c debug =
     write_frame K_GOAWAY 0 0 (to_be32 last_stream @ to_be32 (code_u32 c) @ debug)"

definition rst :: "u32 \<Rightarrow> code \<Rightarrow> bytes" where
  "rst st c = write_frame K_RST_STREAM 0 st (to_be32 (code_u32 c))"

definition window_update :: "u32 \<Rightarrow> u32 \<Rightarrow> bytes" where
  "window_update st increment = write_frame K_WINDOW_UPDATE 0 st (to_be32 increment)"

definition settings_frame :: "(u16 \<times> u32) list \<Rightarrow> bytes" where
  "settings_frame pairs =
     write_frame K_SETTINGS 0 0 (concat (map (\<lambda>(i, v). to_be16 i @ to_be32 v) pairs))"

definition settings_ack :: bytes where
  "settings_ack = write_frame K_SETTINGS F_ACK 0 []"

definition u32_at :: "bytes \<Rightarrow> nat \<Rightarrow> u32 option" where
  "u32_at b off =
    (if off + 4 \<le> length b
     then Some (from_be32 (b ! off) (b ! (off + 1)) (b ! (off + 2)) (b ! (off + 3))) else None)"

text \<open>A frame off the wire: nine bytes, then the payload the header announces.\<close>

definition read_frame :: "bytes \<Rightarrow> ((u8 \<times> u8 \<times> u32 \<times> bytes) \<times> bytes) option" where
  "read_frame b =
    (if length b < HEADER_LEN then None
     else (let h = head_parse (take HEADER_LEN b); n = unat (len h); r = drop HEADER_LEN b
           in if length r < n then None
              else Some ((kind h, flags h, stream h, take n r), drop n r)))"

section \<open>Headers\<close>

lemma from_be32_24:
  assumes "unat w < 2 ^ 24"
  shows "from_be32 0 (ucast (drop_bit 16 w)) (ucast (drop_bit 8 w)) (ucast w) = w"
proof -
  have "ucast (drop_bit 24 w) = (0 :: u8)"
    by (rule bit_word_eqI) (auto simp: bit_simps dest: word_bit_bound [OF assms])
  then show ?thesis using from_be32_to_be32 [of w] by simp
qed

lemma stream_mask: "unat (w :: u32) < 2 ^ 31 \<Longrightarrow> w AND 0x7fffffff = w"
proof -
  assume w: "unat w < 2 ^ 31"
  have "(0x7fffffff :: u32) = mask 31" by (simp add: mask_eq_exp_minus_1)
  then have "w AND 0x7fffffff = take_bit 31 w" by (simp only: take_bit_eq_mask)
  also have "\<dots> = w" by (rule bit_word_eqI) (auto simp: bit_take_bit_iff dest: word_bit_bound [OF w])
  finally show ?thesis .
qed

lemma head_parse_write:
  assumes "unat (len h) < 2 ^ 24" "unat (stream h) < 2 ^ 31"
  shows "head_parse (head_write h) = h"
  using from_be32_24 [OF assms(1)] stream_mask [OF assms(2)]
  by (simp add: head_parse_def head_write_def to_be32_def)

lemma length_head_write [simp]: "length (head_write h) = 9"
  by (simp add: head_write_def)

abbreviation frame_ok :: "u8 \<times> u8 \<times> u32 \<times> bytes \<Rightarrow> bool" where
  "frame_ok f \<equiv> (case f of (k, fl, st, p) \<Rightarrow> length p < 2 ^ 24 \<and> unat st < 2 ^ 31)"

lemma read_write_frame:
  assumes "length payload < 2 ^ 24" "unat st < 2 ^ 31"
  shows "read_frame (write_frame k f st payload @ rest) = Some ((k, f, st, payload), rest)"
proof -
  have "unat (of_nat (length payload) :: u32) = length payload"
    using assms(1) by (simp add: unsigned_of_nat take_bit_nat_eq_self)
  with assms head_parse_write [of "\<lparr>len = of_nat (length payload), kind = k, flags = f, stream = st\<rparr>"]
  show ?thesis by (simp add: read_frame_def write_frame_def Let_def)
qed

interpretation frames: codec "\<lambda>(k, f, st, p). write_frame k f st p" read_frame frame_ok
  by unfold_locales (auto simp: read_write_frame)

lemma reserved_bit_ignored:
  "from_be32 (c OR 0x80) x y z AND 0x7fffffff = from_be32 c x y z AND 0x7fffffff"
proof -
  have m: "(0x7fffffff :: u32) = mask 31" by (simp add: mask_eq_exp_minus_1)
  have "(0x80 :: u8) = push_bit 7 1" by simp
  then have b: "bit (0x80 :: u8) n \<longleftrightarrow> n = 7" for n
    by (simp only: bit_push_bit_iff possible_bit_word bit_1_iff) auto
  show ?thesis
    unfolding m
  proof (rule bit_word_eqI)
    fix n
    show "bit (from_be32 (c OR 0x80) x y z AND mask 31) n = bit (from_be32 c x y z AND mask 31) n"
      by (cases "n - 24 = 7")
        (auto simp only: from_be32_def bit_and_iff bit_or_iff bit_mask_iff bit_push_bit_iff bit_unsigned_iff b)
  qed
qed

section \<open>Properties\<close>

text \<open>
  Any sequence of frames written to the connection is read back frame by frame, with its kind,
  flags, stream and payload and with nothing left over, as long as every payload is below \<open>2 ^ 24\<close>
  bytes and every stream identifier below \<open>2 ^ 31\<close>; the reserved bit of the stream identifier is
  ignored on receipt.
\<close>

theorem h2_frames_roundtrip:
  assumes "list_all frame_ok fs"
  shows "decode_n read_frame (length fs) (concat (map (\<lambda>(k, f, st, p). write_frame k f st p) fs) @ rest) = Some (fs, rest)
    \<and> head_parse [a, b, c, k, f, s OR 0x80, t, u, v] = head_parse [a, b, c, k, f, s, t, u, v]"
  using frames.decode_stream [OF assms, of rest] by (simp add: head_parse_def reserved_bit_ignored)

definition h2_demo_frames :: "(u8 \<times> u8 \<times> u32 \<times> bytes) list" where
  "h2_demo_frames = [(0x3, 0, 7, [0, 0, 0, 8]), (0x4, 1, 0, [])]"

theorem h2_frames_roundtrip_witness:
  "decode_n read_frame (length h2_demo_frames)
     (concat (map (\<lambda>(k, f, st, p). write_frame k f st p) h2_demo_frames) @ [9]) = Some (h2_demo_frames, [9])"
  by (rule conjunct1 [OF h2_frames_roundtrip]) (simp add: h2_demo_frames_def)

text \<open>
  Padding is stripped exactly: the payload is the announced number of bytes shorter than what
  follows the length byte, and a pad length that does not fit is refused, so padding never eats
  its own length byte nor bytes of another frame.
\<close>

theorem h2_unpad_exact:
  "(length pad < 256 \<longrightarrow> unpad (of_nat (length pad) # dat @ pad) True = Some dat)
    \<and> (unpad payload True = None \<longleftrightarrow> payload = [] \<or> length payload \<le> unat (hd payload))
    \<and> (unpad payload True = Some q \<longrightarrow> (\<exists>p pd. payload = p # q @ pd \<and> length pd = unat p))"
proof -
  have u: "unat (of_nat (length pad) :: u8) = length pad" if "length pad < 256"
    using that by (simp add: unsigned_of_nat take_bit_nat_eq_self)
  have "\<exists>p pd. payload = p # q @ pd \<and> length pd = unat p" if q: "unpad payload True = Some q"
  proof (cases payload)
    case (Cons p r)
    with q have "unat p \<le> length r" "q = take (length r - unat p) r"
      by (auto simp: unpad_def not_less split: if_splits)
    then show ?thesis
      using Cons by (intro exI [of _ p] exI [of _ "drop (length r - unat p) r"]) simp
  qed (use q in \<open>simp add: unpad_def\<close>)
  moreover have "unpad payload True = None \<longleftrightarrow> payload = [] \<or> length payload \<le> unat (hd payload)"
    by (cases payload) (auto simp: unpad_def)
  ultimately show ?thesis using u by (auto simp: unpad_def)
qed

theorem h2_unpad_exact_witness: "unpad [3, 97, 98, 0, 0, 0] True = Some [97, 98]"
  using h2_unpad_exact [of "[0, 0, 0]" "[97, 98]"] by simp

end
