(* ===== verification/Fcgi_Proto.thy ===== *)
theory Fcgi_Proto
  imports Prelude
begin

text \<open>
  The FastCGI record protocol (\<^verbatim>\<open>src/server/fcgi_proto.rs\<close>): records with their padding, the
  parameter and body streams cut into records, name-value pairs, and the incremental record
  parser. What an application reads back is \<open>nv_read\<close>, the name-value format of the FastCGI
  specification.
\<close>

section \<open>Definitions\<close>

abbreviation FCGI_HEADER_LEN :: nat where "FCGI_HEADER_LEN \<equiv> 8"
abbreviation VERSION :: u8 where "VERSION \<equiv> 1"
abbreviation MAX_CONTENT :: nat where "MAX_CONTENT \<equiv> 65535"
abbreviation REQUEST_ID :: u16 where "REQUEST_ID \<equiv> 1"
abbreviation ROLE_RESPONDER :: u16 where "ROLE_RESPONDER \<equiv> 1"
abbreviation FLAG_KEEP_CONN :: u8 where "FLAG_KEEP_CONN \<equiv> 1"

datatype record_type =
    BeginRequest | AbortRequest | EndRequest | Params | Stdin | Stdout | Stderr | Data
  | GetValues | GetValuesResult | UnknownType

fun record_type_u8 :: "record_type \<Rightarrow> u8" where
  "record_type_u8 BeginRequest = 1"
| "record_type_u8 AbortRequest = 2"
| "record_type_u8 EndRequest = 3"
| "record_type_u8 Params = 4"
| "record_type_u8 Stdin = 5"
| "record_type_u8 Stdout = 6"
| "record_type_u8 Stderr = 7"
| "record_type_u8 Data = 8"
| "record_type_u8 GetValues = 9"
| "record_type_u8 GetValuesResult = 10"
| "record_type_u8 UnknownType = 11"

definition from_u8 :: "u8 \<Rightarrow> record_type option" where
  "from_u8 v =
    (if v = 1 then Some BeginRequest else if v = 2 then Some AbortRequest
     else if v = 3 then Some EndRequest else if v = 4 then Some Params
     else if v = 5 then Some Stdin else if v = 6 then Some Stdout
     else if v = 7 then Some Stderr else if v = 8 then Some Data
     else if v = 9 then Some GetValues else if v = 10 then Some GetValuesResult
     else if v = 11 then Some UnknownType else None)"

definition push_header :: "record_type \<Rightarrow> nat \<Rightarrow> u8 \<Rightarrow> bytes" where
  "push_header ty content_len padding =
     [VERSION, record_type_u8 ty] @ to_be16 REQUEST_ID @ to_be16 (of_nat content_len) @ [padding, 0]"

definition push_record :: "record_type \<Rightarrow> bytes \<Rightarrow> bytes" where
  "push_record ty body =
    (let padding = of_nat ((8 - length body mod 8) mod 8)
     in push_header ty (length body) padding @ body @ replicate (unat padding) 0)"

definition push_begin_request :: "bool \<Rightarrow> bytes" where
  "push_begin_request keep_conn =
     push_record BeginRequest
       (to_be16 ROLE_RESPONDER @ [if keep_conn then FLAG_KEEP_CONN else 0] @ replicate 5 0)"

definition push_len :: "nat \<Rightarrow> bytes" where
  "push_len n = (if n < 128 then [of_nat n] else to_be32 (of_nat n OR 0x80000000))"

definition push_nv_pair :: "bytes \<Rightarrow> bytes \<Rightarrow> bytes" where
  "push_nv_pair nam v = push_len (length nam) @ push_len (length v) @ nam @ v"

text \<open>\<^verbatim>\<open>slice::chunks\<close>.\<close>

function chunks :: "nat \<Rightarrow> 'a list \<Rightarrow> 'a list list" where
  "chunks n xs = (if xs = [] \<or> n = 0 then [] else take n xs # chunks n (drop n xs))"
  by pat_completeness auto
termination
  by (relation "measure (\<lambda>(_, xs). length xs)") auto

declare chunks.simps [simp del]

definition push_params :: "bytes \<Rightarrow> bytes" where
  "push_params params = concat (map (push_record Params) (chunks MAX_CONTENT params)) @ push_record Params []"

definition push_stdin :: "bytes \<Rightarrow> bytes" where
  "push_stdin body = concat (map (push_record Stdin) (chunks MAX_CONTENT body)) @ push_record Stdin []"

record fcgi_record =
  ty :: record_type
  request_id :: u16
  body :: bytes
  total :: nat

datatype parse_error = Incomplete | Malformed

definition parse_record :: "bytes \<Rightarrow> parse_error + fcgi_record" where
  "parse_record buf =
    (if length buf < FCGI_HEADER_LEN then Inl Incomplete
     else if buf ! 0 \<noteq> VERSION then Inl Malformed
     else (case from_u8 (buf ! 1) of
        None \<Rightarrow> Inl Malformed
      | Some t \<Rightarrow>
          (let request_id = from_be16 (buf ! 2) (buf ! 3);
               content_len = unat (from_be16 (buf ! 4) (buf ! 5));
               padding = unat (buf ! 6);
               total = FCGI_HEADER_LEN + content_len + padding
           in if length buf < total then Inl Incomplete
              else Inr \<lparr>ty = t, request_id = request_id,
                        body = take content_len (drop FCGI_HEADER_LEN buf), total = total\<rparr>)))"

definition end_request_status :: "bytes \<Rightarrow> (u32 \<times> u8) option" where
  "end_request_status b =
    (if length b < 8 then None else Some (from_be32 (b ! 0) (b ! 1) (b ! 2) (b ! 3), b ! 4))"

definition http_param_name :: "bytes \<Rightarrow> bytes" where
  "http_param_name nam =
     bs ''HTTP_'' @ map (\<lambda>b. if b = 0x2D then 0x5F else to_ascii_uppercase b) nam"

text \<open>The application's side of a name-value pair, from the FastCGI specification.\<close>

definition read_len :: "bytes \<Rightarrow> (nat \<times> bytes) option" where
  "read_len b =
    (case b of
       [] \<Rightarrow> None
     | c # r \<Rightarrow>
         if c < 128 then Some (unat c, r)
         else (case r of d # e # f # r' \<Rightarrow> Some (unat (from_be32 (c AND 0x7f) d e f), r') | _ \<Rightarrow> None))"

definition nv_read :: "bytes \<Rightarrow> ((bytes \<times> bytes) \<times> bytes) option" where
  "nv_read b =
    (case read_len b of None \<Rightarrow> None
     | Some (n, r) \<Rightarrow>
        (case read_len r of None \<Rightarrow> None
         | Some (v, r') \<Rightarrow>
             if length r' < n + v then None
             else Some ((take n r', take v (drop n r')), drop (n + v) r')))"

section \<open>Records\<close>

lemma from_u8_record_type [simp]: "from_u8 (record_type_u8 t) = Some t"
  by (cases t) (simp_all add: from_u8_def)

lemma padding_small: "unat (of_nat ((8 - n mod 8) mod 8) :: u8) = (8 - n mod 8) mod 8"
proof -
  have "(8 - n mod 8) mod 8 < 8" by simp
  then show ?thesis by (simp add: unsigned_of_nat take_bit_nat_eq_self)
qed

lemma parse_record_Cons:
  "parse_record (v # t # i # j # c # d # p # z # r) =
    (if v \<noteq> VERSION then Inl Malformed
     else (case from_u8 t of None \<Rightarrow> Inl Malformed
       | Some t \<Rightarrow>
          if length r < unat (from_be16 c d) + unat p then Inl Incomplete
          else Inr \<lparr>ty = t, request_id = from_be16 i j, body = take (unat (from_be16 c d)) r,
                    total = 8 + unat (from_be16 c d) + unat p\<rparr>))"
  by (auto simp: parse_record_def Let_def split: option.split)

lemma parse_push_record:
  assumes "length b \<le> MAX_CONTENT"
  shows "parse_record (push_record t b @ rest) =
    Inr \<lparr>ty = t, request_id = REQUEST_ID, body = b, total = length (push_record t b)\<rparr>"
proof -
  define pad where "pad = (8 - length b mod 8) mod 8"
  have p: "unat (of_nat pad :: u8) = pad" unfolding pad_def by (rule padding_small)
  define w :: u16 where "w = of_nat (length b)"
  have l: "unat w = length b"
    using assms by (simp add: w_def unsigned_of_nat take_bit_nat_eq_self)
  have r: "push_record t b = VERSION # record_type_u8 t # ucast (drop_bit 8 REQUEST_ID) # ucast REQUEST_ID #
      ucast (drop_bit 8 w) # ucast w # of_nat pad # 0 # b @ replicate pad 0"
    by (simp add: push_record_def push_header_def to_be16_def Let_def p flip: pad_def w_def del: drop_bit_of_1)
  show ?thesis
    unfolding r append_Cons append_assoc parse_record_Cons from_be16_to_be16 l p by simp
qed

lemma push_record_aligned: "length (push_record t b) mod 8 = 0"
proof -
  have "length (push_record t b) = 8 + (length b + (8 - length b mod 8) mod 8)"
    using padding_small [of "length b"] by (simp add: push_record_def push_header_def Let_def)
  moreover have "(n + (8 - n mod 8) mod 8) mod 8 = 0" for n :: nat
  proof (cases "n mod 8 = 0")
    case False
    define q k where "q = n div 8" and "k = n mod 8"
    have "n = 8 * q + k" "k < 8" "k \<noteq> 0" using False by (simp_all add: q_def k_def)
    then have "n + (8 - k) mod 8 = 8 * (q + 1)" by simp
    then show ?thesis unfolding k_def by (simp only: mod_mult_self1_is_0)
  qed simp
  ultimately show ?thesis by simp
qed

lemma parse_record_long:
  assumes "parse_record b \<noteq> Inl Incomplete"
  obtains v t i j c d p z r where "b = v # t # i # j # c # d # p # z # r"
proof -
  have "8 \<le> length b"
  proof (rule ccontr)
    assume "\<not> 8 \<le> length b"
    with assms show False by (simp add: parse_record_def)
  qed
  then show ?thesis using that by (auto simp: numeral_eq_Suc Suc_le_length_iff)
qed

lemma parse_record_stable:
  assumes "parse_record b \<noteq> Inl Incomplete"
  shows "parse_record (b @ x) = parse_record b"
  using assms by (rule parse_record_long)
    (use assms in \<open>auto simp: parse_record_Cons split: option.splits if_splits\<close>)

lemma parse_record_total: "parse_record b = Inr r \<Longrightarrow> total r \<le> length b"
  by (rule parse_record_long [of b]) (auto simp: parse_record_Cons split: option.splits if_splits)

interpretation records_inc: incremental parse_record "\<lambda>r. r = Inl Incomplete"
  by unfold_locales (rule parse_record_stable)

definition record_dec :: "bytes \<Rightarrow> ((record_type \<times> bytes) \<times> bytes) option" where
  "record_dec b = (case parse_record b of Inl _ \<Rightarrow> None | Inr r \<Rightarrow> Some ((ty r, body r), drop (total r) b))"

interpretation records: codec "\<lambda>(t, b). push_record t b" record_dec "\<lambda>(t, b). length b \<le> MAX_CONTENT"
  by unfold_locales (auto simp: record_dec_def parse_push_record)

lemma chunks_facts:
  "0 < n \<Longrightarrow> concat (chunks n xs) = xs \<and> (\<forall>c\<in>set (chunks n xs). c \<noteq> [] \<and> length c \<le> n)"
proof (induction n xs rule: chunks.induct)
  case (1 n xs)
  show ?case
  proof (cases "xs = []")
    case True
    then show ?thesis by (simp add: chunks.simps)
  next
    case False
    with "1.prems" have c: "chunks n xs = take n xs # chunks n (drop n xs)" by (simp add: chunks.simps [of n xs])
    from 1 False have IH: "concat (chunks n (drop n xs)) = drop n xs"
      "\<forall>c\<in>set (chunks n (drop n xs)). c \<noteq> [] \<and> length c \<le> n" by auto
    with False "1.prems" show ?thesis unfolding c by simp
  qed
qed

lemma decode_stream_records:
  assumes "list_all (\<lambda>b. length b \<le> MAX_CONTENT) bss"
  shows "decode_n record_dec (length bss) (concat (map (push_record t) bss) @ rest)
    = Some (map (Pair t) bss, rest)"
proof -
  have "list_all (\<lambda>(t, b). length b \<le> MAX_CONTENT) (map (Pair t) bss)"
    using assms by (simp add: list.pred_map o_def)
  from records.decode_stream [OF this, of rest] show ?thesis by (simp add: o_def)
qed

section \<open>Name-value pairs\<close>

lemma read_len_push_len:
  assumes "n < 2 ^ 31"
  shows "read_len (push_len n @ rest) = Some (n, rest)"
proof (cases "n < 128")
  case True
  then have "unat (of_nat n :: u8) = n" by (simp add: unsigned_of_nat take_bit_nat_eq_self)
  with True show ?thesis by (simp add: push_len_def read_len_def word_less_nat_alt)
next
  case False
  define v :: u32 where "v = of_nat n"
  have v: "unat v = n" using assms by (simp add: v_def unsigned_of_nat take_bit_nat_eq_self)
  then have b: "bit v k \<Longrightarrow> k < 31" for k using word_bit_bound [of v 31 k] assms by simp
  define w where "w = v OR 0x80000000"
  have "(0x80000000 :: u32) = push_bit 31 1" by simp
  then have w: "bit w k \<longleftrightarrow> bit v k \<or> k = 31" for k
    unfolding w_def by (simp only: bit_or_iff bit_push_bit_iff possible_bit_word bit_1_iff) auto
  have top: "\<not> (ucast (drop_bit 24 w) :: u8) < 128"
  proof
    assume "(ucast (drop_bit 24 w) :: u8) < 128"
    then have "unat (ucast (drop_bit 24 w) :: u8) < 2 ^ 7" by (simp add: word_less_nat_alt)
    from word_bit_bound [OF this, of 7] show False by (simp add: bit_simps w)
  qed
  have m: "(0x7f :: u8) = mask 7" by (simp add: mask_eq_exp_minus_1)
  have "from_be32 (ucast (drop_bit 24 w) AND 0x7f) (ucast (drop_bit 16 w)) (ucast (drop_bit 8 w)) (ucast w) = v"
    unfolding m
  proof (rule bit_word_eqI)
    fix k
    assume "k < LENGTH(32)"
    then consider "k < 8" | "8 \<le> k" "k < 16" | "16 \<le> k" "k < 24" | "24 \<le> k" "k < 31" | "k = 31"
      by fastforce
    then show "bit (from_be32 (ucast (drop_bit 24 w) AND mask 7) (ucast (drop_bit 16 w))
        (ucast (drop_bit 8 w)) (ucast w)) k = bit v k"
      using b [of k] by cases (auto simp: from_be32_def bit_simps w)
  qed
  with False top v show ?thesis
    by (simp add: push_len_def read_len_def to_be32_def flip: v_def w_def)
qed

interpretation nv: codec "\<lambda>(n, v). push_nv_pair n v" nv_read "\<lambda>(n, v). length n < 2 ^ 31 \<and> length v < 2 ^ 31"
  by unfold_locales (auto simp: nv_read_def push_nv_pair_def read_len_push_len)

section \<open>Properties\<close>

text \<open>
  A request body of any length goes through FastCGI unchanged: the bytes written for it are a
  sequence of well-formed \<^verbatim>\<open>STDIN\<close> records that ends with an empty one, no record before it is
  empty, and their contents put together are the body; likewise for the parameters, and every
  record is aligned to eight bytes.
\<close>

theorem fcgi_stream_roundtrip:
  "\<exists>bss. decode_n record_dec (Suc (length bss)) (push_stdin b @ rest) = Some (map (Pair Stdin) bss @ [(Stdin, [])], rest)
      \<and> decode_n record_dec (Suc (length bss)) (push_params b @ rest) = Some (map (Pair Params) bss @ [(Params, [])], rest)
      \<and> concat bss = b \<and> [] \<notin> set bss \<and> length (push_stdin b) mod 8 = 0"
proof -
  let ?c = "chunks MAX_CONTENT b"
  have c: "concat ?c = b" "\<forall>c\<in>set ?c. c \<noteq> [] \<and> length c \<le> MAX_CONTENT"
    using chunks_facts [of MAX_CONTENT b] by auto
  have "list_all (\<lambda>b. length b \<le> MAX_CONTENT) (?c @ [[]])" using c(2) by (auto simp: list_all_iff)
  note d = decode_stream_records [OF this]
  have "length (concat (map (push_record t) bss)) mod 8 = 0" for t bss
    by (induction bss) (auto simp: push_record_aligned mod_add_left_eq [symmetric] simp del: mod_add_left_eq)
  then have al: "length (push_stdin b) mod 8 = 0"
    using push_record_aligned [of Stdin "[]"] unfolding push_stdin_def length_append
    by (metis mod_add_eq add_0 mod_0)
  show ?thesis
  proof (intro exI [of _ ?c] conjI)
    show "decode_n record_dec (Suc (length ?c)) (push_stdin b @ rest) = Some (map (Pair Stdin) ?c @ [(Stdin, [])], rest)"
      using d [of Stdin rest] by (simp only: push_stdin_def map_append concat_append append_assoc) simp
    show "decode_n record_dec (Suc (length ?c)) (push_params b @ rest) = Some (map (Pair Params) ?c @ [(Params, [])], rest)"
      using d [of Params rest] by (simp only: push_params_def map_append concat_append append_assoc) simp
  qed (use c al in auto)
qed

text \<open>
  Name-value pairs round-trip in front of any bytes for names and values below \<open>2 ^ 31\<close> bytes,
  with one-byte and four-byte lengths, so a parameter block has one reading only.
\<close>

theorem fcgi_params_unambiguous:
  assumes "length n < 2 ^ 31" "length v < 2 ^ 31"
  shows "nv_read (push_nv_pair n v @ rest) = Some ((n, v), rest)
    \<and> (length m < 2 ^ 31 \<longrightarrow> length w < 2 ^ 31 \<longrightarrow> push_nv_pair n v @ r = push_nv_pair m w @ s \<longrightarrow>
        n = m \<and> v = w \<and> r = s)"
  using nv.dec_enc [of "(n, v)" rest] nv.enc_unambiguous [of "(n, v)" "(m, w)" r s] assms by auto

theorem fcgi_params_unambiguous_witness:
  "nv_read (push_nv_pair [65, 66] (replicate 200 7) @ [9]) = Some (([65, 66], replicate 200 7), [9])"
  using fcgi_params_unambiguous [of "[65, 66]" "replicate 200 7"] by simp

text \<open>
  The record parser can be driven with any cut of the application's output: it answers
  \<^verbatim>\<open>Incomplete\<close> exactly until the record is there, its answer does not depend on the cut, and bytes
  after the record do not change it.
\<close>

theorem fcgi_chunking_independent:
  assumes "length b \<le> MAX_CONTENT" "concat pieces = push_record t b @ rest"
  shows "feed parse_record (\<lambda>r. r = Inl Incomplete) [] pieces =
      Inr \<lparr>ty = t, request_id = REQUEST_ID, body = b, total = length (push_record t b)\<rparr>
    \<and> (\<forall>k < length (push_record t b). parse_record (take k (push_record t b)) = Inl Incomplete)"
proof -
  have full: "parse_record (push_record t b @ rest) =
      Inr \<lparr>ty = t, request_id = REQUEST_ID, body = b, total = length (push_record t b)\<rparr>" for rest
    by (rule parse_push_record [OF assms(1)])
  have "parse_record (take k (push_record t b)) = Inl Incomplete" if "k < length (push_record t b)" for k
  proof (rule ccontr)
    assume "parse_record (take k (push_record t b)) \<noteq> Inl Incomplete"
    from records_inc.decided_take [OF this] full [of "[]"]
    have r: "parse_record (take k (push_record t b)) =
      Inr \<lparr>ty = t, request_id = REQUEST_ID, body = b, total = length (push_record t b)\<rparr>" by simp
    have "length (push_record t b) \<le> length (take k (push_record t b))"
      using parse_record_total [OF r] by simp
    with that show False by simp
  qed
  then show ?thesis using records_inc.feed_parse [of "[]" pieces] full assms(2) by simp
qed

theorem fcgi_chunking_independent_witness:
  "feed parse_record (\<lambda>r. r = Inl Incomplete) []
     [[1, 6, 0, 1, 0, 2], [6, 0, 104, 105, 0, 0, 0, 0], [0, 0, 1]] =
   Inr \<lparr>ty = Stdout, request_id = 1, body = [104, 105], total = 16\<rparr>"
proof -
  have six: "replicate 6 (0 :: u8) = [0, 0, 0, 0, 0, 0]" by (simp add: eval_nat_numeral)
  have e: "push_record Stdout [104, 105] = [1, 6, 0, 1, 0, 2, 6, 0, 104, 105, 0, 0, 0, 0, 0, 0]"
    by (simp add: push_record_def push_header_def to_be16_def six)
  show ?thesis
    using fcgi_chunking_independent [of "[104, 105]" "[[1, 6, 0, 1, 0, 2], [6, 0, 104, 105, 0, 0, 0, 0], [0, 0, 1]]"
      Stdout "[1]"] by (simp add: e)
qed

end
