(* ===== verification/Upstream.thy ===== *)
theory Upstream
  imports Prelude
begin

text \<open>
  Load balancing (\<^verbatim>\<open>src/server/upstream.rs\<close>): per-peer health from failed requests and from active
  probes, in-flight counts, the choice of a peer under the four balancing methods, sticky cookies,
  and the pool of idle connections. Time is in milliseconds since the upstream's origin. The
  counters that only ever grow are \<open>32 word\<close>s as in the source, so their wrap-around is there. A
  pooled connection is of an abstract type: what the transport says about its state is the
  parameter \<open>is_reusable\<close>.
\<close>

section \<open>Definitions\<close>

record peer_health =
  fails :: u32
  down_until_ms :: nat
  window_start_ms :: nat
  in_flight :: u32
  probe_fails :: u32
  probe_passes :: u32
  probe_down :: bool

definition health_default :: peer_health where
  "health_default = \<lparr>fails = 0, down_until_ms = 0, window_start_ms = 0, in_flight = 0,
     probe_fails = 0, probe_passes = 0, probe_down = False\<rparr>"

definition is_down :: "peer_health \<Rightarrow> nat \<Rightarrow> bool" where
  "is_down h now_ms =
    (if probe_down h then True
     else (let until = down_until_ms h in until \<noteq> 0 \<and> now_ms < until))"

definition record_probe :: "peer_health \<Rightarrow> bool \<Rightarrow> u32 \<Rightarrow> u32 \<Rightarrow> peer_health" where
  "record_probe h ok fls passes =
    (if ok then
       (let h = h\<lparr>probe_fails := 0\<rparr>;
            h = h\<lparr>probe_passes := probe_passes h + 1\<rparr>;
            p = probe_passes h
        in if max passes 1 \<le> p then h\<lparr>probe_down := False, fails := 0, down_until_ms := 0\<rparr> else h)
     else
       (let h = h\<lparr>probe_passes := 0\<rparr>;
            h = h\<lparr>probe_fails := probe_fails h + 1\<rparr>;
            f = probe_fails h
        in if max fls 1 \<le> f then h\<lparr>probe_down := True\<rparr> else h))"

text \<open>Milliseconds since the origin plus a configured timeout stay far below \<open>2 ^ 64\<close>: the sum of the source does not wrap.\<close>

definition record_failure :: "peer_health \<Rightarrow> nat \<Rightarrow> u32 \<Rightarrow> nat \<Rightarrow> peer_health" where
  "record_failure h now_ms max_fails fail_timeout_ms =
    (if max_fails = 0 then h
     else
       (let start = window_start_ms h;
            counting = (0 < fails h);
            h = (if \<not> counting \<or> fail_timeout_ms < now_ms - start
                 then h\<lparr>window_start_ms := now_ms, fails := 1\<rparr>
                 else h\<lparr>fails := fails h + 1\<rparr>)
        in if max_fails \<le> fails h then h\<lparr>down_until_ms := now_ms + fail_timeout_ms\<rparr> else h))"

definition record_success :: "peer_health \<Rightarrow> peer_health" where
  "record_success h = h\<lparr>fails := 0, window_start_ms := 0, down_until_ms := 0\<rparr>"

definition guard_enter :: "peer_health \<Rightarrow> peer_health" where
  "guard_enter h = h\<lparr>in_flight := in_flight h + 1\<rparr>"

definition guard_drop :: "peer_health \<Rightarrow> peer_health" where
  "guard_drop h = h\<lparr>in_flight := in_flight h - 1\<rparr>"

datatype lb_method = RoundRobin | LeastConn | IpHash | Random

record upstream_server =
  addr :: bytes
  sticky_id :: bytes
  weight :: nat
  backup :: bool
  down :: bool

record upstream =
  servers :: "upstream_server list"
  lb :: lb_method
  health :: "peer_health list"
  sticky :: bool

text \<open>\<^verbatim>\<open>Iterator::min_by_key\<close>: the first of the elements with the least key.\<close>

fun min_by_key :: "('a \<Rightarrow> nat) \<Rightarrow> 'a list \<Rightarrow> 'a option" where
  "min_by_key f [] = None"
| "min_by_key f (x # xs) =
    (case min_by_key f xs of None \<Rightarrow> Some x | Some y \<Rightarrow> if f x \<le> f y then Some x else Some y)"

text \<open>The weighted round robin: a peer of weight \<open>N\<close> occupies \<open>N\<close> slots.\<close>

fun wrr_slot :: "(nat \<Rightarrow> nat) \<Rightarrow> nat list \<Rightarrow> nat \<Rightarrow> nat option" where
  "wrr_slot w [] slot = None"
| "wrr_slot w (i # is) slot = (if slot < w i then Some i else wrr_slot w is (slot - w i))"

definition pick_from :: "upstream \<Rightarrow> nat list \<Rightarrow> nat option \<Rightarrow> nat \<Rightarrow> nat" where
  "pick_from up candidates hash rr_cursor =
    (case lb up of
       IpHash \<Rightarrow> candidates ! ((case hash of None \<Rightarrow> 0 | Some h \<Rightarrow> h) mod length candidates)
     | LeastConn \<Rightarrow>
         (case min_by_key (\<lambda>i. unat (in_flight (health up ! i)) * 1000 div max (weight (servers up ! i)) 1) candidates of
            Some i \<Rightarrow> i | None \<Rightarrow> 0)
     | Random \<Rightarrow> candidates ! (rr_cursor mod length candidates)
     | RoundRobin \<Rightarrow>
         (let w = \<lambda>i. max (weight (servers up ! i)) 1;
              total = sum_list (map w candidates) mod 2 ^ 32;
              slot = (rr_cursor mod 2 ^ 32) mod max total 1
          in case wrr_slot w candidates slot of Some i \<Rightarrow> i | None \<Rightarrow> candidates ! 0))"

definition eligible :: "upstream \<Rightarrow> nat \<Rightarrow> nat list \<Rightarrow> bool \<Rightarrow> nat \<Rightarrow> bool" where
  "eligible up now_ms exclude want_backup i \<longleftrightarrow>
     \<not> down (servers up ! i) \<and> backup (servers up ! i) = want_backup \<and>
     \<not> is_down (health up ! i) now_ms \<and> i \<notin> set exclude"

definition select_excluding :: "upstream \<Rightarrow> nat \<Rightarrow> nat option \<Rightarrow> nat \<Rightarrow> nat list \<Rightarrow> nat option" where
  "select_excluding up now_ms hash rr_cursor exclude =
    (let primaries = filter (eligible up now_ms exclude False) [0..<length (servers up)];
         backups = filter (eligible up now_ms exclude True) [0..<length (servers up)]
     in if primaries \<noteq> [] then Some (pick_from up primaries hash rr_cursor)
        else if backups \<noteq> [] then Some (pick_from up backups hash rr_cursor)
        else min_by_key (\<lambda>i. down_until_ms (health up ! i))
               (filter (\<lambda>i. \<not> down (servers up ! i) \<and> i \<notin> set exclude) [0..<length (servers up)]))"

definition select :: "upstream \<Rightarrow> nat \<Rightarrow> nat option \<Rightarrow> nat \<Rightarrow> nat option" where
  "select up now_ms hash rr_cursor = select_excluding up now_ms hash rr_cursor []"

definition sticky_peer :: "upstream \<Rightarrow> nat \<Rightarrow> bytes option \<Rightarrow> nat list \<Rightarrow> nat option" where
  "sticky_peer up now_ms cookie exclude =
    (case cookie of
       None \<Rightarrow> None
     | Some c \<Rightarrow>
         if \<not> sticky up then None
         else (case position (\<lambda>s. sticky_id s = c) (servers up) of
            None \<Rightarrow> None
          | Some i \<Rightarrow>
              if \<not> down (servers up ! i) \<and> \<not> is_down (health up ! i) now_ms \<and> i \<notin> set exclude
              then Some i else None))"

text \<open>The pool of one address: the idle connections in the order they were returned.\<close>

abbreviation MAX_IDLE :: nat where "MAX_IDLE \<equiv> 30000"

record 'c idle =
  conn :: 'c
  since :: nat

function pool_take_loop :: "('c \<Rightarrow> bool) \<Rightarrow> nat \<Rightarrow> 'c idle list \<Rightarrow> 'c idle list \<times> 'c option" where
  "pool_take_loop is_reusable now entries =
    (if entries = [] then ([], None)
     else (let i = last entries; rest = butlast entries
           in if MAX_IDLE \<le> now - since i then ([], None)
              else if is_reusable (conn i) then (rest, Some (conn i))
              else pool_take_loop is_reusable now rest))"
  by pat_completeness auto
termination
  by (relation "measure (\<lambda>(_, _, es). length es)") auto

declare pool_take_loop.simps [simp del]

definition pool_take ::
  "('c \<Rightarrow> bool) \<Rightarrow> nat \<Rightarrow> (bytes \<rightharpoonup> 'c idle list) \<Rightarrow> bytes \<Rightarrow> (bytes \<rightharpoonup> 'c idle list) \<times> 'c option" where
  "pool_take is_reusable now pool a =
    (case pool a of
       None \<Rightarrow> (pool, None)
     | Some entries \<Rightarrow>
         (case pool_take_loop is_reusable now entries of (es, r) \<Rightarrow> (pool(a \<mapsto> es), r)))"

definition pool_put ::
  "(bytes \<rightharpoonup> 'c idle list) \<Rightarrow> bytes \<Rightarrow> 'c \<Rightarrow> nat \<Rightarrow> nat \<Rightarrow> (bytes \<rightharpoonup> 'c idle list)" where
  "pool_put pool a c keepalive now =
    (if keepalive = 0 then pool
     else (let entries = (case pool a of None \<Rightarrow> [] | Some es \<Rightarrow> es);
               entries = (if keepalive \<le> length entries then drop 1 entries else entries)
           in pool(a \<mapsto> entries @ [\<lparr>conn = c, since = now\<rparr>])))"

text \<open>The status code of a probe's answer, and the recording of one round of probes.\<close>

definition parse_status :: "bytes \<Rightarrow> nat option" where
  "parse_status buf =
    (let line = takeWhile (\<lambda>b. b \<noteq> 0x0D \<and> b \<noteq> 0x0A) buf
     in case split_on 0x20 line of
          version # code # _ \<Rightarrow>
            if take 5 version \<noteq> bs ''HTTP/'' then None
            else (case from_utf8 code of None \<Rightarrow> None | Some s \<Rightarrow> parse_unsigned 16 s)
        | _ \<Rightarrow> None)"

record health_check =
  hc_fails :: u32
  hc_passes :: u32

definition probe_round :: "(bytes \<Rightarrow> bool) \<Rightarrow> upstream \<Rightarrow> health_check \<Rightarrow> upstream" where
  "probe_round probe_one up hc =
    up\<lparr>health := map (\<lambda>(s, h).
        if down s then h
        else (let a = (if take 5 (addr s) = bs ''unix:'' \<or> 0x3A \<in> set (addr s) then addr s else addr s @ bs '':80'')
              in record_probe h (probe_one a) (hc_fails hc) (hc_passes hc)))
      (zip (servers up) (health up))\<rparr>"

section \<open>Choosing a peer\<close>

lemma min_by_key_None: "min_by_key f xs = None \<longleftrightarrow> xs = []"
  by (cases xs) (auto split: option.splits if_splits)

lemma min_by_key_Some:
  "min_by_key f xs = Some y \<Longrightarrow> y \<in> set xs \<and> (\<forall>x\<in>set xs. f y \<le> f x)"
  by (induction xs arbitrary: y)
    (auto simp: min_by_key_None split: option.splits if_splits intro: order_trans less_imp_le)

lemma wrr_slot_mem: "wrr_slot w is slot = Some i \<Longrightarrow> i \<in> set is"
  by (induction "is" arbitrary: slot) (auto split: if_splits)

lemma pick_from_mem: "cs \<noteq> [] \<Longrightarrow> pick_from up cs hash cur \<in> set cs"
proof -
  assume ne: "cs \<noteq> []"
  have mb: "(case min_by_key f cs of Some i \<Rightarrow> i | None \<Rightarrow> 0) \<in> set cs" for f
  proof (cases "min_by_key f cs")
    case None
    with ne show ?thesis by (simp add: min_by_key_None)
  next
    case (Some y)
    from min_by_key_Some [OF this] Some show ?thesis by simp
  qed
  have wrr: "(case wrr_slot w cs k of Some i \<Rightarrow> i | None \<Rightarrow> cs ! 0) \<in> set cs" for w k
    using ne wrr_slot_mem [of w cs k] by (cases "wrr_slot w cs k") auto
  show ?thesis
  proof (cases "lb up")
    case RoundRobin
    then show ?thesis unfolding pick_from_def Let_def lb_method.case by (simp only: lb_method.case wrr)
  next
    case LeastConn
    then show ?thesis unfolding pick_from_def by (simp only: lb_method.case mb)
  next
    case IpHash
    then show ?thesis using ne by (simp add: pick_from_def)
  next
    case Random
    then show ?thesis using ne by (simp add: pick_from_def)
  qed
qed

section \<open>Weighted round robin\<close>

lemma wrr_count:
  assumes "distinct is" "i \<in> set is" "\<And>j. j \<in> set is \<Longrightarrow> 0 < w j"
  shows "card {s. s < sum_list (map w is) \<and> wrr_slot w is s = Some i} = w i"
  using assms
proof (induction "is")
  case (Cons j js)
  let ?S = "{s. s < sum_list (map w (j # js)) \<and> wrr_slot w (j # js) s = Some i}"
  show ?case
  proof (cases "i = j")
    case True
    then have "i \<notin> set js" using Cons.prems(1) by auto
    then have "?S = {..<w i}" using True by (auto dest: wrr_slot_mem)
    then show ?thesis by simp
  next
    case False
    then have i: "i \<in> set js" using Cons.prems(2) by auto
    have "?S = (\<lambda>s. s + w j) ` {s. s < sum_list (map w js) \<and> wrr_slot w js s = Some i}"
    proof (rule set_eqI)
      fix s
      show "s \<in> ?S \<longleftrightarrow> s \<in> (\<lambda>s. s + w j) ` {s. s < sum_list (map w js) \<and> wrr_slot w js s = Some i}"
        using False by (cases "s < w j") (auto simp: image_iff intro!: exI [of _ "s - w j"])
    qed
    then show ?thesis using Cons i by (simp add: card_image)
  qed
qed simp

lemma wrr_slot_total: "s < sum_list (map w is) \<Longrightarrow> wrr_slot w is s \<noteq> None"
  by (induction "is" arbitrary: s) auto

text \<open>A run of \<open>T\<close> consecutive cursors meets every remainder once.\<close>

lemma card_mod_run:
  fixes T c0 :: nat
  assumes "0 < T"
  shows "card {c. c0 \<le> c \<and> c < c0 + T \<and> P (c mod T)} = card {s. s < T \<and> P s}"
proof -
  let ?A = "{c. c0 \<le> c \<and> c < c0 + T \<and> P (c mod T)}"
  have inj: "inj_on (\<lambda>c. c mod T) {c. c0 \<le> c \<and> c < c0 + T}"
  proof (rule inj_onI)
    fix x y
    assume xy: "x \<in> {c. c0 \<le> c \<and> c < c0 + T}" "y \<in> {c. c0 \<le> c \<and> c < c0 + T}" "x mod T = y mod T"
    show "x = y"
    proof (rule ccontr)
      assume "x \<noteq> y"
      then consider "x < y" | "y < x" using linorder_neqE_nat by blast
      then show False
      proof cases
        case 1
        then have "T dvd y - x" using xy(3) by (metis mod_eq_dvd_iff_nat less_imp_le)
        with 1 xy(1,2) show False by (auto dest: dvd_imp_le)
      next
        case 2
        then have "T dvd x - y" using xy(3) by (metis mod_eq_dvd_iff_nat less_imp_le)
        with 2 xy(1,2) show False by (auto dest: dvd_imp_le)
      qed
    qed
  qed
  have img: "(\<lambda>c. c mod T) ` {c. c0 \<le> c \<and> c < c0 + T} = {..<T}"
  proof (rule card_subset_eq)
    show "(\<lambda>c. c mod T) ` {c. c0 \<le> c \<and> c < c0 + T} \<subseteq> {..<T}" using assms by auto
    have "{c. c0 \<le> c \<and> c < c0 + T} = {c0..<c0 + T}" by auto
    then show "card ((\<lambda>c. c mod T) ` {c. c0 \<le> c \<and> c < c0 + T}) = card {..<T}"
      using card_image [OF inj] by simp
  qed simp
  have "(\<lambda>c. c mod T) ` ?A = {s. s < T \<and> P s}"
  proof
    show "(\<lambda>c. c mod T) ` ?A \<subseteq> {s. s < T \<and> P s}" using assms by auto
    show "{s. s < T \<and> P s} \<subseteq> (\<lambda>c. c mod T) ` ?A"
    proof
      fix s assume s: "s \<in> {s. s < T \<and> P s}"
      then have "s \<in> (\<lambda>c. c mod T) ` {c. c0 \<le> c \<and> c < c0 + T}" using img by auto
      with s show "s \<in> (\<lambda>c. c mod T) ` ?A" by auto
    qed
  qed
  then show ?thesis
    by (metis (no_types, lifting) card_image inj inj_on_subset mem_Collect_eq subsetI)
qed

section \<open>Probes\<close>

definition run_probes :: "u32 \<Rightarrow> u32 \<Rightarrow> bool list \<Rightarrow> peer_health \<Rightarrow> peer_health" where
  "run_probes fls passes rs h = fold (\<lambda>ok h. record_probe h ok fls passes) rs h"

text \<open>The number of equal results at the end of the history.\<close>

definition streak :: "bool \<Rightarrow> bool list \<Rightarrow> nat" where
  "streak b rs = length (takeWhile (\<lambda>r. r = b) (rev rs))"

lemma streak_snoc [simp]: "streak b (rs @ [r]) = (if r = b then Suc (streak b rs) else 0)" "streak b [] = 0"
  by (simp_all add: streak_def)

lemma streak_le: "streak b rs \<le> length rs"
  by (simp add: streak_def) (metis length_rev length_takeWhile_le)

lemma record_probe_counters:
  "probe_fails (record_probe h ok f p) = (if ok then 0 else probe_fails h + 1)"
  "probe_passes (record_probe h ok f p) = (if ok then probe_passes h + 1 else 0)"
  "probe_down (record_probe h ok f p) =
    (if ok then (if max p 1 \<le> probe_passes h + 1 then False else probe_down h)
     else (if max f 1 \<le> probe_fails h + 1 then True else probe_down h))"
  by (simp_all add: record_probe_def Let_def)

lemma run_probes_counters:
  "probe_fails (run_probes f p rs health_default) = of_nat (streak False rs)"
  "probe_passes (run_probes f p rs health_default) = of_nat (streak True rs)"
  by (induction rs rule: rev_induct)
    (simp_all add: run_probes_def health_default_def record_probe_counters)

lemma of_nat_le_streak:
  assumes "n < 2 ^ 32"
  shows "(k :: u32) \<le> of_nat n \<longleftrightarrow> unat k \<le> n"
  using assms by (simp add: word_le_nat_alt unsigned_of_nat take_bit_nat_eq_self)

section \<open>The pool\<close>

lemma pool_take_loop_facts:
  assumes "pool_take_loop reus now es = (es', r)"
  shows "(\<exists>n. es' = take n es) \<and> (\<forall>c. r = Some c \<longrightarrow> reus c \<and> (\<exists>i\<in>set es. conn i = c \<and> now - since i < MAX_IDLE))"
  using assms
proof (induction reus now es rule: pool_take_loop.induct)
  case (1 reus now es)
  show ?case
  proof (cases "es = [] \<or> MAX_IDLE \<le> now - since (last es)")
    case True
    with "1.prems" have "es' = take 0 es" "r = None"
      by (auto simp: pool_take_loop.simps [of reus now es] Let_def split: if_splits)
    then show ?thesis by blast
  next
    case False
    then have ne: "es \<noteq> []" and fresh: "now - since (last es) < MAX_IDLE" by auto
    have bl: "butlast es = take (length es - 1) es" by (simp add: butlast_conv_take)
    show ?thesis
    proof (cases "reus (conn (last es))")
      case True
      with "1.prems" False have "es' = butlast es" "r = Some (conn (last es))"
        by (auto simp: pool_take_loop.simps [of reus now es] Let_def)
      with True ne fresh bl show ?thesis by auto
    next
      case no: False
      with "1.prems" False have p: "pool_take_loop reus now (butlast es) = (es', r)"
        by (auto simp: pool_take_loop.simps [of reus now es] Let_def)
      from "1.IH" [OF ne refl refl _ no p] False
      obtain n where n: "es' = take n (butlast es)"
        "\<forall>c. r = Some c \<longrightarrow> reus c \<and> (\<exists>i\<in>set (butlast es). conn i = c \<and> now - since i < MAX_IDLE)" by auto
      then have "es' = take (min n (length es - 1)) es" by (simp add: bl)
      moreover have "\<forall>c. r = Some c \<longrightarrow> reus c \<and> (\<exists>i\<in>set es. conn i = c \<and> now - since i < MAX_IDLE)"
        using n(2) in_set_butlastD [of _ es] by blast
      ultimately show ?thesis by blast
    qed
  qed
qed

section \<open>Properties\<close>

text \<open>C21.
  The peer that is chosen is a peer that may be chosen. Under every balancing method, the
  result is a server that is not administratively down and was not tried before for this request.
  Call a peer healthy when no probe holds it down and no penalty for failed requests runs: the result is a healthy
  primary if there is one, otherwise a healthy backup if there is one; otherwise, unless probes hold one of the
  remaining peers down, one whose penalty ends soonest. No peer is returned only if every server is down by
  configuration or was tried.
\<close>

theorem upstream_select_sound:
  "let n = length (servers up);
       untried = (\<lambda>j. j < n \<and> \<not> down (servers up ! j) \<and> j \<notin> set exclude);
       healthy = (\<lambda>b j. untried j \<and> backup (servers up ! j) = b \<and> \<not> probe_down (health up ! j) \<and> down_until_ms (health up ! j) \<le> now)
   in case select_excluding up now hash cur exclude of
     None \<Rightarrow> \<forall>i. \<not> untried i
   | Some i \<Rightarrow> untried i \<and>
      ((\<exists>j. healthy False j) \<longrightarrow> healthy False i) \<and>
      ((\<nexists>j. healthy False j) \<and> (\<exists>j. healthy True j) \<longrightarrow> healthy True i) \<and>
      ((\<nexists>b j. healthy b j) \<and> (\<forall>j. untried j \<longrightarrow> \<not> probe_down (health up ! j)) \<longrightarrow>
        (\<forall>j. untried j \<longrightarrow> down_until_ms (health up ! i) \<le> down_until_ms (health up ! j)))"
proof -
  let ?n = "length (servers up)"
  let ?p = "filter (eligible up now exclude False) [0..<?n]"
  let ?b = "filter (eligible up now exclude True) [0..<?n]"
  let ?r = "filter (\<lambda>i. \<not> down (servers up ! i) \<and> i \<notin> set exclude) [0..<?n]"
  have el: "eligible up now exclude b i \<longleftrightarrow> \<not> down (servers up ! i) \<and> i \<notin> set exclude \<and> backup (servers up ! i) = b
      \<and> \<not> probe_down (health up ! i) \<and> down_until_ms (health up ! i) \<le> now" for b i
    by (auto simp: eligible_def is_down_def Let_def)
  consider "?p \<noteq> []" | "?p = []" "?b \<noteq> []" | "?p = []" "?b = []" by blast
  then show ?thesis
  proof cases
    case 1
    then have s: "select_excluding up now hash cur exclude = Some (pick_from up ?p hash cur)"
      by (simp add: select_excluding_def Let_def)
    from pick_from_mem [OF 1, of up hash cur] show ?thesis unfolding s Let_def by (auto simp: el)
  next
    case 2
    then have s: "select_excluding up now hash cur exclude = Some (pick_from up ?b hash cur)"
      by (simp add: select_excluding_def Let_def)
    from 2(1) have np: "\<And>j. j < ?n \<Longrightarrow> \<not> eligible up now exclude False j" by (auto simp: filter_empty_conv)
    from pick_from_mem [OF 2(2), of up hash cur] np show ?thesis unfolding s Let_def by (auto simp: el)
  next
    case 3
    then have s: "select_excluding up now hash cur exclude = min_by_key (\<lambda>i. down_until_ms (health up ! i)) ?r"
      by (simp add: select_excluding_def Let_def)
    have none: "\<not> eligible up now exclude b j" if "j < ?n" for j b
      using 3 that by (cases b) (auto simp: filter_empty_conv)
    show ?thesis
    proof (cases "min_by_key (\<lambda>i. down_until_ms (health up ! i)) ?r")
      case None
      then have "?r = []" by (simp add: min_by_key_None)
      then show ?thesis unfolding s None Let_def by (auto simp: filter_empty_conv)
    next
      case (Some i)
      from min_by_key_Some [OF Some] none show ?thesis unfolding s Some Let_def by (auto simp: el)
    qed
  qed
qed

theorem upstream_select_sound_witness:
  "select_excluding \<lparr>servers = [\<lparr>addr = [], sticky_id = [], weight = 1, backup = False, down = False\<rparr>,
       \<lparr>addr = [1], sticky_id = [1], weight = 1, backup = False, down = False\<rparr>],
     lb = RoundRobin, health = [health_default\<lparr>down_until_ms := 9\<rparr>, health_default], sticky = False\<rparr> 5 None 0 [] = Some 1"
proof -
  let ?up = "\<lparr>servers = [\<lparr>addr = [], sticky_id = [], weight = 1, backup = False, down = False\<rparr>,
       \<lparr>addr = [1], sticky_id = [1], weight = 1, backup = False, down = False\<rparr>],
     lb = RoundRobin, health = [health_default\<lparr>down_until_ms := 9\<rparr>, health_default], sticky = False\<rparr>"
  have ex: "\<exists>j<2. \<not> down (servers ?up ! j) \<and> \<not> backup (servers ?up ! j) \<and> \<not> probe_down (health ?up ! j) \<and> down_until_ms (health ?up ! j) \<le> 5"
    by (intro exI [where x = 1]) (simp add: health_default_def)
  show ?thesis
  proof (cases "select_excluding ?up 5 None 0 []")
    case None
    then show ?thesis using upstream_select_sound [of ?up "[]" 5 None 0] by (auto simp: less_2_cases_iff)
  next
    case (Some i)
    then have "i < 2" "down_until_ms (health ?up ! i) \<le> 5"
      using upstream_select_sound [of ?up "[]" 5 None 0] ex by (auto simp: Let_def numeral_2_eq_2)
    then show ?thesis using Some by (auto simp: less_2_cases_iff)
  qed
qed

text \<open>
  Weighted round robin is exact: over any run of consecutive cursor values as long as the
  total weight of the candidates, each candidate is chosen exactly as often as its weight says.
  (The cursor is used modulo \<open>2 ^ 32\<close>, so the run must not cross that boundary.)
\<close>

theorem upstream_round_robin_exact:
  assumes "lb up = RoundRobin" "distinct cs" "i \<in> set cs"
    and "T = sum_list (map (\<lambda>i. max (weight (servers up ! i)) 1) cs)" "T < 2 ^ 32" "c0 + T \<le> 2 ^ 32"
  shows "card {c. c0 \<le> c \<and> c < c0 + T \<and> pick_from up cs hash c = i} = max (weight (servers up ! i)) 1"
proof -
  let ?w = "\<lambda>i. max (weight (servers up ! i)) 1"
  obtain a b where ab: "cs = a @ i # b" using split_list [OF assms(3)] by blast
  have T: "0 < T" unfolding assms(4) ab by (simp add: less_max_iff_disj)
  have pick: "pick_from up cs hash c = i \<longleftrightarrow> wrr_slot ?w cs (c mod T) = Some i" if "c < c0 + T" for c
  proof -
    have "c mod 2 ^ 32 = c" "T mod 2 ^ 32 = T" "max T 1 = T" using that assms(5,6) T by simp_all
    then have "pick_from up cs hash c = (case wrr_slot ?w cs (c mod T) of Some i \<Rightarrow> i | None \<Rightarrow> cs ! 0)"
      by (simp only: pick_from_def Let_def assms(1) lb_method.case assms(4) [symmetric])
    moreover have "wrr_slot ?w cs (c mod T) \<noteq> None"
      by (rule wrr_slot_total) (use T in \<open>simp only: assms(4) [symmetric] mod_less_divisor\<close>)
    ultimately show ?thesis by auto
  qed
  have "{c. c0 \<le> c \<and> c < c0 + T \<and> pick_from up cs hash c = i}
      = {c. c0 \<le> c \<and> c < c0 + T \<and> wrr_slot ?w cs (c mod T) = Some i}" using pick by auto
  then have "card {c. c0 \<le> c \<and> c < c0 + T \<and> pick_from up cs hash c = i}
      = card {s. s < T \<and> wrr_slot ?w cs s = Some i}"
    using card_mod_run [OF T, of c0 "\<lambda>s. wrr_slot ?w cs s = Some i"] by simp
  also have "\<dots> = ?w i" using wrr_count [OF assms(2,3), of ?w] unfolding assms(4) by simp
  finally show ?thesis .
qed

theorem upstream_round_robin_exact_witness:
  "card {c. 5 \<le> c \<and> c < 5 + 4 \<and> pick_from \<lparr>servers = [\<lparr>addr = [], sticky_id = [], weight = 1, backup = False, down = False\<rparr>,
       \<lparr>addr = [1], sticky_id = [1], weight = 3, backup = False, down = False\<rparr>], lb = RoundRobin,
     health = [health_default, health_default], sticky = False\<rparr> [0, 1] None c = 1} = 3"
  using upstream_round_robin_exact [of "\<lparr>servers = [\<lparr>addr = [], sticky_id = [], weight = 1, backup = False, down = False\<rparr>,
       \<lparr>addr = [1], sticky_id = [1], weight = 3, backup = False, down = False\<rparr>], lb = RoundRobin,
     health = [health_default, health_default], sticky = False\<rparr>" "[0, 1]" 1 4 5 None]
  by simp

text \<open>
  Active probes have hysteresis. For a fresh peer and any history of fewer than \<open>2 ^ 32\<close> probe
  results, a further result changes the verdict only at the end of an unbroken run: to down when
  the last \<open>fails\<close> results, and no fewer than one, were failures; to up when the last \<open>passes\<close>
  results, and no fewer than one, were successes. Otherwise the verdict stays.
\<close>

theorem upstream_probe_hysteresis:
  assumes "Suc (length rs) < 2 ^ 32"
  shows "probe_down (run_probes f p (rs @ [r]) health_default) =
    (if \<not> r \<and> max (unat f) 1 \<le> streak False (rs @ [r]) then True
     else if r \<and> max (unat p) 1 \<le> streak True (rs @ [r]) then False
     else probe_down (run_probes f p rs health_default))"
proof -
  have st: "Suc (streak b rs) < 2 ^ 32" for b using streak_le [of b rs] assms by linarith
  have mx: "unat (max k 1) = max (unat k) 1" for k :: u32
    by (simp add: max_def word_le_nat_alt)
  have "max k 1 \<le> of_nat (streak b rs) + 1 \<longleftrightarrow> max (unat k) 1 \<le> Suc (streak b rs)" for k :: u32 and b
    using of_nat_le_streak [OF st [of b], of "max k 1"] mx [of k] by (simp add: add.commute)
  then show ?thesis
    using run_probes_counters [of f p rs]
    by (simp add: run_probes_def record_probe_counters)
qed

theorem upstream_probe_hysteresis_witness:
  "probe_down (run_probes 2 1 [False, False] health_default)"
  using upstream_probe_hysteresis [of "[False]" 2 1 False] by (simp add: streak_def)

text \<open>
  When every peer is out of rotation, a peer the probes hold down is preferred to one whose
  penalty for failed requests is about to end: it has no penalty time, which the fallback reads as
  the earliest end.
\<close>

theorem upstream_fallback_prefers_probed_down:
  assumes "servers up = [s, t]" "health up = [h, g]" "\<not> down s" "\<not> down t"
    and "probe_down g" "down_until_ms g = 0" "now < down_until_ms h"
  shows "select_excluding up now hash cur [] = Some 1"
proof -
  have "is_down h now" "is_down g now" using assms by (auto simp: is_down_def)
  then have "\<not> eligible up now [] b 0" "\<not> eligible up now [] b 1" for b
    using assms by (auto simp: eligible_def)
  moreover have "[0..<length (servers up)] = [0, 1]" using assms(1) by (simp add: upt_rec)
  ultimately show ?thesis
    using assms by (simp add: select_excluding_def)
qed

theorem upstream_fallback_prefers_probed_down_witness:
  "select_excluding \<lparr>servers = [\<lparr>addr = [], sticky_id = [], weight = 1, backup = False, down = False\<rparr>,
       \<lparr>addr = [1], sticky_id = [1], weight = 1, backup = False, down = False\<rparr>], lb = RoundRobin,
     health = [record_failure health_default 0 1 10000, record_probe health_default False 1 1],
     sticky = False\<rparr> 9999 None 0 [] = Some 1"
  by (rule upstream_fallback_prefers_probed_down
      [where s = "\<lparr>addr = [], sticky_id = [], weight = 1, backup = False, down = False\<rparr>"
         and t = "\<lparr>addr = [1], sticky_id = [1], weight = 1, backup = False, down = False\<rparr>"
         and h = "record_failure health_default 0 1 10000" and g = "record_probe health_default False 1 1"])
    (simp_all add: record_failure_def record_probe_def health_default_def)

text \<open>
  The idle pool never grows past \<open>keepalive\<close> connections for an address, and a connection it
  hands out is one that was put in for that address less than 30 seconds ago and that the transport
  says is reusable.
\<close>

theorem upstream_pool_sound:
  assumes "\<forall>es. pool a = Some es \<longrightarrow> length es \<le> keepalive" "0 < keepalive"
  shows "(\<exists>es. pool_put pool a c keepalive now a = Some es \<and> length es \<le> keepalive)
    \<and> (\<forall>b. b \<noteq> a \<longrightarrow> pool_put pool a c keepalive now b = pool b)
    \<and> (case pool_take reus now pool a of (pool', r) \<Rightarrow>
        (\<forall>es. pool' a = Some es \<longrightarrow> length es \<le> keepalive) \<and> (\<forall>b. b \<noteq> a \<longrightarrow> pool' b = pool b) \<and>
        (\<forall>x. r = Some x \<longrightarrow> reus x \<and> (\<exists>es i. pool a = Some es \<and> i \<in> set es \<and> conn i = x \<and> now - since i < MAX_IDLE)))"
proof (cases "pool a")
  case None
  with assms show ?thesis by (simp add: pool_put_def pool_take_def Let_def)
next
  case (Some es)
  obtain es' r where t: "pool_take_loop reus now es = (es', r)" by fastforce
  from pool_take_loop_facts [OF t] obtain n where "es' = take n es" by blast
  then have "length es' \<le> length es" by simp
  with assms Some t pool_take_loop_facts [OF t] show ?thesis
    by (auto simp: pool_put_def pool_take_def Let_def)
qed

theorem upstream_pool_sound_witness:
  "snd (pool_take (\<lambda>_. True) 100 (pool_put (\<lambda>_. None) [1] (7 :: nat) 2 50) [1]) = Some 7
   \<and> (\<exists>es. pool_put (pool_put (\<lambda>_. None) [1] (7 :: nat) 2 50) [1] 8 2 60 [1] = Some es \<and> length es \<le> 2)"
  using upstream_pool_sound [of "pool_put (\<lambda>_. None) [1] (7 :: nat) 2 50" "[1]" 2 8 60]
  by (simp add: pool_put_def pool_take_def pool_take_loop.simps)

end
