(* ===== verification/Preread.thy ===== *)
theory Preread
  imports Prelude "HOL-Library.Monad_Syntax"
begin

text \<open>
  TLS preread (\<^verbatim>\<open>src/server/preread.rs\<close>): the ClientHello of a connection that is passed through
  undecrypted, parsed from the bytes read so far. The cursor \<^verbatim>\<open>Cur\<close> is the list of bytes not yet
  read; every read returns \<open>None\<close> at the end of the bytes, and the question mark of the source is
  the bind of the option monad.
\<close>

section \<open>Definitions\<close>

record hello =
  server_name :: bytes
  alpn :: "bytes list"
  protocol :: bytes

datatype preread = Hello hello | PIncomplete | NotTls

abbreviation REC_HANDSHAKE :: u8 where "REC_HANDSHAKE \<equiv> 0x16"
abbreviation MSG_CLIENT_HELLO :: u8 where "MSG_CLIENT_HELLO \<equiv> 0x01"
abbreviation EXT_SERVER_NAME :: u16 where "EXT_SERVER_NAME \<equiv> 0x0000"
abbreviation EXT_ALPN :: u16 where "EXT_ALPN \<equiv> 0x0010"
abbreviation EXT_SUPPORTED_VERSIONS :: u16 where "EXT_SUPPORTED_VERSIONS \<equiv> 0x002b"
abbreviation MAX_RECORD :: nat where "MAX_RECORD \<equiv> 16384"

definition cur_take :: "nat \<Rightarrow> bytes \<Rightarrow> (bytes \<times> bytes) option" where
  "cur_take n c = (if length c < n then None else Some (take n c, drop n c))"

definition cur_u8 :: "bytes \<Rightarrow> (u8 \<times> bytes) option" where
  "cur_u8 c = do { (s, c) \<leftarrow> cur_take 1 c; Some (s ! 0, c) }"

definition cur_u16 :: "bytes \<Rightarrow> (u16 \<times> bytes) option" where
  "cur_u16 c = do { (s, c) \<leftarrow> cur_take 2 c; Some (from_be16 (s ! 0) (s ! 1), c) }"

definition cur_u24 :: "bytes \<Rightarrow> (u32 \<times> bytes) option" where
  "cur_u24 c = do { (s, c) \<leftarrow> cur_take 3 c; Some (from_be32 0 (s ! 0) (s ! 1) (s ! 2), c) }"

definition declared_len :: "bytes list \<Rightarrow> nat option" where
  "declared_len parts =
    (case concat parts of
       _ # a # b # c # _ \<Rightarrow> Some (unat (from_be32 0 a b c) + 4)
     | _ \<Rightarrow> None)"

text \<open>One TLS record: an answer that ends the walk, or its payload and what follows it.\<close>

definition read_record :: "bytes \<Rightarrow> preread + (bytes \<times> bytes)" where
  "read_record c =
    (case cur_u8 c of
       None \<Rightarrow> Inl PIncomplete
     | Some (knd, c) \<Rightarrow>
        if knd \<noteq> REC_HANDSHAKE then Inl NotTls
        else (case cur_u8 c of
           None \<Rightarrow> Inl PIncomplete
         | Some (major, c) \<Rightarrow>
            (case cur_u8 c of
               None \<Rightarrow> Inl PIncomplete
             | Some (_, c) \<Rightarrow>
                if major \<noteq> 3 then Inl NotTls
                else (case cur_u16 c of
                   None \<Rightarrow> Inl PIncomplete
                 | Some (len, c) \<Rightarrow>
                    if len = 0 \<or> MAX_RECORD < unat len then Inl NotTls
                    else (case cur_take (unat len) c of
                       None \<Rightarrow> Inl PIncomplete
                     | Some (payload, c) \<Rightarrow> Inr (payload, c))))))"

lemma read_record_shorter: "read_record c = Inr (p, r) \<Longrightarrow> length r < length c"
  by (auto simp: read_record_def cur_u8_def cur_u16_def cur_take_def bind_eq_Some_conv
      split: option.splits if_splits)

function records :: "bytes list \<Rightarrow> bytes \<Rightarrow> preread + bytes list" where
  "records parts c =
    (case read_record c of
       Inl e \<Rightarrow> Inl e
     | Inr (payload, c) \<Rightarrow>
        (let parts = parts @ [payload];
             total = sum_list (map length parts)
         in case declared_len parts of
              Some need \<Rightarrow>
                if need \<le> total then Inr parts
                else if c = [] then Inl PIncomplete else records parts c
            | None \<Rightarrow> if c = [] then Inl PIncomplete else records parts c))"
  by pat_completeness auto
termination
  by (relation "measure (\<lambda>(_, c). length c)") (auto dest: read_record_shorter)

declare records.simps [simp del]

definition version_name :: "u16 \<Rightarrow> bytes" where
  "version_name v =
    (if v = 0x0300 then bs ''SSLv3'' else if v = 0x0301 then bs ''TLSv1''
     else if v = 0x0302 then bs ''TLSv1.1'' else if v = 0x0303 then bs ''TLSv1.2''
     else if v = 0x0304 then bs ''TLSv1.3'' else [])"

definition is_grease16 :: "u16 \<Rightarrow> bool" where
  "is_grease16 v \<longleftrightarrow> v AND 0x0f0f = 0x0a0a \<and> drop_bit 8 v = v AND 0xff"

text \<open>The loops over a length-delimited list; each entry consumes at least one byte.\<close>

lemma cur_shorter:
  "cur_take n c = Some (s, r) \<Longrightarrow> length r = length c - n \<and> n \<le> length c"
  "cur_u8 c = Some (b, r) \<Longrightarrow> length r < length c"
  "cur_u16 c = Some (w, r) \<Longrightarrow> length r < length c"
  by (auto simp: cur_take_def cur_u8_def cur_u16_def bind_eq_Some_conv split: if_splits)

function server_name_loop :: "bytes \<Rightarrow> bytes option" where
  "server_name_loop c =
    (if c = [] then None
     else (case cur_u8 c of
        None \<Rightarrow> None
      | Some (ty, c1) \<Rightarrow>
          (case cur_u16 c1 of
             None \<Rightarrow> None
           | Some (len, c2) \<Rightarrow>
              (case cur_take (unat len) c2 of
                 None \<Rightarrow> None
               | Some (nam, c3) \<Rightarrow>
                   if ty = 0 then (case from_utf8 nam of None \<Rightarrow> None | Some s \<Rightarrow> if s = [] then None else Some s)
                   else server_name_loop c3))))"
  by pat_completeness auto
termination
  by (relation "measure length") (auto dest!: cur_shorter)

declare server_name_loop.simps [simp del]

definition parse_server_name :: "bytes \<Rightarrow> bytes option" where
  "parse_server_name dat =
    do { (list_len, c) \<leftarrow> cur_u16 dat; (lst, _) \<leftarrow> cur_take (unat list_len) c; server_name_loop lst }"

function alpn_loop :: "bytes list \<Rightarrow> bytes \<Rightarrow> bytes list option" where
  "alpn_loop out c =
    (if c = [] then Some out
     else (case cur_u8 c of
        None \<Rightarrow> None
      | Some (len, c1) \<Rightarrow>
          (case cur_take (unat len) c1 of
             None \<Rightarrow> None
           | Some (p, c2) \<Rightarrow>
               if p = [] then alpn_loop out c2
               else alpn_loop (case from_utf8 p of Some s \<Rightarrow> out @ [s] | None \<Rightarrow> out) c2)))"
  by pat_completeness auto
termination
  by (relation "measure (\<lambda>(_, c). length c)") (auto dest!: cur_shorter)

declare alpn_loop.simps [simp del]

definition parse_alpn :: "bytes \<Rightarrow> bytes list option" where
  "parse_alpn dat =
    do { (list_len, c) \<leftarrow> cur_u16 dat; (lst, _) \<leftarrow> cur_take (unat list_len) c; alpn_loop [] lst }"

function version_loop :: "u16 \<Rightarrow> bytes \<Rightarrow> u16 option" where
  "version_loop best c =
    (if c = [] then Some best
     else (case cur_u16 c of
        None \<Rightarrow> None
      | Some (v, c1) \<Rightarrow>
          if is_grease16 v then version_loop best c1
          else version_loop (if best < v then v else best) c1))"
  by pat_completeness auto
termination
  by (relation "measure (\<lambda>(_, c). length c)") (auto dest!: cur_shorter)

declare version_loop.simps [simp del]

definition best_version :: "bytes \<Rightarrow> bytes option" where
  "best_version dat =
    do { (len, c) \<leftarrow> cur_u8 dat;
         if odd (unat len) then None
         else do { (lst, _) \<leftarrow> cur_take (unat len) c;
                   best \<leftarrow> version_loop 0 lst;
                   let nam = version_name best in if nam = [] then None else Some nam } }"

definition apply_ext :: "u16 \<Rightarrow> bytes \<Rightarrow> hello \<Rightarrow> hello" where
  "apply_ext ty dat out =
    (if ty = EXT_SERVER_NAME then
       (case parse_server_name dat of Some n \<Rightarrow> out\<lparr>server_name := n\<rparr> | None \<Rightarrow> out)
     else if ty = EXT_ALPN then
       (case parse_alpn dat of Some l \<Rightarrow> out\<lparr>alpn := l\<rparr> | None \<Rightarrow> out)
     else if ty = EXT_SUPPORTED_VERSIONS then
       (case best_version dat of Some v \<Rightarrow> out\<lparr>protocol := v\<rparr> | None \<Rightarrow> out)
     else out)"

function ext_loop :: "hello \<Rightarrow> bytes \<Rightarrow> hello option" where
  "ext_loop out c =
    (if c = [] then Some out
     else (case cur_u16 c of
        None \<Rightarrow> None
      | Some (ty, c1) \<Rightarrow>
          (case cur_u16 c1 of
             None \<Rightarrow> None
           | Some (len, c2) \<Rightarrow>
               (case cur_take (unat len) c2 of
                  None \<Rightarrow> None
                | Some (dat, c3) \<Rightarrow> ext_loop (apply_ext ty dat out) c3))))"
  by pat_completeness auto
termination
  by (relation "measure (\<lambda>(_, c). length c)") (auto dest!: cur_shorter)

declare ext_loop.simps [simp del]

definition hello_body :: "bytes \<Rightarrow> preread option" where
  "hello_body body =
    do { (legacy, c) \<leftarrow> cur_u16 body;
         (_, c) \<leftarrow> cur_take 32 c;
         (sid_len, c) \<leftarrow> cur_u8 c;
         (_, c) \<leftarrow> cur_take (unat sid_len) c;
         (cs_len, c) \<leftarrow> cur_u16 c;
         if odd (unat cs_len) then Some NotTls
         else do { (_, c) \<leftarrow> cur_take (unat cs_len) c;
                   (comp_len, c) \<leftarrow> cur_u8 c;
                   (_, c) \<leftarrow> cur_take (unat comp_len) c;
                   let out = \<lparr>server_name = [], alpn = [], protocol = version_name legacy\<rparr>
                   in if c = [] then Some (Hello out)
                      else do { (ext_len, c) \<leftarrow> cur_u16 c;
                                (exts, _) \<leftarrow> cur_take (unat ext_len) c;
                                h \<leftarrow> ext_loop out exts;
                                Some (Hello h) } } }"

definition handshake :: "bytes \<Rightarrow> preread option" where
  "handshake b =
    do { (msg, c) \<leftarrow> cur_u8 b;
         if msg \<noteq> MSG_CLIENT_HELLO then Some NotTls
         else do { (len, c) \<leftarrow> cur_u24 c;
                   (body, _) \<leftarrow> cur_take (unat len) c;
                   hello_body body } }"

definition parse :: "bytes \<Rightarrow> preread" where
  "parse buf =
    (case buf of
       [] \<Rightarrow> PIncomplete
     | b # _ \<Rightarrow>
         if b \<noteq> REC_HANDSHAKE then NotTls
         else (case records [] buf of
            Inl e \<Rightarrow> e
          | Inr parts \<Rightarrow>
              (case handshake (concat parts) of None \<Rightarrow> PIncomplete | Some r \<Rightarrow> r)))"

text \<open>\<^verbatim>\<open>alpn_list\<close> joins the protocols with commas.\<close>

definition alpn_list :: "hello \<Rightarrow> bytes" where
  "alpn_list h = (case alpn h of [] \<Rightarrow> [] | p # ps \<Rightarrow> p @ concat (map (\<lambda>q. 0x2C # q) ps))"

section \<open>The walk over the records\<close>

lemma cur_take_append: "cur_take n c = Some (s, r) \<Longrightarrow> cur_take n (c @ d) = Some (s, r @ d)"
  by (auto simp: cur_take_def split: if_splits)

lemma cur_append:
  "cur_take n c = Some (s, r) \<Longrightarrow> cur_take n (c @ d) = Some (s, r @ d)"
  "cur_u8 c = Some (b, r) \<Longrightarrow> cur_u8 (c @ d) = Some (b, r @ d)"
  "cur_u16 c = Some (w, r) \<Longrightarrow> cur_u16 (c @ d) = Some (w, r @ d)"
  by (auto simp: cur_u8_def cur_u16_def bind_eq_Some_conv cur_take_append)

lemma read_record_stable:
  "read_record c = Inr (p, r) \<Longrightarrow> read_record (c @ d) = Inr (p, r @ d)"
  "read_record c = Inl NotTls \<Longrightarrow> read_record (c @ d) = Inl NotTls"
  by (auto simp: read_record_def cur_append split: option.splits if_splits)

lemma read_record_no_hello: "read_record c \<noteq> Inl (Hello h)"
  by (auto simp: read_record_def split: option.splits if_splits)

lemma records_stable:
  "records parts c = Inr ps \<Longrightarrow> records parts (c @ d) = Inr ps"
  "records parts c = Inl NotTls \<Longrightarrow> records parts (c @ d) = Inl NotTls"
proof (induction parts c rule: records.induct)
  case (1 parts c)
  { case 1
    then obtain p r where r: "read_record c = Inr (p, r)"
      by (auto simp: records.simps [of parts c] split: sum.splits)
    with 1 "1.IH"(1,3) read_record_stable(1) [OF r, of d] show ?case
      by (auto simp: records.simps [of parts c] records.simps [of parts "c @ d"] Let_def
          split: option.splits if_splits) }
  { case 2
    show ?case
    proof (cases "read_record c")
      case (Inl e)
      with 2 have "e = NotTls" by (simp add: records.simps [of parts c])
      with Inl read_record_stable(2) show ?thesis by (simp add: records.simps [of parts "c @ d"])
    next
      case (Inr pr)
      obtain p r where r: "read_record c = Inr (p, r)" using Inr by (cases pr) auto
      with 2 "1.IH"(2,4) read_record_stable(1) [OF r, of d] show ?thesis
        by (auto simp: records.simps [of parts c] records.simps [of parts "c @ d"] Let_def
            split: option.splits if_splits)
    qed }
qed

lemma records_no_hello: "records parts c \<noteq> Inl (Hello h)"
proof (induction parts c rule: records.induct)
  case (1 parts c)
  then show ?case
    using read_record_no_hello [of c h]
    by (auto simp: records.simps [of parts c] Let_def split: sum.splits option.splits if_splits)
qed

lemma parse_stable: "parse b \<noteq> PIncomplete \<Longrightarrow> parse (b @ c) = parse b"
proof -
  assume p: "parse b \<noteq> PIncomplete"
  then obtain x xs where b: "b = x # xs" by (cases b) (auto simp: parse_def)
  show ?thesis
  proof (cases "records [] b")
    case (Inl e)
    then have "x = REC_HANDSHAKE \<Longrightarrow> e = NotTls"
      using p b records_no_hello [of "[]" b] by (cases e) (auto simp: parse_def)
    with Inl b records_stable(2) [of "[]" b c] show ?thesis by (auto simp: parse_def)
  next
    case (Inr ps)
    with b records_stable(1) [OF Inr, of c] show ?thesis by (auto simp: parse_def)
  qed
qed

interpretation preread_inc: incremental parse "\<lambda>r. r = PIncomplete"
  by unfold_locales (rule parse_stable)

text \<open>A handshake message cut into records.\<close>

definition put_record :: "u8 \<Rightarrow> bytes \<Rightarrow> bytes" where
  "put_record minor p = [REC_HANDSHAKE, 3, minor] @ to_be16 (of_nat (length p)) @ p"

lemma read_record_put:
  assumes "p \<noteq> []" "length p \<le> MAX_RECORD"
  shows "read_record (put_record minor p @ rest) = Inr (p, rest)"
proof -
  define w :: u16 where "w = of_nat (length p)"
  have w: "unat w = length p" using assms(2) by (simp add: w_def unsigned_of_nat take_bit_nat_eq_self)
  then have "w \<noteq> 0" using assms(1) by auto
  have r: "put_record minor p @ rest
      = REC_HANDSHAKE # 3 # minor # ucast (drop_bit 8 w) # ucast w # p @ rest"
    by (simp add: put_record_def to_be16_def flip: w_def)
  show ?thesis
    unfolding r read_record_def
    using w \<open>w \<noteq> 0\<close> assms by (simp add: cur_u8_def cur_u16_def cur_take_def)
qed

lemma records_put:
  assumes "parts \<noteq> []" "list_all (\<lambda>p. p \<noteq> [] \<and> length p \<le> MAX_RECORD) parts"
    and "declared_len (done @ parts) = Some need" "need \<le> length (concat (done @ parts))"
    and "\<forall>n < length parts. \<forall>k. declared_len (done @ take n parts) = Some k \<longrightarrow> length (concat (done @ take n parts)) < k"
  shows "records done (concat (map (put_record minor) parts) @ rest) = Inr (done @ parts)"
  using assms
proof (induction parts arbitrary: "done")
  case (Cons p ps)
  let ?d = "done @ [p]"
  have rr: "read_record (concat (map (put_record minor) (p # ps)) @ rest)
      = Inr (p, concat (map (put_record minor) ps) @ rest)"
    using read_record_put [of p minor "concat (map (put_record minor) ps) @ rest"] Cons.prems(2) by simp
  have len: "sum_list (map length xs) = length (concat xs)" for xs :: "bytes list"
    by (simp add: length_concat)
  show ?case
  proof (cases "ps = []")
    case True
    with Cons.prems(3,4) rr show ?thesis by (simp add: records.simps [of "done"] Let_def len)
  next
    case False
    have short: "declared_len ?d = Some k \<longrightarrow> length (concat ?d) < k" for k
      using Cons.prems(5) [rule_format, of 1 k] False by simp
    have "\<forall>n < length ps. \<forall>k. declared_len (?d @ take n ps) = Some k \<longrightarrow> length (concat (?d @ take n ps)) < k"
    proof (intro allI impI)
      fix n k
      assume "n < length ps" "declared_len (?d @ take n ps) = Some k"
      then show "length (concat (?d @ take n ps)) < k"
        using Cons.prems(5) [rule_format, of "Suc n" k] by simp
    qed
    with Cons.IH [of ?d] Cons.prems False
    have IH: "records ?d (concat (map (put_record minor) ps) @ rest) = Inr (?d @ ps)" by simp
    have ne: "concat (map (put_record minor) ps) @ rest \<noteq> []"
      using False by (cases ps) (auto simp: put_record_def)
    show ?thesis
    proof (cases "declared_len ?d")
      case None
      with rr IH ne show ?thesis by (simp add: records.simps [of "done"] Let_def)
    next
      case (Some k)
      with short [of k] have "\<not> k \<le> length (concat ?d)" by simp
      with Some rr IH ne show ?thesis by (simp add: records.simps [of "done"] Let_def length_concat)
    qed
  qed
qed simp

lemma declared_len_prefix:
  assumes "declared_len xs = Some k" "concat ys = concat xs @ zs"
  shows "declared_len ys = Some k"
proof -
  obtain a b c d r where x: "concat xs = a # b # c # d # r"
    using assms(1) by (auto simp: declared_len_def split: list.splits)
  with assms show ?thesis unfolding declared_len_def assms(2) x by simp
qed

text \<open>A whole message: its header announces exactly the bytes that follow.\<close>

definition whole_message :: "bytes \<Rightarrow> bool" where
  "whole_message m \<longleftrightarrow> declared_len [m] = Some (length m)"

lemma parse_fragmented:
  assumes "whole_message (concat parts)" "list_all (\<lambda>p. p \<noteq> [] \<and> length p \<le> MAX_RECORD) parts"
  shows "parse (concat (map (put_record minor) parts) @ rest)
    = (case handshake (concat parts) of None \<Rightarrow> PIncomplete | Some r \<Rightarrow> r)"
proof -
  have ne: "parts \<noteq> []" using assms(1) by (auto simp: whole_message_def declared_len_def)
  have need: "declared_len parts = Some (length (concat parts))"
    using assms(1) declared_len_prefix [of "[concat parts]" _ parts "[]"] by (simp add: whole_message_def)
  have "records [] (concat (map (put_record minor) parts) @ rest) = Inr ([] @ parts)"
  proof (rule records_put [OF ne assms(2), where need = "length (concat parts)"])
    show "\<forall>n < length parts. \<forall>k. declared_len ([] @ take n parts) = Some k \<longrightarrow> length (concat ([] @ take n parts)) < k"
    proof (intro allI impI)
      fix n k
      assume n: "n < length parts" and k: "declared_len ([] @ take n parts) = Some k"
      have split: "concat parts = concat (take n parts) @ concat (drop n parts)"
        by (metis append_take_drop_id concat_append)
      have "k = length (concat parts)"
        using declared_len_prefix [of "take n parts" k parts] k split need by simp
      moreover have "concat (drop n parts) \<noteq> []"
        using n assms(2) by (simp add: list_all_length flip: Cons_nth_drop_Suc [OF n])
      ultimately show "length (concat ([] @ take n parts)) < k" using split by (simp add: length_greater_0_conv)
    qed
  qed (use need in simp_all)
  moreover obtain r where "concat (map (put_record minor) parts) @ rest = REC_HANDSHAKE # r"
    using ne by (cases parts) (auto simp: put_record_def)
  ultimately show ?thesis by (simp add: parse_def)
qed

section \<open>ClientHello messages\<close>

lemma to_be16_nonempty [simp]: "to_be16 w \<noteq> []"
  by (simp add: to_be16_def)

lemma cur_simps [simp]:
  "cur_u8 (b # r) = Some (b, r)" "cur_u16 (to_be16 w @ r) = Some (w, r)"
  "cur_take (length s) (s @ r) = Some (s, r)" "cur_take n [] = (if n = 0 then Some ([], []) else None)"
  "cur_take 0 c = Some ([], c)"
  by (auto simp: cur_u8_def cur_u16_def cur_take_def to_be16_def)

lemma cur_u24_simp: "unat w < 2 ^ 24 \<Longrightarrow> cur_u24 (drop 1 (to_be32 w) @ r) = Some (w, r)"
proof -
  assume w: "unat w < 2 ^ 24"
  have "ucast (drop_bit 24 w) = (0 :: u8)"
    by (rule bit_word_eqI) (auto simp: bit_simps dest: word_bit_bound [OF w])
  then show ?thesis using from_be32_to_be32 [of w] by (simp add: cur_u24_def cur_take_def to_be32_def)
qed

definition put_ext :: "u16 \<times> bytes \<Rightarrow> bytes" where
  "put_ext e = (case e of (t, d) \<Rightarrow> to_be16 t @ to_be16 (of_nat (length d)) @ d)"

definition put_hello :: "u16 \<Rightarrow> bytes \<Rightarrow> bytes \<Rightarrow> bytes \<Rightarrow> bytes \<Rightarrow> (u16 \<times> bytes) list \<Rightarrow> bytes" where
  "put_hello legacy random sid ciphers comps exts =
    (let body = to_be16 legacy @ random @ of_nat (length sid) # sid @ to_be16 (of_nat (length ciphers)) @ ciphers
           @ of_nat (length comps) # comps
           @ to_be16 (of_nat (length (concat (map put_ext exts)))) @ concat (map put_ext exts)
     in MSG_CLIENT_HELLO # drop 1 (to_be32 (of_nat (length body))) @ body)"

definition put_sni :: "bytes \<Rightarrow> bytes" where
  "put_sni nam = to_be16 (of_nat (length nam + 3)) @ 0 # to_be16 (of_nat (length nam)) @ nam"

lemma unat_lengths:
  "n < 256 \<Longrightarrow> unat (of_nat n :: u8) = n" "n < 65536 \<Longrightarrow> unat (of_nat n :: u16) = n"
  "n < 2 ^ 32 \<Longrightarrow> unat (of_nat n :: u32) = n"
  by (simp_all add: unsigned_of_nat take_bit_nat_eq_self)

lemma cur_take_exact: "n = length s \<Longrightarrow> cur_take n (s @ r) = Some (s, r)"
  by (simp add: cur_take_def)

lemma ext_loop_put:
  "list_all (\<lambda>(t, d). length d < 65536) exts \<Longrightarrow>
   ext_loop out (concat (map put_ext exts)) = Some (fold (\<lambda>(t, d). apply_ext t d) exts out)"
proof (induction exts arbitrary: out)
  case Nil
  then show ?case by (simp add: ext_loop.simps)
next
  case (Cons e es)
  obtain t d where e: "e = (t, d)" by fastforce
  have ne: "put_ext (t, d) \<noteq> []" by (simp add: put_ext_def to_be16_def)
  show ?case
    using Cons ne by (simp add: ext_loop.simps [of out] e put_ext_def cur_take_exact unat_lengths)
qed

abbreviation hello_ok :: "bytes \<Rightarrow> bytes \<Rightarrow> bytes \<Rightarrow> bytes \<Rightarrow> (u16 \<times> bytes) list \<Rightarrow> bool" where
  "hello_ok random sid ciphers comps exts \<equiv>
     length random = 32 \<and> length sid < 256 \<and> length ciphers < 65536 \<and> even (length ciphers) \<and>
     length comps < 256 \<and> length (concat (map put_ext exts)) < 65536"

lemma ext_lengths: "length (concat (map put_ext exts)) < 65536 \<Longrightarrow> list_all (\<lambda>(t, d). length d < 65536) exts"
proof (induction exts)
  case (Cons e es)
  then show ?case by (cases e) (simp add: put_ext_def)
qed simp

lemma hello_body_put:
  assumes "hello_ok random sid ciphers comps exts"
  shows "hello_body (to_be16 legacy @ random @ of_nat (length sid) # sid @ to_be16 (of_nat (length ciphers)) @ ciphers
      @ of_nat (length comps) # comps
      @ to_be16 (of_nat (length (concat (map put_ext exts)))) @ concat (map put_ext exts))
    = Some (Hello (fold (\<lambda>(t, d). apply_ext t d) exts
        \<lparr>server_name = [], alpn = [], protocol = version_name legacy\<rparr>))"
proof -
  let ?x = "concat (map put_ext exts)"
  have "cur_take (length ?x) ?x = Some (?x, [])" using cur_take_exact [of "length ?x" ?x "[]"] by simp
  then show ?thesis
    using assms ext_loop_put [OF ext_lengths, of exts]
    by (simp add: hello_body_def cur_take_exact unat_lengths)
qed

lemma handshake_put_hello:
  assumes "hello_ok random sid ciphers comps exts"
  shows "handshake (put_hello legacy random sid ciphers comps exts)
      = Some (Hello (fold (\<lambda>(t, d). apply_ext t d) exts
          \<lparr>server_name = [], alpn = [], protocol = version_name legacy\<rparr>))"
    and "whole_message (put_hello legacy random sid ciphers comps exts)"
proof -
  define body where "body = to_be16 legacy @ random @ of_nat (length sid) # sid
      @ to_be16 (of_nat (length ciphers)) @ ciphers @ of_nat (length comps) # comps
      @ to_be16 (of_nat (length (concat (map put_ext exts)))) @ concat (map put_ext exts)"
  have m: "put_hello legacy random sid ciphers comps exts
      = MSG_CLIENT_HELLO # drop 1 (to_be32 (of_nat (length body))) @ body"
    unfolding put_hello_def Let_def body_def ..
  have l: "length body < 2 ^ 24" using assms by (simp add: body_def)
  define w :: u32 where "w = of_nat (length body)"
  have w: "unat w = length body" using l by (simp add: w_def unat_lengths)
  have "cur_take (length body) body = Some (body, [])"
    using cur_take_exact [of "length body" body "[]"] by simp
  moreover have "cur_u24 (drop 1 (to_be32 w) @ body) = Some (w, body)"
    by (rule cur_u24_simp) (use w l in simp)
  ultimately show "handshake (put_hello legacy random sid ciphers comps exts)
      = Some (Hello (fold (\<lambda>(t, d). apply_ext t d) exts
          \<lparr>server_name = [], alpn = [], protocol = version_name legacy\<rparr>))"
    unfolding m w_def [symmetric] using w hello_body_put [OF assms, of legacy, folded body_def]
    by (simp add: handshake_def)
  have "ucast (drop_bit 24 w) = (0 :: u8)"
  proof -
    have "unat w < 2 ^ 24" using l w by simp
    note b = word_bit_bound [OF this]
    show ?thesis by (rule bit_word_eqI) (auto simp: bit_simps dest: b)
  qed
  then have "from_be32 0 (ucast (drop_bit 16 w)) (ucast (drop_bit 8 w)) (ucast w) = w"
    using from_be32_to_be32 [of w] by simp
  then show "whole_message (put_hello legacy random sid ciphers comps exts)"
    unfolding m w_def [symmetric] by (simp add: whole_message_def declared_len_def to_be32_def w)
qed

lemma parse_server_name_put:
  assumes "utf8_valid nam" "nam \<noteq> []" "length nam + 3 < 65536"
  shows "parse_server_name (put_sni nam) = Some nam"
proof -
  let ?l = "0 # to_be16 (of_nat (length nam)) @ nam"
  have "unat (of_nat (length nam + 3) :: u16) = length ?l" using assms(3) by (subst unat_lengths) simp_all
  then have t: "cur_take (unat (of_nat (length nam + 3) :: u16)) ?l = Some (?l, [])"
    using cur_take_exact [of _ ?l "[]"] by simp
  have "cur_take (length nam) nam = Some (nam, [])" using cur_take_exact [of _ nam "[]"] by simp
  then have "server_name_loop ?l = Some nam"
    using assms by (simp add: server_name_loop.simps [of ?l] from_utf8_def unat_lengths)
  with t show ?thesis
    by (simp only: parse_server_name_def put_sni_def cur_simps bind.bind_lunit prod.case)
qed

lemma apply_ext_other: "t \<noteq> EXT_SERVER_NAME \<Longrightarrow> server_name (apply_ext t d h) = server_name h"
  by (simp add: apply_ext_def split: option.split)

lemma fold_ext_other:
  "\<forall>(t, d)\<in>set exts. t \<noteq> EXT_SERVER_NAME \<Longrightarrow>
   server_name (fold (\<lambda>(t, d). apply_ext t d) exts h) = server_name h"
  by (induction exts arbitrary: h) (auto simp: apply_ext_other)

section \<open>Properties\<close>

text \<open>
  Once the parser has answered, more bytes never change the answer; so the backend that is
  chosen does not depend on how the client's bytes were cut into reads.
\<close>

theorem preread_prefix_stable:
  "(parse b \<noteq> PIncomplete \<longrightarrow> parse (b @ c) = parse b)
   \<and> feed parse (\<lambda>r. r = PIncomplete) [] chunks = parse (concat chunks)"
  using parse_stable [of b c] preread_inc.feed_parse [of "[]" chunks] by simp

theorem preread_prefix_stable_witness: "parse ([0x47] @ [1, 2, 3]) = NotTls"
  using preread_prefix_stable [of "[0x47]" "[1, 2, 3]"] by (simp add: parse_def)

text \<open>C36.
  The routing name is the one the client sent. For every well-formed ClientHello, cut into TLS
  records in any way (non-empty, at most \<open>2 ^ 14\<close> bytes each), read in any chunks and followed by any
  bytes, the parser answers with exactly the extensions of the message applied in order; and if the
  message has one server name extension, with a UTF-8 name, that is the name it reports.
\<close>

theorem preread_client_hello:
  assumes "hello_ok random sid ciphers comps (before @ (EXT_SERVER_NAME, put_sni nam) # after)"
    and "concat parts = put_hello legacy random sid ciphers comps (before @ (EXT_SERVER_NAME, put_sni nam) # after)"
    and "list_all (\<lambda>p. p \<noteq> [] \<and> length p \<le> MAX_RECORD) parts"
    and "concat chunks = concat (map (put_record minor) parts) @ rest"
    and "utf8_valid nam" "nam \<noteq> []" "\<forall>(t, d)\<in>set after. t \<noteq> EXT_SERVER_NAME"
  shows "\<exists>h. feed parse (\<lambda>r. r = PIncomplete) [] chunks = Hello h \<and> server_name h = nam"
proof -
  let ?exts = "before @ (EXT_SERVER_NAME, put_sni nam) # after"
  let ?h = "fold (\<lambda>(t, d). apply_ext t d) ?exts
      \<lparr>server_name = [], alpn = [], protocol = version_name legacy\<rparr>"
  note m = handshake_put_hello [OF assms(1), of legacy]
  have "feed parse (\<lambda>r. r = PIncomplete) [] chunks = parse (concat chunks)"
    using preread_inc.feed_parse [of "[]" chunks] by simp
  also have "\<dots> = Hello ?h"
    using parse_fragmented [of parts minor rest] assms(2-4) m by simp
  finally have f: "feed parse (\<lambda>r. r = PIncomplete) [] chunks = Hello ?h" .
  have "length (put_sni nam) < 65536"
    using ext_lengths [of ?exts] assms(1) by auto
  then have "length nam + 3 < 65536" by (simp add: put_sni_def)
  from parse_server_name_put [OF assms(5,6) this]
  have "server_name ?h = nam" by (simp add: fold_ext_other [OF assms(7)] apply_ext_def)
  with f show ?thesis by blast
qed

definition preread_demo :: bytes where
  "preread_demo = put_hello 0x0303 (replicate 32 0) [] [0x13, 0x01] [0] [(0, put_sni (bs ''a.b''))]"

theorem preread_client_hello_witness:
  "\<exists>h. feed parse (\<lambda>r. r = PIncomplete) []
      [put_record 1 [hd preread_demo], put_record 1 (tl preread_demo) @ [9]] = Hello h \<and> server_name h = bs ''a.b''"
proof (rule preread_client_hello [where before = "[]" and after = "[]" and sid = "[]" and comps = "[0]"
      and ciphers = "[0x13, 0x01]" and random = "replicate 32 0" and legacy = "0x0303" and minor = 1
      and parts = "[[hd preread_demo], tl preread_demo]" and rest = "[9]"])
  have ne: "preread_demo \<noteq> []" by (simp add: preread_demo_def put_hello_def Let_def)
  then show "concat [[hd preread_demo], tl preread_demo]
      = put_hello 0x0303 (replicate 32 0) [] [0x13, 0x01] [0] ([] @ (EXT_SERVER_NAME, put_sni (bs ''a.b'')) # [])"
    by (simp add: preread_demo_def)
  have "tl preread_demo \<noteq> []" "length (tl preread_demo) \<le> MAX_RECORD"
    by (simp_all add: preread_demo_def put_hello_def Let_def put_ext_def put_sni_def)
  then show "list_all (\<lambda>p. p \<noteq> [] \<and> length p \<le> MAX_RECORD) [[hd preread_demo], tl preread_demo]" by simp
qed (simp_all add: put_ext_def put_sni_def utf8_valid_Cons_ascii)

text \<open>
  A message that can never become a ClientHello may keep the connection waiting: for a complete
  handshake message whose inner lengths overrun it, the answer is \<^verbatim>\<open>Incomplete\<close> for these bytes and
  for any bytes that follow, so only the preread timeout ends the wait.
\<close>

theorem preread_malformed_waits_forever:
  assumes "whole_message m" "m \<noteq> []" "length m \<le> MAX_RECORD" "handshake m = None"
  shows "parse (put_record minor m @ rest) = PIncomplete"
  using parse_fragmented [of "[m]" minor rest] assms by simp

theorem preread_malformed_waits_forever_witness:
  "parse (put_record 1 [1, 0, 0, 2, 3, 3] @ [22, 3, 1, 0, 1, 7]) = PIncomplete"
  by (rule preread_malformed_waits_forever)
    (simp_all add: whole_message_def declared_len_def from_be32_def handshake_def hello_body_def
      cur_u24_def cur_u16_def cur_take_def)

end
