(* ===== verification/Request.thy ===== *)
theory Request
  imports Uri
begin

text \<open>
  The request head (\<^verbatim>\<open>src/http/request.rs\<close>): methods, the side table of frequent headers, the
  checks of \<^verbatim>\<open>Req::parse\<close> on top of the third-party tokenizer, and the header queries. Parsed parts
  are byte ranges into the read buffer, as in the source. The tokenizer (the \<^verbatim>\<open>httparse\<close> crate) is
  the parameter \<open>httparse\<close> of \<open>req_parse\<close>: it is given the buffer and reports an error, that more
  bytes are needed, or the ranges of the parts it found.
\<close>

section \<open>Definitions\<close>

datatype http_method = Get | Head | Post | Put | Delete | Options | Patch | ConnectM | Trace | Other

definition method_parse :: "bytes \<Rightarrow> http_method" where
  "method_parse s =
    (if s = bs ''GET'' then Get else if s = bs ''HEAD'' then Head
     else if s = bs ''POST'' then Post else if s = bs ''PUT'' then Put
     else if s = bs ''DELETE'' then Delete else if s = bs ''OPTIONS'' then Options
     else if s = bs ''PATCH'' then Patch else if s = bs ''CONNECT'' then ConnectM
     else if s = bs ''TRACE'' then Trace else Other)"

fun method_as_str :: "http_method \<Rightarrow> bytes" where
  "method_as_str Get = bs ''GET''"
| "method_as_str Head = bs ''HEAD''"
| "method_as_str Post = bs ''POST''"
| "method_as_str Put = bs ''PUT''"
| "method_as_str Delete = bs ''DELETE''"
| "method_as_str Options = bs ''OPTIONS''"
| "method_as_str Patch = bs ''PATCH''"
| "method_as_str ConnectM = bs ''CONNECT''"
| "method_as_str Trace = bs ''TRACE''"
| "method_as_str Other = []"

definition is_safe :: "http_method \<Rightarrow> bool" where
  "is_safe m \<longleftrightarrow> m = Get \<or> m = Head"

datatype hot =
    Host | Connection | ContentLength | TransferEncoding | AcceptEncoding | IfNoneMatch
  | IfModifiedSince | IfMatch | IfUnmodifiedSince | IfRange | RangeH | UserAgent | Referer
  | Cookie | Expect | XForwardedFor | ContentType | Upgrade | Authorization

fun hot_index :: "hot \<Rightarrow> nat" where
  "hot_index Host = 0"
| "hot_index Connection = 1"
| "hot_index ContentLength = 2"
| "hot_index TransferEncoding = 3"
| "hot_index AcceptEncoding = 4"
| "hot_index IfNoneMatch = 5"
| "hot_index IfModifiedSince = 6"
| "hot_index IfMatch = 7"
| "hot_index IfUnmodifiedSince = 8"
| "hot_index IfRange = 9"
| "hot_index RangeH = 10"
| "hot_index UserAgent = 11"
| "hot_index Referer = 12"
| "hot_index Cookie = 13"
| "hot_index Expect = 14"
| "hot_index XForwardedFor = 15"
| "hot_index ContentType = 16"
| "hot_index Upgrade = 17"
| "hot_index Authorization = 18"

abbreviation HOT_COUNT :: nat where "HOT_COUNT \<equiv> 19"

definition hot_of :: "bytes \<Rightarrow> hot option" where
  "hot_of n =
    (let l = length n; is = \<lambda>k s. l = k \<and> eq_ignore_ascii_case n (bs s)
     in if is 4 ''host'' then Some Host
        else if is 5 ''range'' then Some RangeH
        else if is 6 ''cookie'' then Some Cookie
        else if is 6 ''expect'' then Some Expect
        else if is 7 ''referer'' then Some Referer
        else if is 7 ''upgrade'' then Some Upgrade
        else if is 8 ''if-match'' then Some IfMatch
        else if is 8 ''if-range'' then Some IfRange
        else if is 10 ''connection'' then Some Connection
        else if is 10 ''user-agent'' then Some UserAgent
        else if is 12 ''content-type'' then Some ContentType
        else if is 13 ''if-none-match'' then Some IfNoneMatch
        else if is 13 ''authorization'' then Some Authorization
        else if is 14 ''content-length'' then Some ContentLength
        else if is 15 ''accept-encoding'' then Some AcceptEncoding
        else if is 15 ''x-forwarded-for'' then Some XForwardedFor
        else if is 17 ''if-modified-since'' then Some IfModifiedSince
        else if is 17 ''transfer-encoding'' then Some TransferEncoding
        else if is 19 ''if-unmodified-since'' then Some IfUnmodifiedSince
        else None)"

text \<open>A range of the buffer, and the bytes in it.\<close>

type_synonym range = "nat \<times> nat"

definition sub :: "bytes \<Rightarrow> range \<Rightarrow> bytes" where
  "sub buf r = (case r of (a, b) \<Rightarrow> take (b - a) (drop a buf))"

datatype req_body = NoBody | Length nat | Chunked

record req =
  rmethod :: http_method
  method_raw :: range
  target :: range
  path :: range
  query :: range
  minor :: nat
  headers :: "(range \<times> range) list"
  hot_slots :: "nat list"
  req_head_len :: nat
  rbody :: req_body
  keep_alive :: bool

abbreviation NO_HEADER :: nat where "NO_HEADER \<equiv> 65535"
abbreviation MAX_HEADERS :: nat where "MAX_HEADERS \<equiv> 96"

datatype parse_result = Partial | Complete | Error nat

definition req_new :: req where
  "req_new = \<lparr>rmethod = Get, method_raw = (0, 0), target = (0, 0), path = (0, 0), query = (0, 0), minor = 1,
     headers = [], hot_slots = replicate HOT_COUNT NO_HEADER, req_head_len = 0, rbody = NoBody, keep_alive = True\<rparr>"

definition req_reset :: "req \<Rightarrow> req" where
  "req_reset r = r\<lparr>headers := [], hot_slots := replicate HOT_COUNT NO_HEADER, req_head_len := 0,
     rbody := NoBody, keep_alive := True\<rparr>"

definition push_header :: "bytes \<Rightarrow> range \<times> range \<Rightarrow> req \<Rightarrow> req" where
  "push_header buf h r =
    (let idx = length (headers r);
         r = (case hot_of (sub buf (fst h)) of
                Some h' \<Rightarrow>
                  (let slot = hot_index h'
                   in if hot_slots r ! slot = NO_HEADER then r\<lparr>hot_slots := (hot_slots r)[slot := idx mod 2 ^ 16]\<rparr> else r)
              | None \<Rightarrow> r)
     in r\<lparr>headers := headers r @ [h]\<rparr>)"

definition slice :: "bytes \<Rightarrow> range \<Rightarrow> bytes" where
  "slice buf r = (case from_utf8 (sub buf r) of Some s \<Rightarrow> s | None \<Rightarrow> [])"

definition hot_value :: "req \<Rightarrow> bytes \<Rightarrow> hot \<Rightarrow> bytes option" where
  "hot_value r buf h =
    (let i = hot_slots r ! hot_index h
     in if i = NO_HEADER then None else Some (slice buf (snd (headers r ! i))))"

definition header :: "req \<Rightarrow> bytes \<Rightarrow> bytes \<Rightarrow> bytes option" where
  "header r buf n =
    (case hot_of n of
       Some h \<Rightarrow> hot_value r buf h
     | None \<Rightarrow> map_option (\<lambda>h. slice buf (snd h))
                 (find (\<lambda>h. eq_ignore_ascii_case (sub buf (fst h)) n) (headers r)))"

definition header_has_token :: "bytes \<Rightarrow> bytes \<Rightarrow> bool" where
  "header_has_token v token =
     list_ex (\<lambda>p. eq_ignore_ascii_case (trim (hd (split_on 0x3B p))) token) (split_on 0x2C v)"

text \<open>What the tokenizer reports.\<close>

datatype hp_error = TooManyHeaders | Version | OtherError

record hp_request =
  hp_method :: "range option"
  hp_path :: "range option"
  hp_version :: "nat option"
  hp_headers :: "(range \<times> range) list"

datatype hp_status = HpPartial | HpComplete nat

text \<open>The framing decision: the request with its body, or the status to answer with.\<close>

definition framing :: "req \<Rightarrow> bytes \<Rightarrow> req \<times> parse_result" where
  "framing r buf =
    (case (hot_value r buf TransferEncoding, hot_value r buf ContentLength) of
       (Some te, cl_opt) \<Rightarrow>
         if \<not> eq_ignore_ascii_case te (bs ''chunked'') then (r, Error 400)
         else if cl_opt \<noteq> None then (r, Error 400)
         else (r\<lparr>rbody := Chunked\<rparr>, Complete)
     | (None, Some cl) \<Rightarrow>
         (let dups = length (filter (\<lambda>h. eq_ignore_ascii_case (sub buf (fst h)) (bs ''content-length'')) (headers r))
          in if 1 < dups then (r, Error 400)
             else (case parse_unsigned 64 (trim cl) of
                     Some n \<Rightarrow> (r\<lparr>rbody := Length n\<rparr>, Complete)
                   | None \<Rightarrow> (r, Error 400)))
     | (None, None) \<Rightarrow> (r\<lparr>rbody := NoBody\<rparr>, Complete))"

definition set_keep_alive :: "req \<Rightarrow> bytes \<Rightarrow> req" where
  "set_keep_alive r buf =
    (let r = r\<lparr>keep_alive := (minor r = 1)\<rparr>
     in case hot_value r buf Connection of
          Some v \<Rightarrow> if header_has_token v (bs ''close'') then r\<lparr>keep_alive := False\<rparr>
                    else if header_has_token v (bs ''keep-alive'') then r\<lparr>keep_alive := True\<rparr> else r
        | None \<Rightarrow> r)"

definition set_target :: "req \<Rightarrow> bytes \<Rightarrow> range \<Rightarrow> range \<Rightarrow> req" where
  "set_target r buf m t =
    (let (p, q) = split_query (sub buf t); s = fst t
     in r\<lparr>rmethod := method_parse (sub buf m), method_raw := m, target := t,
          path := (s, s + length p),
          query := (if q = [] then (snd t, snd t) else (s + length p + 1, s + length p + 1 + length q))\<rparr>)"

definition req_parse ::
  "(bytes \<Rightarrow> hp_error + (hp_status \<times> hp_request)) \<Rightarrow> req \<Rightarrow> bytes \<Rightarrow> req \<times> parse_result" where
  "req_parse httparse r buf =
    (let r = req_reset r
     in case httparse buf of
          Inl TooManyHeaders \<Rightarrow> (r, Error 431)
        | Inl Version \<Rightarrow> (r, Error 505)
        | Inl OtherError \<Rightarrow> (r, Error 400)
        | Inr (HpPartial, _) \<Rightarrow> (r, Partial)
        | Inr (HpComplete n, p) \<Rightarrow>
           (case hp_method p of
              None \<Rightarrow> (r, Error 400)
            | Some m \<Rightarrow>
               (case hp_path p of
                  None \<Rightarrow> (r, Error 400)
                | Some t \<Rightarrow>
                   (let r = set_target r buf m t
                    in case hp_version p of
                         None \<Rightarrow> (r, Error 505)
                       | Some v \<Rightarrow>
                          if 1 < v then (r, Error 505)
                          else (let r = r\<lparr>minor := v, req_head_len := n\<rparr>;
                                    r = fold (push_header buf)
                                          (takeWhile (\<lambda>h. sub buf (fst h) \<noteq> []) (hp_headers p)) r;
                                    r = set_keep_alive r buf
                                in case framing r buf of
                                     (r, Complete) \<Rightarrow>
                                       if minor r = 1 \<and> hot_slots r ! hot_index Host = NO_HEADER then (r, Error 400)
                                       else (r, Complete)
                                   | (r, e) \<Rightarrow> (r, e))))))"

text \<open>A request put together from decoded fields (HTTP/2 and HTTP/3); it comes with its buffer.\<close>

fun put_headers :: "(bytes \<times> bytes) list \<Rightarrow> bytes \<Rightarrow> req \<Rightarrow> bytes \<times> req" where
  "put_headers [] buf r = (buf, r)"
| "put_headers ((n, v) # hs) buf r =
    (let a = length buf; b = a + length n; c = b + length v; buf = buf @ n @ v
     in put_headers hs buf (push_header buf ((a, b), (b, c)) r))"

definition from_parts :: "bytes \<Rightarrow> bytes \<Rightarrow> (bytes \<times> bytes) list \<Rightarrow> bytes \<times> req" where
  "from_parts m t hs =
    (let buf = m @ t; s = length m; (p, q) = split_query t;
         r = req_new\<lparr>method_raw := (0, s), rmethod := method_parse m, target := (s, s + length t),
               path := (s, s + length p),
               query := (if q = [] then (s, s) else (s + length p + 1, s + length t))\<rparr>;
         (buf, r) = put_headers hs buf r
     in (buf, r\<lparr>minor := 1, keep_alive := True, req_head_len := 0\<rparr>))"

text \<open>The last index of a byte, for \<^verbatim>\<open>rfind\<close>.\<close>

definition rposition :: "u8 \<Rightarrow> bytes \<Rightarrow> nat option" where
  "rposition c s = map_option (\<lambda>i. length s - Suc i) (position (\<lambda>b. b = c) (rev s))"

definition host :: "req \<Rightarrow> bytes \<Rightarrow> bytes" where
  "host r buf =
    (let h = (case hot_value r buf Host of Some h \<Rightarrow> h | None \<Rightarrow> [])
     in if h \<noteq> [] \<and> hd h = 0x5B
        then (case position (\<lambda>b. b = 0x5D) h of Some i \<Rightarrow> take (i + 1) h | None \<Rightarrow> h)
        else (case rposition 0x3A h of Some i \<Rightarrow> take i h | None \<Rightarrow> h))"

definition accepts_gzip :: "req \<Rightarrow> bytes \<Rightarrow> bool" where
  "accepts_gzip r buf =
    (case hot_value r buf AcceptEncoding of Some v \<Rightarrow> header_has_token v (bs ''gzip'') | None \<Rightarrow> False)"

definition expects_continue :: "req \<Rightarrow> bytes \<Rightarrow> bool" where
  "expects_continue r buf =
    (case hot_value r buf Expect of Some v \<Rightarrow> eq_ignore_ascii_case v (bs ''100-continue'') | None \<Rightarrow> False)"

section \<open>The index of frequent headers\<close>

fun hot_name :: "hot \<Rightarrow> bytes" where
  "hot_name Host = bs ''host''"
| "hot_name Connection = bs ''connection''"
| "hot_name ContentLength = bs ''content-length''"
| "hot_name TransferEncoding = bs ''transfer-encoding''"
| "hot_name AcceptEncoding = bs ''accept-encoding''"
| "hot_name IfNoneMatch = bs ''if-none-match''"
| "hot_name IfModifiedSince = bs ''if-modified-since''"
| "hot_name IfMatch = bs ''if-match''"
| "hot_name IfUnmodifiedSince = bs ''if-unmodified-since''"
| "hot_name IfRange = bs ''if-range''"
| "hot_name RangeH = bs ''range''"
| "hot_name UserAgent = bs ''user-agent''"
| "hot_name Referer = bs ''referer''"
| "hot_name Cookie = bs ''cookie''"
| "hot_name Expect = bs ''expect''"
| "hot_name XForwardedFor = bs ''x-forwarded-for''"
| "hot_name ContentType = bs ''content-type''"
| "hot_name Upgrade = bs ''upgrade''"
| "hot_name Authorization = bs ''authorization''"

lemma hot_index_less [simp]: "hot_index h < HOT_COUNT"
  by (cases h) simp_all

lemma hot_index_inj [simp]: "hot_index a = hot_index b \<longleftrightarrow> a = b"
  by (cases a; cases b) simp_all

lemma hot_of_SomeD: "hot_of n = Some h \<Longrightarrow> eq_ignore_ascii_case n (hot_name h)"
  unfolding hot_of_def Let_def by (auto split: if_splits)

lemma hot_of_hot_name: "eq_ignore_ascii_case n (hot_name h) \<Longrightarrow> hot_of n = Some h"
  apply (frule eq_ignore_ascii_case_length)
  apply (cases h)
  apply (simp_all add: hot_of_def Let_def eq_ignore_ascii_case_def to_ascii_lowercase_def)
  done

lemma hot_of_iff: "hot_of n = Some h \<longleftrightarrow> eq_ignore_ascii_case n (hot_name h)"
  using hot_of_SomeD hot_of_hot_name by blast

lemma eq_ignore_ascii_case_trans_iff:
  "eq_ignore_ascii_case a b \<Longrightarrow> eq_ignore_ascii_case x a \<longleftrightarrow> eq_ignore_ascii_case x b"
  by (auto simp: eq_ignore_ascii_case_def)

lemma position_snoc:
  "position P (xs @ [x]) =
    (case position P xs of Some i \<Rightarrow> Some i | None \<Rightarrow> if P x then Some (length xs) else None)"
  by (induction xs) (auto split: option.splits)

lemma position_find: "map_option ((!) xs) (position P xs) = find P xs"
  by (induction xs) (auto simp: option.map_comp comp_def)

text \<open>Every slot holds the index of the first header of that name, or the sentinel.\<close>

definition named :: "bytes \<Rightarrow> bytes \<Rightarrow> range \<times> range \<Rightarrow> bool" where
  "named buf n h \<longleftrightarrow> eq_ignore_ascii_case (sub buf (fst h)) n"

definition hot_ok :: "bytes \<Rightarrow> req \<Rightarrow> bool" where
  "hot_ok buf r \<longleftrightarrow> length (hot_slots r) = HOT_COUNT \<and> length (headers r) < NO_HEADER \<and>
     (\<forall>h. hot_slots r ! hot_index h =
        (case position (named buf (hot_name h)) (headers r) of Some i \<Rightarrow> i | None \<Rightarrow> NO_HEADER))"

lemma push_header_headers [simp]: "headers (push_header buf h r) = headers r @ [h]"
  by (simp add: push_header_def Let_def split: option.split)

lemma push_header_slot:
  assumes "length (hot_slots r) = HOT_COUNT" "length (headers r) < NO_HEADER"
  shows "hot_slots (push_header buf x r) ! hot_index h =
    (if named buf (hot_name h) x \<and> hot_slots r ! hot_index h = NO_HEADER then length (headers r)
     else hot_slots r ! hot_index h)"
proof (cases "hot_of (sub buf (fst x))")
  case None
  then have "\<not> named buf (hot_name h) x"
    using hot_of_iff [of "sub buf (fst x)" h] by (simp add: named_def)
  with None show ?thesis by (simp add: push_header_def)
next
  case (Some k)
  then have "named buf (hot_name h) x \<longleftrightarrow> h = k"
    using hot_of_iff [of "sub buf (fst x)" h] by (auto simp: named_def)
  with Some assms show ?thesis
    by (auto simp: push_header_def Let_def nth_list_update)
qed

lemma push_header_length [simp]: "length (hot_slots (push_header buf x r)) = length (hot_slots r)"
  by (simp add: push_header_def Let_def split: option.split)

lemma push_header_ok:
  assumes "hot_ok buf r" "Suc (length (headers r)) < NO_HEADER"
  shows "hot_ok buf (push_header buf x r)"
proof -
  have "hot_slots (push_header buf x r) ! hot_index h =
      (case position (named buf (hot_name h)) (headers r @ [x]) of Some i \<Rightarrow> i | None \<Rightarrow> NO_HEADER)" for h
    using assms push_header_slot [of r buf x h]
    by (auto simp: hot_ok_def position_snoc dest!: position_Some split: option.splits)
  with assms show ?thesis by (simp add: hot_ok_def)
qed

lemma push_headers_ok:
  "hot_ok buf r \<Longrightarrow> length (headers r) + length hs < NO_HEADER \<Longrightarrow> hot_ok buf (fold (push_header buf) hs r)"
proof (induction hs arbitrary: r)
  case (Cons x hs)
  then show ?case using push_header_ok [of buf r x] by simp
qed simp

lemma push_headers_headers [simp]: "headers (fold (push_header buf) hs r) = headers r @ hs"
  by (induction hs arbitrary: r) auto

lemma hot_ok_empty: "headers r = [] \<Longrightarrow> hot_slots r = replicate HOT_COUNT NO_HEADER \<Longrightarrow> hot_ok buf r"
  by (simp add: hot_ok_def)

definition header_values :: "bytes \<Rightarrow> (range \<times> range) list \<Rightarrow> bytes \<Rightarrow> bytes list" where
  "header_values buf hs n = map (\<lambda>h. slice buf (snd h)) (filter (named buf n) hs)"

lemma header_values_find:
  "map_option (\<lambda>h. slice buf (snd h)) (find (named buf n) hs) =
     (case header_values buf hs n of [] \<Rightarrow> None | v # _ \<Rightarrow> Some v)"
  by (simp add: header_values_def find_filter split: list.split)

lemma hot_value_values:
  assumes "hot_ok buf r"
  shows "hot_value r buf h = (case header_values buf (headers r) (hot_name h) of [] \<Rightarrow> None | v # _ \<Rightarrow> Some v)"
proof -
  have "hot_value r buf h = map_option (\<lambda>h. slice buf (snd h)) (find (named buf (hot_name h)) (headers r))"
    using assms position_Some [of "named buf (hot_name h)" "headers r"]
    by (auto simp: hot_value_def hot_ok_def Let_def option.map_comp comp_def
        position_find [symmetric] split: option.split)
  then show ?thesis by (simp add: header_values_find)
qed

lemma hot_slot_empty:
  "hot_ok buf r \<Longrightarrow> hot_slots r ! hot_index h = NO_HEADER \<longleftrightarrow> header_values buf (headers r) (hot_name h) = []"
  using position_Some [of "named buf (hot_name h)" "headers r"]
  by (auto simp: hot_ok_def header_values_def filter_empty_conv position_None list_all_iff split: option.splits)

lemma header_values_eq:
  "eq_ignore_ascii_case n n' \<Longrightarrow> header_values buf hs n = header_values buf hs n'"
  by (simp add: header_values_def named_def eq_ignore_ascii_case_trans_iff cong: filter_cong)

lemma header_first_value:
  assumes "hot_ok buf r"
  shows "header r buf n = (case header_values buf (headers r) n of [] \<Rightarrow> None | v # _ \<Rightarrow> Some v)"
proof (cases "hot_of n")
  case None
  have "(\<lambda>h. eq_ignore_ascii_case (sub buf (fst h)) n) = named buf n" by (simp add: fun_eq_iff named_def)
  with None show ?thesis by (simp add: header_def header_values_find)
next
  case (Some h)
  then show ?thesis
    using hot_value_values [OF assms, of h] header_values_eq [OF hot_of_SomeD [OF Some]] by (simp add: header_def)
qed

section \<open>Framing\<close>

text \<open>
  The body framing of a request as a function of the values of its \<^verbatim>\<open>Transfer-Encoding\<close> and
  \<^verbatim>\<open>Content-Length\<close> fields, in order; \<open>None\<close> where the request is refused. Of several \<^verbatim>\<open>Transfer-Encoding\<close> fields
  the first decides.
\<close>

fun framing_spec :: "bytes list \<Rightarrow> bytes list \<Rightarrow> req_body option" where
  "framing_spec [] [] = Some NoBody"
| "framing_spec [] [v] = map_option Length (parse_unsigned 64 (trim v))"
| "framing_spec (te # tes) [] = (if eq_ignore_ascii_case te (bs ''chunked'') then Some Chunked else None)"
| "framing_spec _ _ = None"

definition keep_alive_spec :: "nat \<Rightarrow> bytes list \<Rightarrow> bool" where
  "keep_alive_spec v cs =
    (case cs of [] \<Rightarrow> v = 1
     | c # _ \<Rightarrow> \<not> header_has_token c (bs ''close'') \<and> (header_has_token c (bs ''keep-alive'') \<or> v = 1))"

lemma framing_refines_spec:
  assumes "hot_ok buf r"
  shows "framing r buf =
    (case framing_spec (header_values buf (headers r) (bs ''transfer-encoding''))
            (header_values buf (headers r) (bs ''content-length'')) of
       None \<Rightarrow> (r, Error 400) | Some b \<Rightarrow> (r\<lparr>rbody := b\<rparr>, Complete))"
proof -
  have dups: "length (filter (\<lambda>h. eq_ignore_ascii_case (sub buf (fst h)) (bs ''content-length'')) (headers r)) =
      length (header_values buf (headers r) (bs ''content-length''))"
    by (simp add: header_values_def named_def [abs_def])
  note vals = hot_value_values [OF assms, of TransferEncoding] hot_value_values [OF assms, of ContentLength]
  show ?thesis
    unfolding framing_def dups vals hot_name.simps
    by (cases "(header_values buf (headers r) (bs ''transfer-encoding''),
          header_values buf (headers r) (bs ''content-length''))" rule: framing_spec.cases)
      (auto split: option.split)
qed

lemma hot_ok_cong: "headers r = headers r' \<Longrightarrow> hot_slots r = hot_slots r' \<Longrightarrow> hot_ok buf r = hot_ok buf r'"
  by (simp add: hot_ok_def)

lemma set_keep_alive_spec:
  assumes "hot_ok buf r"
  shows "set_keep_alive r buf =
    r\<lparr>keep_alive := keep_alive_spec (minor r) (header_values buf (headers r) (bs ''connection''))\<rparr>"
proof -
  have "hot_ok buf (r\<lparr>keep_alive := b\<rparr>)" for b using assms by (simp add: hot_ok_def)
  from hot_value_values [OF this, of _ Connection] show ?thesis
    by (auto simp: set_keep_alive_def keep_alive_spec_def Let_def split: list.split)
qed

lemma push_headers_keep [simp]:
  "minor (fold (push_header buf) hs r) = minor r"
  by (induction hs arbitrary: r) (auto simp: push_header_def Let_def split: option.split)

lemma set_target_simps [simp]:
  "headers (set_target r buf m t) = headers r" "hot_slots (set_target r buf m t) = hot_slots r"
  by (simp_all add: set_target_def Let_def split: prod.split)

text \<open>What the tokenizer promises here: it never fills more slots than it was given.\<close>

definition max_headers_respected :: "(bytes \<Rightarrow> hp_error + (hp_status \<times> hp_request)) \<Rightarrow> bool" where
  "max_headers_respected httparse \<longleftrightarrow>
     (\<forall>buf s p. httparse buf = Inr (s, p) \<longrightarrow> length (hp_headers p) \<le> MAX_HEADERS)"

text \<open>The headers the parser keeps.\<close>

definition kept_headers :: "bytes \<Rightarrow> hp_request \<Rightarrow> (range \<times> range) list" where
  "kept_headers buf p = takeWhile (\<lambda>h. sub buf (fst h) \<noteq> []) (hp_headers p)"

lemma req_parse_complete:
  assumes hp: "max_headers_respected httparse" "httparse buf = Inr (HpComplete n, p)"
    and line: "hp_method p = Some m" "hp_path p = Some t" "hp_version p = Some v" "v \<le> 1"
  obtains r where "hot_ok buf r" "headers r = kept_headers buf p"
    "minor r = v" "keep_alive r = keep_alive_spec v (header_values buf (kept_headers buf p) (bs ''connection''))"
    "req_parse httparse r0 buf =
      (case framing_spec (header_values buf (kept_headers buf p) (bs ''transfer-encoding''))
              (header_values buf (kept_headers buf p) (bs ''content-length'')) of
         None \<Rightarrow> (r, Error 400)
       | Some b \<Rightarrow> (r\<lparr>rbody := b\<rparr>,
           if v = 1 \<and> header_values buf (kept_headers buf p) (bs ''host'') = [] then Error 400 else Complete))"
proof -
  define r1 where "r1 = (set_target (req_reset r0) buf m t)\<lparr>minor := v, req_head_len := n\<rparr>"
  define r2 where "r2 = fold (push_header buf) (kept_headers buf p) r1"
  define r where "r = set_keep_alive r2 buf"
  have len: "length (kept_headers buf p) \<le> MAX_HEADERS"
    using hp length_takeWhile_le [of _ "hp_headers p"] le_trans
    unfolding max_headers_respected_def kept_headers_def by blast
  have r1: "headers r1 = []" "minor r1 = v" "hot_ok buf r1"
    by (auto simp: r1_def req_reset_def intro!: hot_ok_empty)
  then have r2: "hot_ok buf r2" "headers r2 = kept_headers buf p" "minor r2 = v"
    using len push_headers_ok [OF r1(3), of "kept_headers buf p"] by (simp_all add: r2_def)
  then have r: "hot_ok buf r" "headers r = kept_headers buf p" "minor r = v"
    "keep_alive r = keep_alive_spec v (header_values buf (kept_headers buf p) (bs ''connection''))"
    by (simp_all add: r_def set_keep_alive_spec hot_ok_def)
  have "req_parse httparse r0 buf =
      (case framing r buf of
         (r, Complete) \<Rightarrow> if minor r = 1 \<and> hot_slots r ! hot_index Host = NO_HEADER then (r, Error 400) else (r, Complete)
       | (r, e) \<Rightarrow> (r, e))"
    using hp line unfolding req_parse_def r_def r2_def r1_def kept_headers_def
    by (auto simp: Let_def split: prod.split parse_result.split)
  then show ?thesis
    using that [OF r] framing_refines_spec [OF r(1)] hot_slot_empty [OF r(1), of Host] r
    by (auto split: option.splits simp del: hot_index.simps)
qed

lemma req_parse_CompleteE:
  assumes "req_parse httparse r0 buf = (r, Complete)"
  obtains n p m t v where "httparse buf = Inr (HpComplete n, p)"
    "hp_method p = Some m" "hp_path p = Some t" "hp_version p = Some v" "v \<le> 1"
proof (cases "httparse buf")
  case (Inl e)
  with assms show thesis by (cases e) (simp_all add: req_parse_def)
next
  case (Inr sp)
  then obtain s p where sp: "httparse buf = Inr (s, p)" by (cases sp) simp
  show thesis
  proof (cases "s = HpPartial \<or> hp_method p = None \<or> hp_path p = None \<or> (\<forall>v. hp_version p = Some v \<longrightarrow> 1 < v)")
    case True
    with assms sp show thesis
      by (cases s; cases "hp_method p"; cases "hp_path p"; cases "hp_version p")
        (simp_all add: req_parse_def)
  next
    case False
    with sp that show thesis by (cases s) (auto simp: not_less)
  qed
qed

section \<open>Requests built from parts\<close>

lemma sub_append: "snd x \<le> length buf \<Longrightarrow> sub (buf @ c) x = sub buf x"
  by (cases x) (simp add: sub_def)

lemma slice_append: "snd x \<le> length buf \<Longrightarrow> slice (buf @ c) x = slice buf x"
  by (simp add: slice_def sub_append)

lemma sub_mid [simp]: "a = length x \<Longrightarrow> b = a + length y \<Longrightarrow> sub (x @ y @ z) (a, b) = y"
  by (simp add: sub_def)

definition in_buf :: "bytes \<Rightarrow> req \<Rightarrow> bool" where
  "in_buf buf r \<longleftrightarrow> (\<forall>h \<in> set (headers r). snd (fst h) \<le> length buf \<and> snd (snd h) \<le> length buf)"

lemma named_append: "snd (fst h) \<le> length buf \<Longrightarrow> named (buf @ c) n h = named buf n h"
  by (simp add: named_def sub_append)

lemma position_cong: "(\<And>x. x \<in> set xs \<Longrightarrow> P x = Q x) \<Longrightarrow> position P xs = position Q xs"
  by (induction xs) auto

lemma hot_ok_append: "in_buf buf r \<Longrightarrow> hot_ok (buf @ c) r = hot_ok buf r"
  unfolding hot_ok_def in_buf_def
  using position_cong [of "headers r" "named (buf @ c) _" "named buf _"] by (simp add: named_append)

lemma header_fields_append:
  "in_buf buf r \<Longrightarrow> map (\<lambda>h. (sub (buf @ c) (fst h), sub (buf @ c) (snd h))) (headers r) =
     map (\<lambda>h. (sub buf (fst h), sub buf (snd h))) (headers r)"
  by (auto simp: in_buf_def sub_append)

lemma put_headers_fields:
  assumes "put_headers hs buf r = (buf', r')" "in_buf buf r" "hot_ok buf r"
    "length (headers r) + length hs < NO_HEADER"
  shows "hot_ok buf' r' \<and> (\<exists>c. buf' = buf @ c) \<and>
    map (\<lambda>h. (sub buf' (fst h), sub buf' (snd h))) (headers r') =
      map (\<lambda>h. (sub buf (fst h), sub buf (snd h))) (headers r) @ hs"
  using assms
proof (induction hs buf r rule: put_headers.induct)
  case (2 n v hs buf r)
  define h where "h = ((length buf, length buf + length n), (length buf + length n, length buf + length n + length v))"
  define buf1 where "buf1 = buf @ n @ v"
  define r1 where "r1 = push_header buf1 h r"
  have ok: "hot_ok buf1 r1"
    using "2.prems" push_header_ok [of buf1 r h] hot_ok_append [of buf r "n @ v"] by (simp add: r1_def buf1_def)
  have inb: "in_buf buf1 r1"
    using "2.prems"(2) by (force simp: in_buf_def r1_def buf1_def h_def)
  have fields: "map (\<lambda>h. (sub buf1 (fst h), sub buf1 (snd h))) (headers r1) =
      map (\<lambda>h. (sub buf (fst h), sub buf (snd h))) (headers r) @ [(n, v)]"
    using header_fields_append [OF "2.prems"(2), of "n @ v"] sub_mid [of _ "buf @ n" _ v "[]"]
    by (simp add: r1_def buf1_def h_def)
  have step: "put_headers hs buf1 r1 = (buf', r')"
    using "2.prems"(1) by (simp add: Let_def buf1_def r1_def h_def)
  have "length (headers r1) + length hs < NO_HEADER" using "2.prems"(4) by (simp add: r1_def)
  from "2.IH" [OF refl refl refl refl, folded buf1_def, folded h_def, folded r1_def, OF step inb ok this]
  show ?case using fields by (auto simp: buf1_def)
qed auto

lemma put_headers_keep:
  "put_headers hs buf r = (buf', r') \<Longrightarrow>
     rmethod r' = rmethod r \<and> target r' = target r \<and> path r' = path r \<and> query r' = query r \<and>
     method_raw r' = method_raw r \<and> rbody r' = rbody r"
proof (induction hs buf r rule: put_headers.induct)
  case (2 n v hs buf r)
  then show ?case by (simp add: Let_def push_header_def split: option.splits if_splits)
qed auto

lemma split_query_length:
  "split_query t = (p, q) \<Longrightarrow> t = p \<and> q = [] \<or> t = p @ 0x3F # q"
  by (induction t arbitrary: p q) (auto split: if_splits prod.splits)

lemma utf8_slice: "utf8_valid (sub buf x) \<Longrightarrow> slice buf x = sub buf x"
  by (simp add: slice_def from_utf8_def)

lemma header_values_fields:
  assumes "map (\<lambda>h. (sub buf (fst h), sub buf (snd h))) hs = fs" "list_all (\<lambda>f. utf8_valid (snd f)) fs"
  shows "header_values buf hs n = map snd (filter (\<lambda>f. eq_ignore_ascii_case (fst f) n) fs)"
  using assms
proof (induction hs arbitrary: fs)
  case (Cons h hs)
  then show ?case by (auto simp: header_values_def named_def utf8_slice)
qed (simp add: header_values_def)

lemma from_parts_reads:
  assumes "from_parts m t hs = (buf, r)" "length hs < NO_HEADER" "list_all (\<lambda>f. utf8_valid (snd f)) hs"
  shows "sub buf (method_raw r) = m \<and> rmethod r = method_parse m \<and> sub buf (target r) = t \<and>
    (sub buf (path r), sub buf (query r)) = split_query t \<and>
    map (\<lambda>h. (sub buf (fst h), sub buf (snd h))) (headers r) = hs \<and>
    header r buf nm = map_option snd (find (\<lambda>f. eq_ignore_ascii_case (fst f) nm) hs)"
proof -
  obtain p q where pq: "split_query t = (p, q)" by fastforce
  define r1 where "r1 = req_new\<lparr>method_raw := (0, length m), rmethod := method_parse m,
      target := (length m, length m + length t), path := (length m, length m + length p),
      query := (if q = [] then (length m, length m) else (length m + length p + 1, length m + length t))\<rparr>"
  obtain r2 where r2: "put_headers hs (m @ t) r1 = (buf, r2)"
    "r = r2\<lparr>minor := 1, keep_alive := True, req_head_len := 0\<rparr>"
    using assms(1) pq by (auto simp: from_parts_def Let_def r1_def split: prod.splits)
  have "hot_ok (m @ t) r1" "in_buf (m @ t) r1" "headers r1 = []"
    by (simp_all add: r1_def req_new_def in_buf_def hot_ok_empty)
  from put_headers_fields [OF r2(1) this(2,1)] this(3) assms(2) obtain c where
    ok: "hot_ok buf r2" "buf = m @ t @ c" "map (\<lambda>h. (sub buf (fst h), sub buf (snd h))) (headers r2) = hs"
    by auto
  have hdr: "header r buf nm = map_option snd (find (\<lambda>f. eq_ignore_ascii_case (fst f) nm) hs)"
    using header_first_value [of buf r nm] header_values_fields [OF ok(3) assms(3), of nm] ok(1)
    by (simp add: r2(2) hot_ok_def find_filter split: list.split)
  have "sub buf (path r1) = p \<and> sub buf (query r1) = q"
    using split_query_length [OF pq] sub_mid [of _ m _ p] sub_mid [of _ "m @ p @ [0x3F]" _ q c]
    by (auto simp: r1_def ok(2) sub_def)
  moreover have "sub buf (method_raw r1) = m" "sub buf (target r1) = t"
    using sub_mid [of 0 "[]" _ m "t @ c"] by (simp_all add: r1_def ok(2))
  ultimately show ?thesis
    using put_headers_keep [OF r2(1)] hdr ok(3) pq by (simp add: r2(2)) (simp add: r1_def)
qed

section \<open>Properties\<close>

text \<open>A concrete request and what the tokenizer says about it, for the examples below.\<close>

definition demo_buf :: bytes where
  "demo_buf = bs ''POST /a?b HTTP/1.1'' @ [13, 10] @ bs ''Host: x'' @ [13, 10] @ bs ''Content-Length: 5'' @ [13, 10, 13, 10]"

definition demo_request :: hp_request where
  "demo_request = \<lparr>hp_method = Some (0, 4), hp_path = Some (5, 9), hp_version = Some 1,
     hp_headers = [((20, 24), (26, 27)), ((29, 43), (45, 46))]\<rparr>"

definition demo_httparse :: "bytes \<Rightarrow> hp_error + (hp_status \<times> hp_request)" where
  "demo_httparse b = (if b = demo_buf then Inr (HpComplete 50, demo_request) else Inr (HpPartial, demo_request))"

lemma demo_respects: "max_headers_respected demo_httparse"
  by (simp add: max_headers_respected_def demo_httparse_def demo_request_def)

lemma demo_values:
  "header_values demo_buf (kept_headers demo_buf demo_request) (bs ''transfer-encoding'') = []"
  "header_values demo_buf (kept_headers demo_buf demo_request) (bs ''content-length'') = [[0x35]]"
  "header_values demo_buf (kept_headers demo_buf demo_request) (bs ''host'') = [[0x78]]"
  by code_simp+

lemma demo_length: "parse_unsigned 64 (trim [0x35]) = Some 5"
proof -
  have "trim [0x35] = [0x35]" by code_simp
  then show ?thesis by (simp add: parse_unsigned_def is_ascii_digit_def)
qed

lemma demo_parts:
  "demo_httparse demo_buf = Inr (HpComplete 50, demo_request)"
  "hp_method demo_request = Some (0, 4)" "hp_path demo_request = Some (5, 9)" "hp_version demo_request = Some 1"
  by (simp_all add: demo_httparse_def demo_request_def)

text \<open>C8.
  Framing of a request head that the tokenizer accepts. Whether the request is answered with 400 or
  served, and with which body, is the function \<open>framing_spec\<close> of all \<^verbatim>\<open>Transfer-Encoding\<close> and
  \<^verbatim>\<open>Content-Length\<close> fields: no body without either; a length only from one single, well-formed
  \<^verbatim>\<open>Content-Length\<close> and no \<^verbatim>\<open>Transfer-Encoding\<close>; chunked only when the first \<^verbatim>\<open>Transfer-Encoding\<close> is \<^verbatim>\<open>chunked\<close> and there is no
  \<^verbatim>\<open>Content-Length\<close>, whatever further \<^verbatim>\<open>Transfer-Encoding\<close> fields say; refused in every other case, so a repeated \<^verbatim>\<open>Content-Length\<close>
  and a \<^verbatim>\<open>Content-Length\<close> beside a \<^verbatim>\<open>Transfer-Encoding\<close> always are. HTTP/1.1 without \<^verbatim>\<open>Host\<close> is refused, and the connection
  persists as the version and the first \<^verbatim>\<open>Connection\<close> field say.
\<close>
theorem request_framing:
  assumes "max_headers_respected httparse" "httparse buf = Inr (HpComplete n, p)"
    and "hp_method p = Some m" "hp_path p = Some t" "hp_version p = Some v" "v \<le> 1"
    and "hs = kept_headers buf p"
  shows "case framing_spec (header_values buf hs (bs ''transfer-encoding'')) (header_values buf hs (bs ''content-length'')) of
      None \<Rightarrow> snd (req_parse httparse r0 buf) = Error 400
    | Some b \<Rightarrow>
        if v = 1 \<and> header_values buf hs (bs ''host'') = [] then snd (req_parse httparse r0 buf) = Error 400
        else snd (req_parse httparse r0 buf) = Complete \<and> rbody (fst (req_parse httparse r0 buf)) = b \<and>
          headers (fst (req_parse httparse r0 buf)) = hs \<and>
          keep_alive (fst (req_parse httparse r0 buf)) = keep_alive_spec v (header_values buf hs (bs ''connection''))"
proof -
  obtain r where "headers r = hs" "keep_alive r = keep_alive_spec v (header_values buf hs (bs ''connection''))"
    "req_parse httparse r0 buf =
      (case framing_spec (header_values buf hs (bs ''transfer-encoding'')) (header_values buf hs (bs ''content-length'')) of
         None \<Rightarrow> (r, Error 400)
       | Some b \<Rightarrow> (r\<lparr>rbody := b\<rparr>, if v = 1 \<and> header_values buf hs (bs ''host'') = [] then Error 400 else Complete))"
    using req_parse_complete [OF assms(1-6), of r0] assms(7) by metis
  then show ?thesis by (simp split: option.split)
qed

theorem request_framing_witness:
  "snd (req_parse demo_httparse req_new demo_buf) = Complete \<and>
   rbody (fst (req_parse demo_httparse req_new demo_buf)) = Length 5"
  using request_framing [OF demo_respects demo_parts le_refl refl, of req_new]
  unfolding demo_values framing_spec.simps demo_length by simp

text \<open>
  A header query through the index of frequent names gives what a scan of the whole header list
  gives: the value of the first field with that name, whatever the case of its letters.
\<close>
theorem request_header_lookup:
  assumes "max_headers_respected httparse" "req_parse httparse r0 buf = (r, Complete)"
  shows "header r buf nm =
    map_option (\<lambda>h. slice buf (snd h)) (find (\<lambda>h. eq_ignore_ascii_case (sub buf (fst h)) nm) (headers r))"
proof -
  from assms(2) obtain n p m t v where hp: "httparse buf = Inr (HpComplete n, p)"
    "hp_method p = Some m" "hp_path p = Some t" "hp_version p = Some v" "v \<le> 1"
    by (rule req_parse_CompleteE)
  obtain r' where ok: "hot_ok buf r'" and run: "req_parse httparse r0 buf =
      (case framing_spec (header_values buf (kept_headers buf p) (bs ''transfer-encoding''))
              (header_values buf (kept_headers buf p) (bs ''content-length'')) of
         None \<Rightarrow> (r', Error 400)
       | Some b \<Rightarrow> (r'\<lparr>rbody := b\<rparr>,
           if v = 1 \<and> header_values buf (kept_headers buf p) (bs ''host'') = [] then Error 400 else Complete))"
    by (rule req_parse_complete [OF assms(1) hp])
  have "hot_ok buf (r'\<lparr>rbody := b\<rparr>)" for b using ok by (simp add: hot_ok_def)
  with run assms(2) have "hot_ok buf r" by (auto split: option.splits)
  moreover have "(\<lambda>h. eq_ignore_ascii_case (sub buf (fst h)) nm) = named buf nm"
    by (simp add: fun_eq_iff named_def)
  ultimately show ?thesis by (simp add: header_first_value header_values_find)
qed

theorem request_header_lookup_witness:
  "header (fst (req_parse demo_httparse req_new demo_buf)) demo_buf (bs ''HOST'') = Some (bs ''x'')"
proof -
  obtain r where run: "req_parse demo_httparse req_new demo_buf = (r, Complete)" "headers r = kept_headers demo_buf demo_request"
  proof (rule req_parse_complete [OF demo_respects demo_parts le_refl, of req_new])
    fix r
    assume "headers r = kept_headers demo_buf demo_request" and
      "req_parse demo_httparse req_new demo_buf =
        (case framing_spec (header_values demo_buf (kept_headers demo_buf demo_request) (bs ''transfer-encoding''))
                (header_values demo_buf (kept_headers demo_buf demo_request) (bs ''content-length'')) of
           None \<Rightarrow> (r, Error 400)
         | Some b \<Rightarrow> (r\<lparr>rbody := b\<rparr>,
             if (1::nat) = 1 \<and> header_values demo_buf (kept_headers demo_buf demo_request) (bs ''host'') = []
             then Error 400 else Complete))"
    then show thesis
      using that [of "r\<lparr>rbody := Length 5\<rparr>"] by (simp only: demo_values framing_spec.simps demo_length) simp
  qed
  have "map_option (\<lambda>h. slice demo_buf (snd h))
      (find (\<lambda>h. eq_ignore_ascii_case (sub demo_buf (fst h)) (bs ''HOST'')) (kept_headers demo_buf demo_request)) = Some (bs ''x'')"
    by code_simp
  with request_header_lookup [OF demo_respects run(1), of "bs ''HOST''"] run show ?thesis by simp
qed

text \<open>
  A request assembled from decoded fields says what it was given: the ranges read back the method,
  the target, its path and its query, and every header query returns the first given value of that
  name.
\<close>
theorem from_parts_faithful:
  assumes "from_parts m t hs = (buf, r)" "length hs < NO_HEADER" "list_all (\<lambda>f. utf8_valid (snd f)) hs"
  shows "sub buf (method_raw r) = m \<and> rmethod r = method_parse m \<and> sub buf (target r) = t \<and>
    (sub buf (path r), sub buf (query r)) = split_query t \<and>
    map (\<lambda>h. (sub buf (fst h), sub buf (snd h))) (headers r) = hs \<and>
    header r buf nm = map_option snd (find (\<lambda>f. eq_ignore_ascii_case (fst f) nm) hs)"
  using from_parts_reads [OF assms] .

theorem from_parts_faithful_witness:
  "header (snd (from_parts (bs ''GET'') (bs ''/a?b'') [(bs ''host'', bs ''x'')]))
     (fst (from_parts (bs ''GET'') (bs ''/a?b'') [(bs ''host'', bs ''x'')])) (bs ''Host'') = Some (bs ''x'')"
proof -
  have "list_all (\<lambda>f. utf8_valid (snd f)) [(bs ''host'', bs ''x'')]" by code_simp
  from from_parts_faithful [of "bs ''GET''" "bs ''/a?b''" _ _ _ "bs ''Host''", OF prod.collapse [symmetric] _ this]
  show ?thesis by (simp add: eq_ignore_ascii_case_def to_ascii_lowercase_def)
qed

end
