(* ===== verification/H2_Request.thy ===== *)
theory H2_Request
  imports Hpack H2_Frame Request
begin

text \<open>
  From a decoded header list to a request (\<^verbatim>\<open>parse_headers\<close>, \<^verbatim>\<open>Parsed\<close> and the first part of
  \<^verbatim>\<open>spawn_stream\<close> of \<^verbatim>\<open>src/http2/conn.rs\<close>; HTTP/3 uses the same validation).
\<close>

section \<open>Definitions\<close>

record parsed =
  p_method :: bytes
  p_path :: bytes
  p_authority :: bytes
  p_ordinary :: "(bytes \<times> bytes) list"

text \<open>The loop's variables: the four pseudo-header slots by name, the ordinary fields so far, and the flag.\<close>

record ph_state =
  slots :: "bytes \<rightharpoonup> bytes"
  ordinary :: "(bytes \<times> bytes) list"
  seen_ordinary :: bool

definition pseudo_names :: "bytes list" where
  "pseudo_names = [bs ''method'', bs ''path'', bs ''authority'', bs ''scheme'']"

definition connection_specific :: "bytes list" where
  "connection_specific = [bs ''connection'', bs ''keep-alive'', bs ''proxy-connection'', bs ''transfer-encoding'', bs ''upgrade'']"

definition ph_step :: "header \<Rightarrow> ph_state \<Rightarrow> code + ph_state" where
  "ph_step h st =
    (if hname h \<noteq> [] \<and> hd (hname h) = 0x3A
     then (let name = tl (hname h)
           in if seen_ordinary st then Inl Protocol
              else if name \<notin> set pseudo_names then Inl Protocol
              else if slots st name \<noteq> None then Inl Protocol
              else Inr (st\<lparr>slots := (slots st)(name \<mapsto> hvalue h)\<rparr>))
     else (let st = st\<lparr>seen_ordinary := True\<rparr>
           in if list_ex (\<lambda>b. 0x41 \<le> b \<and> b \<le> 0x5A) (hname h) \<or> hname h = [] then Inl Protocol
              else if hname h \<in> set connection_specific then Inl Protocol
              else if hname h = bs ''te'' \<and> hvalue h \<noteq> bs ''trailers'' then Inl Protocol
              else Inr (st\<lparr>ordinary := ordinary st @ [(hname h, hvalue h)]\<rparr>)))"

fun ph_loop :: "header list \<Rightarrow> ph_state \<Rightarrow> code + ph_state" where
  "ph_loop [] st = Inr st"
| "ph_loop (h # hs) st = (case ph_step h st of Inl e \<Rightarrow> Inl e | Inr st \<Rightarrow> ph_loop hs st)"

definition parse_headers :: "header list \<Rightarrow> code + parsed" where
  "parse_headers hs =
    (case ph_loop hs \<lparr>slots = Map.empty, ordinary = [], seen_ordinary = False\<rparr> of
       Inl e \<Rightarrow> Inl e
     | Inr st \<Rightarrow>
        (case slots st (bs ''method'') of
           None \<Rightarrow> Inl Protocol
         | Some m \<Rightarrow>
            (case slots st (bs ''path'') of
               None \<Rightarrow> Inl Protocol
             | Some p \<Rightarrow>
                if m = bs ''CONNECT'' then Inl Protocol
                else if slots st (bs ''scheme'') = None then Inl Protocol
                else if p = [] then Inl Protocol
                else Inr \<lparr>p_method = m, p_path = p,
                       p_authority = (case slots st (bs ''authority'') of Some a \<Rightarrow> a | None \<Rightarrow> []),
                       p_ordinary = ordinary st\<rparr>)))"

definition parsed_fields :: "parsed \<Rightarrow> (bytes \<times> bytes) list" where
  "parsed_fields p = (bs ''host'', p_authority p) # p_ordinary p"

text \<open>The request a stream task runs: its buffer, the request, its normalised path and its authority.\<close>

definition h2_request :: "header list \<Rightarrow> bytes \<Rightarrow> code + (bytes \<times> req \<times> bytes \<times> bytes)" where
  "h2_request hs body =
    (case parse_headers hs of
       Inl e \<Rightarrow> Inl e
     | Inr p \<Rightarrow>
        (let (buf, r) = from_parts (p_method p) (p_path p) (parsed_fields p);
             r = (if body \<noteq> [] then r\<lparr>rbody := Length (length body)\<rparr> else r)
         in case normalize (slice buf (path r)) of
              Inl _ \<Rightarrow> Inl Protocol
            | Inr u \<Rightarrow> Inr (buf, r, u, p_authority p)))"

section \<open>Well-formed header lists\<close>

definition is_pseudo :: "header \<Rightarrow> bool" where
  "is_pseudo h \<longleftrightarrow> hname h \<noteq> [] \<and> hd (hname h) = 0x3A"

definition ordinary_ok :: "header \<Rightarrow> bool" where
  "ordinary_ok h \<longleftrightarrow> \<not> is_pseudo h \<and> hname h \<noteq> [] \<and> list_all (\<lambda>b. \<not> (0x41 \<le> b \<and> b \<le> 0x5A)) (hname h) \<and>
     hname h \<notin> set connection_specific \<and> (hname h = bs ''te'' \<longrightarrow> hvalue h = bs ''trailers'')"

definition pseudo_value :: "bytes \<Rightarrow> header list \<Rightarrow> bytes option" where
  "pseudo_value n hs = map_option hvalue (find (\<lambda>h. hname h = 0x3A # n) hs)"

definition well_formed :: "header list \<Rightarrow> bool" where
  "well_formed hs \<longleftrightarrow>
     distinct (map hname (takeWhile is_pseudo hs)) \<and>
     list_all (\<lambda>h. tl (hname h) \<in> set pseudo_names) (takeWhile is_pseudo hs) \<and>
     list_all ordinary_ok (dropWhile is_pseudo hs)"

lemma ph_step_ordinary:
  "\<not> is_pseudo h \<Longrightarrow> ph_step h st =
    (if ordinary_ok h then Inr (st\<lparr>ordinary := ordinary st @ [(hname h, hvalue h)], seen_ordinary := True\<rparr>) else Inl Protocol)"
  by (auto simp: ph_step_def is_pseudo_def ordinary_ok_def Let_def list_ex_iff list_all_iff)

lemma ph_loop_ordinary:
  "ph_loop hs (st\<lparr>seen_ordinary := True\<rparr>) =
    (if list_all ordinary_ok hs
     then Inr (st\<lparr>ordinary := ordinary st @ map (\<lambda>h. (hname h, hvalue h)) hs, seen_ordinary := True\<rparr>) else Inl Protocol)"
proof (induction hs arbitrary: st)
  case (Cons h hs)
  show ?case
  proof (cases "is_pseudo h")
    case True
    then have "ph_step h (st\<lparr>seen_ordinary := True\<rparr>) = Inl Protocol" by (simp add: ph_step_def is_pseudo_def Let_def)
    with True show ?thesis by (simp add: ordinary_ok_def)
  next
    case False
    with Cons.IH [of "st\<lparr>ordinary := ordinary st @ [(hname h, hvalue h)]\<rparr>"] show ?thesis
      by (simp add: ph_step_ordinary)
  qed
qed simp

lemma ph_loop_tail:
  assumes "hs = [] \<or> \<not> is_pseudo (hd hs)"
  shows "ph_loop hs st =
    (if list_all ordinary_ok hs
     then Inr (st\<lparr>ordinary := ordinary st @ map (\<lambda>h. (hname h, hvalue h)) hs, seen_ordinary := seen_ordinary st \<or> hs \<noteq> []\<rparr>)
     else Inl Protocol)"
proof (cases hs)
  case (Cons h hs')
  with assms ph_loop_ordinary [of hs' "st\<lparr>ordinary := ordinary st @ [(hname h, hvalue h)]\<rparr>"] show ?thesis
    by (simp add: ph_step_ordinary)
qed simp

lemma ph_loop_pseudo:
  assumes "\<not> seen_ordinary st"
  shows "ph_loop hs st =
    (if distinct (map hname (takeWhile is_pseudo hs)) \<and>
        list_all (\<lambda>h. tl (hname h) \<in> set pseudo_names \<and> slots st (tl (hname h)) = None) (takeWhile is_pseudo hs) \<and>
        list_all ordinary_ok (dropWhile is_pseudo hs)
     then Inr \<lparr>slots = (\<lambda>n. case pseudo_value n (takeWhile is_pseudo hs) of Some v \<Rightarrow> Some v | None \<Rightarrow> slots st n),
       ordinary = ordinary st @ map (\<lambda>h. (hname h, hvalue h)) (dropWhile is_pseudo hs),
       seen_ordinary = (dropWhile is_pseudo hs \<noteq> [])\<rparr>
     else Inl Protocol)"
  using assms
proof (induction hs arbitrary: st)
  case Nil
  then show ?case by (simp add: pseudo_value_def)
next
  case (Cons h hs)
  show ?case
  proof (cases "is_pseudo h")
    case False
    with ph_loop_tail [of "h # hs" st] Cons.prems show ?thesis by (simp add: pseudo_value_def)
  next
    case True
    define n where "n = tl (hname h)"
    have name: "hname h = 0x3A # n" using True by (cases "hname h") (auto simp: is_pseudo_def n_def)
    show ?thesis
    proof (cases "n \<in> set pseudo_names \<and> slots st n = None")
      case bad: False
      then have "ph_step h st = Inl Protocol"
        using True Cons.prems by (auto simp: ph_step_def is_pseudo_def Let_def n_def)
      with True bad show ?thesis by (auto simp: n_def)
    next
      case good: True
      define st' where "st' = st\<lparr>slots := (slots st)(n \<mapsto> hvalue h)\<rparr>"
      have step: "ph_step h st = Inr st'"
        using True good Cons.prems by (simp add: ph_step_def is_pseudo_def Let_def n_def st'_def)
      have fresh: "list_all (\<lambda>g. tl (hname g) \<in> set pseudo_names \<and> slots st' (tl (hname g)) = None) (takeWhile is_pseudo hs) \<longleftrightarrow>
          hname h \<notin> hname ` set (takeWhile is_pseudo hs) \<and>
          list_all (\<lambda>g. tl (hname g) \<in> set pseudo_names \<and> slots st (tl (hname g)) = None) (takeWhile is_pseudo hs)"
      proof -
        have "hname g = hname h \<longleftrightarrow> tl (hname g) = n" if "g \<in> set (takeWhile is_pseudo hs)" for g
          using set_takeWhileD [OF that] name by (cases "hname g") (auto simp: is_pseudo_def)
        then show ?thesis by (fastforce simp: list_all_iff st'_def image_iff)
      qed
      have slots: "(\<lambda>m. case pseudo_value m (takeWhile is_pseudo hs) of Some v \<Rightarrow> Some v | None \<Rightarrow> slots st' m) =
          (\<lambda>m. case pseudo_value m (takeWhile is_pseudo (h # hs)) of Some v \<Rightarrow> Some v | None \<Rightarrow> slots st m)"
        if "hname h \<notin> hname ` set (takeWhile is_pseudo hs)"
      proof
        fix m
        have "pseudo_value n (takeWhile is_pseudo hs) = None"
          using that name by (force simp: pseudo_value_def find_None_iff)
        then show "(case pseudo_value m (takeWhile is_pseudo hs) of Some v \<Rightarrow> Some v | None \<Rightarrow> slots st' m) =
          (case pseudo_value m (takeWhile is_pseudo (h # hs)) of Some v \<Rightarrow> Some v | None \<Rightarrow> slots st m)"
          using True name by (cases "m = n") (auto simp: pseudo_value_def st'_def split: option.split)
      qed
      have "ordinary st' = ordinary st" "\<not> seen_ordinary st'" using Cons.prems by (simp_all add: st'_def)
      with Cons.IH [of st'] step fresh slots True good show ?thesis by (auto simp: n_def)
    qed
  qed
qed

lemma pseudo_value_takeWhile:
  "list_all ordinary_ok (dropWhile is_pseudo hs) \<Longrightarrow> pseudo_value n (takeWhile is_pseudo hs) = pseudo_value n hs"
proof -
  assume ok: "list_all ordinary_ok (dropWhile is_pseudo hs)"
  have "hname h \<noteq> 0x3A # n" if "h \<in> set (dropWhile is_pseudo hs)" for h
  proof -
    have "ordinary_ok h" using ok that by (simp add: list_all_iff)
    then have "\<not> is_pseudo h" unfolding ordinary_ok_def by blast
    then show ?thesis by (auto simp: is_pseudo_def)
  qed
  then have "find (\<lambda>h. hname h = 0x3A # n) (dropWhile is_pseudo hs) = None" by (auto simp: find_None_iff)
  moreover have "find P (xs @ ys) = (case find P xs of Some x \<Rightarrow> Some x | None \<Rightarrow> find P ys)" for P and xs ys :: "header list"
    by (induction xs) auto
  ultimately have "find (\<lambda>h. hname h = 0x3A # n) (takeWhile is_pseudo hs @ dropWhile is_pseudo hs) =
      find (\<lambda>h. hname h = 0x3A # n) (takeWhile is_pseudo hs)"
    by (simp only: option.case_eq_if) simp
  then show ?thesis by (simp add: pseudo_value_def)
qed

lemma ph_loop_start:
  "ph_loop hs \<lparr>slots = Map.empty, ordinary = [], seen_ordinary = False\<rparr> =
    (if well_formed hs
     then Inr \<lparr>slots = (\<lambda>n. pseudo_value n hs), ordinary = map (\<lambda>h. (hname h, hvalue h)) (dropWhile is_pseudo hs),
       seen_ordinary = (dropWhile is_pseudo hs \<noteq> [])\<rparr>
     else Inl Protocol)"
proof -
  have "(\<lambda>n. case pseudo_value n (takeWhile is_pseudo hs) of Some v \<Rightarrow> Some v | None \<Rightarrow> None) = (\<lambda>n. pseudo_value n hs)"
    if "well_formed hs"
    using that pseudo_value_takeWhile [of hs] by (auto simp: well_formed_def fun_eq_iff split: option.split)
  then show ?thesis
    by (subst ph_loop_pseudo) (auto simp: well_formed_def cong: option.case_cong)
qed

lemma parse_headers_iff:
  "parse_headers hs = Inr p \<longleftrightarrow>
    well_formed hs \<and> pseudo_value (bs ''scheme'') hs \<noteq> None \<and>
    pseudo_value (bs ''method'') hs = Some (p_method p) \<and> p_method p \<noteq> bs ''CONNECT'' \<and>
    pseudo_value (bs ''path'') hs = Some (p_path p) \<and> p_path p \<noteq> [] \<and>
    p_authority p = (case pseudo_value (bs ''authority'') hs of Some a \<Rightarrow> a | None \<Rightarrow> []) \<and>
    p_ordinary p = map (\<lambda>h. (hname h, hvalue h)) (dropWhile is_pseudo hs)"
proof (cases "well_formed hs")
  case False
  then show ?thesis by (simp add: parse_headers_def ph_loop_start)
next
  case True
  obtain st where run: "ph_loop hs \<lparr>slots = Map.empty, ordinary = [], seen_ordinary = False\<rparr> = Inr st"
    and st: "slots st = (\<lambda>n. pseudo_value n hs)"
      "ordinary st = map (\<lambda>h. (hname h, hvalue h)) (dropWhile is_pseudo hs)"
    using ph_loop_start [of hs] True by simp
  show ?thesis
    unfolding parse_headers_def run sum.case st using True
    by (cases p) (auto split: option.splits if_splits)
qed

lemma parse_headers_result:
  "parse_headers hs = Inr p \<Longrightarrow>
    p_authority p = (case pseudo_value (bs ''authority'') hs of Some a \<Rightarrow> a | None \<Rightarrow> []) \<and>
    p_ordinary p = map (\<lambda>h. (hname h, hvalue h)) (dropWhile is_pseudo hs)"
  using parse_headers_iff by blast

section \<open>Properties\<close>

text \<open>C32.
  Which header lists make a request, exactly: the pseudo-header fields come first, none twice, only
  the four known ones; the other names are lower case, none is connection-specific, \<^verbatim>\<open>te\<close> only says
  \<^verbatim>\<open>trailers\<close>; method, path and scheme are there, the method is not CONNECT, the path not empty.
  The result carries their values and the other fields in order.
\<close>
theorem h2_request_headers:
  "parse_headers hs = Inr p \<longleftrightarrow>
    well_formed hs \<and> pseudo_value (bs ''scheme'') hs \<noteq> None \<and>
    pseudo_value (bs ''method'') hs = Some (p_method p) \<and> p_method p \<noteq> bs ''CONNECT'' \<and>
    pseudo_value (bs ''path'') hs = Some (p_path p) \<and> p_path p \<noteq> [] \<and>
    p_authority p = (case pseudo_value (bs ''authority'') hs of Some a \<Rightarrow> a | None \<Rightarrow> []) \<and>
    p_ordinary p = map (\<lambda>h. (hname h, hvalue h)) (dropWhile is_pseudo hs)"
  by (rule parse_headers_iff)

text \<open>
  A request that names its host only in a \<^verbatim>\<open>host\<close> field, without \<^verbatim>\<open>:authority\<close>, is treated as one
  with an empty host: the empty authority is put in front of the given field, and the first one
  counts.
\<close>
theorem h2_host_field_ignored:
  assumes "parse_headers hs = Inr p" "pseudo_value (bs ''authority'') hs = None"
    and "from_parts (p_method p) (p_path p) (parsed_fields p) = (buf, r)"
    and "length hs < NO_HEADER - 1" "list_all (\<lambda>h. utf8_valid (hvalue h)) hs"
  shows "header r buf (bs ''host'') = Some [] \<and> host r buf = []"
proof -
  have p: "p_authority p = []" "p_ordinary p = map (\<lambda>h. (hname h, hvalue h)) (dropWhile is_pseudo hs)"
    using parse_headers_result [OF assms(1)] assms(2) by simp_all
  have "length (parsed_fields p) < NO_HEADER"
    using assms(4) length_dropWhile_le [of is_pseudo hs] by (simp add: parsed_fields_def p)
  moreover have "list_all (\<lambda>f. utf8_valid (snd f)) (parsed_fields p)"
    using assms(5) by (auto simp: parsed_fields_def p list_all_iff dest: set_dropWhileD)
  ultimately have "header r buf (bs ''host'') = map_option snd (find (\<lambda>f. eq_ignore_ascii_case (fst f) (bs ''host'')) (parsed_fields p))"
    using from_parts_reads [OF assms(3), of "bs ''host''"] by blast
  then have h: "header r buf (bs ''host'') = Some []" by (simp add: parsed_fields_def p)
  moreover have "hot_of (bs ''host'') = Some Host" by (simp add: hot_of_iff)
  ultimately have "hot_value r buf Host = Some []" by (simp add: header_def)
  with h show ?thesis by (simp add: host_def rposition_def)
qed

definition demo_list :: "header list" where
  "demo_list = [\<lparr>hname = bs '':method'', hvalue = bs ''GET''\<rparr>, \<lparr>hname = bs '':scheme'', hvalue = bs ''https''\<rparr>,
     \<lparr>hname = bs '':path'', hvalue = bs ''/''\<rparr>, \<lparr>hname = bs ''host'', hvalue = bs ''a.b''\<rparr>]"

definition demo_parsed :: parsed where
  "demo_parsed = \<lparr>p_method = bs ''GET'', p_path = bs ''/'', p_authority = [], p_ordinary = [(bs ''host'', bs ''a.b'')]\<rparr>"

theorem h2_host_field_ignored_witness:
  "host (snd (from_parts (bs ''GET'') (bs ''/'') (parsed_fields demo_parsed)))
     (fst (from_parts (bs ''GET'') (bs ''/'') (parsed_fields demo_parsed))) = []"
proof -
  have "parse_headers demo_list = Inr demo_parsed"
    by (simp add: parse_headers_def ph_step_def pseudo_names_def connection_specific_def demo_list_def demo_parsed_def)
  moreover have "pseudo_value (bs ''authority'') demo_list = None" by (simp add: demo_list_def pseudo_value_def)
  moreover have "list_all (\<lambda>h. utf8_valid (hvalue h)) demo_list" by code_simp
  moreover have "length demo_list < NO_HEADER - 1" by (simp add: demo_list_def)
  moreover have "p_method demo_parsed = bs ''GET''" "p_path demo_parsed = bs ''/''" by (simp_all add: demo_parsed_def)
  ultimately show ?thesis
    using h2_host_field_ignored [of demo_list demo_parsed] by (metis prod.collapse)
qed

end
