(* ===== verification/H2_Conn.thy ===== *)
theory H2_Conn
  imports Hpack H2_Frame Request
begin

text \<open>
  An HTTP/2 connection (\<^verbatim>\<open>src/http2/conn.rs\<close>): the frame loop of the reader with its stream table,
  the shared flow-control windows, the dispatch of complete requests, the sending side that waits
  for windows, and the validation of request header lists.

  The reader and the stream tasks run on one thread and interleave only where a task waits, so the
  connection is a state with three kinds of atomic steps: the reader handles one frame, a stream
  task sends one DATA frame, a stream task ends. \<^verbatim>\<open>expect\<close> on a missing stream is the outcome
  \<open>Panic\<close>.
\<close>

section \<open>Definitions\<close>

abbreviation DEFAULT_MAX_FRAME :: nat where "DEFAULT_MAX_FRAME \<equiv> 16384"
abbreviation MAX_FRAME_LIMIT :: nat where "MAX_FRAME_LIMIT \<equiv> 16777215"
abbreviation DEFAULT_WINDOW :: int where "DEFAULT_WINDOW \<equiv> 65535"
abbreviation MAX_WINDOW :: int where "MAX_WINDOW \<equiv> 2147483647"
abbreviation OUR_INITIAL_WINDOW :: int where "OUR_INITIAL_WINDOW \<equiv> 1048576"
abbreviation WINDOW_REFILL_AT :: int where "WINDOW_REFILL_AT \<equiv> 524288"
abbreviation MAX_CONCURRENT :: nat where "MAX_CONCURRENT \<equiv> 128"
abbreviation MAX_HEADER_LIST :: nat where "MAX_HEADER_LIST \<equiv> 65536"

abbreviation K_DATA :: u8 where "K_DATA \<equiv> 0x0"
abbreviation K_HEADERS :: u8 where "K_HEADERS \<equiv> 0x1"
abbreviation K_PRIORITY :: u8 where "K_PRIORITY \<equiv> 0x2"
abbreviation K_PUSH_PROMISE :: u8 where "K_PUSH_PROMISE \<equiv> 0x5"
abbreviation K_PING :: u8 where "K_PING \<equiv> 0x6"
abbreviation K_CONTINUATION :: u8 where "K_CONTINUATION \<equiv> 0x9"
abbreviation F_END_STREAM :: u8 where "F_END_STREAM \<equiv> 0x1"
abbreviation F_END_HEADERS :: u8 where "F_END_HEADERS \<equiv> 0x4"
abbreviation F_PADDED :: u8 where "F_PADDED \<equiv> 0x8"
abbreviation F_PRIORITY :: u8 where "F_PRIORITY \<equiv> 0x20"

datatype st_state = Open | HalfClosedRemote | ResetSt

record h2_stream =
  s_state :: st_state
  s_window :: int
  s_reset :: bool
  s_done :: bool
  s_pending :: bytes
  s_trailers :: bool
  s_headers :: "header list"
  s_headers_done :: bool
  s_body :: bytes
  s_content_length :: "nat option"
  s_dispatched :: bool

definition stream_new :: "int \<Rightarrow> h2_stream" where
  "stream_new w = \<lparr>s_state = Open, s_window = w, s_reset = False, s_done = False, s_pending = [],
     s_trailers = False, s_headers = [], s_headers_done = False, s_body = [],
     s_content_length = None, s_dispatched = False\<rparr>"

text \<open>
  The locals of the reader, the shared flow state, the frames handed to the writer, and the
  requests handed to stream tasks.
\<close>

record h2_conn =
  c_dec :: decoder
  c_streams :: "(u32 \<times> h2_stream) list"
  c_peer_window :: int
  c_recv_window :: int
  c_highest :: u32
  c_last :: u32
  c_expect :: "u32 option"
  c_conn_window :: int
  c_max_frame :: nat
  c_closed :: bool
  c_out :: "bytes list"
  c_spawned :: "(u32 \<times> header list \<times> bytes) list"

definition h2_init :: h2_conn where
  "h2_init = \<lparr>c_dec = decoder_new 4096, c_streams = [], c_peer_window = DEFAULT_WINDOW,
     c_recv_window = OUR_INITIAL_WINDOW, c_highest = 0, c_last = 0, c_expect = None,
     c_conn_window = DEFAULT_WINDOW, c_max_frame = DEFAULT_MAX_FRAME, c_closed = False,
     c_out = [settings_frame [(3, 128), (4, 1048576), (2, 0), (6, 65536)] @ window_update 0 983041],
     c_spawned = []\<rparr>"

text \<open>What one turn of the loop ends with: \<open>Skip\<close> is \<^verbatim>\<open>continue\<close>, \<open>Next\<close> falls through to dispatch.\<close>

datatype outcome = Fail code bytes | Panic | Quit | Skip h2_conn | Next h2_conn

definition get_stream :: "h2_conn \<Rightarrow> u32 \<Rightarrow> h2_stream option" where
  "get_stream c i = map_of (c_streams c) i"

definition upd_stream :: "u32 \<Rightarrow> (h2_stream \<Rightarrow> h2_stream) \<Rightarrow> h2_conn \<Rightarrow> h2_conn" where
  "upd_stream i f c = c\<lparr>c_streams := map (\<lambda>(j, s). (j, if j = i then f s else s)) (c_streams c)\<rparr>"

definition put_stream :: "u32 \<Rightarrow> h2_stream \<Rightarrow> h2_conn \<Rightarrow> h2_conn" where
  "put_stream i s c = c\<lparr>c_streams := (i, s) # filter (\<lambda>(j, _). j \<noteq> i) (c_streams c)\<rparr>"

definition send :: "bytes \<Rightarrow> h2_conn \<Rightarrow> h2_conn" where
  "send b c = c\<lparr>c_out := c_out c @ [b]\<rparr>"

datatype st_where = WIdle | WOpen | WHalfClosed | WClosed | WReset

definition state_of :: "h2_conn \<Rightarrow> u32 \<Rightarrow> st_where" where
  "state_of c i =
    (case get_stream c i of
       Some s \<Rightarrow> (case s_state s of
                    Open \<Rightarrow> WOpen
                  | HalfClosedRemote \<Rightarrow> if s_dispatched s then WClosed else WHalfClosed
                  | ResetSt \<Rightarrow> WReset)
     | None \<Rightarrow> if i \<le> c_highest c then WClosed else WIdle)"

definition reset_stream :: "u32 \<Rightarrow> code \<Rightarrow> h2_conn \<Rightarrow> h2_conn" where
  "reset_stream i k c =
     upd_stream i (\<lambda>s. s\<lparr>s_state := ResetSt, s_reset := True, s_done := True\<rparr>) (send (rst i k) c)"

definition finish_block :: "u32 \<Rightarrow> h2_conn \<Rightarrow> (code \<times> bytes) + h2_conn" where
  "finish_block i c =
    (case get_stream c i of
       None \<Rightarrow> Inr c
     | Some st \<Rightarrow>
        (let c = upd_stream i (\<lambda>s. s\<lparr>s_pending := []\<rparr>) c
         in case hpack_decode (c_dec c) (s_pending st) MAX_HEADER_LIST of
              (d, Inl Compression) \<Rightarrow> Inl (CompressionErr, bs ''hpack decoding error'')
            | (d, Inl TooLarge) \<Rightarrow> Inr (reset_stream i EnhanceYourCalm (c\<lparr>c_dec := d\<rparr>))
            | (d, Inr hs) \<Rightarrow>
               (let c = c\<lparr>c_dec := d\<rparr>
                in if s_trailers st
                   then Inr (if list_ex (\<lambda>h. hname h \<noteq> [] \<and> hd (hname h) = 0x3A) hs
                             then reset_stream i Protocol c else c)
                   else Inr (upd_stream i (\<lambda>s. s\<lparr>
                          s_content_length :=
                            (case find (\<lambda>h. hname h = bs ''content-length'') hs of
                               Some h \<Rightarrow> parse_unsigned 64 (hvalue h) | None \<Rightarrow> None),
                          s_headers := hs, s_headers_done := True\<rparr>) c))))"

definition replenish :: "h2_conn \<Rightarrow> h2_conn" where
  "replenish c =
    (let used = OUR_INITIAL_WINDOW - c_recv_window c
     in if WINDOW_REFILL_AT \<le> used
        then (send (window_update 0 (of_int used)) c)\<lparr>c_recv_window := OUR_INITIAL_WINDOW\<rparr>
        else c)"

definition on_data :: "nat \<Rightarrow> head \<Rightarrow> bytes \<Rightarrow> h2_conn \<Rightarrow> outcome" where
  "on_data max_body h payload c =
    (if stream h = 0 then Fail Protocol (bs ''DATA on stream 0'')
     else (let c = c\<lparr>c_recv_window := c_recv_window c - int (unat (len h))\<rparr>
           in case unpad payload (has h F_PADDED) of
                None \<Rightarrow> Fail Protocol (bs ''bad padding'')
              | Some data \<Rightarrow>
                 (let c = replenish c
                  in case state_of c (stream h) of
                       WIdle \<Rightarrow> Fail Protocol (bs ''DATA on an idle stream'')
                     | WClosed \<Rightarrow> Fail StreamClosed (bs ''DATA on a closed stream'')
                     | WReset \<Rightarrow> Skip (reset_stream (stream h) StreamClosed c)
                     | WHalfClosed \<Rightarrow> Skip (reset_stream (stream h) StreamClosed c)
                     | WOpen \<Rightarrow>
                        (case get_stream c (stream h) of
                           None \<Rightarrow> Panic
                         | Some st \<Rightarrow>
                            if max_body < length (s_body st) + length data
                            then Skip (reset_stream (stream h) EnhanceYourCalm c)
                            else Next (upd_stream (stream h) (\<lambda>s. s\<lparr>s_body := s_body s @ data,
                                   s_state := (if has h F_END_STREAM then HalfClosedRemote else s_state s)\<rparr>) c)))))"

text \<open>HEADERS: the stream table is updated first, then the block is finished or left open.\<close>

definition end_block :: "head \<Rightarrow> h2_conn \<Rightarrow> outcome" where
  "end_block h c =
    (if has h F_END_HEADERS
     then (case finish_block (stream h) c of Inl (k, w) \<Rightarrow> Fail k w | Inr c \<Rightarrow> Next c)
     else Next (c\<lparr>c_expect := Some (stream h)\<rparr>))"

definition active_count :: "h2_conn \<Rightarrow> nat" where
  "active_count c = length (filter (\<lambda>(_, s). \<not> s_done s) (c_streams c))"

text \<open>Opening a stream forgets the finished ones first.\<close>

definition pruned :: "u32 \<Rightarrow> h2_conn \<Rightarrow> h2_conn" where
  "pruned i c = c\<lparr>c_highest := i, c_last := i,
     c_streams := filter (\<lambda>(_, s). \<not> (s_dispatched s \<and> s_done s)) (c_streams c)\<rparr>"

definition open_stream :: "head \<Rightarrow> bytes \<Rightarrow> h2_conn \<Rightarrow> outcome" where
  "open_stream h block c =
    (if stream h \<le> c_highest c then Fail Protocol (bs ''stream id went backwards'')
     else (let c = pruned (stream h) c
           in if MAX_CONCURRENT \<le> active_count c then Next (send (rst (stream h) RefusedStream) c)
              else end_block h (put_stream (stream h) ((stream_new (c_peer_window c))\<lparr>
                     s_state := (if has h F_END_STREAM then HalfClosedRemote else Open),
                     s_pending := block\<rparr>) c)))"

definition open_trailers :: "head \<Rightarrow> bytes \<Rightarrow> h2_conn \<Rightarrow> outcome" where
  "open_trailers h block c =
    (if \<not> has h F_END_STREAM then Next (reset_stream (stream h) Protocol c)
     else if get_stream c (stream h) = None then Panic
     else end_block h (upd_stream (stream h) (\<lambda>s. s\<lparr>s_pending := block, s_trailers := True,
            s_state := HalfClosedRemote\<rparr>) c))"

definition headers_block :: "head \<Rightarrow> bytes \<Rightarrow> h2_conn \<Rightarrow> outcome" where
  "headers_block h block c =
    (case state_of c (stream h) of
       WOpen \<Rightarrow> open_trailers h block c
     | WHalfClosed \<Rightarrow> open_trailers h block c
     | WClosed \<Rightarrow> Fail StreamClosed (bs ''HEADERS on a closed stream'')
     | WReset \<Rightarrow> Fail StreamClosed (bs ''HEADERS on a closed stream'')
     | WIdle \<Rightarrow> open_stream h block c)"

definition dependency :: "bytes \<Rightarrow> u32" where
  "dependency b = (case u32_at b 0 of Some v \<Rightarrow> v | None \<Rightarrow> 0) AND 0x7fffffff"

definition on_headers :: "head \<Rightarrow> bytes \<Rightarrow> h2_conn \<Rightarrow> outcome" where
  "on_headers h payload c =
    (if stream h = 0 then Fail Protocol (bs ''HEADERS on stream 0'')
     else if stream h mod 2 = 0 then Fail Protocol (bs ''even client stream id'')
     else (case unpad payload (has h F_PADDED) of
             None \<Rightarrow> Fail Protocol (bs ''bad padding'')
           | Some block \<Rightarrow>
               if has h F_PRIORITY
               then (if length block < 5 then Fail FrameSize (bs ''short priority field'')
                     else if dependency block = stream h then Skip (send (rst (stream h) Protocol) c)
                     else headers_block h (drop 5 block) c)
               else headers_block h block c))"

definition on_continuation :: "head \<Rightarrow> bytes \<Rightarrow> h2_conn \<Rightarrow> outcome" where
  "on_continuation h payload c =
    (if c_expect c \<noteq> Some (stream h) then Fail Protocol (bs ''CONTINUATION without an open block'')
     else (case get_stream c (stream h) of
             None \<Rightarrow> Panic
           | Some st \<Rightarrow>
               if MAX_HEADER_LIST * 2 < length (s_pending st) + length payload
               then Fail Protocol (bs ''header block too large'')
               else (let c = upd_stream (stream h) (\<lambda>s. s\<lparr>s_pending := s_pending s @ payload\<rparr>) c
                     in if has h F_END_HEADERS
                        then (case finish_block (stream h) (c\<lparr>c_expect := None\<rparr>) of
                                Inl (k, w) \<Rightarrow> Fail k w | Inr c \<Rightarrow> Next c)
                        else Next c)))"

definition on_priority :: "head \<Rightarrow> bytes \<Rightarrow> h2_conn \<Rightarrow> outcome" where
  "on_priority h payload c =
    (if len h \<noteq> 5 then Fail FrameSize (bs ''bad PRIORITY length'')
     else if stream h = 0 then Fail Protocol (bs ''PRIORITY on stream 0'')
     else if dependency payload = stream h then Next (send (rst (stream h) Protocol) c)
     else Next c)"

definition on_rst :: "head \<Rightarrow> h2_conn \<Rightarrow> outcome" where
  "on_rst h c =
    (if stream h = 0 then Fail Protocol (bs ''RST_STREAM on stream 0'')
     else if len h \<noteq> 4 then Fail FrameSize (bs ''bad RST_STREAM length'')
     else if state_of c (stream h) = WIdle then Fail Protocol (bs ''RST_STREAM on an idle stream'')
     else Next (upd_stream (stream h) (\<lambda>s. s\<lparr>s_state := ResetSt, s_reset := True\<rparr>) c))"

fun settings_loop :: "bytes \<Rightarrow> h2_conn \<Rightarrow> (code \<times> bytes) + h2_conn" where
  "settings_loop (c0 # c1 # c2 # c3 # c4 # c5 # rest) c =
    (let i = from_be16 c0 c1; v = from_be32 c2 c3 c4 c5
     in if i = 4
        then (if MAX_WINDOW < int (unat v) then Inl (FlowControl, bs ''window too large'')
              else settings_loop rest (c\<lparr>c_peer_window := int (unat v)\<rparr>))
        else if i = 5
        then (if \<not> (DEFAULT_MAX_FRAME \<le> unat v \<and> unat v \<le> MAX_FRAME_LIMIT)
              then Inl (Protocol, bs ''bad MAX_FRAME_SIZE'')
              else settings_loop rest (c\<lparr>c_max_frame := unat v\<rparr>))
        else if i = 2
        then (if 1 < v then Inl (Protocol, bs ''bad ENABLE_PUSH'') else settings_loop rest c)
        else if i = 1
        then settings_loop rest (c\<lparr>c_dec := set_max_size (c_dec c) (unat v)\<rparr>)
        else settings_loop rest c)"
| "settings_loop _ c = Inr c"

definition on_settings :: "head \<Rightarrow> bytes \<Rightarrow> h2_conn \<Rightarrow> outcome" where
  "on_settings h payload c =
    (if stream h \<noteq> 0 then Fail Protocol (bs ''SETTINGS on a stream'')
     else if has h F_ACK
     then (if len h \<noteq> 0 then Fail FrameSize (bs ''SETTINGS ack with payload'') else Skip c)
     else if len h mod 6 \<noteq> 0 then Fail FrameSize (bs ''SETTINGS length not a multiple of 6'')
     else (case settings_loop payload c of
             Inl (k, w) \<Rightarrow> Fail k w
           | Inr c' \<Rightarrow>
              (let delta = c_peer_window c' - c_peer_window c;
                   c' = c'\<lparr>c_streams := map (\<lambda>(i, s). (i, s\<lparr>s_window := s_window s + delta\<rparr>)) (c_streams c')\<rparr>
               in Next (send settings_ack c'))))"

definition on_ping :: "head \<Rightarrow> bytes \<Rightarrow> h2_conn \<Rightarrow> outcome" where
  "on_ping h payload c =
    (if stream h \<noteq> 0 then Fail Protocol (bs ''PING on a stream'')
     else if len h \<noteq> 8 then Fail FrameSize (bs ''bad PING length'')
     else if \<not> has h F_ACK then Next (send (write_frame K_PING F_ACK 0 payload) c)
     else Next c)"

definition on_window_update :: "head \<Rightarrow> bytes \<Rightarrow> h2_conn \<Rightarrow> outcome" where
  "on_window_update h payload c =
    (if len h \<noteq> 4 then Fail FrameSize (bs ''bad WINDOW_UPDATE length'')
     else if stream h \<noteq> 0 \<and> state_of c (stream h) = WIdle
     then Fail Protocol (bs ''WINDOW_UPDATE on an idle stream'')
     else (let inc = int (unat (dependency payload))
           in if inc = 0
              then (if stream h = 0 then Fail Protocol (bs ''zero connection window update'')
                    else Skip (reset_stream (stream h) Protocol c))
              else if stream h = 0
              then (let w = c_conn_window c + inc
                    in if MAX_WINDOW < w then Fail FlowControl (bs ''connection window overflow'')
                       else Next (c\<lparr>c_conn_window := w\<rparr>))
              else (case get_stream c (stream h) of
                      None \<Rightarrow> Next c
                    | Some s \<Rightarrow>
                       (let w = s_window s + inc
                        in if MAX_WINDOW < w then Skip (reset_stream (stream h) FlowControl c)
                           else Next (upd_stream (stream h) (\<lambda>s. s\<lparr>s_window := w\<rparr>) c)))))"

text \<open>Dispatch of what is complete, and one turn of the loop.\<close>

definition ready :: "h2_stream \<Rightarrow> bool" where
  "ready s \<longleftrightarrow> \<not> s_dispatched s \<and> s_headers_done s \<and> s_state s = HalfClosedRemote"

definition dispatch_one :: "u32 \<Rightarrow> h2_conn \<Rightarrow> h2_conn" where
  "dispatch_one i c =
    (case get_stream c i of
       None \<Rightarrow> c
     | Some st \<Rightarrow>
        (let c = upd_stream i (\<lambda>s. s\<lparr>s_dispatched := True\<rparr>) c
         in if s_content_length st \<noteq> None \<and> s_content_length st \<noteq> Some (length (s_body st))
            then reset_stream i Protocol c
            else (upd_stream i (\<lambda>s. s\<lparr>s_headers := [], s_body := []\<rparr>) c)\<lparr>
                   c_spawned := c_spawned c @ [(i, s_headers st, s_body st)]\<rparr>))"

definition dispatch :: "h2_conn \<Rightarrow> h2_conn" where
  "dispatch c = fold dispatch_one (map fst (filter (\<lambda>(_, s). ready s) (c_streams c))) c"

definition on_frame :: "nat \<Rightarrow> head \<Rightarrow> bytes \<Rightarrow> h2_conn \<Rightarrow> outcome" where
  "on_frame max_body h payload c =
    (if kind h = K_DATA then on_data max_body h payload c
     else if kind h = K_HEADERS then on_headers h payload c
     else if kind h = K_CONTINUATION then on_continuation h payload c
     else if kind h = K_PRIORITY then on_priority h payload c
     else if kind h = K_RST_STREAM then on_rst h c
     else if kind h = K_SETTINGS then on_settings h payload c
     else if kind h = K_PING then on_ping h payload c
     else if kind h = K_WINDOW_UPDATE then on_window_update h payload c
     else if kind h = K_GOAWAY then Quit
     else if kind h = K_PUSH_PROMISE then Fail Protocol (bs ''PUSH_PROMISE from a client'')
     else Next c)"

definition h2_turn :: "nat \<Rightarrow> head \<Rightarrow> bytes \<Rightarrow> h2_conn \<Rightarrow> outcome" where
  "h2_turn max_body h payload c =
    (if DEFAULT_MAX_FRAME < unat (len h) then Fail FrameSize (bs ''frame exceeds max size'')
     else if c_expect c \<noteq> None \<and> (kind h \<noteq> K_CONTINUATION \<or> c_expect c \<noteq> Some (stream h))
     then Fail Protocol (bs ''expected CONTINUATION'')
     else (case on_frame max_body h payload c of Next c \<Rightarrow> Next (dispatch c) | r \<Rightarrow> r))"

text \<open>One turn of the sending loop of a stream task: a DATA frame, or waiting, or giving up.\<close>

datatype pump_result = Blocked | Stopped | Pumped h2_conn nat

definition pump_turn :: "u32 \<Rightarrow> bytes \<Rightarrow> nat \<Rightarrow> h2_conn \<Rightarrow> pump_result" where
  "pump_turn i data off c =
    (case get_stream c i of
       None \<Rightarrow> Stopped
     | Some s \<Rightarrow>
        if length data \<le> off \<or> s_reset s \<or> c_closed c then Stopped
        else (let allowed = nat (max (min (c_conn_window c) (s_window s)) 0)
              in if allowed = 0 then Blocked
                 else (let n = min (min allowed (c_max_frame c)) (length data - off)
                       in Pumped (upd_stream i (\<lambda>s. s\<lparr>s_window := s_window s - int n\<rparr>)
                            ((send (write_frame K_DATA 0 i (take n (drop off data))) c)\<lparr>
                               c_conn_window := c_conn_window c - int n\<rparr>)) n)))"

definition task_done :: "u32 \<Rightarrow> h2_conn \<Rightarrow> h2_conn" where
  "task_done i c = upd_stream i (\<lambda>s. s\<lparr>s_done := True\<rparr>) c"

text \<open>The end of the reader: GOAWAY, and the stream tasks are told to stop.\<close>

definition h2_close :: "code \<Rightarrow> bytes \<Rightarrow> h2_conn \<Rightarrow> h2_conn" where
  "h2_close k why c = (send (goaway (c_last c) k why) c)\<lparr>c_closed := True\<rparr>"

section \<open>The transition system\<close>

definition wire_head :: "head \<Rightarrow> bytes \<Rightarrow> bool" where
  "wire_head h payload \<longleftrightarrow> length payload = unat (len h) \<and> unat (stream h) < 2 ^ 31"

text \<open>
  A task that was spawned may send frames of its own stream at any time, also after the stream left the table; a stream identifier
  of the wire has 31 bits. The pump looks its stream up for every turn.
\<close>

inductive h2_step :: "nat \<Rightarrow> h2_conn \<Rightarrow> h2_conn \<Rightarrow> bool" for max_body where
  Frame: "\<not> c_closed c \<Longrightarrow> wire_head h payload \<Longrightarrow>
    h2_turn max_body h payload c = Next c' \<or> h2_turn max_body h payload c = Skip c' \<Longrightarrow> h2_step max_body c c'"
| Fatal: "\<not> c_closed c \<Longrightarrow> wire_head h payload \<Longrightarrow> h2_turn max_body h payload c = Fail k w \<Longrightarrow>
    h2_step max_body c (h2_close k w c)"
| PeerDone: "\<not> c_closed c \<Longrightarrow> h2_step max_body c (h2_close NoError [] c)"
| Pump: "get_stream c i = Some s \<Longrightarrow> s_dispatched s \<Longrightarrow> \<not> s_done s \<Longrightarrow>
    pump_turn i data off c = Pumped c' n \<Longrightarrow> h2_step max_body c c'"
| Respond: "(i, rq) \<in> set (c_spawned c) \<Longrightarrow> unat i < 2 ^ 31 \<Longrightarrow> k = K_HEADERS \<or> k = K_DATA \<or> k = K_RST_STREAM \<Longrightarrow>
    length p < 2 ^ 24 \<Longrightarrow> h2_step max_body c (send (write_frame k f i p) c)"
| TaskDone: "get_stream c i = Some s \<Longrightarrow> s_dispatched s \<Longrightarrow> h2_step max_body c (task_done i c)"

section \<open>Invariant\<close>

definition declared_length :: "header list \<Rightarrow> nat option" where
  "declared_length hs =
    (case find (\<lambda>h. hname h = bs ''content-length'') hs of Some h \<Rightarrow> parse_unsigned 64 (hvalue h) | None \<Rightarrow> None)"

definition stream_ok :: "h2_conn \<Rightarrow> u32 \<Rightarrow> h2_stream \<Rightarrow> bool" where
  "stream_ok c i s \<longleftrightarrow> i \<noteq> 0 \<and> i \<le> c_highest c \<and> unat i < 2 ^ 31 \<and>
     (\<not> s_headers_done s \<longrightarrow> \<not> s_dispatched s \<and> \<not> s_trailers s \<and> (s_state s = ResetSt \<or> c_expect c = Some i)) \<and>
     (s_headers_done s \<and> \<not> s_dispatched s \<longrightarrow> s_content_length s = declared_length (s_headers s)) \<and>
     (\<not> s_dispatched s \<longrightarrow> i \<notin> fst ` set (c_spawned c)) \<and>
     \<bar>s_window s - c_peer_window c\<bar> \<le> MAX_WINDOW"

definition spawned_ok :: "h2_conn \<Rightarrow> bool" where
  "spawned_ok c \<longleftrightarrow> distinct (map fst (c_spawned c)) \<and>
     (\<forall>(i, hs, body) \<in> set (c_spawned c). i \<le> c_highest c \<and> declared_length hs \<in> {None, Some (length body)})"

definition windows_ok :: "h2_conn \<Rightarrow> bool" where
  "windows_ok c \<longleftrightarrow> 0 \<le> c_conn_window c \<and> c_conn_window c \<le> MAX_WINDOW \<and>
     0 \<le> c_peer_window c \<and> c_peer_window c \<le> MAX_WINDOW \<and>
     WINDOW_REFILL_AT < c_recv_window c \<and> c_recv_window c \<le> OUR_INITIAL_WINDOW \<and>
     DEFAULT_MAX_FRAME \<le> c_max_frame c \<and> c_max_frame c \<le> MAX_FRAME_LIMIT"

text \<open>Frames on the wire, none of which gives credit to a single stream.\<close>

definition no_stream_credit :: "(u8 \<times> u8 \<times> u32 \<times> bytes) list \<Rightarrow> bool" where
  "no_stream_credit fs \<longleftrightarrow> list_all (\<lambda>f. frame_ok f \<and> (case f of (k, _, i, _) \<Rightarrow> k = K_WINDOW_UPDATE \<longrightarrow> i = 0)) fs"

definition out_ok :: "h2_conn \<Rightarrow> bool" where
  "out_ok c \<longleftrightarrow> (\<forall>b \<in> set (c_out c). \<exists>fs. no_stream_credit fs \<and> b = concat (map (\<lambda>(k, f, i, p). write_frame k f i p) fs))"

definition h2_pre :: "h2_conn \<Rightarrow> bool" where
  "h2_pre c \<longleftrightarrow> distinct (map fst (c_streams c)) \<and> (\<forall>i s. get_stream c i = Some s \<longrightarrow> stream_ok c i s) \<and>
     (\<forall>i. c_expect c = Some i \<longrightarrow> get_stream c i \<noteq> None) \<and> active_count c \<le> MAX_CONCURRENT \<and>
     spawned_ok c \<and> windows_ok c \<and> decoder_inv (c_dec c) \<and> out_ok c"

definition no_ready :: "h2_conn \<Rightarrow> bool" where
  "no_ready c \<longleftrightarrow> (\<forall>i s. get_stream c i = Some s \<longrightarrow> \<not> ready s)"

definition h2_inv :: "h2_conn \<Rightarrow> bool" where
  "h2_inv c \<longleftrightarrow> h2_pre c \<and> no_ready c"

section \<open>Primitive updates\<close>

lemma send_simps [simp]:
  "c_dec (send b c) = c_dec c" "c_streams (send b c) = c_streams c" "c_peer_window (send b c) = c_peer_window c"
  "c_recv_window (send b c) = c_recv_window c" "c_highest (send b c) = c_highest c"
  "c_expect (send b c) = c_expect c" "c_conn_window (send b c) = c_conn_window c"
  "c_max_frame (send b c) = c_max_frame c" "c_spawned (send b c) = c_spawned c"
  "c_out (send b c) = c_out c @ [b]" "c_last (send b c) = c_last c" "c_closed (send b c) = c_closed c"
  by (simp_all add: send_def)

lemma upd_stream_simps [simp]:
  "c_dec (upd_stream i f c) = c_dec c" "c_peer_window (upd_stream i f c) = c_peer_window c"
  "c_recv_window (upd_stream i f c) = c_recv_window c" "c_highest (upd_stream i f c) = c_highest c"
  "c_expect (upd_stream i f c) = c_expect c" "c_conn_window (upd_stream i f c) = c_conn_window c"
  "c_max_frame (upd_stream i f c) = c_max_frame c" "c_spawned (upd_stream i f c) = c_spawned c"
  "c_out (upd_stream i f c) = c_out c" "c_last (upd_stream i f c) = c_last c"
  "c_closed (upd_stream i f c) = c_closed c"
  by (simp_all add: upd_stream_def)

lemma upd_stream_keys [simp]: "map fst (c_streams (upd_stream i f c)) = map fst (c_streams c)"
  by (simp add: upd_stream_def case_prod_beta comp_def)

lemma get_stream_fields [simp]:
  "get_stream (c\<lparr>c_dec := d\<rparr>) = get_stream c" "get_stream (c\<lparr>c_peer_window := x\<rparr>) = get_stream c"
  "get_stream (c\<lparr>c_recv_window := x\<rparr>) = get_stream c" "get_stream (c\<lparr>c_expect := e\<rparr>) = get_stream c"
  "get_stream (c\<lparr>c_conn_window := x\<rparr>) = get_stream c" "get_stream (c\<lparr>c_max_frame := n\<rparr>) = get_stream c"
  "get_stream (c\<lparr>c_closed := b\<rparr>) = get_stream c" "get_stream (c\<lparr>c_spawned := l\<rparr>) = get_stream c"
  by (simp_all add: get_stream_def fun_eq_iff)

lemma get_stream_cong: "c_streams c = c_streams c' \<Longrightarrow> get_stream c i = get_stream c' i"
  by (simp add: get_stream_def)

lemma get_upd_stream [simp]:
  "get_stream (upd_stream i f c) j = map_option (if j = i then f else id) (get_stream c j)"
proof -
  have "map_of (map (\<lambda>(j, s). (j, if j = i then f s else s)) xs) j = map_option (if j = i then f else id) (map_of xs j)" for xs
    by (induction xs) auto
  then show ?thesis by (simp add: get_stream_def upd_stream_def)
qed

lemma get_send [simp]: "get_stream (send b c) j = get_stream c j"
  by (simp add: get_stream_def)

lemma active_upd_stream:
  assumes "\<And>s. s_done s \<Longrightarrow> s_done (f s)"
  shows "active_count (upd_stream i f c) \<le> active_count c"
proof -
  have "length (filter (\<lambda>(_, s). \<not> s_done s) (map (\<lambda>(j, s). (j, if j = i then f s else s)) xs)) \<le>
      length (filter (\<lambda>(_, s). \<not> s_done s) xs)" for xs
    using assms by (induction xs) (auto split: if_splits)
  then show ?thesis by (simp add: active_count_def upd_stream_def)
qed

lemma stream_ok_cong:
  "c_highest c = c_highest c' \<Longrightarrow> c_expect c = c_expect c' \<Longrightarrow> c_spawned c = c_spawned c' \<Longrightarrow>
   c_peer_window c = c_peer_window c' \<Longrightarrow> stream_ok c i s = stream_ok c' i s"
  by (simp add: stream_ok_def)

text \<open>A frame that gives no credit to a stream may be sent at any time.\<close>

definition frame_sent :: "bytes \<Rightarrow> bool" where
  "frame_sent b \<longleftrightarrow> (\<exists>k f i p. b = write_frame k f i p \<and> frame_ok (k, f, i, p) \<and> (k = K_WINDOW_UPDATE \<longrightarrow> i = 0))"

lemma frame_sentI:
  "length p < 2 ^ 24 \<Longrightarrow> unat i < 2 ^ 31 \<Longrightarrow> k \<noteq> K_WINDOW_UPDATE \<or> i = 0 \<Longrightarrow> frame_sent (write_frame k f i p)"
  unfolding frame_sent_def by (intro exI [of _ k] exI [of _ f] exI [of _ i] exI [of _ p]) auto

lemma out_ok_send: "out_ok c \<Longrightarrow> frame_sent b \<Longrightarrow> out_ok (send b c)"
proof -
  assume "out_ok c" "frame_sent b"
  then obtain k f i p where b: "b = write_frame k f i p" "frame_ok (k, f, i, p)" "k = K_WINDOW_UPDATE \<longrightarrow> i = 0"
    by (auto simp: frame_sent_def)
  then have "no_stream_credit [(k, f, i, p)] \<and> b = concat (map (\<lambda>(k, f, i, p). write_frame k f i p) [(k, f, i, p)])"
    by (auto simp: no_stream_credit_def)
  with \<open>out_ok c\<close> show ?thesis unfolding out_ok_def by (auto intro: exI [of _ "[(k, f, i, p)]"])
qed

lemma send_pre: "h2_pre c \<Longrightarrow> frame_sent b \<Longrightarrow> h2_pre (send b c)"
  using out_ok_send [of c b] stream_ok_cong [of "send b c" c]
  by (simp add: h2_pre_def spawned_ok_def windows_ok_def active_count_def)

lemma upd_stream_pre:
  assumes "h2_pre c" "\<And>s. s_done s \<Longrightarrow> s_done (f s)"
    and "\<And>s. get_stream c i = Some s \<Longrightarrow> stream_ok c i s \<Longrightarrow> stream_ok c i (f s)"
  shows "h2_pre (upd_stream i f c)"
proof -
  have "stream_ok (upd_stream i f c) j s" if "get_stream (upd_stream i f c) j = Some s" for j s
    using that assms(1,3) stream_ok_cong [of "upd_stream i f c" c j s]
    by (auto simp: h2_pre_def split: if_splits)
  moreover have "active_count (upd_stream i f c) \<le> MAX_CONCURRENT"
    using active_upd_stream [of f i c] assms(1,2) by (simp add: h2_pre_def)
  ultimately show ?thesis
    using assms(1) by (simp add: h2_pre_def spawned_ok_def windows_ok_def out_ok_def)
qed

lemma frame_sent_rst [intro]: "unat i < 2 ^ 31 \<Longrightarrow> frame_sent (rst i k)"
  by (simp add: rst_def frame_sentI)

lemma reset_stream_pre:
  assumes "h2_pre c" "unat i < 2 ^ 31"
  shows "h2_pre (reset_stream i k c)"
  unfolding reset_stream_def
  by (rule upd_stream_pre [OF send_pre]) (use assms in \<open>auto simp: stream_ok_def\<close>)

lemma no_ready_upd:
  "no_ready c \<Longrightarrow> (\<And>s. get_stream c i = Some s \<Longrightarrow> \<not> ready s \<Longrightarrow> \<not> ready (f s)) \<Longrightarrow> no_ready (upd_stream i f c)"
  by (auto simp: no_ready_def split: if_splits)

lemma no_ready_send [simp]: "no_ready (send b c) = no_ready c"
  by (simp add: no_ready_def)

lemma reset_stream_inv: "h2_inv c \<Longrightarrow> unat i < 2 ^ 31 \<Longrightarrow> h2_inv (reset_stream i k c)"
  using reset_stream_pre [of c i k]
  by (auto simp: h2_inv_def reset_stream_def ready_def intro: no_ready_upd)

section \<open>Preservation\<close>

lemma h2_pre_dec: "h2_pre c \<Longrightarrow> decoder_inv d \<Longrightarrow> h2_pre (c\<lparr>c_dec := d\<rparr>)"
  by (simp add: h2_pre_def stream_ok_def spawned_ok_def windows_ok_def out_ok_def active_count_def)

lemma hpack_decode_inv: "decoder_inv d \<Longrightarrow> hpack_decode d buf n = (d', r) \<Longrightarrow> decoder_inv d'"
  by (auto simp: hpack_decode_def dest: decode_loop_inv)

text \<open>Closing a header block: the stream's headers are known afterwards, or it is reset.\<close>

definition block_open :: "u32 \<Rightarrow> h2_conn \<Rightarrow> bool" where
  "block_open i c \<longleftrightarrow> h2_pre (c\<lparr>c_expect := Some i\<rparr>)"

lemma pre_close_block:
  assumes "block_open i c" "c_expect c = None"
    and "\<And>s. get_stream c i = Some s \<Longrightarrow> s_headers_done s \<or> s_state s = ResetSt"
  shows "h2_pre c"
  using assms unfolding block_open_def h2_pre_def stream_ok_def
  by (auto simp: active_count_def spawned_ok_def windows_ok_def out_ok_def)

lemma block_open_upd:
  assumes "block_open i c" "\<And>s. s_done s \<Longrightarrow> s_done (f s)"
    and "\<And>s. get_stream c i = Some s \<Longrightarrow> stream_ok (c\<lparr>c_expect := Some i\<rparr>) i s \<Longrightarrow>
      stream_ok (c\<lparr>c_expect := Some i\<rparr>) i (f s)"
  shows "block_open i (upd_stream i f c)"
proof -
  have "(upd_stream i f c)\<lparr>c_expect := Some i\<rparr> = upd_stream i f (c\<lparr>c_expect := Some i\<rparr>)"
    by (simp add: upd_stream_def)
  then show ?thesis
    using upd_stream_pre [OF assms(1) [unfolded block_open_def], of f i] assms(2,3) by (simp add: block_open_def)
qed

lemma block_open_dec: "block_open i c \<Longrightarrow> decoder_inv d \<Longrightarrow> block_open i (c\<lparr>c_dec := d\<rparr>)"
proof -
  assume "block_open i c" "decoder_inv d"
  moreover have "c\<lparr>c_dec := d, c_expect := Some i\<rparr> = c\<lparr>c_expect := Some i, c_dec := d\<rparr>" by simp
  ultimately show ?thesis using h2_pre_dec [of "c\<lparr>c_expect := Some i\<rparr>" d] by (simp only: block_open_def)
qed

lemma block_open_reset: "block_open i c \<Longrightarrow> unat i < 2 ^ 31 \<Longrightarrow> block_open i (reset_stream i k c)"
proof -
  assume "block_open i c" "unat i < 2 ^ 31"
  moreover have "(reset_stream i k c)\<lparr>c_expect := Some i\<rparr> = reset_stream i k (c\<lparr>c_expect := Some i\<rparr>)"
    by (simp add: reset_stream_def send_def upd_stream_def)
  ultimately show ?thesis using reset_stream_pre [of "c\<lparr>c_expect := Some i\<rparr>" i k] by (simp only: block_open_def)
qed

lemma reset_stream_state:
  "get_stream (reset_stream i k c) i = Some s \<Longrightarrow> s_state s = ResetSt" "c_expect (reset_stream i k c) = c_expect c"
  by (auto simp: reset_stream_def)

lemma finish_block_pre:
  assumes "block_open i c" "c_expect c = None" "finish_block i c = Inr c'"
  shows "h2_pre c'"
proof -
  from assms(1) obtain st where st: "get_stream c i = Some st" "stream_ok (c\<lparr>c_expect := Some i\<rparr>) i st"
    and dinv: "decoder_inv (c_dec c)"
    by (auto simp: block_open_def h2_pre_def)
  define c1 where "c1 = upd_stream i (\<lambda>s. s\<lparr>s_pending := []\<rparr>) c"
  obtain d r where dec: "hpack_decode (c_dec c) (s_pending st) MAX_HEADER_LIST = (d, r)" by fastforce
  have "block_open i c1" unfolding c1_def by (rule block_open_upd [OF assms(1)]) (auto simp: stream_ok_def)
  from block_open_dec [OF this hpack_decode_inv [OF dinv dec]]
  have c2: "block_open i (c1\<lparr>c_dec := d\<rparr>)" "c_expect (c1\<lparr>c_dec := d\<rparr>) = None"
    using assms(2) by (simp_all add: c1_def)
  have i: "unat i < 2 ^ 31" using st(2) by (simp add: stream_ok_def)
  have reset: "h2_pre (reset_stream i k (c1\<lparr>c_dec := d\<rparr>))" for k
    by (rule pre_close_block [OF block_open_reset [OF c2(1) i]])
      (use c2(2) reset_stream_state in auto)
  have dec1: "hpack_decode (c_dec c1) (s_pending st) MAX_HEADER_LIST = (d, r)" using dec by (simp add: c1_def)
  have get2: "get_stream (c1\<lparr>c_dec := d\<rparr>) i = Some (st\<lparr>s_pending := []\<rparr>)"
    using st(1) by (simp add: c1_def)
  show ?thesis
  proof (cases r)
    case (Inl e)
    then show ?thesis
      using assms(3) st(1) dec1 reset by (cases e) (auto simp: finish_block_def c1_def [symmetric])
  next
    case (Inr hs)
    show ?thesis
    proof (cases "s_trailers st")
      case True
      then have "s_headers_done st" using st(2) by (auto simp: stream_ok_def)
      then have "h2_pre (c1\<lparr>c_dec := d\<rparr>)" using pre_close_block [OF c2] get2 by simp
      then show ?thesis using assms(3) st(1) dec1 Inr True reset
        by (auto simp: finish_block_def Let_def c1_def [symmetric] split: if_splits)
    next
      case False
      define f where "f = (\<lambda>s :: h2_stream. s\<lparr>s_content_length := declared_length hs, s_headers := hs, s_headers_done := True\<rparr>)"
      have "c' = upd_stream i f (c1\<lparr>c_dec := d\<rparr>)"
        using assms(3) st(1) dec1 Inr False
        by (simp add: finish_block_def c1_def [symmetric] f_def declared_length_def)
      moreover have "block_open i (upd_stream i f (c1\<lparr>c_dec := d\<rparr>))"
        by (rule block_open_upd [OF c2(1)]) (auto simp: f_def stream_ok_def)
      moreover have "s_headers_done s" if "get_stream c' i = Some s" for s
        using that calculation(1) by (auto simp: f_def)
      ultimately show ?thesis using pre_close_block [of i c'] c2(2) by simp
    qed
  qed
qed

text \<open>What a handler must leave behind, given that the invariant held before.\<close>

fun good_outcome :: "outcome \<Rightarrow> bool" where
  "good_outcome (Fail k w) = True"
| "good_outcome Panic = False"
| "good_outcome Quit = True"
| "good_outcome (Skip c) = h2_inv c"
| "good_outcome (Next c) = h2_pre c"

lemma end_block_good: "block_open (stream h) c \<Longrightarrow> c_expect c = None \<Longrightarrow> good_outcome (end_block h c)"
  using finish_block_pre [of "stream h" c]
  by (auto simp: end_block_def block_open_def split: sum.split)

lemma get_put_stream [simp]: "get_stream (put_stream i s c) j = (if j = i then Some s else get_stream c j)"
proof -
  have "j \<noteq> i \<Longrightarrow> map_of (filter (\<lambda>(j, _). j \<noteq> i) xs) j = map_of xs j" for xs :: "(u32 \<times> h2_stream) list"
    by (induction xs) auto
  then show ?thesis by (simp add: get_stream_def put_stream_def)
qed

lemma put_stream_simps [simp]:
  "c_dec (put_stream i s c) = c_dec c" "c_peer_window (put_stream i s c) = c_peer_window c"
  "c_recv_window (put_stream i s c) = c_recv_window c" "c_highest (put_stream i s c) = c_highest c"
  "c_expect (put_stream i s c) = c_expect c" "c_conn_window (put_stream i s c) = c_conn_window c"
  "c_max_frame (put_stream i s c) = c_max_frame c" "c_spawned (put_stream i s c) = c_spawned c"
  "c_out (put_stream i s c) = c_out c"
  by (simp_all add: put_stream_def)

lemma put_stream_keys:
  "distinct (map fst (c_streams c)) \<Longrightarrow> distinct (map fst (c_streams (put_stream i s c)))"
  by (auto simp: put_stream_def distinct_map_filter)

lemma active_put_stream: "active_count (put_stream i s c) \<le> Suc (active_count c)"
proof -
  have "length (filter (\<lambda>(_, s). \<not> s_done s) (filter (\<lambda>(j, _). j \<noteq> i) xs)) \<le> length (filter (\<lambda>(_, s). \<not> s_done s) xs)" for xs :: "(u32 \<times> h2_stream) list"
    by (induction xs) auto
  from this [of "c_streams c"] show ?thesis by (simp add: active_count_def put_stream_def)
qed

lemma pruned_simps [simp]:
  "c_dec (pruned i c) = c_dec c" "c_peer_window (pruned i c) = c_peer_window c"
  "c_recv_window (pruned i c) = c_recv_window c" "c_highest (pruned i c) = i"
  "c_expect (pruned i c) = c_expect c" "c_conn_window (pruned i c) = c_conn_window c"
  "c_max_frame (pruned i c) = c_max_frame c" "c_spawned (pruned i c) = c_spawned c"
  "c_out (pruned i c) = c_out c"
  by (simp_all add: pruned_def)

lemma get_pruned:
  "distinct (map fst (c_streams c)) \<Longrightarrow> get_stream (pruned i c) j = Some s \<Longrightarrow> get_stream c j = Some s"
  by (auto simp: get_stream_def pruned_def map_of_eq_Some_iff distinct_map_filter)

lemma active_pruned: "active_count (pruned i c) \<le> active_count c"
proof -
  have "length (filter (\<lambda>(_, s). \<not> s_done s) (filter (\<lambda>(_, s). \<not> (s_dispatched s \<and> s_done s)) xs)) \<le>
      length (filter (\<lambda>(_, s). \<not> s_done s) xs)" for xs :: "(u32 \<times> h2_stream) list"
    by (induction xs) auto
  then show ?thesis by (simp add: active_count_def pruned_def)
qed

lemma pruned_pre:
  assumes "h2_pre c" "c_expect c = None" "c_highest c \<le> i"
  shows "h2_pre (pruned i c)"
proof -
  have "stream_ok (pruned i c) j s" if "get_stream (pruned i c) j = Some s" for j s
    using get_pruned [OF _ that] assms by (fastforce simp: h2_pre_def stream_ok_def)
  moreover have "distinct (map fst (c_streams (pruned i c)))"
    using assms(1) by (simp add: h2_pre_def pruned_def distinct_map_filter)
  moreover have "spawned_ok (pruned i c)" using assms by (fastforce simp: h2_pre_def spawned_ok_def)
  ultimately show ?thesis
    using assms active_pruned [of i c] by (simp add: h2_pre_def windows_ok_def out_ok_def)
qed

lemma open_stream_good:
  assumes "h2_inv c" "c_expect c = None" "wire_head h payload" "stream h \<noteq> 0"
  shows "good_outcome (open_stream h block c)"
proof (cases "stream h \<le> c_highest c")
  case False
  define c1 where "c1 = pruned (stream h) c"
  have pre: "h2_pre c1" "c_expect c1 = None" "c_peer_window c1 = c_peer_window c" "c_highest c1 = stream h"
    using pruned_pre [of c "stream h"] assms(1,2) False by (auto simp: c1_def h2_inv_def)
  have fresh: "stream h \<notin> fst ` set (c_spawned c1)"
    using assms(1) False by (force simp: c1_def h2_inv_def h2_pre_def spawned_ok_def)
  define s where "s = (stream_new (c_peer_window c1))\<lparr>
      s_state := (if has h F_END_STREAM then HalfClosedRemote else Open), s_pending := block\<rparr>"
  show ?thesis
  proof (cases "MAX_CONCURRENT \<le> active_count c1")
    case True
    with False have "open_stream h block c = Next (send (rst (stream h) RefusedStream) c1)"
      by (simp add: open_stream_def c1_def)
    then show ?thesis
      using send_pre [OF pre(1) frame_sent_rst [of "stream h" RefusedStream]] assms(3) by (simp add: wire_head_def)
  next
    case few: False
    have "stream_ok ((put_stream (stream h) s c1)\<lparr>c_expect := Some (stream h)\<rparr>) (stream h) s"
      using assms(3,4) fresh pre by (simp add: stream_ok_def s_def stream_new_def wire_head_def)
    moreover have "stream_ok ((put_stream (stream h) s c1)\<lparr>c_expect := Some (stream h)\<rparr>) j t"
      if "get_stream c1 j = Some t" for j t
      using that pre(1,2) by (auto simp: h2_pre_def stream_ok_def)
    ultimately have "block_open (stream h) (put_stream (stream h) s c1)"
      using pre(1) few put_stream_keys [of c1 "stream h" s] active_put_stream [of "stream h" s c1]
      by (auto simp: block_open_def h2_pre_def spawned_ok_def windows_ok_def out_ok_def active_count_def)
    from end_block_good [OF this] pre(2) False few show ?thesis
      by (simp add: open_stream_def Let_def c1_def s_def)
  qed
qed (simp add: open_stream_def)

lemma pre_open_block: "h2_pre c \<Longrightarrow> c_expect c = None \<Longrightarrow> get_stream c i \<noteq> None \<Longrightarrow> block_open i c"
  by (auto simp: block_open_def h2_pre_def stream_ok_def active_count_def spawned_ok_def windows_ok_def out_ok_def)

lemma h2_inv_stream: "h2_inv c \<Longrightarrow> get_stream c i = Some s \<Longrightarrow> stream_ok c i s"
  by (simp add: h2_inv_def h2_pre_def)

lemma state_of_live:
  "state_of c i = WOpen \<Longrightarrow> \<exists>s. get_stream c i = Some s \<and> s_state s = Open"
  "state_of c i = WHalfClosed \<Longrightarrow> \<exists>s. get_stream c i = Some s \<and> s_state s = HalfClosedRemote \<and> \<not> s_dispatched s"
  by (auto simp: state_of_def split: option.splits st_state.splits if_splits)

lemma open_trailers_good:
  assumes "h2_inv c" "c_expect c = None" "wire_head h payload"
    and "get_stream c (stream h) = Some st" "s_state st \<noteq> ResetSt"
  shows "good_outcome (open_trailers h block c)"
proof (cases "has h F_END_STREAM")
  case True
  have "s_headers_done st" using h2_inv_stream [OF assms(1,4)] assms(2,5) by (auto simp: stream_ok_def)
  then have "block_open (stream h) (upd_stream (stream h) (\<lambda>s. s\<lparr>s_pending := block, s_trailers := True,
      s_state := HalfClosedRemote\<rparr>) c)"
    using assms by (intro block_open_upd pre_open_block) (auto simp: h2_inv_def stream_ok_def)
  from end_block_good [OF this] True assms(2,4) show ?thesis by (simp add: open_trailers_def)
next
  case False
  then show ?thesis
    using assms(1,3) by (simp add: open_trailers_def h2_inv_def wire_head_def reset_stream_pre)
qed

lemma headers_block_good:
  assumes "h2_inv c" "c_expect c = None" "wire_head h payload" "stream h \<noteq> 0"
  shows "good_outcome (headers_block h block c)"
  using open_trailers_good [OF assms(1-3)] open_stream_good [OF assms] state_of_live [of c "stream h"]
  by (fastforce simp: headers_block_def split: st_where.split)

lemma send_inv: "h2_inv c \<Longrightarrow> frame_sent b \<Longrightarrow> h2_inv (send b c)"
  by (simp add: h2_inv_def send_pre)

lemma on_headers_good:
  assumes "h2_inv c" "c_expect c = None" "wire_head h payload"
  shows "good_outcome (on_headers h payload c)"
  using headers_block_good [OF assms] send_inv [OF assms(1) frame_sent_rst [of "stream h" Protocol]] assms(3)
  by (simp add: on_headers_def wire_head_def split: option.split)

lemma on_continuation_good:
  assumes "h2_inv c" "wire_head h payload"
  shows "good_outcome (on_continuation h payload c)"
proof (cases "c_expect c = Some (stream h)")
  case True
  define c1 where "c1 = upd_stream (stream h) (\<lambda>s. s\<lparr>s_pending := s_pending s @ payload\<rparr>) c"
  from True assms(1) obtain st where st: "get_stream c (stream h) = Some st"
    by (auto simp: h2_inv_def h2_pre_def)
  have pre: "h2_pre c1" unfolding c1_def
    using assms(1) by (intro upd_stream_pre) (auto simp: h2_inv_def stream_ok_def)
  moreover have "c1\<lparr>c_expect := Some (stream h)\<rparr> = c1" using True by (simp add: c1_def upd_stream_def)
  ultimately have "block_open (stream h) (c1\<lparr>c_expect := None\<rparr>)" by (simp add: block_open_def)
  from finish_block_pre [OF this] pre True st show ?thesis
    by (auto simp: on_continuation_def Let_def c1_def [symmetric] split: sum.split)
qed (simp add: on_continuation_def)

lemma on_rst_good: "h2_inv c \<Longrightarrow> good_outcome (on_rst h c)"
  by (auto simp: on_rst_def h2_inv_def stream_ok_def intro!: upd_stream_pre)

lemma on_priority_good: "h2_inv c \<Longrightarrow> wire_head h payload \<Longrightarrow> good_outcome (on_priority h payload c)"
  using send_pre [of c "rst (stream h) Protocol"] frame_sent_rst [of "stream h" Protocol]
  by (simp add: on_priority_def wire_head_def h2_inv_def)

lemma on_ping_good: "h2_inv c \<Longrightarrow> wire_head h payload \<Longrightarrow> good_outcome (on_ping h payload c)"
  by (auto simp: on_ping_def wire_head_def h2_inv_def intro!: send_pre frame_sentI)

lemma windows_pre: "h2_pre c \<Longrightarrow> windows_ok (c\<lparr>c_conn_window := w\<rparr>) \<Longrightarrow> h2_pre (c\<lparr>c_conn_window := w\<rparr>)"
  by (simp add: h2_pre_def stream_ok_def active_count_def spawned_ok_def out_ok_def)

lemma recv_window_pre: "h2_pre c \<Longrightarrow> windows_ok (c\<lparr>c_recv_window := w\<rparr>) \<Longrightarrow> h2_pre (c\<lparr>c_recv_window := w\<rparr>)"
  by (simp add: h2_pre_def stream_ok_def active_count_def spawned_ok_def out_ok_def)

lemma frame_sent_conn [intro]: "frame_sent (window_update 0 x)" "frame_sent settings_ack"
  by (simp_all add: window_update_def settings_ack_def frame_sentI)

lemma charge_window_inv:
  assumes "h2_inv c" "n \<le> DEFAULT_MAX_FRAME"
  shows "h2_inv (replenish (c\<lparr>c_recv_window := c_recv_window c - int n\<rparr>))"
proof -
  define c1 where "c1 = send (window_update 0 (of_int (OUR_INITIAL_WINDOW - (c_recv_window c - int n)))) c"
  have i: "h2_inv c1" unfolding c1_def by (rule send_inv [OF assms(1)]) auto
  have w: "windows_ok c" "windows_ok c1" using assms(1) i by (simp_all add: h2_inv_def h2_pre_def)
  show ?thesis
  proof (cases "WINDOW_REFILL_AT \<le> OUR_INITIAL_WINDOW - (c_recv_window c - int n)")
    case True
    then have "replenish (c\<lparr>c_recv_window := c_recv_window c - int n\<rparr>) = c1\<lparr>c_recv_window := OUR_INITIAL_WINDOW\<rparr>"
      by (simp add: replenish_def c1_def send_def)
    then show ?thesis
      using i w recv_window_pre [of c1] by (simp add: h2_inv_def no_ready_def windows_ok_def)
  next
    case False
    then show ?thesis
      using assms(1) w recv_window_pre [of c] by (simp add: replenish_def h2_inv_def no_ready_def windows_ok_def)
  qed
qed

lemma on_data_good:
  assumes "h2_inv c" "c_expect c = None" "wire_head h payload" "unat (len h) \<le> DEFAULT_MAX_FRAME"
  shows "good_outcome (on_data max_body h payload c)"
proof -
  define c1 where "c1 = replenish (c\<lparr>c_recv_window := c_recv_window c - int (unat (len h))\<rparr>)"
  have i: "h2_inv c1" unfolding c1_def by (rule charge_window_inv [OF assms(1,4)])
  have e: "c_expect c1 = None" using assms(2) by (simp add: c1_def replenish_def Let_def)
  have r: "h2_inv (reset_stream (stream h) k c1)" for k
    using reset_stream_inv [OF i] assms(3) by (simp add: wire_head_def)
  have "h2_pre (upd_stream (stream h) (\<lambda>s. s\<lparr>s_body := s_body s @ data,
      s_state := (if has h F_END_STREAM then HalfClosedRemote else s_state s)\<rparr>) c1)"
    if "get_stream c1 (stream h) = Some st" "s_state st = Open" for data st
    using i that e by (intro upd_stream_pre) (auto simp: h2_inv_def stream_ok_def)
  with r state_of_live(1) [of c1 "stream h"] show ?thesis
    unfolding on_data_def Let_def c1_def [symmetric] by (auto split: option.split st_where.split)
qed

lemma on_window_update_good:
  assumes "h2_inv c" "wire_head h payload"
  shows "good_outcome (on_window_update h payload c)"
proof -
  have r: "h2_inv (reset_stream (stream h) k c)" for k
    using reset_stream_inv [OF assms(1)] assms(2) by (simp add: wire_head_def)
  have w: "windows_ok c" "h2_pre c" using assms(1) by (simp_all add: h2_inv_def h2_pre_def)
  have "h2_pre (upd_stream (stream h) (\<lambda>s. s\<lparr>s_window := v\<rparr>) c)"
    if "get_stream c (stream h) = Some st" "s_window st \<le> v" "v \<le> MAX_WINDOW" for v st
    using w that by (intro upd_stream_pre) (auto simp: stream_ok_def windows_ok_def abs_le_iff)
  with r w windows_pre [of c] show ?thesis
    by (auto simp: on_window_update_def Let_def windows_ok_def not_less split: option.split)
qed

lemma settings_loop_result:
  assumes "settings_loop p c = Inr c'" "windows_ok c" "decoder_inv (c_dec c)"
  shows "windows_ok c' \<and> decoder_inv (c_dec c') \<and>
    c' = c\<lparr>c_dec := c_dec c', c_peer_window := c_peer_window c', c_max_frame := c_max_frame c'\<rparr>"
  using assms
proof (induction p c rule: settings_loop.induct)
  case (1 c0 c1 c2 c3 c4 c5 rest c)
  show ?case
  proof (cases "from_be16 c0 c1 \<in> {4, 5, 1}")
    case False
    then show ?thesis using 1 by (auto simp: Let_def split: if_splits)
  next
    case True
    then consider "from_be16 c0 c1 = 4" | "from_be16 c0 c1 = 5" | "from_be16 c0 c1 = 1" by auto
    then show ?thesis
    proof cases
      case i: 1
      then show ?thesis using "1.prems" "1.IH"(1) [OF refl refl]
        by (auto simp: Let_def windows_ok_def not_less split: if_splits)
    next
      case i: 2
      then show ?thesis using "1.prems" "1.IH"(2) [OF refl refl]
        by (auto simp: Let_def windows_ok_def not_less split: if_splits)
    next
      case i: 3
      then show ?thesis using "1.prems" "1.IH"(4) [OF refl refl] set_max_size_inv
        by (auto simp: Let_def windows_ok_def)
    qed
  qed
qed auto

lemma on_settings_good:
  assumes "h2_inv c"
  shows "good_outcome (on_settings h payload c)"
proof -
  have "h2_pre (send settings_ack (c'\<lparr>c_streams :=
      map (\<lambda>(i, s). (i, s\<lparr>s_window := s_window s + (c_peer_window c' - c_peer_window c)\<rparr>)) (c_streams c')\<rparr>))"
    (is "h2_pre (send _ ?c2)") if run: "settings_loop payload c = Inr c'" for c'
  proof (rule send_pre)
    have pre: "h2_pre c" using assms by (simp add: h2_inv_def)
    with settings_loop_result [OF run] have c': "windows_ok c'" "decoder_inv (c_dec c')"
      "c' = c\<lparr>c_dec := c_dec c', c_peer_window := c_peer_window c', c_max_frame := c_max_frame c'\<rparr>"
      by (simp_all add: h2_pre_def)
    then have same: "c_streams c' = c_streams c" "c_highest c' = c_highest c" "c_expect c' = c_expect c"
      "c_spawned c' = c_spawned c" "c_out c' = c_out c"
      by (metis h2_conn.select_convs h2_conn.surjective h2_conn.update_convs)+
    have map: "get_stream ?c2 i = map_option (\<lambda>s. s\<lparr>s_window := s_window s + (c_peer_window c' - c_peer_window c)\<rparr>)
        (get_stream c i)" for i
      by (simp add: get_stream_def same map_of_map)
    have "active_count ?c2 = active_count c"
      by (simp add: active_count_def same filter_map comp_def split_def)
    moreover have "stream_ok ?c2 i (s\<lparr>s_window := s_window s + (c_peer_window c' - c_peer_window c)\<rparr>)"
      if "stream_ok c i s" for i s
      using that by (simp add: stream_ok_def same)
    moreover have "spawned_ok ?c2 = spawned_ok c" "out_ok ?c2 = out_ok c" "windows_ok ?c2 = windows_ok c'"
      by (simp_all add: spawned_ok_def out_ok_def windows_ok_def same)
    moreover have "map fst (c_streams ?c2) = map fst (c_streams c)" by (simp add: same comp_def split_def)
    ultimately show "h2_pre ?c2"
      using pre c'(1,2) map same(3) unfolding h2_pre_def by auto
  qed auto
  then show ?thesis using assms by (auto simp: on_settings_def Let_def h2_inv_def split: sum.split)
qed

lemma on_frame_good:
  assumes "h2_inv c" "c_expect c = None \<or> kind h = K_CONTINUATION" "wire_head h payload" "unat (len h) \<le> DEFAULT_MAX_FRAME"
  shows "good_outcome (on_frame max_body h payload c)"
  using on_data_good [OF assms(1) _ assms(3,4)] on_headers_good [OF assms(1) _ assms(3)]
    on_continuation_good [OF assms(1,3)] on_priority_good [OF assms(1,3)] on_rst_good [OF assms(1)]
    on_settings_good [OF assms(1)] on_ping_good [OF assms(1,3)] on_window_update_good [OF assms(1,3)] assms(1,2)
  by (auto simp: on_frame_def h2_inv_def)

section \<open>Dispatch\<close>

lemma dispatch_one_pre:
  assumes "h2_pre c" "get_stream c i = Some st" "ready st"
  shows "h2_pre (dispatch_one i c)"
proof -
  define c1 where "c1 = upd_stream i (\<lambda>s. s\<lparr>s_dispatched := True\<rparr>) c"
  have ok: "stream_ok c i st" using assms by (simp add: h2_pre_def)
  have c1: "h2_pre c1" "get_stream c1 i = Some (st\<lparr>s_dispatched := True\<rparr>)" "c_spawned c1 = c_spawned c"
    unfolding c1_def using assms by (auto intro!: upd_stream_pre simp: stream_ok_def ready_def)
  show ?thesis
  proof (cases "s_content_length st \<noteq> None \<and> s_content_length st \<noteq> Some (length (s_body st))")
    case True
    with assms(2) have "dispatch_one i c = reset_stream i Protocol c1"
      by (simp add: dispatch_one_def c1_def)
    then show ?thesis using reset_stream_pre [OF c1(1)] ok by (simp add: stream_ok_def)
  next
    case False
    define c2 where "c2 = upd_stream i (\<lambda>s. s\<lparr>s_headers := [], s_body := []\<rparr>) c1"
    have c2: "h2_pre c2" "get_stream c2 i = Some (st\<lparr>s_dispatched := True, s_headers := [], s_body := []\<rparr>)"
      "c_spawned c2 = c_spawned c" "c_highest c2 = c_highest c"
      unfolding c2_def using c1 by (auto intro!: upd_stream_pre simp: stream_ok_def c1_def)
    have len: "declared_length (s_headers st) \<in> {None, Some (length (s_body st))}"
      using False ok assms(3) by (auto simp: stream_ok_def ready_def)
    have "h2_pre (c2\<lparr>c_spawned := c_spawned c @ [(i, s_headers st, s_body st)]\<rparr>)"
      using c2 ok len assms(3) unfolding h2_pre_def
      by (auto simp: stream_ok_def spawned_ok_def windows_ok_def out_ok_def active_count_def ready_def)
    moreover have "dispatch_one i c = c2\<lparr>c_spawned := c_spawned c @ [(i, s_headers st, s_body st)]\<rparr>"
      using assms(2) False c1(3) by (auto simp: dispatch_one_def Let_def c1_def [symmetric] c2_def [symmetric])
    ultimately show ?thesis by simp
  qed
qed

lemma dispatch_one_get:
  "j \<noteq> i \<Longrightarrow> get_stream (dispatch_one i c) j = get_stream c j"
  "get_stream (dispatch_one i c) i = Some s \<Longrightarrow> s_dispatched s"
  by (auto simp: dispatch_one_def Let_def reset_stream_def option.map_id split: option.splits if_splits)

lemma dispatch_all:
  assumes "h2_pre c" "distinct ids" "\<And>i. i \<in> set ids \<longleftrightarrow> (\<exists>s. get_stream c i = Some s \<and> ready s)"
  shows "h2_inv (fold dispatch_one ids c)"
  using assms
proof (induction ids arbitrary: c)
  case Nil
  then show ?case by (force simp: h2_inv_def no_ready_def)
next
  case (Cons i ids)
  from Cons.prems(3) [of i] obtain st where st: "get_stream c i = Some st" "ready st" by auto
  have handled: "\<not> ready s" if "get_stream (dispatch_one i c) i = Some s" for s
    using dispatch_one_get(2) [OF that] by (simp add: ready_def)
  have "j \<in> set ids \<longleftrightarrow> (\<exists>s. get_stream (dispatch_one i c) j = Some s \<and> ready s)" for j
  proof (cases "j = i")
    case True
    then show ?thesis using Cons.prems(2) handled by auto
  next
    case False
    then show ?thesis using Cons.prems(3) [of j] dispatch_one_get(1) [of j i c] by simp
  qed
  with Cons.IH [OF dispatch_one_pre [OF Cons.prems(1) st]] Cons.prems(2) show ?case by simp
qed

lemma dispatch_inv: "h2_pre c \<Longrightarrow> h2_inv (dispatch c)"
proof -
  assume pre: "h2_pre c"
  then have d: "distinct (map fst (c_streams c))" by (simp add: h2_pre_def)
  show ?thesis unfolding dispatch_def
  proof (rule dispatch_all [OF pre])
    show "distinct (map fst (filter (\<lambda>(_, s). ready s) (c_streams c)))" using d by (rule distinct_map_filter)
    show "i \<in> set (map fst (filter (\<lambda>(_, s). ready s) (c_streams c))) \<longleftrightarrow> (\<exists>s. get_stream c i = Some s \<and> ready s)" for i
      using d by (force simp: get_stream_def image_iff dest: map_of_SomeD)
  qed
qed

lemma h2_turn_good:
  assumes "h2_inv c" "wire_head h payload"
  shows "h2_turn max_body h payload c \<noteq> Panic"
    "h2_turn max_body h payload c = Next c' \<or> h2_turn max_body h payload c = Skip c' \<Longrightarrow> h2_inv c'"
proof -
  have "good_outcome (on_frame max_body h payload c)"
    if "unat (len h) \<le> DEFAULT_MAX_FRAME" "\<not> (c_expect c \<noteq> None \<and> (kind h \<noteq> K_CONTINUATION \<or> c_expect c \<noteq> Some (stream h)))"
    using on_frame_good [OF assms(1) _ assms(2)] that by auto
  then show "h2_turn max_body h payload c \<noteq> Panic"
    "h2_turn max_body h payload c = Next c' \<or> h2_turn max_body h payload c = Skip c' \<Longrightarrow> h2_inv c'"
    by (cases "on_frame max_body h payload c"; auto simp: h2_turn_def not_less dispatch_inv split: if_splits)+
qed

section \<open>The connection as an invariant system\<close>

text \<open>A DATA frame is at most as long as both windows and the frame limit of the peer allow.\<close>

lemma pump_turn_Pumped:
  assumes "pump_turn i data off c = Pumped c' n"
  obtains s where "get_stream c i = Some s" "0 < n" "off + n \<le> length data"
    "int n \<le> c_conn_window c" "int n \<le> s_window s" "n \<le> c_max_frame c"
    "c' = upd_stream i (\<lambda>s. s\<lparr>s_window := s_window s - int n\<rparr>)
      ((send (write_frame K_DATA 0 i (take n (drop off data))) c)\<lparr>c_conn_window := c_conn_window c - int n\<rparr>)"
    | "c_max_frame c = 0"
proof -
  from assms obtain s where s: "get_stream c i = Some s" by (cases "get_stream c i") (auto simp: pump_turn_def)
  define allowed where "allowed = nat (max (min (c_conn_window c) (s_window s)) 0)"
  have go: "off < length data" "allowed \<noteq> 0"
    using assms s by (simp_all add: pump_turn_def Let_def allowed_def [symmetric] split: if_splits)
  have n: "n = min (min allowed (c_max_frame c)) (length data - off)" and
    c': "c' = upd_stream i (\<lambda>s. s\<lparr>s_window := s_window s - int n\<rparr>)
      ((send (write_frame K_DATA 0 i (take n (drop off data))) c)\<lparr>c_conn_window := c_conn_window c - int n\<rparr>)"
    using assms s by (auto simp: pump_turn_def Let_def allowed_def [symmetric] split: if_splits)
  have "int allowed = min (c_conn_window c) (s_window s)" using go(2) by (simp add: allowed_def)
  then have "int allowed \<le> c_conn_window c" "int allowed \<le> s_window s" by simp_all
  moreover have "n \<le> allowed" "n \<le> c_max_frame c" "n \<le> length data - off" using n by simp_all
  ultimately show thesis using that s c' go n by (cases "c_max_frame c = 0") (simp_all, linarith)
qed

lemma pump_turn_inv:
  assumes "h2_inv c" "pump_turn i data off c = Pumped c' n"
  shows "h2_inv c'"
proof -
  have "c_max_frame c \<noteq> 0" using assms(1) by (simp add: h2_inv_def h2_pre_def windows_ok_def)
  with assms(2) obtain s where s: "get_stream c i = Some s" and
    n: "int n \<le> c_conn_window c" "int n \<le> s_window s" "n \<le> c_max_frame c" and
    c': "c' = upd_stream i (\<lambda>s. s\<lparr>s_window := s_window s - int n\<rparr>)
      ((send (write_frame K_DATA 0 i (take n (drop off data))) c)\<lparr>c_conn_window := c_conn_window c - int n\<rparr>)"
    by (elim pump_turn_Pumped) auto
  define c1 where "c1 = send (write_frame K_DATA 0 i (take n (drop off data))) c"
  have ok: "stream_ok c i s" "windows_ok c" "h2_pre c" using assms(1) s by (simp_all add: h2_inv_def h2_pre_def)
  have "length (take n (drop off data)) < 2 ^ 24" using n(3) ok(2) by (simp add: windows_ok_def min_def)
  then have "h2_inv c1" unfolding c1_def
    using ok(1) by (intro send_inv [OF assms(1)] frame_sentI) (auto simp: stream_ok_def)
  moreover have "windows_ok (c1\<lparr>c_conn_window := c_conn_window c - int n\<rparr>)"
    using ok(2) n(1) by (simp add: windows_ok_def c1_def)
  ultimately have c2: "h2_pre (c1\<lparr>c_conn_window := c_conn_window c - int n\<rparr>)" "no_ready c1"
    using windows_pre [of c1] by (simp_all add: h2_inv_def)
  have "h2_pre c'" unfolding c' c1_def [symmetric]
    by (rule upd_stream_pre [OF c2(1)]) (use s n(2) ok(2) in \<open>auto simp: stream_ok_def c1_def windows_ok_def abs_le_iff\<close>)
  moreover have "no_ready c'" unfolding c' c1_def [symmetric]
    by (rule no_ready_upd) (use c2(2) in \<open>auto simp: no_ready_def ready_def\<close>)
  ultimately show ?thesis by (simp add: h2_inv_def)
qed

lemma h2_close_inv: "h2_inv c \<Longrightarrow> length w < 2 ^ 16 \<Longrightarrow> h2_inv (h2_close k w c)"
proof -
  assume "h2_inv c" "length w < 2 ^ 16"
  then have "h2_inv (send (goaway (c_last c) k w) c)"
    by (intro send_inv) (auto simp: goaway_def intro!: frame_sentI)
  then show ?thesis
    by (simp add: h2_close_def h2_inv_def h2_pre_def no_ready_def stream_ok_def active_count_def spawned_ok_def
        windows_ok_def out_ok_def)
qed

text \<open>The reasons given in GOAWAY are short fixed strings.\<close>

fun short_reason :: "outcome \<Rightarrow> bool" where
  "short_reason (Fail k w) = (length w \<le> 64)"
| "short_reason _ = True"

lemma finish_block_reason: "finish_block i c = Inl (k, w) \<Longrightarrow> length w \<le> 64"
  by (auto simp: finish_block_def Let_def split: option.splits prod.splits sum.splits hpack_error.splits if_splits)

lemma settings_loop_reason: "settings_loop p c = Inl (k, w) \<Longrightarrow> length w \<le> 64"
  by (induction p c rule: settings_loop.induct) (auto simp: Let_def split: if_splits)

lemma handler_reasons:
  "short_reason (on_data max_body h payload c)" "short_reason (on_headers h payload c)"
  "short_reason (on_continuation h payload c)" "short_reason (on_priority h payload c)"
  "short_reason (on_rst h c)" "short_reason (on_settings h payload c)"
  "short_reason (on_ping h payload c)" "short_reason (on_window_update h payload c)"
proof -
  have e: "short_reason (end_block h c)" for c
    by (auto simp: end_block_def split: sum.split dest: finish_block_reason)
  show "short_reason (on_data max_body h payload c)"
    by (simp add: on_data_def Let_def split: option.split st_where.split)
  show "short_reason (on_headers h payload c)"
    by (simp add: on_headers_def headers_block_def open_trailers_def open_stream_def Let_def e
        split: option.split st_where.split)
  show "short_reason (on_continuation h payload c)"
    by (auto simp: on_continuation_def Let_def split: option.split sum.split dest: finish_block_reason)
  show "short_reason (on_settings h payload c)"
    by (auto simp: on_settings_def Let_def split: sum.split dest: settings_loop_reason)
  show "short_reason (on_priority h payload c)" "short_reason (on_rst h c)" "short_reason (on_ping h payload c)"
    by (simp_all add: on_priority_def on_rst_def on_ping_def)
  show "short_reason (on_window_update h payload c)"
    by (simp add: on_window_update_def Let_def split: option.split)
qed

lemma fail_message_short: "h2_turn max_body h payload c = Fail k w \<Longrightarrow> length w < 2 ^ 16"
proof -
  assume "h2_turn max_body h payload c = Fail k w"
  moreover have "short_reason (on_frame max_body h payload c)"
    using handler_reasons by (simp add: on_frame_def)
  ultimately have "length w \<le> 64"
    by (cases "on_frame max_body h payload c") (auto simp: h2_turn_def split: if_splits)
  then show ?thesis by simp
qed

lemma h2_init_inv: "h2_inv h2_init"
proof -
  have "out_ok h2_init"
    unfolding out_ok_def h2_init_def
    by (auto simp: settings_frame_def window_update_def no_stream_credit_def
        intro!: exI [of _ "[(K_SETTINGS, 0, 0, concat (map (\<lambda>(i, v). to_be16 i @ to_be32 v) [(3, 128), (4, 1048576), (2, 0), (6, 65536)])),
          (K_WINDOW_UPDATE, 0, 0, to_be32 983041)]"])
  then show ?thesis
    by (simp add: h2_inv_def h2_pre_def no_ready_def get_stream_def active_count_def spawned_ok_def windows_ok_def
        decoder_inv_def decoder_new_def h2_init_def)
qed

lemma h2_step_inv: "h2_step max_body c c' \<Longrightarrow> h2_inv c \<Longrightarrow> h2_inv c'"
proof (induction rule: h2_step.induct)
  case (Frame c h payload c')
  then show ?case using h2_turn_good(2) by blast
next
  case (Fatal c h payload k w)
  then show ?case using h2_close_inv fail_message_short by blast
next
  case (PeerDone c)
  then show ?case by (simp add: h2_close_inv)
next
  case (Pump c i s data off c' n)
  then show ?case using pump_turn_inv by blast
next
  case (Respond i rq c k p f)
  then show ?case by (intro send_inv frame_sentI) auto
next
  case (TaskDone c i s)
  then show ?case unfolding task_done_def h2_inv_def
    by (auto intro!: upd_stream_pre no_ready_upd simp: stream_ok_def ready_def)
qed

interpretation h2sys: invariant_system "\<lambda>c. c = h2_init" "h2_step max_body" h2_inv
  by unfold_locales (auto intro: h2_init_inv h2_step_inv)

section \<open>Cancelled requests\<close>

text \<open>A sequence of frames; \<open>None\<close> when the reader ends.\<close>

fun h2_run :: "nat \<Rightarrow> (head \<times> bytes) list \<Rightarrow> h2_conn \<Rightarrow> h2_conn option" where
  "h2_run max_body [] c = Some c"
| "h2_run max_body ((h, p) # fs) c =
    (case h2_turn max_body h p c of
       Next c \<Rightarrow> h2_run max_body fs c | Skip c \<Rightarrow> h2_run max_body fs c | _ \<Rightarrow> None)"

lemma h2_run_append:
  "h2_run m (fs @ gs) c = (case h2_run m fs c of None \<Rightarrow> None | Some c \<Rightarrow> h2_run m gs c)"
  by (induction fs arbitrary: c) (auto split: outcome.split)

text \<open>A request that is opened and cancelled by the client before it is complete.\<close>

definition cancelled_request :: "u32 \<Rightarrow> (head \<times> bytes) list" where
  "cancelled_request i =
     [(\<lparr>len = 0, kind = K_HEADERS, flags = F_END_HEADERS, stream = i\<rparr>, []),
      (\<lparr>len = 4, kind = K_RST_STREAM, flags = 0, stream = i\<rparr>, to_be32 (code_u32 Cancel))]"

definition client_id :: "nat \<Rightarrow> u32" where
  "client_id k = of_nat (2 * k + 1)"

lemma unat_client_id: "k < 2 ^ 30 \<Longrightarrow> unat (client_id k) = 2 * k + 1"
  by (simp add: client_id_def unsigned_of_nat take_bit_nat_eq_self del: of_nat_Suc of_nat_add)

definition leftover :: "nat \<Rightarrow> h2_conn \<Rightarrow> bool" where
  "leftover n c \<longleftrightarrow> c_expect c = None \<and> length (c_streams c) = n \<and> unat (c_highest c) < 2 * n + 1 \<and>
     (\<forall>(i, s) \<in> set (c_streams c). i \<le> c_highest c \<and> s_state s = ResetSt \<and> \<not> s_dispatched s \<and> \<not> s_done s)"

lemma leftover_pruned: "leftover n c \<Longrightarrow> c_streams (pruned i c) = c_streams c \<and> active_count (pruned i c) = n"
  by (auto simp: leftover_def pruned_def active_count_def filter_id_conv intro!: arg_cong [of _ _ length])

lemma leftover_fresh: "leftover n c \<Longrightarrow> c_highest c < i \<Longrightarrow> state_of c i = WIdle \<and> i \<notin> fst ` set (c_streams c)"
proof -
  assume l: "leftover n c" and i: "c_highest c < i"
  then have "i \<notin> fst ` set (c_streams c)" by (auto simp: leftover_def)
  then have "get_stream c i = None" by (simp add: get_stream_def map_of_eq_None_iff)
  with i \<open>i \<notin> _\<close> show ?thesis by (simp add: state_of_def)
qed

lemma dispatch_none: "(\<forall>(i, s) \<in> set (c_streams c). \<not> ready s) \<Longrightarrow> dispatch c = c"
proof -
  assume "\<forall>(i, s) \<in> set (c_streams c). \<not> ready s"
  then have "filter (\<lambda>(_, s). ready s) (c_streams c) = []" by (auto simp: filter_empty_conv)
  then show ?thesis by (simp add: dispatch_def)
qed

lemma upd_absent: "i \<notin> fst ` set xs \<Longrightarrow> map (\<lambda>(j, s). (j, if j = i then f s else s)) xs = xs"
  by (induction xs) auto

text \<open>An empty header block decodes to no headers and leaves the decoder alone.\<close>

definition empty_block_done :: "h2_stream \<Rightarrow> h2_stream" where
  "empty_block_done s = s\<lparr>s_pending := [], s_content_length := None, s_headers := [], s_headers_done := True\<rparr>"

lemma finish_empty_block:
  assumes "get_stream c i = Some s" "s_pending s = []" "\<not> s_trailers s"
  shows "finish_block i c = Inr (upd_stream i empty_block_done c)"
proof -
  have "hpack_decode d [] n = (d, Inr [])" for d n by (simp add: hpack_decode_def)
  moreover have "upd_stream i f (upd_stream i g c) = upd_stream i (\<lambda>s. f (g s)) c" for f g
    by (simp add: upd_stream_def comp_def split_def)
  ultimately show ?thesis
    using assms by (simp add: finish_block_def Let_def empty_block_done_def [abs_def])
qed

lemma cancel_one:
  assumes "leftover n c" "n < MAX_CONCURRENT"
  shows "\<exists>c'. h2_run max_body (cancelled_request (client_id n)) c = Some c' \<and> leftover (Suc n) c'"
proof -
  define i where "i = client_id n"
  have ui: "unat i = 2 * n + 1" using assms(2) by (simp add: i_def unat_client_id)
  have i0: "i \<noteq> 0" using ui by auto
  have "unat (i mod 2) = 1" using ui by (simp add: unat_mod)
  then have odd: "i mod 2 \<noteq> 0" by (metis unsigned_0 zero_neq_one)
  have high: "c_highest c < i" using assms(1) ui by (simp add: leftover_def word_less_nat_alt)
  note fresh = leftover_fresh [OF assms(1) high] and kept = leftover_pruned [OF assms(1), of i]
  define s0 where "s0 = (stream_new (c_peer_window c))\<lparr>s_state := Open, s_pending := []\<rparr>"
  define s1 where "s1 = empty_block_done s0"
  define c1 where "c1 = upd_stream i empty_block_done (put_stream i s0 (pruned i c))"
  note s_defs = s1_def s0_def empty_block_done_def stream_new_def
  have get1: "get_stream c1 i = Some s1" by (simp add: c1_def s1_def)
  have "filter (\<lambda>(j, _). j \<noteq> i) (c_streams c) = c_streams c"
    using fresh by (force simp: filter_id_conv)
  then have list1: "c_streams c1 = (i, s1) # c_streams c"
    using fresh kept by (simp add: c1_def s1_def upd_stream_def put_stream_def upd_absent)
  have "finish_block i (put_stream i s0 (pruned i c)) = Inr c1"
    unfolding c1_def by (rule finish_empty_block [of _ _ s0]) (simp_all add: s0_def stream_new_def)
  then have "on_headers \<lparr>len = 0, kind = K_HEADERS, flags = F_END_HEADERS, stream = i\<rparr> [] c = Next c1"
    using i0 odd fresh high kept assms(2)
    by (simp add: on_headers_def unpad_def has_def headers_block_def open_stream_def Let_def end_block_def
        s0_def [symmetric])
  moreover have "dispatch c1 = c1"
    using assms(1) by (intro dispatch_none) (auto simp: list1 s_defs ready_def leftover_def)
  ultimately have t1: "h2_turn max_body \<lparr>len = 0, kind = K_HEADERS, flags = F_END_HEADERS, stream = i\<rparr> [] c = Next c1"
    using assms(1) by (simp add: h2_turn_def on_frame_def leftover_def)
  define c2 where "c2 = upd_stream i (\<lambda>s. s\<lparr>s_state := ResetSt, s_reset := True\<rparr>) c1"
  have list2: "c_streams c2 = (i, s1\<lparr>s_state := ResetSt, s_reset := True\<rparr>) # c_streams c"
    using fresh by (simp add: c2_def upd_stream_def list1 upd_absent)
  have exp1: "c_expect c1 = None" "c_highest c1 = i" using assms(1) by (simp_all add: c1_def leftover_def)
  have "state_of c1 i \<noteq> WIdle" using get1 by (simp add: state_of_def s_defs)
  moreover have "dispatch c2 = c2"
    using assms(1) by (intro dispatch_none) (auto simp: list2 ready_def leftover_def)
  ultimately have t2: "h2_turn max_body \<lparr>len = 4, kind = K_RST_STREAM, flags = 0, stream = i\<rparr> p c1 = Next c2" for p
    using i0 exp1 by (simp add: h2_turn_def on_frame_def on_rst_def c2_def)
  have "c_expect c2 = None" "c_highest c2 = i" using exp1 by (simp_all add: c2_def)
  then have "leftover (Suc n) c2"
    using assms(1) ui high
    by (auto simp: leftover_def list2 s_defs intro: order.trans [of _ "c_highest c" i])
  with t1 t2 show ?thesis by (simp add: cancelled_request_def i_def [symmetric])
qed

lemma cancel_many:
  "n \<le> MAX_CONCURRENT \<Longrightarrow>
     \<exists>c. h2_run max_body (concat (map (\<lambda>k. cancelled_request (client_id k)) [0..<n])) h2_init = Some c \<and> leftover n c"
proof (induction n)
  case 0
  then show ?case by (simp add: leftover_def h2_init_def)
next
  case (Suc n)
  then obtain c where "h2_run max_body (concat (map (\<lambda>k. cancelled_request (client_id k)) [0..<n])) h2_init = Some c"
    "leftover n c" by auto
  with cancel_one [of n c max_body] Suc.prems show ?case by (auto simp: h2_run_append)
qed

lemma refuse_when_full:
  assumes "leftover n c" "MAX_CONCURRENT \<le> n" "c_highest c < stream h" "stream h mod 2 \<noteq> 0"
    and "kind h = K_HEADERS" "\<not> has h F_PADDED" "\<not> has h F_PRIORITY" "unat (len h) \<le> DEFAULT_MAX_FRAME"
  shows "\<exists>c'. h2_turn max_body h payload c = Next c' \<and> leftover n c' = leftover n (pruned (stream h) c) \<and>
    c_out c' = c_out c @ [rst (stream h) RefusedStream] \<and> c_dec c' = c_dec c"
proof -
  note kept = leftover_pruned [OF assms(1), of "stream h"]
  define c1 where "c1 = send (rst (stream h) RefusedStream) (pruned (stream h) c)"
  have "stream h \<noteq> 0" using assms(4) by auto
  then have "on_headers h payload c = Next c1"
    using assms leftover_fresh [OF assms(1,3)] kept
    by (simp add: on_headers_def unpad_def headers_block_def open_stream_def Let_def c1_def)
  moreover have "dispatch c1 = c1"
    using assms(1) kept by (intro dispatch_none) (auto simp: c1_def ready_def leftover_def)
  ultimately have "h2_turn max_body h payload c = Next c1"
    using assms(1,5,8) by (simp add: h2_turn_def on_frame_def leftover_def)
  moreover have "leftover n c1 = leftover n (pruned (stream h) c)" by (simp add: c1_def leftover_def)
  ultimately show ?thesis by (simp add: c1_def)
qed

section \<open>Properties\<close>

text \<open>A connection on which one request without a body has arrived, for the examples.\<close>

definition demo_head :: head where
  "demo_head = \<lparr>len = 0, kind = K_HEADERS, flags = F_END_HEADERS OR F_END_STREAM, stream = 1\<rparr>"

definition demo_stream :: h2_stream where
  "demo_stream = (stream_new 65535)\<lparr>s_state := HalfClosedRemote, s_headers_done := True, s_dispatched := True\<rparr>"

definition demo_conn :: h2_conn where
  "demo_conn = h2_init\<lparr>c_highest := 1, c_last := 1, c_streams := [(1, demo_stream)], c_spawned := [(1, [], [])]\<rparr>"

lemma demo_turn: "h2_turn 1000 demo_head [] h2_init = Next demo_conn"
proof -
  define s0 where "s0 = (stream_new 65535)\<lparr>s_state := HalfClosedRemote, s_pending := []\<rparr>"
  have "finish_block 1 (put_stream 1 s0 (pruned 1 h2_init)) =
      Inr (upd_stream 1 empty_block_done (put_stream 1 s0 (pruned 1 h2_init)))"
    by (rule finish_empty_block [of _ _ s0]) (simp_all add: s0_def stream_new_def)
  moreover have "end_block demo_head c = (case finish_block 1 c of Inl (k, w) \<Rightarrow> Fail k w | Inr c \<Rightarrow> Next c)" for c
    by (simp add: end_block_def demo_head_def has_def)
  moreover have "active_count (pruned 1 h2_init) = 0" "c_peer_window h2_init = 65535" "c_highest h2_init = 0"
    by (simp_all add: active_count_def pruned_def h2_init_def)
  ultimately have "open_stream demo_head [] h2_init = Next (upd_stream 1 empty_block_done (put_stream 1 s0 (pruned 1 h2_init)))"
    by (simp add: open_stream_def demo_head_def has_def s0_def)
  moreover have "state_of h2_init 1 = WIdle" by (simp add: state_of_def get_stream_def h2_init_def)
  ultimately have "on_headers demo_head [] h2_init = Next (upd_stream 1 empty_block_done (put_stream 1 s0 (pruned 1 h2_init)))"
    by (simp add: on_headers_def demo_head_def has_def unpad_def headers_block_def)
  then have "h2_turn 1000 demo_head [] h2_init =
      Next (dispatch (upd_stream 1 empty_block_done (put_stream 1 s0 (pruned 1 h2_init))))"
    by (simp add: h2_turn_def on_frame_def demo_head_def) (simp add: h2_init_def)
  also have "dispatch (upd_stream 1 empty_block_done (put_stream 1 s0 (pruned 1 h2_init))) = demo_conn"
    by (simp add: dispatch_def dispatch_one_def ready_def empty_block_done_def s0_def stream_new_def demo_conn_def
        demo_stream_def h2_init_def pruned_def put_stream_def upd_stream_def get_stream_def)
  finally show ?thesis .
qed

lemma demo_facts:
  "map fst (c_spawned demo_conn) = [1]" "get_stream demo_conn 1 = Some demo_stream" "s_window demo_stream = 65535"
  "c_out demo_conn = c_out h2_init" "c_out h2_init \<noteq> []"
  "\<exists>c' n. pump_turn 1 [1, 2, 3] 0 demo_conn = Pumped c' n"
  by (simp_all add: demo_conn_def demo_stream_def h2_init_def get_stream_def stream_new_def pump_turn_def)

lemma demo_reachable: "reachable (\<lambda>c. c = h2_init) (h2_step 1000) demo_conn"
proof (rule reach_step)
  show "reachable (\<lambda>c. c = h2_init) (h2_step 1000) h2_init" by (rule reach_init) simp
  show "h2_step 1000 h2_init demo_conn"
  proof (rule h2_step.Frame)
    show "\<not> c_closed h2_init" by (simp add: h2_init_def)
    show "wire_head demo_head []" by (simp add: wire_head_def demo_head_def)
    show "h2_turn 1000 demo_head [] h2_init = Next demo_conn \<or> h2_turn 1000 demo_head [] h2_init = Skip demo_conn"
      by (simp add: demo_turn)
  qed
qed

text \<open>C22.
  Whatever a client sends and however the stream tasks interleave, the reader never takes a branch
  that its \<^verbatim>\<open>expect\<close> calls rule out, at most 128 streams are unfinished, and the header table
  stays within its limit.
\<close>
theorem h2_reader_safe:
  assumes "reachable (\<lambda>c. c = h2_init) (h2_step max_body) c" "wire_head h payload"
  shows "h2_turn max_body h payload c \<noteq> Panic \<and> active_count c \<le> MAX_CONCURRENT \<and>
    table_size (c_dec c) \<le> max_size (c_dec c)"
  using h2sys.reachable_inv [OF assms(1)] h2_turn_good(1) [OF _ assms(2)]
  by (auto simp: h2_inv_def h2_pre_def decoder_inv_def)

theorem h2_reader_safe_witness:
  "h2_turn 1000 \<lparr>len = 0, kind = K_CONTINUATION, flags = 0, stream = 1\<rparr> [] h2_init \<noteq> Panic"
  using h2_reader_safe [of 1000 h2_init "\<lparr>len = 0, kind = K_CONTINUATION, flags = 0, stream = 1\<rparr>" "[]"]
  by (simp add: wire_head_def reach_init)

text \<open>C9.
  No request is handed to the handlers twice, and a request whose first \<^verbatim>\<open>content-length\<close> is a
  number is handed over only with a body of that length.
\<close>
theorem h2_dispatch_once:
  assumes "reachable (\<lambda>c. c = h2_init) (h2_step max_body) c"
  shows "distinct (map fst (c_spawned c)) \<and>
    (\<forall>(i, hs, body) \<in> set (c_spawned c). declared_length hs = None \<or> declared_length hs = Some (length body))"
  using h2sys.reachable_inv [OF assms] by (auto simp: h2_inv_def h2_pre_def spawned_ok_def)

theorem h2_dispatch_once_witness:
  "map fst (c_spawned demo_conn) = [1] \<and> distinct (map fst (c_spawned demo_conn))"
  using h2_dispatch_once [OF demo_reachable] demo_facts by simp

text \<open>C10.
  Flow control. The connection window stays between 0 and \<open>2 ^ 31 - 1\<close> and every stream window
  between \<open>- (2 ^ 32)\<close> and \<open>2 ^ 32\<close>, so that no addition on them overflows; a DATA frame is never longer
  than either window or the peer's frame limit, and it is charged to both.
\<close>
theorem h2_flow_control:
  assumes "reachable (\<lambda>c. c = h2_init) (h2_step max_body) c" "get_stream c i = Some s"
  shows "0 \<le> c_conn_window c \<and> c_conn_window c \<le> MAX_WINDOW \<and> \<bar>s_window s\<bar> < 2 ^ 32 \<and>
    (\<forall>data off c' n. pump_turn i data off c = Pumped c' n \<longrightarrow>
       0 < n \<and> n \<le> c_max_frame c \<and> int n \<le> c_conn_window c \<and> int n \<le> s_window s \<and>
       c_conn_window c' = c_conn_window c - int n \<and> map_option s_window (get_stream c' i) = Some (s_window s - int n))"
proof -
  have inv: "stream_ok c i s" "windows_ok c"
    using h2sys.reachable_inv [OF assms(1)] assms(2) by (auto simp: h2_inv_def h2_pre_def)
  have "0 < n \<and> n \<le> c_max_frame c \<and> int n \<le> c_conn_window c \<and> int n \<le> s_window s \<and>
       c_conn_window c' = c_conn_window c - int n \<and> map_option s_window (get_stream c' i) = Some (s_window s - int n)"
    if "pump_turn i data off c = Pumped c' n" for data off c' n
    using that
  proof (cases rule: pump_turn_Pumped)
    case (1 s')
    then show ?thesis using assms(2) by simp
  next
    case 2
    then show ?thesis using inv(2) by (simp add: windows_ok_def)
  qed
  then show ?thesis using inv by (auto simp: stream_ok_def windows_ok_def abs_le_iff abs_less_iff)
qed

theorem h2_flow_control_witness: "\<exists>c' n. pump_turn 1 [1, 2, 3] 0 demo_conn = Pumped c' n \<and> n \<le> 65535"
proof -
  obtain c' n where p: "pump_turn 1 [1, 2, 3] 0 demo_conn = Pumped c' n" using demo_facts(6) by blast
  with h2_flow_control [OF demo_reachable demo_facts(2)] demo_facts(3) show ?thesis by fastforce
qed

text \<open>C40.
  The server never returns flow-control credit to a single stream: in everything a connection has ever sent, a WINDOW_UPDATE is one
  for the connection. The credit a client has for the body of one request stays the initial window of the settings,
  whatever \<^verbatim>\<open>client_max_body_size\<close> allows.
\<close>
theorem h2_no_stream_credit:
  assumes "reachable (\<lambda>c. c = h2_init) (h2_step max_body) c" "b \<in> set (c_out c)"
  shows "\<exists>fs. b = concat (map (\<lambda>(k, f, i, p). write_frame k f i p) fs) \<and>
    list_all (\<lambda>(k, f, i, p). frame_ok (k, f, i, p) \<and> (k = K_WINDOW_UPDATE \<longrightarrow> i = 0)) fs"
  using h2sys.reachable_inv [OF assms(1)] assms(2)
  by (fastforce simp: h2_inv_def h2_pre_def out_ok_def no_stream_credit_def list_all_iff)

theorem h2_no_stream_credit_witness:
  "\<exists>fs. hd (c_out demo_conn) = concat (map (\<lambda>(k, f, i, p). write_frame k f i p) fs) \<and>
     list_all (\<lambda>(k, f, i, p). frame_ok (k, f, i, p) \<and> (k = K_WINDOW_UPDATE \<longrightarrow> i = 0)) fs"
proof -
  have "hd (c_out demo_conn) \<in> set (c_out demo_conn)" using demo_facts(4,5) by simp
  from h2_no_stream_credit [OF demo_reachable this] show ?thesis .
qed

text \<open>
  A stream that the client opens and resets before its request is complete stays counted as
  active. After 128 of them the connection refuses every further request, and the refused header
  block is not run through the header decoder.
\<close>
theorem h2_cancelled_requests_wedge:
  shows "\<exists>c. h2_run max_body (concat (map (\<lambda>k. cancelled_request (client_id k)) [0..<MAX_CONCURRENT])) h2_init = Some c \<and>
    (\<forall>h payload. kind h = K_HEADERS \<and> c_highest c < stream h \<and> stream h mod 2 \<noteq> 0 \<and> \<not> has h F_PADDED \<and>
       \<not> has h F_PRIORITY \<and> unat (len h) \<le> DEFAULT_MAX_FRAME \<longrightarrow>
       (\<exists>c'. h2_turn max_body h payload c = Next c' \<and>
          c_out c' = c_out c @ [rst (stream h) RefusedStream] \<and> c_dec c' = c_dec c))"
proof -
  obtain c where "h2_run max_body (concat (map (\<lambda>k. cancelled_request (client_id k)) [0..<MAX_CONCURRENT])) h2_init = Some c"
    "leftover MAX_CONCURRENT c" using cancel_many [of MAX_CONCURRENT max_body] by blast
  then show ?thesis using refuse_when_full [of MAX_CONCURRENT c] by (intro exI [of _ c]) blast
qed

theorem h2_cancelled_requests_wedge_witness:
  "\<exists>c. h2_run 1000 (concat (map (\<lambda>k. cancelled_request (client_id k)) [0..<MAX_CONCURRENT])) h2_init = Some c"
  using h2_cancelled_requests_wedge [of 1000] by blast

text \<open>
  The limit of the server's own header table is whatever the client last asked for: a SETTINGS
  frame with \<^verbatim>\<open>HEADER_TABLE_SIZE\<close> sets it, up to \<open>2 ^ 32 - 1\<close> bytes.
\<close>
theorem h2_peer_sets_table_limit:
  assumes "c_expect c = None" "no_ready c" "distinct (map fst (c_streams c))"
  shows "\<exists>c'. h2_turn max_body \<lparr>len = 6, kind = K_SETTINGS, flags = 0, stream = 0\<rparr> (to_be16 1 @ to_be32 v) c = Next c' \<and>
    settings_max (c_dec c') = unat v"
proof -
  have run: "settings_loop (to_be16 1 @ to_be32 v) c = Inr (c\<lparr>c_dec := set_max_size (c_dec c) (unat v)\<rparr>)"
    using from_be16_to_be16 [of 1] from_be32_to_be32 [of v] by (simp add: to_be16_def to_be32_def Let_def)
  define c1 where "c1 = send settings_ack (c\<lparr>c_dec := set_max_size (c_dec c) (unat v)\<rparr>)"
  have ids: "map (\<lambda>(i, s). (i, s\<lparr>s_window := s_window s\<rparr>)) xs = xs" for xs :: "(u32 \<times> h2_stream) list"
    by (induction xs) auto
  have "on_settings \<lparr>len = 6, kind = K_SETTINGS, flags = 0, stream = 0\<rparr> (to_be16 1 @ to_be32 v) c = Next c1"
    using run ids by (simp add: on_settings_def has_def Let_def c1_def)
  moreover have "dispatch c1 = c1"
    using assms(2,3) by (intro dispatch_none) (auto simp: c1_def no_ready_def get_stream_def)
  ultimately have "h2_turn max_body \<lparr>len = 6, kind = K_SETTINGS, flags = 0, stream = 0\<rparr> (to_be16 1 @ to_be32 v) c = Next c1"
    using assms(1) by (simp add: h2_turn_def on_frame_def)
  moreover have "settings_max (c_dec c1) = unat v" by (simp add: c1_def set_max_size_def Let_def)
  ultimately show ?thesis by blast
qed

theorem h2_peer_sets_table_limit_witness:
  "\<exists>c'. h2_turn 1000 \<lparr>len = 6, kind = K_SETTINGS, flags = 0, stream = 0\<rparr> (to_be16 1 @ to_be32 0xffffffff) h2_init = Next c' \<and>
     settings_max (c_dec c') = 4294967295"
  using h2_peer_sets_table_limit [of h2_init 1000 "0xffffffff"]
  by (simp add: h2_init_def no_ready_def get_stream_def)

end
