(* ===== verification/Routing.thy ===== *)
theory Routing
  imports Prelude "HOL-Library.List_Lexorder"
begin

text \<open>
  Choice of the server and of the location (\<^verbatim>\<open>src/config/model.rs\<close>, with the construction of the
  location set and of the server names from \<^verbatim>\<open>src/config/build.rs\<close> and the descent into nested
  locations from \<^verbatim>\<open>src/server/handler.rs\<close>). Regular expressions are those of the \<^verbatim>\<open>regex\<close>
  crate: a type \<open>'r\<close> with \<open>captures\<close> as a parameter. Of a location and a server only what the search looks
  at is kept, with the line it was written on.
\<close>

section \<open>Definitions\<close>

datatype 'r loc_match =
    LExact bytes | LPrefix bytes | LPrefixNoRegex bytes | LRegex 'r bool | LNamed bytes

fun loc_prefix :: "'r loc_match \<Rightarrow> bytes option" where
  "loc_prefix (LExact p) = Some p"
| "loc_prefix (LPrefix p) = Some p"
| "loc_prefix (LPrefixNoRegex p) = Some p"
| "loc_prefix _ = None"

datatype 'r location = Location (matcher: "'r loc_match") (raw_line: nat) (nested: "'r loc_set option")
  and 'r loc_set = LocSet (exact: "'r location list") (prefixes: "'r location list")
    (regexes: "'r location list") (named_locs: "(bytes \<times> 'r location) list")

definition prefix_or_empty :: "'r location \<Rightarrow> bytes" where
  "prefix_or_empty l = (case loc_prefix (matcher l) of Some p \<Rightarrow> p | None \<Rightarrow> [])"

text \<open>\<^verbatim>\<open>slice::binary_search_by\<close>: halve until one candidate is left, then compare it.\<close>

function bsearch_base :: "(nat \<Rightarrow> bool) \<Rightarrow> nat \<Rightarrow> nat \<Rightarrow> nat" where
  "bsearch_base gt base sz =
    (if sz \<le> 1 then base
     else (let half = sz div 2; mid = base + half
           in bsearch_base gt (if gt mid then base else mid) (sz - half)))"
  by pat_completeness auto
termination
  by (relation "measure (\<lambda>(_, _, sz). sz)") auto

declare bsearch_base.simps [simp del]

definition binary_search :: "('a \<Rightarrow> bytes) \<Rightarrow> 'a list \<Rightarrow> bytes \<Rightarrow> nat option" where
  "binary_search key xs v =
    (if xs = [] then None
     else (let i = bsearch_base (\<lambda>i. v < key (xs ! i)) 0 (length xs)
           in if key (xs ! i) = v then Some i else None))"

fun find_regex :: "('r \<Rightarrow> bytes \<Rightarrow> bytes list option) \<Rightarrow> bytes \<Rightarrow> 'r location list \<Rightarrow> ('r location \<times> bytes list option) option" where
  "find_regex captures uri [] = None"
| "find_regex captures uri (l # ls) =
    (case matcher l of
       LRegex re _ \<Rightarrow> (case captures re uri of Some c \<Rightarrow> Some (l, Some c) | None \<Rightarrow> find_regex captures uri ls)
     | _ \<Rightarrow> find_regex captures uri ls)"

definition starts_with :: "bytes \<Rightarrow> bytes \<Rightarrow> bool" where
  "starts_with s p \<longleftrightarrow> take (length p) s = p"

fun is_no_regex :: "'r loc_match \<Rightarrow> bool" where
  "is_no_regex (LPrefixNoRegex p) = True"
| "is_no_regex _ = False"

definition loc_find :: "('r \<Rightarrow> bytes \<Rightarrow> bytes list option) \<Rightarrow> 'r loc_set \<Rightarrow> bytes \<Rightarrow> ('r location \<times> bytes list option) option" where
  "loc_find captures s uri =
    (case binary_search prefix_or_empty (exact s) uri of
       Some i \<Rightarrow> Some (exact s ! i, None)
     | None \<Rightarrow>
        (let best_prefix = find (\<lambda>l. starts_with uri (prefix_or_empty l)) (prefixes s)
         in if (case best_prefix of Some l \<Rightarrow> is_no_regex (matcher l) | None \<Rightarrow> False)
            then map_option (\<lambda>l. (l, None)) best_prefix
            else (case find_regex captures uri (regexes s) of
                    Some r \<Rightarrow> Some r
                  | None \<Rightarrow> map_option (\<lambda>l. (l, None)) best_prefix)))"

text \<open>The location set of a block: sorted into groups, the sorts being stable.\<close>

fun is_exact :: "'r loc_match \<Rightarrow> bool" where "is_exact (LExact _) = True" | "is_exact _ = False"
fun is_prefix :: "'r loc_match \<Rightarrow> bool" where
  "is_prefix (LPrefix _) = True" | "is_prefix (LPrefixNoRegex _) = True" | "is_prefix _ = False"
fun is_regex :: "'r loc_match \<Rightarrow> bool" where "is_regex (LRegex _ _) = True" | "is_regex _ = False"

definition sorted_loc_set :: "'r location list \<Rightarrow> 'r loc_set" where
  "sorted_loc_set ls = LocSet
     (sort_key prefix_or_empty (filter (\<lambda>l. is_exact (matcher l)) ls))
     (sort_key (\<lambda>l. - int (length (prefix_or_empty l))) (filter (\<lambda>l. is_prefix (matcher l)) ls))
     (filter (\<lambda>l. is_regex (matcher l)) ls)
     (rev (List.map_filter (\<lambda>l. case matcher l of LNamed n \<Rightarrow> Some (n, l) | _ \<Rightarrow> None) ls))"

text \<open>The descent into nested locations; captures of the innermost regex win.\<close>

lemma size_find_regex: "find_regex cs uri ls = Some (l, c) \<Longrightarrow> l \<in> set ls"
  by (induction ls) (auto split: loc_match.splits option.splits)

lemma bsearch_base_less: "base + sz \<le> n \<Longrightarrow> 0 < sz \<Longrightarrow> bsearch_base g base sz < n"
proof (induction g base sz rule: bsearch_base.induct)
  case (1 g base sz)
  show ?case
  proof (cases "sz \<le> 1")
    case True
    with "1.prems" show ?thesis by (simp add: bsearch_base.simps)
  next
    case False
    then have "(if g (base + sz div 2) then base else base + sz div 2) + (sz - sz div 2) \<le> n"
      using "1.prems" by auto
    with "1.IH" [OF False refl refl] False show ?thesis
      by (subst bsearch_base.simps) (simp add: Let_def)
  qed
qed

lemma binary_search_in: "binary_search key xs v = Some i \<Longrightarrow> i < length xs \<and> key (xs ! i) = v"
proof -
  assume found: "binary_search key xs v = Some i"
  then have "xs \<noteq> []" "i = bsearch_base (\<lambda>i. v < key (xs ! i)) 0 (length xs)" "key (xs ! i) = v"
    by (auto simp: binary_search_def Let_def split: if_splits)
  then show ?thesis using bsearch_base_less [of 0 "length xs" "length xs"] by simp
qed

lemma loc_find_in:
  assumes "loc_find cs s uri = Some (l, c)"
  shows "l \<in> set (exact s) \<union> set (prefixes s) \<union> set (regexes s)"
  using assms unfolding loc_find_def Let_def
  by (auto split: option.splits if_splits dest!: binary_search_in size_find_regex simp: find_Some_iff)

function descend :: "('r \<Rightarrow> bytes \<Rightarrow> bytes list option) \<Rightarrow> bytes \<Rightarrow> 'r location \<Rightarrow> bytes list option \<Rightarrow> 'r location \<times> bytes list option" where
  "descend captures uri cur caps =
    (case nested cur of
       None \<Rightarrow> (cur, caps)
     | Some s \<Rightarrow>
        (case loc_find captures s uri of
           None \<Rightarrow> (cur, caps)
         | Some (inner, c) \<Rightarrow> descend captures uri inner (case c of Some c \<Rightarrow> Some c | None \<Rightarrow> caps)))"
  by pat_completeness auto
termination
proof (relation "measure (\<lambda>(_, _, l, _). size l)", simp)
  fix captures :: "'r \<Rightarrow> bytes \<Rightarrow> bytes list option" and uri cur caps s x inner c
  assume "nested cur = Some s" "loc_find captures s uri = Some x" "(inner, c) = x"
  then have "inner \<in> set (exact s) \<union> set (prefixes s) \<union> set (regexes s)"
    using loc_find_in [of captures s uri inner c] by simp
  then have "size inner \<le> size_list size (exact s) + size_list size (prefixes s) + size_list size (regexes s)"
    using size_list_estimation' [of inner _ "size inner" size] by (fastforce intro: trans_le_add1 trans_le_add2)
  then have "size inner < size s" by (cases s) simp
  then show "((captures, uri, inner, case c of None \<Rightarrow> caps | Some c \<Rightarrow> Some c), captures, uri, cur, caps)
      \<in> measure (\<lambda>(_, _, l, _). size l)"
    using \<open>nested cur = Some s\<close> by (cases cur) auto
qed

text \<open>Server names, in the forms of a \<^verbatim>\<open>server_name\<close> directive.\<close>

datatype 'r server_name =
    SExact bytes | SLeadingWildcard bytes | STrailingWildcard bytes | SRegex 'r | SEmpty

definition strip_prefix :: "bytes \<Rightarrow> bytes \<Rightarrow> bytes option" where
  "strip_prefix p s = (if starts_with s p then Some (drop (length p) s) else None)"

definition strip_suffix :: "bytes \<Rightarrow> bytes \<Rightarrow> bytes option" where
  "strip_suffix p s = map_option rev (strip_prefix (rev p) (rev s))"

definition parse_server_name :: "(bytes \<Rightarrow> bool \<Rightarrow> 'e + 'r) \<Rightarrow> bytes \<Rightarrow> 'e + 'r server_name" where
  "parse_server_name compile_regex a =
    (if a = [] \<or> a = [0x22, 0x22] then Inr SEmpty
     else case strip_prefix (bs ''~*'') a of
       Some re \<Rightarrow> (case compile_regex re True of Inl e \<Rightarrow> Inl e | Inr r \<Rightarrow> Inr (SRegex r))
     | None \<Rightarrow>
       (case strip_prefix (bs ''~'') a of
          Some re \<Rightarrow> (case compile_regex re False of Inl e \<Rightarrow> Inl e | Inr r \<Rightarrow> Inr (SRegex r))
        | None \<Rightarrow>
          (case strip_prefix (bs ''*.'') a of
             Some suffix \<Rightarrow> Inr (SLeadingWildcard suffix)
           | None \<Rightarrow>
             (case strip_suffix (bs ''.*'') a of
                Some pre \<Rightarrow> Inr (STrailingWildcard pre)
              | None \<Rightarrow> Inr (SExact (map to_ascii_lowercase a))))))"

record ('r, 's) listener =
  servers :: "('s \<times> 'r server_name list) list"
  default_server :: nat

definition lead_matches :: "bytes \<Rightarrow> bytes \<Rightarrow> bool" where
  "lead_matches host suffix \<longleftrightarrow> length suffix < length host \<and>
     host ! (length host - length suffix - 1) = 0x2E \<and>
     eq_ignore_ascii_case (drop (length host - length suffix) host) suffix"

definition trail_matches :: "bytes \<Rightarrow> bytes \<Rightarrow> bool" where
  "trail_matches host pre \<longleftrightarrow> length pre < length host \<and> host ! length pre = 0x2E \<and>
     eq_ignore_ascii_case (take (length pre) host) pre"

text \<open>The scan over all names: a direct hit returns, wildcards are remembered by length.\<close>

fun scan_names :: "bytes \<Rightarrow> ('s \<times> 'r server_name) list \<Rightarrow> (nat \<times> 's) option \<Rightarrow> (nat \<times> 's) option \<Rightarrow>
    's + (nat \<times> 's) option \<times> (nat \<times> 's) option" where
  "scan_names host [] lead trail = Inr (lead, trail)"
| "scan_names host ((s, n) # ns) lead trail =
    (case n of
       SExact e \<Rightarrow> if eq_ignore_ascii_case host e then Inl s else scan_names host ns lead trail
     | SLeadingWildcard suffix \<Rightarrow>
         scan_names host ns
           (if lead_matches host suffix \<and> (case lead of None \<Rightarrow> True | Some (l, _) \<Rightarrow> l < length suffix)
            then Some (length suffix, s) else lead) trail
     | STrailingWildcard pre \<Rightarrow>
         scan_names host ns lead
           (if trail_matches host pre \<and> (case trail of None \<Rightarrow> True | Some (l, _) \<Rightarrow> l < length pre)
            then Some (length pre, s) else trail)
     | SEmpty \<Rightarrow> if host = [] then Inl s else scan_names host ns lead trail
     | SRegex _ \<Rightarrow> scan_names host ns lead trail)"

definition all_names :: "('r, 's) listener \<Rightarrow> ('s \<times> 'r server_name) list" where
  "all_names l = concat (map (\<lambda>(s, ns). map (Pair s) ns) (servers l))"

definition trim_dots :: "bytes \<Rightarrow> bytes" where
  "trim_dots h = rev (dropWhile (\<lambda>b. b = 0x2E) (rev h))"

definition match_host :: "('r \<Rightarrow> bytes \<Rightarrow> bool) \<Rightarrow> ('r, 's) listener \<Rightarrow> bytes \<Rightarrow> 's" where
  "match_host re_match l h =
    (let host = trim_dots h
     in case scan_names host (all_names l) None None of
          Inl s \<Rightarrow> s
        | Inr (Some (_, s), _) \<Rightarrow> s
        | Inr (None, Some (_, s)) \<Rightarrow> s
        | Inr (None, None) \<Rightarrow>
            (case find (\<lambda>(s, n). case n of SRegex re \<Rightarrow> re_match re host | _ \<Rightarrow> False) (all_names l) of
               Some (s, _) \<Rightarrow> s
             | None \<Rightarrow> fst (servers l ! default_server l)))"

text \<open>Content types by extension.\<close>

definition mime_insert :: "bytes \<Rightarrow> bytes \<Rightarrow> (bytes \<rightharpoonup> bytes) \<Rightarrow> (bytes \<rightharpoonup> bytes)" where
  "mime_insert ext ty by_ext = by_ext(map to_ascii_lowercase ext \<mapsto> ty)"

definition mime_lookup :: "(bytes \<rightharpoonup> bytes) \<Rightarrow> bytes \<Rightarrow> bytes option" where
  "mime_lookup by_ext path =
    (let ext = last (split_on 0x2E path)
     in if length ext = length path then None
        else if list_ex (\<lambda>b. 0x41 \<le> b \<and> b \<le> 0x5A) ext then by_ext (map to_ascii_lowercase ext) else by_ext ext)"

section \<open>Sorted search\<close>

lemma bsearch_base_hits:
  assumes "sorted (map key xs)" "base + sz \<le> length xs" "j \<in> {base..<base + sz}" "key (xs ! j) = v"
  shows "key (xs ! bsearch_base (\<lambda>i. v < key (xs ! i)) base sz) = (v :: bytes)"
  using assms(2-4)
proof (induction "\<lambda>i. v < key (xs ! i)" base sz arbitrary: j rule: bsearch_base.induct)
  case (1 base sz)
  show ?case
  proof (cases "sz \<le> 1")
    case True
    with "1.prems" have "j = base" by auto
    with True "1.prems" show ?thesis by (simp add: bsearch_base.simps)
  next
    case False
    define mid where "mid = base + sz div 2"
    define b where "b = (if v < key (xs ! mid) then base else mid)"
    have mid: "mid < base + sz" "mid < length xs" using False "1.prems"(1) by (auto simp: mid_def)
    have "\<exists>j. j \<in> {b..<b + (sz - sz div 2)} \<and> key (xs ! j) = v"
    proof (cases "j < mid")
      case low: True
      show ?thesis
      proof (cases "v < key (xs ! mid)")
        case True
        with low "1.prems" show ?thesis by (intro exI [of _ j]) (auto simp: b_def mid_def)
      next
        case False
        have "key (xs ! j) \<le> key (xs ! mid)" using sorted_nth_mono [OF assms(1), of j mid] low mid(2) by simp
        with False "1.prems"(3) have "key (xs ! mid) = v" by simp
        with False \<open>\<not> sz \<le> 1\<close> show ?thesis by (intro exI [of _ mid]) (auto simp: b_def)
      qed
    next
      case high: False
      have "key (xs ! mid) \<le> key (xs ! j)" using sorted_nth_mono [OF assms(1), of mid j] high "1.prems" by simp
      with "1.prems" high have "b = mid" by (auto simp: b_def)
      with high "1.prems" show ?thesis by (intro exI [of _ j]) (auto simp: mid_def)
    qed
    then obtain j' where "j' \<in> {b..<b + (sz - sz div 2)}" "key (xs ! j') = v" by blast
    moreover have "b + (sz - sz div 2) \<le> length xs" using "1.prems"(1) by (auto simp: b_def mid_def)
    ultimately have "key (xs ! bsearch_base (\<lambda>i. v < key (xs ! i)) b (sz - sz div 2)) = v"
      using "1.hyps" [OF False refl refl] unfolding b_def mid_def by blast
    moreover have "bsearch_base (\<lambda>i. v < key (xs ! i)) base sz = bsearch_base (\<lambda>i. v < key (xs ! i)) b (sz - sz div 2)"
      using False by (subst bsearch_base.simps) (simp add: Let_def b_def mid_def)
    ultimately show ?thesis by simp
  qed
qed

lemma binary_search_None:
  assumes "sorted (map key xs)"
  shows "binary_search key xs v = None \<longleftrightarrow> v \<notin> key ` set xs"
proof
  assume none: "binary_search key xs v = None"
  show "v \<notin> key ` set xs"
  proof
    assume "v \<in> key ` set xs"
    then obtain j where "j < length xs" "key (xs ! j) = v" by (auto simp: in_set_conv_nth)
    with bsearch_base_hits [OF assms, of 0 "length xs" j v]
    have "key (xs ! bsearch_base (\<lambda>i. v < key (xs ! i)) 0 (length xs)) = v" "xs \<noteq> []" by auto
    with none show False by (simp add: binary_search_def Let_def)
  qed
next
  assume "v \<notin> key ` set xs"
  then show "binary_search key xs v = None" by (cases "binary_search key xs v") (auto dest!: binary_search_in)
qed

lemma sort_key_Nil_iff: "sort_key f ys = [] \<longleftrightarrow> ys = []"
  by (metis length_0_conv length_sort)

lemma hd_sort_key_Cons:
  "hd (sort_key f (y # ys)) = (if ys = [] \<or> f y \<le> f (hd (sort_key f ys)) then y else hd (sort_key f ys))"
  by (cases "sort_key f ys") (auto simp: sort_key_Nil_iff dest: arg_cong [of _ _ length])

lemma hd_sort_key_least: "ys \<noteq> [] \<Longrightarrow> find (\<lambda>x. \<forall>y \<in> set ys. f x \<le> f y) ys = Some (hd (sort_key f ys))"
proof (induction ys)
  case (Cons y ys)
  show ?case
  proof (cases "ys = []")
    case False
    define h where "h = hd (sort_key f ys)"
    have h: "find (\<lambda>x. \<forall>y \<in> set ys. f x \<le> f y) ys = Some h" using Cons.IH False by (simp add: h_def)
    then have hmin: "h \<in> set ys" "\<forall>z \<in> set ys. f h \<le> f z" by (auto simp: find_Some_iff)
    show ?thesis
    proof (cases "f y \<le> f h")
      case True
      then have "\<forall>z \<in> set ys. f y \<le> f z" using hmin(2) order.trans by blast
      with True False show ?thesis by (simp add: hd_sort_key_Cons h_def [symmetric] del: sort_key_simps)
    next
      case lt: False
      then have "(\<forall>z \<in> set (y # ys). f x \<le> f z) \<longleftrightarrow> (\<forall>z \<in> set ys. f x \<le> f z)" if "x \<in> set ys" for x
        using that hmin by (auto intro: order.trans)
      then have "find (\<lambda>x. \<forall>z \<in> set (y # ys). f x \<le> f z) ys = Some h"
        using h by (simp cong: find_cong)
      moreover have "\<not> (\<forall>z \<in> set ys. f y \<le> f z)" using lt hmin(1) by auto
      ultimately show ?thesis
        using lt False by (simp only: find.simps hd_sort_key_Cons h_def [symmetric]) auto
    qed
  qed simp
qed simp

text \<open>A search in a stably sorted list finds the first of the least in the original order.\<close>

lemma find_sort_key:
  "find P (sort_key f xs) = find (\<lambda>x. P x \<and> (\<forall>y \<in> set xs. P y \<longrightarrow> f x \<le> f y)) xs"
proof -
  have "find P (sort_key f xs) = (case sort_key f (filter P xs) of [] \<Rightarrow> None | x # _ \<Rightarrow> Some x)"
    by (simp add: find_filter filter_sort)
  also have "\<dots> = find (\<lambda>x. \<forall>y \<in> set (filter P xs). f x \<le> f y) (filter P xs)"
    using hd_sort_key_least [of "filter P xs" f]
    by (cases "filter P xs = []") (auto simp: sort_key_Nil_iff split: list.split)
  also have "\<dots> = find (\<lambda>x. P x \<and> (\<forall>y \<in> set xs. P y \<longrightarrow> f x \<le> f y)) xs"
    by (simp add: find_filter conj_commute Ball_def imp_conjL [symmetric])
  finally show ?thesis .
qed

section \<open>The order of locations\<close>

definition longest_prefix :: "'r location list \<Rightarrow> bytes \<Rightarrow> 'r location option" where
  "longest_prefix ls uri =
     find (\<lambda>l. is_prefix (matcher l) \<and> starts_with uri (prefix_or_empty l) \<and>
       (\<forall>m \<in> set ls. is_prefix (matcher m) \<and> starts_with uri (prefix_or_empty m) \<longrightarrow>
          length (prefix_or_empty m) \<le> length (prefix_or_empty l))) ls"

text \<open>The documented search, on the locations in the order of the configuration.\<close>

definition location_spec ::
  "('r \<Rightarrow> bytes \<Rightarrow> bytes list option) \<Rightarrow> 'r location list \<Rightarrow> bytes \<Rightarrow> ('r location \<times> bytes list option) option" where
  "location_spec captures ls uri =
    (case find (\<lambda>l. matcher l = LExact uri) ls of
       Some l \<Rightarrow> Some (l, None)
     | None \<Rightarrow>
        (case longest_prefix ls uri of
           Some l \<Rightarrow> if is_no_regex (matcher l) then Some (l, None)
                      else (case find_regex captures uri ls of Some r \<Rightarrow> Some r | None \<Rightarrow> Some (l, None))
         | None \<Rightarrow> find_regex captures uri ls))"

lemma find_filter_conj: "find P (filter Q xs) = find (\<lambda>x. Q x \<and> P x) xs"
  by (induction xs) auto

lemma best_prefix_longest:
  "find (\<lambda>l. starts_with uri (prefix_or_empty l)) (prefixes (sorted_loc_set ls)) = longest_prefix ls uri"
  unfolding sorted_loc_set_def longest_prefix_def
  by (simp add: find_sort_key find_filter_conj) (rule arg_cong [of _ _ "\<lambda>P. find P ls"], auto simp: fun_eq_iff)

lemma find_regex_filter: "find_regex cs uri (filter (\<lambda>l. is_regex (matcher l)) ls) = find_regex cs uri ls"
  by (induction ls) (auto split: loc_match.split option.split)

lemma exact_matcher: "is_exact (matcher l) \<Longrightarrow> matcher l = LExact (prefix_or_empty l)"
  by (cases "matcher l") (auto simp: prefix_or_empty_def)

lemma exact_search:
  assumes "distinct (map matcher (filter (\<lambda>l. is_exact (matcher l)) ls))"
  shows "map_option ((!) (exact (sorted_loc_set ls))) (binary_search prefix_or_empty (exact (sorted_loc_set ls)) uri) =
    find (\<lambda>l. matcher l = LExact uri) ls"
proof -
  let ?es = "filter (\<lambda>l. is_exact (matcher l)) ls"
  have e: "exact (sorted_loc_set ls) = sort_key prefix_or_empty ?es" by (simp add: sorted_loc_set_def)
  have sorted: "sorted (map prefix_or_empty (exact (sorted_loc_set ls)))" by (simp add: e)
  have set: "set (exact (sorted_loc_set ls)) = set ?es" by (simp add: e)
  show ?thesis
  proof (cases "binary_search prefix_or_empty (exact (sorted_loc_set ls)) uri")
    case None
    then have "uri \<notin> prefix_or_empty ` set ?es" using binary_search_None [OF sorted] set by metis
    then have "find (\<lambda>l. matcher l = LExact uri) ls = None"
      by (force simp: find_None_iff prefix_or_empty_def)
    with None show ?thesis by simp
  next
    case (Some i)
    define l where "l = exact (sorted_loc_set ls) ! i"
    from binary_search_in [OF Some] set have l: "l \<in> set ?es" "prefix_or_empty l = uri"
      by (auto simp: l_def dest: nth_mem)
    then have m: "matcher l = LExact uri" using exact_matcher [of l] by simp
    with l obtain k where k: "find (\<lambda>l. matcher l = LExact uri) ls = Some k"
      by (cases "find (\<lambda>l. matcher l = LExact uri) ls") (auto simp: find_None_iff)
    then have "k \<in> set ?es" "matcher k = LExact uri" by (auto simp: find_Some_iff)
    with assms l(1) m have "k = l" by (metis distinct_map inj_onD)
    with Some k show ?thesis by (simp add: l_def)
  qed
qed

section \<open>The order of server names\<close>

definition first_max :: "('a \<Rightarrow> nat option) \<Rightarrow> 'a list \<Rightarrow> 'a option" where
  "first_max f xs = find (\<lambda>x. f x \<noteq> None \<and> (\<forall>y \<in> set xs. \<forall>k. f y = Some k \<longrightarrow> k \<le> the (f x))) xs"

lemma first_max_None: "first_max f xs = None \<longleftrightarrow> (\<forall>x \<in> set xs. f x = None)"
proof
  assume none: "first_max f xs = None"
  show "\<forall>x \<in> set xs. f x = None"
  proof (rule ccontr)
    define ks where "ks = {k. \<exists>x \<in> set xs. f x = Some k}"
    assume "\<not> (\<forall>x \<in> set xs. f x = None)"
    then have "ks \<noteq> {}" by (auto simp: ks_def)
    moreover have "finite ks" by (rule finite_subset [of _ "(the \<circ> f) ` set xs"]) (force simp: ks_def image_iff)+
    ultimately have "Max ks \<in> ks" "\<forall>k \<in> ks. k \<le> Max ks" by auto
    then obtain x where "x \<in> set xs" "f x = Some (Max ks)" "\<forall>y \<in> set xs. \<forall>k. f y = Some k \<longrightarrow> k \<le> the (f x)"
      by (auto simp: ks_def)
    with none show False by (force simp: first_max_def find_None_iff)
  qed
qed (auto simp: first_max_def find_None_iff)

lemma find_snoc: "find P (xs @ [x]) = (case find P xs of Some y \<Rightarrow> Some y | None \<Rightarrow> if P x then Some x else None)"
  by (simp add: find_append split: option.split)

lemma first_max_snoc:
  "first_max f (xs @ [x]) =
    (case f x of
       None \<Rightarrow> first_max f xs
     | Some k \<Rightarrow> (case first_max f xs of None \<Rightarrow> Some x | Some y \<Rightarrow> if the (f y) < k then Some x else Some y))"
proof (cases "f x")
  case None
  then show ?thesis unfolding first_max_def find_snoc by (auto split: option.split)
next
  case (Some k)
  show ?thesis
  proof (cases "first_max f xs")
    case none: None
    then have "\<forall>y \<in> set xs. f y = None" by (simp add: first_max_None)
    then have "find (\<lambda>y. f y \<noteq> None \<and> P y) xs = None" for P by (auto simp: find_None_iff)
    with none \<open>\<forall>y \<in> set xs. f y = None\<close> Some show ?thesis unfolding first_max_def find_snoc by auto
  next
    case y: (Some y)
    then have ymax: "f y \<noteq> None" "\<forall>z \<in> set xs. \<forall>k. f z = Some k \<longrightarrow> k \<le> the (f y)" "y \<in> set xs"
      by (auto simp: first_max_def find_Some_iff)
    show ?thesis
    proof (cases "the (f y) < k")
      case True
      then have "find (\<lambda>z. f z \<noteq> None \<and> (\<forall>w \<in> set (xs @ [x]). \<forall>k. f w = Some k \<longrightarrow> k \<le> the (f z))) xs = None"
        using ymax Some by (fastforce simp: find_None_iff)
      with True Some y ymax show ?thesis unfolding first_max_def find_snoc by fastforce
    next
      case False
      then have "(\<forall>w \<in> set (xs @ [x]). \<forall>k. f w = Some k \<longrightarrow> k \<le> the (f z)) \<longleftrightarrow>
          (\<forall>w \<in> set xs. \<forall>k. f w = Some k \<longrightarrow> k \<le> the (f z))" for z
        using Some ymax by fastforce
      with False Some y show ?thesis unfolding first_max_def find_snoc by simp
    qed
  qed
qed

fun direct :: "bytes \<Rightarrow> 'r server_name \<Rightarrow> bool" where
  "direct host (SExact e) = eq_ignore_ascii_case host e"
| "direct host SEmpty = (host = [])"
| "direct host _ = False"

fun lead_len :: "bytes \<Rightarrow> 'r server_name \<Rightarrow> nat option" where
  "lead_len host (SLeadingWildcard x) = (if lead_matches host x then Some (length x) else None)"
| "lead_len host _ = None"

fun trail_len :: "bytes \<Rightarrow> 'r server_name \<Rightarrow> nat option" where
  "trail_len host (STrailingWildcard x) = (if trail_matches host x then Some (length x) else None)"
| "trail_len host _ = None"

text \<open>
  The documented matches, case folded: \<^verbatim>\<open>*.d\<close> stands for every name that ends with a dot and \<open>d\<close>, and for \<open>d\<close> itself; \<^verbatim>\<open>d.*\<close> for every name that
  starts with \<open>d\<close> and a dot. The documented precedence: exact, longest leading wildcard, longest trailing wildcard, regex, default.
\<close>

definition bare_domain :: "bytes \<Rightarrow> 'r server_name \<Rightarrow> bool" where
  "bare_domain host n = (case n of SLeadingWildcard d \<Rightarrow> eq_ignore_ascii_case host d | _ \<Rightarrow> False)"

fun lead_doc :: "bytes \<Rightarrow> 'r server_name \<Rightarrow> nat option" where
  "lead_doc host (SLeadingWildcard d) =
    (if (\<exists>x. map to_ascii_lowercase host = x @ 0x2E # map to_ascii_lowercase d) \<or> eq_ignore_ascii_case host d then Some (length d) else None)"
| "lead_doc host _ = None"

fun trail_doc :: "bytes \<Rightarrow> 'r server_name \<Rightarrow> nat option" where
  "trail_doc host (STrailingWildcard d) =
    (if \<exists>x. map to_ascii_lowercase host = map to_ascii_lowercase d @ 0x2E # x then Some (length d) else None)"
| "trail_doc host _ = None"

definition server_spec :: "('r \<Rightarrow> bytes \<Rightarrow> bool) \<Rightarrow> ('s \<times> 'r server_name) list \<Rightarrow> 's \<Rightarrow> bytes \<Rightarrow> 's" where
  "server_spec re_match ns dflt host =
    (case find (\<lambda>p. direct host (snd p)) ns of Some p \<Rightarrow> fst p | None \<Rightarrow>
    (case first_max (\<lambda>p. lead_doc host (snd p)) ns of Some p \<Rightarrow> fst p | None \<Rightarrow>
    (case first_max (\<lambda>p. trail_doc host (snd p)) ns of Some p \<Rightarrow> fst p | None \<Rightarrow>
    (case find (\<lambda>p. case snd p of SRegex re \<Rightarrow> re_match re host | _ \<Rightarrow> False) ns of Some p \<Rightarrow> fst p | None \<Rightarrow> dflt))))"

definition keep_longest :: "('a \<Rightarrow> nat option) \<Rightarrow> ('s \<times> 'a) \<Rightarrow> (nat \<times> 's) option \<Rightarrow> (nat \<times> 's) option" where
  "keep_longest f p acc =
    (case f (snd p) of
       None \<Rightarrow> acc
     | Some k \<Rightarrow> if (case acc of None \<Rightarrow> True | Some (l, _) \<Rightarrow> l < k) then Some (k, fst p) else acc)"

lemma scan_names_fold:
  "scan_names host ns lead trail =
    (case find (\<lambda>p. direct host (snd p)) ns of
       Some p \<Rightarrow> Inl (fst p)
     | None \<Rightarrow> Inr (fold (keep_longest (lead_len host)) ns lead, fold (keep_longest (trail_len host)) ns trail))"
proof (induction host ns lead trail rule: scan_names.induct)
  case (2 host s n ns lead trail)
  then show ?case by (cases n) (simp_all add: keep_longest_def cong: option.case_cong)
qed simp

lemma fold_keep_longest:
  "fold (keep_longest f) ns None = map_option (\<lambda>p. (the (f (snd p)), fst p)) (first_max (\<lambda>p. f (snd p)) ns)"
proof (induction ns rule: rev_induct)
  case (snoc p ns)
  then show ?case by (auto simp: first_max_snoc keep_longest_def split: option.split)
qed (simp add: first_max_def)

lemma lowercase_dot [simp]: "to_ascii_lowercase c = 0x2E \<longleftrightarrow> c = 0x2E"
  by (auto simp: to_ascii_lowercase_def word_le_nat_alt)

lemma lead_matches_suffix: "lead_matches host d \<longleftrightarrow> (\<exists>x. map to_ascii_lowercase host = x @ 0x2E # map to_ascii_lowercase d)"
proof (cases "length d < length host")
  case True
  let ?k = "length host - length d - 1"
  have "host = take ?k host @ host ! ?k # drop (length host - length d) host"
    using True id_take_nth_drop [of ?k host] by (simp add: Suc_diff_Suc)
  then obtain x c y where h: "host = x @ c # y" and c: "host ! ?k = c" "drop (length host - length d) host = y" and y: "length y = length d"
    using True by (metis diff_diff_cancel length_drop less_imp_le_nat)
  have "(\<exists>z. map to_ascii_lowercase x @ to_ascii_lowercase c # map to_ascii_lowercase y = z @ 0x2E # map to_ascii_lowercase d)
      \<longleftrightarrow> c = 0x2E \<and> map to_ascii_lowercase y = map to_ascii_lowercase d"
    using y by (auto simp: append_eq_append_conv)
  then show ?thesis unfolding lead_matches_def c using True h by (simp add: eq_ignore_ascii_case_def)
next
  case False
  then show ?thesis by (auto simp: lead_matches_def dest: arg_cong [where f = length])
qed

lemma trail_matches_prefix: "trail_matches host d \<longleftrightarrow> (\<exists>x. map to_ascii_lowercase host = map to_ascii_lowercase d @ 0x2E # x)"
proof (cases "length d < length host")
  case True
  then have h: "host = take (length d) host @ host ! length d # drop (Suc (length d)) host" by (simp add: id_take_nth_drop)
  have "map to_ascii_lowercase host = map to_ascii_lowercase (take (length d) host) @ to_ascii_lowercase (host ! length d) #
      map to_ascii_lowercase (drop (Suc (length d)) host)" by (subst h) simp
  then show ?thesis using True by (auto simp: trail_matches_def eq_ignore_ascii_case_def)
next
  case False
  then show ?thesis by (auto simp: trail_matches_def dest: arg_cong [where f = length])
qed

lemma first_max_cong: "(\<And>x. x \<in> set xs \<Longrightarrow> f x = g x) \<Longrightarrow> first_max f xs = first_max g xs"
  unfolding first_max_def by (rule find_cong) auto

lemma match_host_spec:
  assumes "list_all (\<lambda>(_, n). \<not> bare_domain (trim_dots h) n) (all_names l)"
  shows "match_host re_match l h = server_spec re_match (all_names l) (fst (servers l ! default_server l)) (trim_dots h)"
proof -
  have ld: "lead_len (trim_dots h) n = lead_doc (trim_dots h) n" if "\<not> bare_domain (trim_dots h) n" for n :: "'b server_name"
    using that by (cases n) (simp_all add: lead_matches_suffix bare_domain_def)
  have lead: "first_max (\<lambda>p. lead_len (trim_dots h) (snd p)) (all_names l) = first_max (\<lambda>p. lead_doc (trim_dots h) (snd p)) (all_names l)"
    using assms ld by (intro first_max_cong) (auto simp: list_all_iff)
  have td: "trail_len (trim_dots h) n = trail_doc (trim_dots h) n" for n :: "'b server_name"
    by (cases n) (simp_all add: trail_matches_prefix)
  show ?thesis
    unfolding match_host_def server_spec_def scan_names_fold fold_keep_longest Let_def case_prod_beta lead td
    by (auto split: option.split)
qed

section \<open>Properties\<close>

text \<open>C27.
  The location search over the sorted groups implements the documented order on the locations as
  they were written: an exact match; else the longest matching prefix, the first of equal ones, if
  it is marked to skip regular expressions; else the first matching regular expression; else that
  prefix. The hypothesis rules out two exact locations with one path.
\<close>
theorem location_search:
  assumes "distinct (map matcher (filter (\<lambda>l. is_exact (matcher l)) ls))"
  shows "loc_find captures (sorted_loc_set ls) uri = location_spec captures ls uri"
proof (cases "binary_search prefix_or_empty (exact (sorted_loc_set ls)) uri")
  case None
  with exact_search [OF assms, of uri] have "find (\<lambda>l. matcher l = LExact uri) ls = None" by simp
  with None show ?thesis
    unfolding loc_find_def location_spec_def Let_def best_prefix_longest
    by (auto simp: sorted_loc_set_def find_regex_filter split: option.split)
next
  case (Some i)
  with exact_search [OF assms, of uri] have "find (\<lambda>l. matcher l = LExact uri) ls = Some (exact (sorted_loc_set ls) ! i)"
    by simp
  with Some show ?thesis by (simp add: loc_find_def location_spec_def)
qed

theorem location_search_witness:
  "loc_find (\<lambda>_ _. None) (sorted_loc_set [Location (LPrefix (bs ''/'')) 1 None, Location (LPrefix (bs ''/img/'')) 2 None,
      Location (LExact (bs ''/'')) 3 (None :: unit loc_set option)]) (bs ''/img/a'') =
    Some (Location (LPrefix (bs ''/img/'')) 2 None, None)"
  by (subst location_search, simp) (simp add: location_spec_def longest_prefix_def starts_with_def prefix_or_empty_def)

text \<open>C28.
  The choice of the server by host name follows the documented precedence, over all names of the
  listener in order: a direct match, the longest leading wildcard, the longest trailing wildcard,
  the first matching regular expression, the default server, for every host that is not the bare domain of
  a leading wildcard of the listener. (For the bare domain of \<^verbatim>\<open>*.example.com\<close> the comments promise a match that the code does not make.)
\<close>
theorem server_choice:
  assumes "list_all (\<lambda>(_, n). \<not> bare_domain (trim_dots h) n) (all_names l)"
  shows "match_host re_match l h =
    server_spec re_match (all_names l) (fst (servers l ! default_server l)) (trim_dots h)"
  using assms by (rule match_host_spec)

theorem server_choice_witness:
  "match_host (\<lambda>_ _. False) \<lparr>servers = [(0, []), (1, [SLeadingWildcard (bs ''com'')]), (2 :: nat, [SLeadingWildcard (bs ''a.com'') :: unit server_name])],
     default_server = 0\<rparr> (bs ''x.A.com.'') = 2"
proof -
  let ?l = "\<lparr>servers = [(0, []), (1, [SLeadingWildcard (bs ''com'')]), (2 :: nat, [SLeadingWildcard (bs ''a.com'') :: unit server_name])],
     default_server = 0\<rparr>"
  have h: "trim_dots (bs ''x.A.com.'') = bs ''x.A.com''" by code_simp
  have ns: "all_names ?l = [(1, SLeadingWildcard (bs ''com'')), (2, SLeadingWildcard (bs ''a.com''))]" by (simp add: all_names_def)
  have "list_all (\<lambda>(_, n). \<not> bare_domain (trim_dots (bs ''x.A.com.'')) n) (all_names ?l)"
    unfolding h ns by (simp add: bare_domain_def eq_ignore_ascii_case_def to_ascii_lowercase_def)
  from server_choice [OF this, of "\<lambda>_ _. False"] show ?thesis
    unfolding h ns by (simp add: server_spec_def first_max_def to_ascii_lowercase_def eq_ignore_ascii_case_def)
qed

text \<open>
  The name \<^verbatim>\<open>*.example.com\<close> does not match the bare \<^verbatim>\<open>example.com\<close>, for any domain: only a name with a
  further label in front of it does.
\<close>
theorem wildcard_excludes_bare_domain:
  assumes "parse_server_name compile_regex (bs ''*.'' @ d) = Inr n"
  shows "n = SLeadingWildcard d \<and> \<not> lead_matches d d \<and> lead_matches (x @ [0x2E] @ d) d"
proof -
  have "starts_with (bs ''*.'' @ d) (bs ''*.'')" "\<not> starts_with (bs ''*.'' @ d) (bs ''~*'')"
    "\<not> starts_with (bs ''*.'' @ d) (bs ''~'')"
    by (simp_all add: starts_with_def)
  with assms have "n = SLeadingWildcard d" by (simp add: parse_server_name_def strip_prefix_def)
  then show ?thesis by (simp add: lead_matches_def nth_append)
qed

theorem wildcard_excludes_bare_domain_witness:
  "\<not> lead_matches (bs ''a.b'') (bs ''a.b'')"
  using wildcard_excludes_bare_domain [of "\<lambda>_ _. Inl ()" "bs ''a.b''" "SLeadingWildcard (bs ''a.b'') :: unit server_name" "[]"]
  by (simp add: parse_server_name_def strip_prefix_def starts_with_def)

end
