(* ===== verification/Number_Text.thy ===== *)
theory Number_Text
  imports Prelude
begin

text \<open>
  Numbers as text: the decimal and hexadecimal writers of \<^verbatim>\<open>http/response.rs\<close> (\<^verbatim>\<open>push_num\<close>) and
  \<^verbatim>\<open>server/files.rs\<close> (\<^verbatim>\<open>push_hex\<close>), which fill a fixed buffer from its end. They agree with
  \<^verbatim>\<open>to_string\<close>, never run out of buffer, and are read back by the decimal parser.
\<close>

text \<open>The digits are put in front of those already in the buffer.\<close>

function push_num_loop :: "nat \<Rightarrow> bytes \<Rightarrow> bytes" where
  "push_num_loop n buf = (if n = 0 then buf else push_num_loop (n div 10) (of_nat (48 + n mod 10) # buf))"
  by pat_completeness auto
termination
  by (relation "measure fst") auto

function push_hex_loop :: "nat \<Rightarrow> bytes \<Rightarrow> bytes" where
  "push_hex_loop n buf =
    (if n = 0 then buf else push_hex_loop (n div 16) (bs ''0123456789abcdef'' ! (n mod 16) # buf))"
  by pat_completeness auto
termination
  by (relation "measure fst") auto

declare push_num_loop.simps [simp del] push_hex_loop.simps [simp del]

definition push_num :: "bytes \<Rightarrow> u64 \<Rightarrow> bytes" where
  "push_num out n = (if n = 0 then out @ bs ''0'' else out @ push_num_loop (unat n) [])"

definition push_hex :: "bytes \<Rightarrow> u64 \<Rightarrow> bytes" where
  "push_hex out n = (if n = 0 then out @ bs ''0'' else out @ push_hex_loop (unat n) [])"

section \<open>Decimal text\<close>

definition digit :: "nat \<Rightarrow> u8" where
  "digit k = of_nat (48 + k)"

lemma unat_digit: "k < 10 \<Longrightarrow> unat (digit k) = 48 + k"
  unfolding digit_def by (simp only: unsigned_of_nat) (simp add: take_bit_nat_eq_self_iff)

lemma digit_ascii: "k < 10 \<Longrightarrow> is_ascii_digit (digit k)"
  using unat_digit [of k] by (simp add: is_ascii_digit_def word_le_nat_alt)

lemma dec_value_append: "dec_value n (xs @ ys) = (case dec_value n xs of Some k \<Rightarrow> dec_value k ys | None \<Rightarrow> None)"
  by (induction n xs rule: dec_value.induct) auto

lemma dec_value_dec_digits [simp]: "dec_value 0 (dec_digits n) = Some n"
proof (induction n rule: dec_digits.induct)
  case (1 n)
  have last: "dec_value k [of_nat (48 + d)] = Some (10 * k + d)" if "d < 10" for k d
    using that digit_ascii [of d] unat_digit [of d] by (simp add: digit_def)
  show ?case
  proof (cases "n < 10")
    case True
    with last [of n 0] show ?thesis by (simp add: dec_digits.simps [of n])
  next
    case False
    with 1 have "dec_value 0 (dec_digits (n div 10)) = Some (n div 10)" by simp
    with False last [of "n mod 10" "n div 10"] show ?thesis
      by (simp add: dec_digits.simps [of n] dec_value_append)
  qed
qed

lemma dec_digits_inj [simp]: "dec_digits m = dec_digits n \<longleftrightarrow> m = n"
  by (metis dec_value_dec_digits option.inject)

lemma length_dec_digits_le: "0 < k \<Longrightarrow> n < 10 ^ k \<Longrightarrow> length (dec_digits n) \<le> k"
proof (induction k arbitrary: n)
  case (Suc k)
  show ?case
  proof (cases "n < 10")
    case False
    with Suc.prems have "n div 10 < 10 ^ k" "0 < k" by (auto intro: Suc_lessI gr0I)
    with Suc.IH [of "n div 10"] False show ?thesis by (simp add: dec_digits.simps [of n])
  qed (simp add: dec_digits.simps [of n])
qed simp

lemma length_dec_digits_ge: "10 ^ k \<le> n \<Longrightarrow> k < length (dec_digits n)"
proof (induction k arbitrary: n)
  case 0
  show ?case by (simp add: dec_digits.simps [of n])
next
  case (Suc k)
  then have "10 ^ k \<le> n div 10" "\<not> n < 10" by (auto simp: less_eq_div_iff_mult_less_eq mult.commute not_less intro: order_trans [of 10 "10 * 10 ^ k"])
  with Suc.IH [of "n div 10"] show ?case by (simp add: dec_digits.simps [of n])
qed

lemma push_num_loop_digits: "0 < n \<Longrightarrow> push_num_loop n buf = dec_digits n @ buf"
proof (induction n buf rule: push_num_loop.induct)
  case (1 n buf)
  show ?case
  proof (cases "n < 10")
    case True
    with 1 show ?thesis by (simp add: push_num_loop.simps [of n] push_num_loop.simps [of 0] dec_digits.simps [of n])
  next
    case False
    with 1 show ?thesis by (simp add: push_num_loop.simps [of n] dec_digits.simps [of n])
  qed
qed

lemma push_num_digits [simp]: "push_num out n = out @ dec_digits (unat n)"
  by (simp add: push_num_def push_num_loop_digits unat_gt_0 dec_digits.simps [of 0])

lemma parse_unsigned_dec_digits:
  assumes "n < 2 ^ bits"
  shows "parse_unsigned bits (dec_digits n) = Some n"
proof -
  have ne: "dec_digits n \<noteq> []" by (simp add: dec_digits.simps [of n])
  then obtain c r where cr: "dec_digits n = c # r" by (cases "dec_digits n") auto
  with dec_value_dec_digits [of n] have "is_ascii_digit c" by (auto split: if_splits)
  then have "c \<noteq> 0x2B" by (auto simp: is_ascii_digit_def)
  with cr assms dec_value_dec_digits [of n] show ?thesis by (simp add: parse_unsigned_def del: dec_value_dec_digits)
qed

section \<open>Hexadecimal text\<close>

definition hex_digit_value :: "u8 \<Rightarrow> nat" where
  "hex_digit_value c = (if c \<le> 0x39 then unat c - 48 else unat c - 87)"

definition hex_value :: "nat \<Rightarrow> bytes \<Rightarrow> nat" where
  "hex_value = foldl (\<lambda>v c. 16 * v + hex_digit_value c)"

lemma hex_digit_value_nth:
  assumes "k < 16"
  shows "hex_digit_value (bs ''0123456789abcdef'' ! k) = k"
proof -
  have "list_all (\<lambda>k. hex_digit_value (bs ''0123456789abcdef'' ! k) = k) [0..<16]" by code_simp
  with assms show ?thesis by (auto simp only: list_all_iff set_upt atLeastLessThan_iff)
qed

lemma hex_value_loop: "hex_value 0 (push_hex_loop n buf) = hex_value n buf"
proof (induction n buf rule: push_hex_loop.induct)
  case (1 n buf)
  let ?c = "bs ''0123456789abcdef'' ! (n mod 16)"
  have "hex_value (n div 16) (?c # buf) = hex_value (16 * (n div 16) + hex_digit_value ?c) buf"
    by (simp only: hex_value_def foldl.simps)
  also have "\<dots> = hex_value n buf" by (simp only: hex_digit_value_nth [of "n mod 16"]) simp
  finally show ?case using 1 by (simp only: push_hex_loop.simps [of n buf] split: if_split) simp
qed

lemma hex_value_push_hex [simp]: "hex_value 0 (push_hex [] n) = unat n"
proof (cases "n = 0")
  case False
  then have "push_hex [] n = push_hex_loop (unat n) []" by (simp add: push_hex_def)
  then show ?thesis using hex_value_loop [of "unat n" "[]"] by (simp add: hex_value_def)
qed (simp add: push_hex_def hex_value_def hex_digit_value_def)

lemma push_hex_append: "push_hex out n = out @ push_hex [] n"
  by (simp add: push_hex_def)

lemma push_hex_inj: "push_hex [] m = push_hex [] n \<longleftrightarrow> m = n"
  by (metis hex_value_push_hex unat_eqI)

text \<open>Neither writer runs out of its buffer: 20 decimal digits, 16 hexadecimal digits.\<close>

lemma push_num_fits: "length (push_num [] n) \<le> 20"
proof -
  have "unat n < 18446744073709551616" by (rule unat_bounds)
  then have "unat n < 10 ^ 20" by (rule less_trans) simp
  then show ?thesis using length_dec_digits_le [of 20 "unat n"] by simp
qed

lemma push_hex_loop_length: "n < 16 ^ k \<Longrightarrow> length (push_hex_loop n buf) \<le> k + length buf"
proof (induction k arbitrary: n buf)
  case 0
  then show ?case by (simp add: push_hex_loop.simps [of 0])
next
  case (Suc k)
  then have "n div 16 < 16 ^ k" by auto
  from Suc.IH [OF this, of "bs ''0123456789abcdef'' ! (n mod 16) # buf"] show ?case
    by (simp add: push_hex_loop.simps [of n buf])
qed

lemma push_hex_fits: "length (push_hex [] n) \<le> 16"
  using push_hex_loop_length [of "unat n" 16 "[]"] unat_bounds(4) [of n] by (simp add: push_hex_def)

lemma push_hex_loop_set:
  "set buf \<subseteq> set (bs ''0123456789abcdef'') \<Longrightarrow> set (push_hex_loop n buf) \<subseteq> set (bs ''0123456789abcdef'')"
proof (induction n buf rule: push_hex_loop.induct)
  case (1 n buf)
  have "bs ''0123456789abcdef'' ! (n mod 16) \<in> set (bs ''0123456789abcdef'')" by (rule nth_mem) (simp add: bs_def)
  with 1 show ?case by (auto simp only: push_hex_loop.simps [of n buf] list.set split: if_split)
qed

lemma push_hex_set: "set (push_hex [] n) \<subseteq> set (bs ''0123456789abcdef'')"
  using push_hex_loop_set [of "[]" "unat n"] unfolding push_hex_def by simp

end
