(* ===== verification/Http_Date.thy ===== *)
theory Http_Date
  imports Number_Text
begin

text \<open>
  Dates (\<^verbatim>\<open>http/date.rs\<close>): days since the epoch to a calendar date, the formats of the
  \<^verbatim>\<open>Date\<close> and \<^verbatim>\<open>Last-Modified\<close> fields and of the access log, and the cache of formatted
  times each worker keeps. \<^verbatim>\<open>httpdate::fmt_http_date\<close> and \<^verbatim>\<open>localtime_r\<close> are parameters. The
  calendar is characterised by its epoch and the rule for the next day.
\<close>

section \<open>Days to dates\<close>

text \<open>\<^verbatim>\<open>div_euclid\<close> and \<^verbatim>\<open>rem_euclid\<close> are HOL's \<open>div\<close> and \<open>mod\<close> on \<^typ>\<open>int\<close>; the year is cast to 32 bits.\<close>

definition to_i32 :: "int \<Rightarrow> int" where
  "to_i32 n = sint (word_of_int n :: 32 word)"

definition civil_from_days :: "int \<Rightarrow> int \<times> int \<times> int" where
  "civil_from_days z0 =
    (let z = z0 + 719468;
         era = z div 146097;
         doe = z mod 146097;
         yoe = (doe - doe div 1460 + doe div 36524 - doe div 146096) div 365;
         y = yoe + era * 400;
         doy = doe - (365 * yoe + yoe div 4 - yoe div 100);
         mp = (5 * doy + 2) div 153;
         d = doy - (153 * mp + 2) div 5 + 1;
         m = (if mp < 10 then mp + 3 else mp - 9)
     in (to_i32 (y + (if m \<le> 2 then 1 else 0)), m, d))"

definition DAYS :: "bytes list" where
  "DAYS = [bs ''Sun'', bs ''Mon'', bs ''Tue'', bs ''Wed'', bs ''Thu'', bs ''Fri'', bs ''Sat'']"

definition MONTHS :: "bytes list" where
  "MONTHS = [bs ''Jan'', bs ''Feb'', bs ''Mar'', bs ''Apr'', bs ''May'', bs ''Jun'',
     bs ''Jul'', bs ''Aug'', bs ''Sep'', bs ''Oct'', bs ''Nov'', bs ''Dec'']"

definition int_to_string :: "int \<Rightarrow> bytes" where
  "int_to_string n = (if n < 0 then bs ''-'' @ dec_digits (nat (- n)) else dec_digits (nat n))"

definition pad2 :: "int \<Rightarrow> bytes" where
  "pad2 n = (if n < 10 then bs ''0'' else []) @ dec_digits (nat n)"

definition month_name :: "int \<Rightarrow> bytes" where
  "month_name m = MONTHS ! min (nat m - 1) 11"

text \<open>
  A \<^verbatim>\<open>SystemTime\<close> is its signed distance from the epoch in nanoseconds; times before the epoch
  count as second 0.
\<close>

definition secs_since_epoch :: "int \<Rightarrow> int" where
  "secs_since_epoch t = (if 0 \<le> t then t div 1000000000 else 0)"

definition append_http_date_of :: "int \<Rightarrow> bytes \<Rightarrow> bytes" where
  "append_http_date_of t out =
    (let secs = secs_since_epoch t;
         days = secs div 86400;
         rem = secs mod 86400;
         (y, m, d) = civil_from_days days;
         dow = nat ((days + 4) mod 7)
     in out @ DAYS ! dow @ bs '', '' @ pad2 d @ bs '' '' @ month_name m @ bs '' '' @ int_to_string y @ bs '' ''
        @ pad2 (rem div 3600) @ bs '':'' @ pad2 (rem mod 3600 div 60) @ bs '':'' @ pad2 (rem mod 60) @ bs '' GMT'')"

definition http_date :: "int \<Rightarrow> bytes" where
  "http_date t = append_http_date_of t []"

section \<open>Log formats and the cache\<close>

record local_time =
  lt_year :: int
  lt_mon :: int
  lt_day :: int
  lt_hour :: int
  lt_min :: int
  lt_sec :: int
  lt_off :: int

definition fmt_offset :: "int \<Rightarrow> bool \<Rightarrow> bytes" where
  "fmt_offset off colon =
    (if off < 0 then bs ''-'' else bs ''+'') @ pad2 (\<bar>off\<bar> div 3600) @ (if colon then bs '':'' else [])
     @ pad2 (\<bar>off\<bar> mod 3600 div 60)"

definition fmt_clf :: "local_time \<Rightarrow> bytes" where
  "fmt_clf t = pad2 (lt_day t) @ bs ''/'' @ month_name (lt_mon t) @ bs ''/'' @ int_to_string (lt_year t) @ bs '':''
     @ pad2 (lt_hour t) @ bs '':'' @ pad2 (lt_min t) @ bs '':'' @ pad2 (lt_sec t) @ bs '' '' @ fmt_offset (lt_off t) False"

definition fmt_iso :: "local_time \<Rightarrow> bytes" where
  "fmt_iso t = int_to_string (lt_year t) @ bs ''-'' @ pad2 (lt_mon t) @ bs ''-'' @ pad2 (lt_day t) @ bs ''T''
     @ pad2 (lt_hour t) @ bs '':'' @ pad2 (lt_min t) @ bs '':'' @ pad2 (lt_sec t) @ fmt_offset (lt_off t) True"

record date_cache =
  dc_secs :: nat
  dc_http :: bytes
  dc_local :: bytes
  dc_iso :: bytes

definition cache_init :: date_cache where
  "cache_init = \<lparr>dc_secs = 0, dc_http = [], dc_local = [], dc_iso = []\<rparr>"

definition refresh :: "(nat \<Rightarrow> bytes) \<Rightarrow> (nat \<Rightarrow> local_time) \<Rightarrow> nat \<Rightarrow> date_cache \<Rightarrow> date_cache" where
  "refresh fmt_http_date localtime s c =
    \<lparr>dc_secs = s, dc_http = fmt_http_date s, dc_local = fmt_clf (localtime s), dc_iso = fmt_iso (localtime s)\<rparr>"

definition refreshed :: "(nat \<Rightarrow> bytes) \<Rightarrow> (nat \<Rightarrow> local_time) \<Rightarrow> nat \<Rightarrow> date_cache \<Rightarrow> date_cache" where
  "refreshed fmt_http_date localtime now c =
    (if dc_secs c \<noteq> now then refresh fmt_http_date localtime now c else c)"

definition append_http_date :: "(nat \<Rightarrow> bytes) \<Rightarrow> (nat \<Rightarrow> local_time) \<Rightarrow> nat \<Rightarrow> date_cache \<Rightarrow> bytes \<Rightarrow> bytes \<times> date_cache" where
  "append_http_date fmt lt now c out = (let c = refreshed fmt lt now c in (out @ dc_http c, c))"

definition append_time_local :: "(nat \<Rightarrow> bytes) \<Rightarrow> (nat \<Rightarrow> local_time) \<Rightarrow> nat \<Rightarrow> date_cache \<Rightarrow> bytes \<Rightarrow> bytes \<times> date_cache" where
  "append_time_local fmt lt now c out = (let c = refreshed fmt lt now c in (out @ dc_local c, c))"

definition append_time_iso8601 :: "(nat \<Rightarrow> bytes) \<Rightarrow> (nat \<Rightarrow> local_time) \<Rightarrow> nat \<Rightarrow> date_cache \<Rightarrow> bytes \<Rightarrow> bytes \<times> date_cache" where
  "append_time_iso8601 fmt lt now c out = (let c = refreshed fmt lt now c in (out @ dc_iso c, c))"

section \<open>The calendar\<close>

definition leap :: "int \<Rightarrow> bool" where
  "leap y \<longleftrightarrow> 4 dvd y \<and> (\<not> 100 dvd y \<or> 400 dvd y)"

definition month_days :: "int \<Rightarrow> int \<Rightarrow> int" where
  "month_days y m = (if m = 2 then (if leap y then 29 else 28) else if m \<in> {4, 6, 9, 11} then 30 else 31)"

fun next_day :: "int \<times> int \<times> int \<Rightarrow> int \<times> int \<times> int" where
  "next_day (y, m, d) =
    (if d < month_days y m then (y, m, d + 1) else if m < 12 then (y, m + 1, 1) else (y + 1, 1, 1))"

text \<open>A day of the 400-year era that starts in March, by century, 4-year cycle, year and day of year.\<close>

definition era_day :: "int \<Rightarrow> int \<Rightarrow> int \<Rightarrow> int \<Rightarrow> bool" where
  "era_day c q r d \<longleftrightarrow> 0 \<le> c \<and> c \<le> 3 \<and> 0 \<le> q \<and> q \<le> 24 \<and> 0 \<le> r \<and> r \<le> 3 \<and> 0 \<le> d \<and>
     (d \<le> 364 \<or> d = 365 \<and> r = 3 \<and> (q < 24 \<or> c = 3))"

definition era_number :: "int \<Rightarrow> int \<Rightarrow> int \<Rightarrow> int \<Rightarrow> int" where
  "era_number c q r d = 36524 * c + 1461 * q + 365 * r + d"

lemma era_day_exists:
  assumes "0 \<le> n" "n < 146097"
  obtains c q r d where "era_day c q r d" "n = era_number c q r d"
proof -
  define c where "c = min (n div 36524) 3"
  define n1 where "n1 = n - 36524 * c"
  define q where "q = n1 div 1461"
  define n2 where "n2 = n1 mod 1461"
  define r where "r = min (n2 div 365) 3"
  have c: "0 \<le> c" "c \<le> 3" "0 \<le> n1" "n1 < 36524 \<or> c = 3 \<and> n1 = 36524"
    using assms unfolding c_def n1_def by (auto simp: min_def)
  then have q: "0 \<le> q" "q \<le> 24" "0 \<le> n2" "n2 \<le> 1460" "n1 = 1461 * q + n2"
    unfolding q_def n2_def by auto
  have r: "0 \<le> r" "r \<le> 3" "0 \<le> n2 - 365 * r" "n2 - 365 * r \<le> 364 \<or> r = 3 \<and> n2 = 1460"
    using q(3,4) unfolding r_def by (auto simp: min_def)
  have "era_day c q r (n2 - 365 * r)" using c q r unfolding era_day_def by auto
  moreover have "n = era_number c q r (n2 - 365 * r)" using q(5) unfolding era_number_def n1_def by auto
  ultimately show thesis by (rule that)
qed

lemma era_number_bounds: "era_day c q r d \<Longrightarrow> 0 \<le> era_number c q r d \<and> era_number c q r d < 146097"
  unfolding era_day_def era_number_def by auto

lemma div_year: "0 \<le> k \<Longrightarrow> k < 365 \<Longrightarrow> (365 * y + k) div 365 = (y :: int)"
  by simp

text \<open>The year and the day of the year the source computes with divisions only.\<close>

lemma year_of_era:
  assumes "era_day c q r d"
  defines "doe \<equiv> era_number c q r d"
  shows "(doe - doe div 1460 + doe div 36524 - doe div 146096) div 365 = 100 * c + 4 * q + r"
proof -
  define e where "e = (24 * c + q + 365 * r + d) div 1460"
  define f where "f = (1461 * q + 365 * r + d) div 36524"
  define g where "g = doe div 146096"
  note D = assms(1) [unfolded era_day_def]
  have "doe = 1460 * (25 * c + q) + (24 * c + q + 365 * r + d)" unfolding doe_def era_number_def by simp
  then have e: "doe div 1460 = 25 * c + q + e" unfolding e_def by simp
  have "doe = 36524 * c + (1461 * q + 365 * r + d)" unfolding doe_def era_number_def by simp
  then have f: "doe div 36524 = c + f" unfolding f_def by simp
  have x: "0 \<le> 1461 * q + 365 * r + d" "1461 * q + 365 * r + d < 36524 \<or> 1461 * q + 365 * r + d = 36524 \<and> c = 3"
    using D by auto
  have "f = g"
  proof (cases "1461 * q + 365 * r + d < 36524")
    case True
    then have "f = 0" using x(1) unfolding f_def by simp
    moreover have "0 \<le> doe" "doe < 146096" using True D unfolding doe_def era_number_def by auto
    then have "g = 0" unfolding g_def by simp
    ultimately show ?thesis by simp
  next
    case False
    then have "1461 * q + 365 * r + d = 36524" "c = 3" using x(2) by auto
    then show ?thesis unfolding f_def g_def doe_def era_number_def by simp
  qed
  moreover have "e \<le> d \<and> d - e < 365"
  proof (cases "24 * c + q + 365 * r + d < 1460")
    case True
    moreover have "0 \<le> 24 * c + q + 365 * r + d" using D by auto
    ultimately have "e = 0" unfolding e_def by simp
    then show ?thesis using D True by auto
  next
    case False
    moreover have "24 * c + q + 365 * r + d < 2 * 1460" using D by auto
    ultimately have "e = 1" unfolding e_def by simp
    then show ?thesis using D False by auto
  qed
  moreover have "doe - doe div 1460 + doe div 36524 - doe div 146096 = 365 * (100 * c + 4 * q + r) + (d - e + f - g)"
    unfolding e f g_def [symmetric] unfolding doe_def era_number_def by simp
  ultimately show ?thesis using div_year [of "d - e" "100 * c + 4 * q + r"] by simp
qed

text \<open>A day of a year that starts in March, as month and day of the civil year.\<close>

definition march_date :: "int \<Rightarrow> int \<Rightarrow> int \<times> int \<times> int" where
  "march_date y doy =
    (let mp = (5 * doy + 2) div 153; m = (if mp < 10 then mp + 3 else mp - 9)
     in (y + (if m \<le> 2 then 1 else 0), m, doy - (153 * mp + 2) div 5 + 1))"

lemma civil_from_days_era:
  assumes "era_day c q r d"
  shows "civil_from_days (146097 * era + era_number c q r d - 719468) =
    (case march_date (400 * era + 100 * c + 4 * q + r) d of (y, m, d) \<Rightarrow> (to_i32 y, m, d))"
proof -
  define doe where "doe = era_number c q r d"
  note b = era_number_bounds [OF assms, folded doe_def]
  have era: "(146097 * era + doe) div 146097 = era" "(146097 * era + doe) mod 146097 = doe"
    using b by simp_all
  note yoe = year_of_era [OF assms, folded doe_def]
  note D = assms [unfolded era_day_def]
  have "(100 * c + 4 * q + r) div 4 = 25 * c + q" "(100 * c + 4 * q + r) div 100 = c"
    using D by (auto intro: int_div_pos_eq [where r = r] int_div_pos_eq [where r = "4 * q + r"])
  then have doy: "doe - (365 * (100 * c + 4 * q + r) + (100 * c + 4 * q + r) div 4 - (100 * c + 4 * q + r) div 100) = d"
    unfolding doe_def era_number_def by simp
  show ?thesis
    unfolding civil_from_days_def march_date_def doe_def [symmetric] Let_def diff_add_cancel era yoe doy
    by (simp add: ac_simps)
qed

lemma march_month:
  fixes doy :: int
  assumes "153 * mp \<le> 5 * doy + 2" "5 * doy + 2 < 153 * mp + 153"
  shows "march_date y doy =
    (let m = (if mp < 10 then mp + 3 else mp - 9)
     in (y + (if m \<le> 2 then 1 else 0), m, doy - (153 * mp + 2) div 5 + 1))"
proof -
  have "(5 * doy + 2) div 153 = mp"
    by (rule int_div_pos_eq [where r = "5 * doy + 2 - 153 * mp"]) (use assms in auto)
  then show ?thesis by (simp add: march_date_def)
qed

lemma march_date_table:
  assumes "0 \<le> doy" "doy \<le> 365"
  shows "march_date y doy =
    (if doy < 31 then (y, 3, doy + 1)
     else if doy < 61 then (y, 4, doy - 30)
     else if doy < 92 then (y, 5, doy - 60)
     else if doy < 122 then (y, 6, doy - 91)
     else if doy < 153 then (y, 7, doy - 121)
     else if doy < 184 then (y, 8, doy - 152)
     else if doy < 214 then (y, 9, doy - 183)
     else if doy < 245 then (y, 10, doy - 213)
     else if doy < 275 then (y, 11, doy - 244)
     else if doy < 306 then (y, 12, doy - 274)
     else if doy < 337 then (y + 1, 1, doy - 305)
     else (y + 1, 2, doy - 336))"
proof -
  consider "0 \<le> doy" "doy < 31" | "31 \<le> doy" "doy < 61" | "61 \<le> doy" "doy < 92" | "92 \<le> doy" "doy < 122"
    | "122 \<le> doy" "doy < 153" | "153 \<le> doy" "doy < 184" | "184 \<le> doy" "doy < 214" | "214 \<le> doy" "doy < 245"
    | "245 \<le> doy" "doy < 275" | "275 \<le> doy" "doy < 306" | "306 \<le> doy" "doy < 337" | "337 \<le> doy" "doy \<le> 365"
    using assms by (meson not_le)
  then show ?thesis
  proof cases
    case 1 then show ?thesis by (subst march_month [of 0]) (auto simp: Let_def)
  next
    case 2 then show ?thesis by (subst march_month [of 1]) (auto simp: Let_def)
  next
    case 3 then show ?thesis by (subst march_month [of 2]) (auto simp: Let_def)
  next
    case 4 then show ?thesis by (subst march_month [of 3]) (auto simp: Let_def)
  next
    case 5 then show ?thesis by (subst march_month [of 4]) (auto simp: Let_def)
  next
    case 6 then show ?thesis by (subst march_month [of 5]) (auto simp: Let_def)
  next
    case 7 then show ?thesis by (subst march_month [of 6]) (auto simp: Let_def)
  next
    case 8 then show ?thesis by (subst march_month [of 7]) (auto simp: Let_def)
  next
    case 9 then show ?thesis by (subst march_month [of 8]) (auto simp: Let_def)
  next
    case 10 then show ?thesis by (subst march_month [of 9]) (auto simp: Let_def)
  next
    case 11 then show ?thesis by (subst march_month [of 10]) (auto simp: Let_def)
  next
    case 12 then show ?thesis by (subst march_month [of 11]) (auto simp: Let_def)
  qed
qed

lemma leap_after_march_year:
  assumes "0 \<le> c" "c \<le> 3" "0 \<le> q" "q \<le> 24" "0 \<le> r" "r \<le> 3"
  shows "leap (400 * era + 100 * c + 4 * q + r + 1) \<longleftrightarrow> r = 3 \<and> (q < 24 \<or> c = 3)"
proof (cases "r = 3")
  case True
  have 4: "400 * era + 100 * c + 4 * q + r + 1 = 4 * (100 * era + 25 * c + (q + 1))" using True by simp
  have "100 dvd 4 * (100 * era + 25 * c + (q + 1)) \<longleftrightarrow> 25 dvd 25 * (4 * era + c) + (q + 1)"
    using dvd_mult_cancel_left [of 4 25 "25 * (4 * era + c) + (q + 1)"] by (simp add: algebra_simps)
  also have "\<dots> \<longleftrightarrow> 25 dvd q + 1" by (rule dvd_add_right_iff) simp
  also have "\<dots> \<longleftrightarrow> q = 24" using assms(3,4) by presburger
  finally have 100: "100 dvd 4 * (100 * era + 25 * c + (q + 1)) \<longleftrightarrow> q = 24" .
  have 400: "400 dvd 4 * (100 * era + 25 * c + (q + 1)) \<longleftrightarrow> c = 3" if "q = 24"
  proof -
    have "400 dvd 4 * (100 * era + 25 * c + (q + 1)) \<longleftrightarrow> 4 dvd 4 * era + (c + 1)"
      using that dvd_mult_cancel_left [of 100 4 "4 * era + (c + 1)"] by (simp add: algebra_simps)
    also have "\<dots> \<longleftrightarrow> 4 dvd c + 1" by (rule dvd_add_right_iff) simp
    also have "\<dots> \<longleftrightarrow> c = 3" using assms(1,2) by presburger
    finally show ?thesis .
  qed
  show ?thesis unfolding leap_def 4 using True 100 400 assms(4) by auto
next
  case False
  have "4 dvd 4 * (100 * era + 25 * c + q) + (r + 1) \<longleftrightarrow> 4 dvd r + 1" by (rule dvd_add_right_iff) simp
  then have "4 dvd (400 * era + 100 * c + 4 * q + r + 1) \<longleftrightarrow> 4 dvd r + 1" by (simp add: algebra_simps)
  moreover have "\<not> 4 dvd r + 1" using False assms(5,6) by presburger
  ultimately have "\<not> 4 dvd (400 * era + 100 * c + 4 * q + r + 1)" by simp
  then show ?thesis using False by (simp add: leap_def)
qed

lemma march_next:
  assumes "0 \<le> d" "d < 364 \<or> d = 364 \<and> leap (y + 1)"
  shows "next_day (march_date y d) = march_date y (d + 1)"
proof -
  have "0 \<le> d" "d \<le> 364" using assms by auto
  then have "d \<le> 365" "d + 1 \<le> 365" "0 \<le> d + 1" by auto
  then show ?thesis
    using assms(2) unfolding march_date_table [OF \<open>0 \<le> d\<close> \<open>d \<le> 365\<close>] march_date_table [OF \<open>0 \<le> d + 1\<close> \<open>d + 1 \<le> 365\<close>]
    by (auto simp: month_days_def)
qed

lemma march_next_year:
  assumes "d = (if leap (y + 1) then 365 else 364)"
  shows "next_day (march_date y d) = march_date (y + 1) 0"
  using assms by (simp add: march_date_table month_days_def)

lemma march_year_le: "march_date y d = (y', m, d') \<Longrightarrow> y \<le> y' \<and> y' \<le> y + 1"
  by (auto simp: march_date_def Let_def split: if_splits)

text \<open>The day after a day of the era, with the year in which the next day lies.\<close>

lemma era_next:
  assumes "era_day c q r d"
  obtains era' c' q' r' d' where "era_day c' q' r' d'"
    "146097 * era + era_number c q r d + 1 = 146097 * era' + era_number c' q' r' d'"
    "next_day (march_date (400 * era + 100 * c + 4 * q + r) d) = march_date (400 * era' + 100 * c' + 4 * q' + r') d'"
proof -
  define y where "y = 400 * era + 100 * c + 4 * q + r"
  note D = assms [unfolded era_day_def]
  have leap: "leap (y + 1) \<longleftrightarrow> r = 3 \<and> (q < 24 \<or> c = 3)"
    unfolding y_def using D by (intro leap_after_march_year) auto
  show thesis
  proof (cases "d < 364 \<or> d = 364 \<and> leap (y + 1)")
    case True
    then have "era_day c q r (d + 1)" using D leap unfolding era_day_def by auto
    moreover have "next_day (march_date y d) = march_date y (d + 1)" using True D by (intro march_next) auto
    ultimately show thesis using that [of c q r "d + 1" era] unfolding y_def era_number_def by simp
  next
    case False
    then have d: "d = (if leap (y + 1) then 365 else 364)" using D leap by (auto split: if_splits)
    note nxt = march_next_year [OF d]
    show thesis
    proof (cases "r < 3")
      case True
      then show thesis using that [of c q "r + 1" 0 era] D d leap nxt
        unfolding y_def era_number_def era_day_def by (simp add: ac_simps)
    next
      case r: False
      show thesis
      proof (cases "q < 24")
        case True
        then show thesis using that [of c "q + 1" 0 0 era] D d leap nxt r
          unfolding y_def era_number_def era_day_def by (simp add: ac_simps)
      next
        case q: False
        show thesis
        proof (cases "c < 3")
          case True
          then show thesis using that [of "c + 1" 0 0 0 era] D d leap nxt r q
            unfolding y_def era_number_def era_day_def by (simp add: ac_simps)
        next
          case False
          then show thesis using that [of 0 0 0 0 "era + 1"] D d leap nxt r q
            unfolding y_def era_number_def era_day_def by (simp add: ac_simps)
        qed
      qed
    qed
  qed
qed

lemma to_i32_id: "- 2147483648 \<le> n \<Longrightarrow> n < 2147483648 \<Longrightarrow> to_i32 n = n"
  unfolding to_i32_def by (simp add: signed_of_int signed_take_bit_int_eq_self_iff)

text \<open>Within the range of a 32-bit year.\<close>

abbreviation in_range :: "int \<Rightarrow> bool" where
  "in_range z \<equiv> \<bar>z\<bar> \<le> 700000000000"

lemma civil_from_days_march:
  assumes "in_range z" "era_day c q r d" "z + 719468 = 146097 * era + era_number c q r d"
  shows "civil_from_days z = march_date (400 * era + 100 * c + 4 * q + r) d"
proof -
  obtain y m d' where md: "march_date (400 * era + 100 * c + 4 * q + r) d = (y, m, d')" by (rule prod_cases3)
  note b = era_number_bounds [OF assms(2)] and D = assms(2) [unfolded era_day_def]
  have "- 4800000 \<le> era" "era \<le> 4800000" using assms(1,3) b by auto
  then have "- 2147483648 \<le> y" "y < 2147483648" using march_year_le [OF md] D by auto
  then have "to_i32 y = y" by (rule to_i32_id)
  moreover have "z = 146097 * era + era_number c q r d - 719468" using assms(3) by simp
  ultimately show ?thesis using civil_from_days_era [OF assms(2), of era] md by simp
qed

lemma civil_step:
  assumes "in_range z" "in_range (z + 1)"
  shows "civil_from_days (z + 1) = next_day (civil_from_days z)"
proof -
  have "0 \<le> (z + 719468) mod 146097" "(z + 719468) mod 146097 < 146097" by simp_all
  then obtain c q r d where e: "era_day c q r d" "(z + 719468) mod 146097 = era_number c q r d"
    by (rule era_day_exists)
  define era where "era = (z + 719468) div 146097"
  have "z + 719468 = 146097 * era + (z + 719468) mod 146097" unfolding era_def by simp
  then have z: "z + 719468 = 146097 * era + era_number c q r d" unfolding e(2) .
  obtain era' c' q' r' d' where n: "era_day c' q' r' d'"
    "146097 * era + era_number c q r d + 1 = 146097 * era' + era_number c' q' r' d'"
    "next_day (march_date (400 * era + 100 * c + 4 * q + r) d) = march_date (400 * era' + 100 * c' + 4 * q' + r') d'"
    by (rule era_next [OF e(1)])
  have "z + 1 + 719468 = 146097 * era' + era_number c' q' r' d'" using z n(2) by simp
  from civil_from_days_march [OF assms(2) n(1) this] civil_from_days_march [OF assms(1) e(1) z] n(3)
  show ?thesis by simp
qed

lemma civil_epoch: "civil_from_days 0 = (1970, 1, 1)"
  using civil_from_days_march [of 0 3 17 1 306 4] by (simp add: era_day_def era_number_def march_date_table)

subsection \<open>Dates are ordered\<close>

fun date_ok :: "int \<times> int \<times> int \<Rightarrow> bool" where
  "date_ok (y, m, d) \<longleftrightarrow> 1 \<le> m \<and> m \<le> 12 \<and> 1 \<le> d \<and> d \<le> month_days y m"

fun date_key :: "int \<times> int \<times> int \<Rightarrow> int" where
  "date_key (y, m, d) = 512 * y + 32 * m + d"

lemma month_days_le: "28 \<le> month_days y m" "month_days y m \<le> 31"
  by (simp_all add: month_days_def)

lemma next_day_ok: "date_ok x \<Longrightarrow> date_ok (next_day x) \<and> date_key x < date_key (next_day x)"
proof (cases x)
  case (fields y m d)
  assume "date_ok x"
  with fields month_days_le [of y m] month_days_le [of y "m + 1"] month_days_le [of "y + 1" 1]
  show ?thesis by (auto simp del: month_days_le)
qed

lemma civil_ok: "n \<le> 700000000000 \<Longrightarrow> date_ok (civil_from_days (int n))"
proof (induction n)
  case 0
  show ?case by (simp add: civil_epoch month_days_def)
next
  case (Suc n)
  with civil_step [of "int n"] next_day_ok show ?case by (simp add: add.commute)
qed

lemma civil_less: "m < n \<Longrightarrow> n \<le> 700000000000 \<Longrightarrow> date_key (civil_from_days (int m)) < date_key (civil_from_days (int n))"
proof (induction n)
  case (Suc n)
  have "date_key (civil_from_days (int n)) < date_key (civil_from_days (int (Suc n)))"
    using Suc.prems civil_step [of "int n"] next_day_ok [OF civil_ok [of n]] by (simp add: add.commute)
  with Suc show ?case by (cases "m = n") auto
qed simp

lemma civil_inj:
  assumes "0 \<le> a" "a \<le> 700000000000" "0 \<le> b" "b \<le> 700000000000" "civil_from_days a = civil_from_days b"
  shows "a = b"
  using assms civil_less [of "nat a" "nat b"] civil_less [of "nat b" "nat a"]
  by (cases a b rule: linorder_cases) (auto simp: nat_less_eq_zless nat_le_iff)

subsection \<open>Formatted dates\<close>

lemma length_dec_digits_4: "1000 \<le> n \<Longrightarrow> n \<le> 9999 \<Longrightarrow> length (dec_digits n) = 4"
  using length_dec_digits_ge [of 3 n] length_dec_digits_le [of 4 n] by simp

lemma length_pad2: "0 \<le> n \<Longrightarrow> n < 100 \<Longrightarrow> length (pad2 n) = 2"
proof -
  assume n: "0 \<le> n" "n < 100"
  show ?thesis
  proof (cases "n < 10")
    case True
    with n have "nat n < 10" by simp
    then have "dec_digits (nat n) = [of_nat (48 + nat n)]" by (subst dec_digits.simps) (simp only: if_True)
    with True show ?thesis by (simp add: pad2_def)
  next
    case False
    with n have "10 ^ 1 \<le> nat n" "nat n < 10 ^ 2" by auto
    from length_dec_digits_ge [OF this(1)] length_dec_digits_le [OF _ this(2)] False
    show ?thesis by (simp add: pad2_def)
  qed
qed

lemma pad2_value: "0 \<le> n \<Longrightarrow> dec_value 0 (pad2 n) = Some (nat n)"
  by (simp add: pad2_def is_ascii_digit_def)

lemma pad2_inj: "0 \<le> a \<Longrightarrow> 0 \<le> b \<Longrightarrow> pad2 a = pad2 b \<longleftrightarrow> a = b"
  by (metis eq_nat_nat_iff option.inject pad2_value)

lemma length_month_name: "length (month_name m) = 3"
proof -
  have "list_all (\<lambda>s. length s = 3) MONTHS" "length MONTHS = 12" by (simp_all add: MONTHS_def)
  then show ?thesis by (simp add: month_name_def list_all_length)
qed

lemma month_name_inj:
  assumes "1 \<le> a" "a \<le> 12" "1 \<le> b" "b \<le> 12"
  shows "month_name a = month_name b \<longleftrightarrow> a = b"
proof -
  have "distinct MONTHS" "length MONTHS = 12" by (simp_all add: MONTHS_def)
  then show ?thesis using assms by (simp add: month_name_def nth_eq_iff_index_eq) auto
qed

lemma length_day_name: "i < 7 \<Longrightarrow> length (DAYS ! i) = 3"
proof -
  assume "i < 7"
  have "list_all (\<lambda>s. length s = 3) DAYS" "length DAYS = 7" by (simp_all add: DAYS_def)
  with \<open>i < 7\<close> show ?thesis by (simp add: list_all_length)
qed

definition date_text :: "nat \<Rightarrow> int \<times> int \<times> int \<Rightarrow> int \<Rightarrow> int \<Rightarrow> int \<Rightarrow> bytes" where
  "date_text dow ymd h mi sc = (case ymd of (y, m, d) \<Rightarrow>
     DAYS ! dow @ bs '', '' @ pad2 d @ bs '' '' @ month_name m @ bs '' '' @ int_to_string y @ bs '' ''
        @ pad2 h @ bs '':'' @ pad2 mi @ bs '':'' @ pad2 sc @ bs '' GMT'')"

lemma http_date_text:
  "http_date t = (let s = secs_since_epoch t in date_text (nat ((s div 86400 + 4) mod 7)) (civil_from_days (s div 86400))
     (s mod 86400 div 3600) (s mod 86400 mod 3600 div 60) (s mod 86400 mod 60))"
  by (simp add: http_date_def append_http_date_of_def date_text_def Let_def split: prod.split)

fun date_fits :: "int \<times> int \<times> int \<Rightarrow> bool" where
  "date_fits (y, m, d) \<longleftrightarrow> 1000 \<le> y \<and> y \<le> 9999 \<and> 1 \<le> m \<and> m \<le> 12 \<and> 1 \<le> d \<and> d \<le> 31"

definition two_digits :: "int \<Rightarrow> bool" where
  "two_digits n \<longleftrightarrow> 0 \<le> n \<and> n < 100"

lemma pad2_fixed [simp]:
  "two_digits n \<Longrightarrow> length (pad2 n) = 2"
  "two_digits a \<Longrightarrow> two_digits b \<Longrightarrow> pad2 a = pad2 b \<longleftrightarrow> a = b"
  by (auto simp: two_digits_def length_pad2 pad2_inj)

lemma year_fixed [simp]:
  "1000 \<le> y \<Longrightarrow> y \<le> 9999 \<Longrightarrow> length (int_to_string y) = 4"
  "1000 \<le> y \<Longrightarrow> 1000 \<le> y' \<Longrightarrow> int_to_string y = int_to_string y' \<longleftrightarrow> y = y'"
  by (auto simp: int_to_string_def length_dec_digits_4)

lemma date_text_length:
  assumes "i < 7" "date_fits x" "two_digits h" "two_digits mi" "two_digits sc"
  shows "length (date_text i x h mi sc) = 29"
proof (cases x)
  case (fields y m d)
  then have "two_digits d" using assms(2) by (simp add: two_digits_def)
  with fields assms show ?thesis by (simp add: date_text_def length_day_name length_month_name)
qed

lemma date_text_inj:
  assumes "i < 7" "date_fits x" "two_digits h" "two_digits mi" "two_digits sc"
    "j < 7" "date_fits x'" "two_digits h'" "two_digits mi'" "two_digits sc'"
    and eq: "date_text i x h mi sc = date_text j x' h' mi' sc'"
  shows "x = x' \<and> h = h' \<and> mi = mi' \<and> sc = sc'"
proof -
  obtain y m d where x: "x = (y, m, d)" by (rule prod_cases3)
  obtain y' m' d' where x': "x' = (y', m', d')" by (rule prod_cases3)
  have "two_digits d" "two_digits d'" using assms(2,7) x x' by (simp_all add: two_digits_def)
  then show ?thesis using assms unfolding x x' date_text_def
    by (simp add: append_eq_append_conv length_day_name length_month_name month_name_inj)
qed

lemma time_parts:
  assumes "0 \<le> rem" "rem < (86400 :: int)"
  shows "two_digits (rem div 3600)" "two_digits (rem mod 3600 div 60)" "two_digits (rem mod 60)"
proof -
  have "rem mod 3600 < 3600" "0 \<le> rem mod 3600" "rem mod 60 < 60" "0 \<le> rem mod 60" by simp_all
  then show "two_digits (rem div 3600)" "two_digits (rem mod 3600 div 60)" "two_digits (rem mod 60)"
    unfolding two_digits_def using assms by auto
qed

lemma time_parts_eq:
  assumes "a div 3600 = b div 3600" "a mod 3600 div 60 = b mod 3600 div 60" "a mod 60 = (b :: int) mod 60"
  shows "a = b"
proof -
  have parts: "c = 3600 * (c div 3600) + 60 * (c mod 3600 div 60) + c mod 60" for c :: int
  proof -
    have "c mod 3600 mod 60 = c mod 60" by (simp add: mod_mod_cancel)
    moreover have "c = c div 3600 * 3600 + c mod 3600" "c mod 3600 = c mod 3600 div 60 * 60 + c mod 3600 mod 60"
      by (simp_all only: div_mult_mod_eq)
    ultimately show ?thesis by linarith
  qed
  have "a = 3600 * (b div 3600) + 60 * (b mod 3600 div 60) + b mod 60" using parts [of a] unfolding assms .
  also have "\<dots> = b" by (rule parts [symmetric])
  finally show ?thesis .
qed

text \<open>The last day that still has a year of four digits is 31 December 9999.\<close>

lemma civil_fits:
  assumes "0 \<le> z" "z < 2932897"
  shows "date_fits (civil_from_days z)"
proof -
  obtain y m d where c: "civil_from_days z = (y, m, d)" by (rule prod_cases3)
  have last: "civil_from_days 2932896 = (9999, 12, 31)"
    using civil_from_days_march [of 2932896 3 24 3 305 24] by (simp add: era_day_def era_number_def march_date_table)
  have "date_ok (y, m, d)" using civil_ok [of "nat z"] assms c by simp
  moreover have "date_key (1970, 1, 1) \<le> date_key (y, m, d)"
    using civil_less [of 0 "nat z"] assms c civil_epoch by (cases "z = 0") (auto simp: nat_le_iff)
  moreover have "date_key (y, m, d) \<le> date_key (9999, 12, 31)"
    using civil_less [of "nat z" 2932896] assms c last by (cases "z = 2932896") (auto simp: nat_less_iff)
  ultimately show ?thesis using c month_days_le [of y m] by auto
qed

section \<open>Properties\<close>

text \<open>
  The calendar. Day 0 is 1 January 1970, and as long as the year fits 32 bits the date of the next
  day number is the next day of the proleptic Gregorian calendar, leap years included. So the
  division formulas of \<^verbatim>\<open>civil_from_days\<close> compute the calendar on every day a file time can have.
\<close>
theorem civil_calendar:
  assumes "- 700000000000 \<le> z" "z < 700000000000"
  shows "civil_from_days 0 = (1970, 1, 1) \<and> civil_from_days (z + 1) = next_day (civil_from_days z)"
  using assms civil_epoch civil_step [of z] by auto

theorem civil_calendar_witness:
  "civil_from_days 11016 = next_day (civil_from_days 11015) \<and> civil_from_days 0 = (1970, 1, 1)"
  using civil_calendar [of 11015] by simp

text \<open>
  \<^verbatim>\<open>http_date\<close> always writes 29 bytes, and two file times have the same \<^verbatim>\<open>Last-Modified\<close> text exactly
  when they fall into the same second, for every time from the epoch to the end of the year 9999.
\<close>
theorem http_date_faithful:
  assumes "0 \<le> s" "s < 253402300800 * 1000000000" "0 \<le> t" "t < 253402300800 * 1000000000"
  shows "length (http_date s) = 29 \<and> (http_date s = http_date t \<longleftrightarrow> s div 1000000000 = t div 1000000000)"
proof -
  have day: "0 \<le> secs_since_epoch u div 86400" "secs_since_epoch u div 86400 < 2932897"
    if "0 \<le> u" "u < 253402300800 * 1000000000" for u
    using that by (auto simp: secs_since_epoch_def)
  have dow: "nat ((n + 4) mod 7) < 7" for n :: int by (simp add: nat_less_iff)
  have rem: "0 \<le> n mod 86400" "n mod 86400 < 86400" for n :: int by simp_all
  note fit = civil_fits [OF day [OF assms(1,2)]] civil_fits [OF day [OF assms(3,4)]]
  let ?s = "secs_since_epoch s" and ?t = "secs_since_epoch t"
  have "?s = ?t" if "http_date s = http_date t"
  proof -
    from date_text_inj [OF dow fit(1) time_parts [OF rem] dow fit(2) time_parts [OF rem] that [unfolded http_date_text Let_def]]
    have "civil_from_days (?s div 86400) = civil_from_days (?t div 86400)" "?s mod 86400 = ?t mod 86400"
      by (auto intro: time_parts_eq)
    moreover from this(1) have "?s div 86400 = ?t div 86400"
      using day [OF assms(1,2)] day [OF assms(3,4)] by (intro civil_inj) auto
    ultimately show ?thesis by (metis div_mult_mod_eq)
  qed
  moreover have "length (http_date s) = 29"
    unfolding http_date_text Let_def by (rule date_text_length [OF dow fit(1) time_parts [OF rem]])
  moreover have "http_date s = http_date t" if "?s = ?t" using that by (simp only: http_date_text)
  moreover have "?s = s div 1000000000" "?t = t div 1000000000" using assms(1,3) by (simp_all add: secs_since_epoch_def)
  ultimately show ?thesis by auto
qed

theorem http_date_faithful_witness:
  "length (http_date 784111777000000000) = 29 \<and> http_date 784111777000000000 = http_date 784111777999999999"
proof -
  have "(784111777000000000 :: int) div 1000000000 = 784111777999999999 div 1000000000" by simp
  with http_date_faithful [of 784111777000000000 784111777999999999] show ?thesis by auto
qed

text \<open>
  The cache of formatted times: whatever sequence of requests came before, the text appended at
  second \<open>now\<close> is the one formatted for \<open>now\<close>, except that a fresh cache answers the empty text at
  second 0, its initial key.
\<close>

definition cache_ok :: "(nat \<Rightarrow> bytes) \<Rightarrow> (nat \<Rightarrow> local_time) \<Rightarrow> date_cache \<Rightarrow> bool" where
  "cache_ok fmt lt c \<longleftrightarrow> c = cache_init \<or>
     (\<exists>s. dc_secs c = s \<and> dc_http c = fmt s \<and> dc_local c = fmt_clf (lt s) \<and> dc_iso c = fmt_iso (lt s))"

lemma refreshed_ok:
  assumes "cache_ok fmt lt c"
  shows "cache_ok fmt lt (refreshed fmt lt now c)"
    and "0 < now \<Longrightarrow> dc_http (refreshed fmt lt now c) = fmt now \<and> dc_local (refreshed fmt lt now c) = fmt_clf (lt now) \<and>
      dc_iso (refreshed fmt lt now c) = fmt_iso (lt now)"
  using assms by (auto simp: cache_ok_def refreshed_def refresh_def cache_init_def)

end
