(* ===== verification/Response.thy ===== *)
theory Response
  imports Number_Text
begin

text \<open>
  Responses (\<^verbatim>\<open>http/status.rs\<close>, \<^verbatim>\<open>http/response.rs\<close>, \<^verbatim>\<open>server/reply.rs\<close>): status lines and reason
  phrases, the response head with its arena of header text, the serialisation of the head, and the
  choice of body framing. The stored headers refine a list of name and value pairs, and the head is
  read back from its bytes. The package version and the formatted date are arguments.
\<close>

section \<open>Status lines\<close>

abbreviation crlf :: bytes where "crlf \<equiv> [0x0D, 0x0A]"

definition status_lines :: "(nat \<times> bytes) list" where
  "status_lines =
    [(200, bs ''HTTP/1.1 200 OK'' @ crlf),
     (204, bs ''HTTP/1.1 204 No Content'' @ crlf),
     (206, bs ''HTTP/1.1 206 Partial Content'' @ crlf),
     (301, bs ''HTTP/1.1 301 Moved Permanently'' @ crlf),
     (302, bs ''HTTP/1.1 302 Found'' @ crlf),
     (304, bs ''HTTP/1.1 304 Not Modified'' @ crlf),
     (307, bs ''HTTP/1.1 307 Temporary Redirect'' @ crlf),
     (308, bs ''HTTP/1.1 308 Permanent Redirect'' @ crlf),
     (400, bs ''HTTP/1.1 400 Bad Request'' @ crlf),
     (403, bs ''HTTP/1.1 403 Forbidden'' @ crlf),
     (404, bs ''HTTP/1.1 404 Not Found'' @ crlf),
     (405, bs ''HTTP/1.1 405 Not Allowed'' @ crlf),
     (408, bs ''HTTP/1.1 408 Request Time-out'' @ crlf),
     (411, bs ''HTTP/1.1 411 Length Required'' @ crlf),
     (413, bs ''HTTP/1.1 413 Request Entity Too Large'' @ crlf),
     (414, bs ''HTTP/1.1 414 Request-URI Too Large'' @ crlf),
     (416, bs ''HTTP/1.1 416 Requested Range Not Satisfiable'' @ crlf),
     (421, bs ''HTTP/1.1 421 Misdirected Request'' @ crlf),
     (429, bs ''HTTP/1.1 429 Too Many Requests'' @ crlf),
     (431, bs ''HTTP/1.1 431 Request Header Fields Too Large'' @ crlf),
     (500, bs ''HTTP/1.1 500 Internal Server Error'' @ crlf),
     (501, bs ''HTTP/1.1 501 Not Implemented'' @ crlf),
     (502, bs ''HTTP/1.1 502 Bad Gateway'' @ crlf),
     (503, bs ''HTTP/1.1 503 Service Temporarily Unavailable'' @ crlf),
     (504, bs ''HTTP/1.1 504 Gateway Time-out'' @ crlf),
     (505, bs ''HTTP/1.1 505 HTTP Version Not Supported'' @ crlf)]"

definition status_line :: "nat \<Rightarrow> bytes option" where
  "status_line code = map_of status_lines code"

definition reasons :: "(nat \<times> bytes) list" where
  "reasons =
    [(100, bs ''Continue''),
     (101, bs ''Switching Protocols''),
     (102, bs ''Processing''),
     (200, bs ''OK''),
     (201, bs ''Created''),
     (202, bs ''Accepted''),
     (204, bs ''No Content''),
     (206, bs ''Partial Content''),
     (207, bs ''Multi-Status''),
     (301, bs ''Moved Permanently''),
     (302, bs ''Found''),
     (303, bs ''See Other''),
     (304, bs ''Not Modified''),
     (307, bs ''Temporary Redirect''),
     (308, bs ''Permanent Redirect''),
     (400, bs ''Bad Request''),
     (401, bs ''Unauthorized''),
     (402, bs ''Payment Required''),
     (403, bs ''Forbidden''),
     (404, bs ''Not Found''),
     (405, bs ''Not Allowed''),
     (406, bs ''Not Acceptable''),
     (407, bs ''Proxy Authentication Required''),
     (408, bs ''Request Time-out''),
     (409, bs ''Conflict''),
     (410, bs ''Gone''),
     (411, bs ''Length Required''),
     (412, bs ''Precondition Failed''),
     (413, bs ''Request Entity Too Large''),
     (414, bs ''Request-URI Too Large''),
     (415, bs ''Unsupported Media Type''),
     (416, bs ''Requested Range Not Satisfiable''),
     (421, bs ''Misdirected Request''),
     (422, bs ''Unprocessable Entity''),
     (429, bs ''Too Many Requests''),
     (431, bs ''Request Header Fields Too Large''),
     (451, bs ''Unavailable For Legal Reasons''),
     (500, bs ''Internal Server Error''),
     (501, bs ''Not Implemented''),
     (502, bs ''Bad Gateway''),
     (503, bs ''Service Temporarily Unavailable''),
     (504, bs ''Gateway Time-out''),
     (505, bs ''HTTP Version Not Supported''),
     (507, bs ''Insufficient Storage'')]"

definition reason :: "nat \<Rightarrow> bytes" where
  "reason code =
    (case map_of reasons code of
       Some r \<Rightarrow> r
     | None \<Rightarrow>
        (let k = code div 100
         in if k = 1 then bs ''Informational'' else if k = 2 then bs ''OK'' else if k = 3 then bs ''Redirection''
            else if k = 4 then bs ''Client Error'' else bs ''Internal Server Error''))"

definition is_bodyless :: "nat \<Rightarrow> bool" where
  "is_bodyless code \<longleftrightarrow> code = 204 \<or> code = 304 \<or> 100 \<le> code \<and> code < 200"

definition error_page :: "nat \<Rightarrow> bytes option \<Rightarrow> bytes" where
  "error_page code signature =
    (let r = reason code; t = dec_digits code @ bs '' '' @ r
     in bs ''<html>'' @ crlf @ bs ''<head><title>'' @ t @ bs ''</title></head>'' @ crlf @ bs ''<body>'' @ crlf
        @ bs ''<center><h1>'' @ t @ bs ''</h1></center>'' @ crlf
        @ (case signature of Some sig \<Rightarrow> bs ''<hr><center>'' @ sig @ bs ''</center>'' @ crlf | None \<Rightarrow> [])
        @ bs ''</body>'' @ crlf @ bs ''</html>'' @ crlf)"

section \<open>The response head\<close>

datatype framing = FLength u64 | FChunked | FUntilClose | FNone

datatype server_tokens = TokensOn | TokensOff | TokensBuild

text \<open>A header is a pair of ranges into the arena: start and end of the name and of the value.\<close>

record resp =
  status :: nat
  arena :: bytes
  hdrs :: "((nat \<times> nat) \<times> (nat \<times> nat)) list"
  resp_framing :: framing
  resp_keep_alive :: bool
  body_bytes :: nat

definition resp_new :: resp where
  "resp_new = \<lparr>status = 200, arena = [], hdrs = [], resp_framing = FNone, resp_keep_alive = True, body_bytes = 0\<rparr>"

definition resp_reset :: "resp \<Rightarrow> resp" where
  "resp_reset r = r\<lparr>status := 200, arena := [], hdrs := [], resp_framing := FNone, resp_keep_alive := True, body_bytes := 0\<rparr>"

definition span :: "bytes \<Rightarrow> nat \<times> nat \<Rightarrow> bytes" where
  "span a r = take (snd r - fst r) (drop (fst r) a)"

definition header_with :: "bytes \<Rightarrow> (bytes \<Rightarrow> bytes) \<Rightarrow> resp \<Rightarrow> resp" where
  "header_with name f r =
    (let ns = length (arena r); a = arena r @ name; vs = length a; a = f a
     in r\<lparr>arena := a, hdrs := hdrs r @ [((ns, vs), (vs, length a))]\<rparr>)"

definition add_header :: "bytes \<Rightarrow> bytes \<Rightarrow> resp \<Rightarrow> resp" where
  "add_header name value = header_with name (\<lambda>a. a @ value)"

definition header_num :: "bytes \<Rightarrow> u64 \<Rightarrow> resp \<Rightarrow> resp" where
  "header_num name value = header_with name (\<lambda>a. push_num a value)"

definition resp_get :: "bytes \<Rightarrow> resp \<Rightarrow> bytes option" where
  "resp_get name r =
    map_option (\<lambda>(_, v). span (arena r) v) (find (\<lambda>(n, _). eq_ignore_ascii_case (span (arena r) n) name) (hdrs r))"

definition resp_has :: "bytes \<Rightarrow> resp \<Rightarrow> bool" where
  "resp_has name r \<longleftrightarrow> resp_get name r \<noteq> None"

definition resp_remove :: "bytes \<Rightarrow> resp \<Rightarrow> resp" where
  "resp_remove name r = r\<lparr>hdrs := filter (\<lambda>(n, _). \<not> eq_ignore_ascii_case (span (arena r) n) name) (hdrs r)\<rparr>"

definition resp_set :: "bytes \<Rightarrow> bytes \<Rightarrow> resp \<Rightarrow> resp" where
  "resp_set name value r = add_header name value (resp_remove name r)"

definition resp_iter :: "resp \<Rightarrow> (bytes \<times> bytes) list" where
  "resp_iter r = map (\<lambda>(n, v). (span (arena r) n, span (arena r) v)) (hdrs r)"

definition field_line :: "bytes \<Rightarrow> bytes \<Rightarrow> bytes" where
  "field_line n v = n @ bs '': '' @ v @ crlf"

definition write_head :: "server_tokens \<Rightarrow> bytes \<Rightarrow> bytes \<Rightarrow> resp \<Rightarrow> bytes" where
  "write_head tokens version date r =
    (case status_line (status r) of
       Some l \<Rightarrow> l
     | None \<Rightarrow> bs ''HTTP/1.1 '' @ push_num [] (of_nat (status r)) @ bs '' '' @ reason (status r) @ crlf)
    @ (if \<not> resp_has (bs ''server'') r
       then (case tokens of
               TokensOn \<Rightarrow> bs ''Server: '' @ bs ''oxiserve'' @ bs ''/'' @ version @ crlf
             | _ \<Rightarrow> bs ''Server: '' @ bs ''oxiserve'' @ crlf)
       else [])
    @ (if \<not> resp_has (bs ''date'') r then bs ''Date: '' @ date @ crlf else [])
    @ (case resp_framing r of
         FLength n \<Rightarrow> bs ''Content-Length: '' @ push_num [] n @ crlf
       | FChunked \<Rightarrow> bs ''Transfer-Encoding: chunked'' @ crlf
       | _ \<Rightarrow> [])
    @ (if status r \<noteq> 101
       then (if resp_keep_alive r then bs ''Connection: keep-alive'' @ crlf else bs ''Connection: close'' @ crlf) else [])
    @ concat (map (\<lambda>(n, v). field_line n v) (resp_iter r))
    @ crlf"

definition signature :: "server_tokens \<Rightarrow> bytes \<Rightarrow> bytes option" where
  "signature tokens version =
    (case tokens of
       TokensOn \<Rightarrow> Some (bs ''oxiserve'' @ bs ''/'' @ version)
     | TokensBuild \<Rightarrow> Some (bs ''oxiserve'')
     | TokensOff \<Rightarrow> None)"

section \<open>Replies\<close>

text \<open>A body, over the types of mapped files, open files, read streams and duplex streams.\<close>

datatype ('m, 'f, 'i, 'd) reply_body =
    BEmpty
  | BBytes bytes
  | BMmap 'm nat nat
  | BInline 'f u64 u64
  | BFile 'f u64 u64
  | BStream bytes 'i "u64 option"
  | BUpgraded bytes 'd nat

fun known_len :: "('m, 'f, 'i, 'd) reply_body \<Rightarrow> u64 option" where
  "known_len BEmpty = Some 0"
| "known_len (BBytes b) = Some (of_nat (length b))"
| "known_len (BMmap m s e) = Some (of_nat (e - s))"
| "known_len (BInline f off n) = Some n"
| "known_len (BFile f off n) = Some n"
| "known_len (BStream pre io n) = n"
| "known_len (BUpgraded pre io idle) = None"

definition body_is_empty :: "('m, 'f, 'i, 'd) reply_body \<Rightarrow> bool" where
  "body_is_empty b \<longleftrightarrow> known_len b = Some 0"

record ('m, 'f, 'i, 'd) reply =
  rresp :: resp
  reply_body :: "('m, 'f, 'i, 'd) reply_body"

definition frame :: "bool \<Rightarrow> ('m, 'f, 'i, 'd) reply \<Rightarrow> ('m, 'f, 'i, 'd) reply" where
  "frame http11 rp =
    (case reply_body rp of
       BUpgraded _ _ _ \<Rightarrow> rp\<lparr>rresp := (rresp rp)\<lparr>resp_framing := FNone, resp_keep_alive := False\<rparr>\<rparr>
     | _ \<Rightarrow>
        if is_bodyless (status (rresp rp))
        then rp\<lparr>reply_body := BEmpty, rresp := (rresp rp)\<lparr>resp_framing := FNone\<rparr>\<rparr>
        else if resp_framing (rresp rp) \<noteq> FNone then rp
        else rp\<lparr>rresp := (rresp rp)\<lparr>resp_framing :=
               (case known_len (reply_body rp) of
                  Some n \<Rightarrow> FLength n
                | None \<Rightarrow> if http11 then FChunked else FUntilClose)\<rparr>\<rparr>)"

section \<open>Stored headers are a list of pairs\<close>

text \<open>
  The contract of a header store, met by the arena with its ranges: what a query and an update do
  is given by the list of pairs it presents.
\<close>

locale header_store =
  fixes wf :: "'r \<Rightarrow> bool"
    and pairs :: "'r \<Rightarrow> (bytes \<times> bytes) list"
    and add :: "bytes \<Rightarrow> bytes \<Rightarrow> 'r \<Rightarrow> 'r"
    and remove :: "bytes \<Rightarrow> 'r \<Rightarrow> 'r"
    and lookup :: "bytes \<Rightarrow> 'r \<Rightarrow> bytes option"
  assumes wf_add: "wf r \<Longrightarrow> wf (add n v r)"
    and pairs_add: "wf r \<Longrightarrow> pairs (add n v r) = pairs r @ [(n, v)]"
    and wf_remove: "wf r \<Longrightarrow> wf (remove n r)"
    and pairs_remove: "wf r \<Longrightarrow> pairs (remove n r) = filter (\<lambda>(m, _). \<not> eq_ignore_ascii_case m n) (pairs r)"
    and lookup_pairs: "wf r \<Longrightarrow> lookup n r = map_option snd (find (\<lambda>(m, _). eq_ignore_ascii_case m n) (pairs r))"
begin

lemma lookup_add:
  "wf r \<Longrightarrow> lookup n (add m v r) =
    (case lookup n r of Some w \<Rightarrow> Some w | None \<Rightarrow> if eq_ignore_ascii_case m n then Some v else None)"
  by (auto simp: lookup_pairs wf_add pairs_add find_append split: option.split)

lemma lookup_removed: "wf r \<Longrightarrow> eq_ignore_ascii_case m n \<Longrightarrow> lookup n (remove m r) = None"
  by (auto simp: lookup_pairs wf_remove pairs_remove find_None_iff eq_ignore_ascii_case_def)

lemma lookup_replaced: "wf r \<Longrightarrow> lookup n (add n v (remove n r)) = Some v"
  by (simp add: lookup_add wf_remove lookup_removed)

end

definition resp_wf :: "resp \<Rightarrow> bool" where
  "resp_wf r \<longleftrightarrow> list_all (\<lambda>((a, b), (c, d)). a \<le> b \<and> b \<le> length (arena r) \<and> c \<le> d \<and> d \<le> length (arena r)) (hdrs r)"

lemma span_append: "b \<le> length xs \<Longrightarrow> span (xs @ ys) (a, b) = span xs (a, b)"
  by (simp add: span_def)

lemma span_snoc: "span (xs @ ys) (length xs, length xs + length ys) = ys"
  by (simp add: span_def)

lemma resp_wf_iter_append:
  "resp_wf r \<Longrightarrow> map (\<lambda>(n, v). (span (arena r @ xs) n, span (arena r @ xs) v)) (hdrs r) = resp_iter r"
  unfolding resp_iter_def
  by (rule map_cong) (auto simp: resp_wf_def list_all_iff span_append)

lemma header_with_append:
  assumes "\<And>a. f a = a @ v" "resp_wf r"
  shows "resp_wf (header_with n f r) \<and> resp_iter (header_with n f r) = resp_iter r @ [(n, v)]"
proof -
  have iter: "map (\<lambda>(k, w). (span (arena r @ n @ v) k, span (arena r @ n @ v) w)) (hdrs r) = resp_iter r"
    by (rule resp_wf_iter_append [OF assms(2)])
  have "span (arena r @ n @ v) (length (arena r), length (arena r) + length n) = n"
    by (simp add: span_def)
  moreover have "span (arena r @ n @ v) (length (arena r) + length n, length (arena r) + length n + length v) = v"
    by (simp add: span_def)
  moreover have "resp_wf (header_with n f r)"
    using assms(2) by (auto simp: resp_wf_def header_with_def Let_def assms(1) list_all_iff)
  ultimately show ?thesis using iter by (simp add: resp_iter_def header_with_def Let_def assms(1))
qed

lemma add_header_pairs:
  assumes "resp_wf r"
  shows "resp_wf (add_header n v r)" "resp_iter (add_header n v r) = resp_iter r @ [(n, v)]"
  using header_with_append [of "\<lambda>a. a @ v" v r n] assms by (simp_all add: add_header_def)

lemma header_num_pairs:
  assumes "resp_wf r"
  shows "resp_wf (header_num n w r)" "resp_iter (header_num n w r) = resp_iter r @ [(n, dec_digits (unat w))]"
  using header_with_append [of "\<lambda>a. push_num a w" "dec_digits (unat w)" r n] assms by (simp_all add: header_num_def)

lemma resp_remove_pairs:
  "resp_wf r \<Longrightarrow> resp_wf (resp_remove n r)"
  "resp_iter (resp_remove n r) = filter (\<lambda>(m, _). \<not> eq_ignore_ascii_case m n) (resp_iter r)"
  by (auto simp: resp_wf_def resp_remove_def resp_iter_def list_all_iff filter_map o_def split_def)

lemma resp_get_pairs: "resp_get n r = map_option snd (find (\<lambda>(m, _). eq_ignore_ascii_case m n) (resp_iter r))"
proof -
  have "map_option snd (find (\<lambda>(m, _). eq_ignore_ascii_case m n) (map (\<lambda>(k, w). (span a k, span a w)) hs)) =
    map_option (\<lambda>(_, v). span a v) (find (\<lambda>(k, _). eq_ignore_ascii_case (span a k) n) hs)" for a hs
    by (induction hs) auto
  then show ?thesis by (simp add: resp_get_def resp_iter_def)
qed

interpretation response: header_store resp_wf resp_iter add_header resp_remove resp_get
  by unfold_locales (simp_all add: add_header_pairs resp_remove_pairs resp_get_pairs)

text \<open>Updates in any order, on the response and on the list.\<close>

datatype resp_op = AddOp bytes bytes | NumOp bytes u64 | RemoveOp bytes | SetOp bytes bytes

fun resp_apply :: "resp_op \<Rightarrow> resp \<Rightarrow> resp" where
  "resp_apply (AddOp n v) r = add_header n v r"
| "resp_apply (NumOp n w) r = header_num n w r"
| "resp_apply (RemoveOp n) r = resp_remove n r"
| "resp_apply (SetOp n v) r = resp_set n v r"

fun list_apply :: "resp_op \<Rightarrow> (bytes \<times> bytes) list \<Rightarrow> (bytes \<times> bytes) list" where
  "list_apply (AddOp n v) hs = hs @ [(n, v)]"
| "list_apply (NumOp n w) hs = hs @ [(n, dec_digits (unat w))]"
| "list_apply (RemoveOp n) hs = filter (\<lambda>(m, _). \<not> eq_ignore_ascii_case m n) hs"
| "list_apply (SetOp n v) hs = filter (\<lambda>(m, _). \<not> eq_ignore_ascii_case m n) hs @ [(n, v)]"

lemma resp_apply_pairs:
  "resp_wf r \<Longrightarrow> resp_wf (resp_apply op r) \<and> resp_iter (resp_apply op r) = list_apply op (resp_iter r)"
  by (cases op) (simp_all add: add_header_pairs header_num_pairs resp_remove_pairs resp_set_def)

lemma resp_fold_pairs:
  "resp_wf r \<Longrightarrow> resp_wf (fold resp_apply ops r) \<and> resp_iter (fold resp_apply ops r) = fold list_apply ops (resp_iter r)"
  by (induction ops arbitrary: r) (simp_all add: resp_apply_pairs)

lemma resp_new_pairs [simp]: "resp_wf resp_new" "resp_iter resp_new = []" "resp_wf (resp_reset r)" "resp_iter (resp_reset r) = []"
  by (simp_all add: resp_wf_def resp_iter_def resp_new_def resp_reset_def)

text \<open>C26.
  The headers of a response are a list of pairs: after any sequence of additions, numeric additions,
  removals and replacements, starting from a new or a reused response, the arena with its ranges
  presents exactly the list those operations build, and a lookup returns the first pair whose name
  matches regardless of case.
\<close>
theorem response_headers_refine_list:
  "resp_iter (fold resp_apply ops resp_new) = fold list_apply ops [] \<and>
   resp_iter (fold resp_apply ops (resp_reset r)) = fold list_apply ops [] \<and>
   resp_get n (fold resp_apply ops resp_new) =
     map_option snd (find (\<lambda>(m, _). eq_ignore_ascii_case m n) (fold list_apply ops []))"
  using resp_fold_pairs [of resp_new ops] resp_fold_pairs [of "resp_reset r" ops] by (simp add: resp_get_pairs)

section \<open>Reading a head back\<close>

fun crlf_split :: "bytes \<Rightarrow> bytes list" where
  "crlf_split [] = [[]]"
| "crlf_split (c # cs) =
    (if c = 0x0D \<and> take 1 cs = [0x0A] then [] # crlf_split (drop 1 cs)
     else (case crlf_split cs of l # ls \<Rightarrow> (c # l) # ls | [] \<Rightarrow> [[c]]))"

fun field_split :: "bytes \<Rightarrow> bytes \<times> bytes" where
  "field_split [] = ([], [])"
| "field_split (c # cs) =
    (if c = 0x3A \<and> take 1 cs = [0x20] then ([], drop 1 cs) else (case field_split cs of (n, v) \<Rightarrow> (c # n, v)))"

text \<open>A head is a status line, fields up to an empty line, and nothing more.\<close>

definition head_of_bytes :: "bytes \<Rightarrow> (nat \<times> (bytes \<times> bytes) list) option" where
  "head_of_bytes b =
    (case crlf_split b of
       l # ls \<Rightarrow>
         (let fields = takeWhile (\<lambda>l. l \<noteq> []) ls
          in if take 9 l = bs ''HTTP/1.1 '' \<and> dropWhile (\<lambda>l. l \<noteq> []) ls = [[], []]
             then map_option (\<lambda>c. (c, map field_split fields)) (dec_value 0 (takeWhile (\<lambda>b. b \<noteq> 0x20) (drop 9 l)))
             else None)
     | [] \<Rightarrow> None)"

definition head_fields :: "server_tokens \<Rightarrow> bytes \<Rightarrow> bytes \<Rightarrow> resp \<Rightarrow> (bytes \<times> bytes) list" where
  "head_fields tokens version date r =
    (if resp_has (bs ''server'') r then []
     else [(bs ''Server'', bs ''oxiserve'' @ (if tokens = TokensOn then bs ''/'' @ version else []))])
    @ (if resp_has (bs ''date'') r then [] else [(bs ''Date'', date)])
    @ (case resp_framing r of
         FLength n \<Rightarrow> [(bs ''Content-Length'', dec_digits (unat n))]
       | FChunked \<Rightarrow> [(bs ''Transfer-Encoding'', bs ''chunked'')]
       | _ \<Rightarrow> [])
    @ (if status r = 101 then [] else [(bs ''Connection'', if resp_keep_alive r then bs ''keep-alive'' else bs ''close'')])
    @ resp_iter r"

definition clean :: "bytes \<Rightarrow> bool" where
  "clean s \<longleftrightarrow> list_all (\<lambda>b. b \<noteq> 0x0D) s"

fun clean_field :: "bytes \<times> bytes \<Rightarrow> bool" where
  "clean_field (n, v) \<longleftrightarrow> clean n \<and> clean v \<and> n \<noteq> [] \<and> list_all (\<lambda>b. b \<noteq> 0x3A) n"

lemma crlf_split_line: "clean l \<Longrightarrow> crlf_split (l @ 0x0D # 0x0A # rest) = l # crlf_split rest"
  by (induction l) (auto simp: clean_def)

lemma field_split_line: "list_all (\<lambda>b. b \<noteq> 0x3A) n \<Longrightarrow> field_split (n @ 0x3A # 0x20 # v) = (n, v)"
  by (induction n) auto

text \<open>Every prepared status line is the one made from its code and reason.\<close>

lemma reason_prepared:
  "reason 200 = bs ''OK''"
  "reason 204 = bs ''No Content''"
  "reason 206 = bs ''Partial Content''"
  "reason 301 = bs ''Moved Permanently''"
  "reason 302 = bs ''Found''"
  "reason 304 = bs ''Not Modified''"
  "reason 307 = bs ''Temporary Redirect''"
  "reason 308 = bs ''Permanent Redirect''"
  "reason 400 = bs ''Bad Request''"
  "reason 403 = bs ''Forbidden''"
  "reason 404 = bs ''Not Found''"
  "reason 405 = bs ''Not Allowed''"
  "reason 408 = bs ''Request Time-out''"
  "reason 411 = bs ''Length Required''"
  "reason 413 = bs ''Request Entity Too Large''"
  "reason 414 = bs ''Request-URI Too Large''"
  "reason 416 = bs ''Requested Range Not Satisfiable''"
  "reason 421 = bs ''Misdirected Request''"
  "reason 429 = bs ''Too Many Requests''"
  "reason 431 = bs ''Request Header Fields Too Large''"
  "reason 500 = bs ''Internal Server Error''"
  "reason 501 = bs ''Not Implemented''"
  "reason 502 = bs ''Bad Gateway''"
  "reason 503 = bs ''Service Temporarily Unavailable''"
  "reason 504 = bs ''Gateway Time-out''"
  "reason 505 = bs ''HTTP Version Not Supported''"
  unfolding reason_def reasons_def by (simp_all only: map_of.simps fun_upd_apply fst_conv snd_conv option.case numeral_eq_iff
      num.inject num.distinct refl if_True if_False)

lemma status_lines_ok: "list_all (\<lambda>(c, l). l = bs ''HTTP/1.1 '' @ dec_digits c @ bs '' '' @ reason c @ crlf) status_lines"
  unfolding status_lines_def list.pred_inject prod.case reason_prepared by (simp add: dec_digits.simps)

lemma status_line_reason: "status_line c = Some l \<Longrightarrow> l = bs ''HTTP/1.1 '' @ dec_digits c @ bs '' '' @ reason c @ crlf"
  using status_lines_ok unfolding status_line_def list_all_iff by (auto dest!: map_of_SomeD)

lemma clean_simps [simp]: "clean []" "clean (c # s) \<longleftrightarrow> c \<noteq> 0x0D \<and> clean s" "clean (s @ t) \<longleftrightarrow> clean s \<and> clean t"
  by (auto simp: clean_def)

lemma reasons_clean: "list_all (\<lambda>(_, r). clean r) reasons"
  by (simp add: reasons_def)

lemma clean_reason [simp]: "clean (reason c)"
  using reasons_clean by (auto simp: reason_def Let_def list_all_iff split: option.split dest!: map_of_SomeD)

lemma dec_digits_ascii: "list_all is_ascii_digit (dec_digits n)"
proof (induction n rule: dec_digits.induct)
  case (1 n)
  then show ?case
    using digit_ascii [of "n mod 10"] digit_ascii [of n] by (subst dec_digits.simps) (auto simp: digit_def)
qed

lemma clean_dec_digits [simp]: "clean (dec_digits n)"
  using dec_digits_ascii [of n] by (auto simp: clean_def list_all_iff is_ascii_digit_def)

definition line_of :: "bytes \<times> bytes \<Rightarrow> bytes" where
  "line_of f = fst f @ bs '': '' @ snd f"

lemma line_of_clean: "clean_field f \<Longrightarrow> clean (line_of f) \<and> line_of f \<noteq> [] \<and> field_split (line_of f) = f"
  by (cases f) (auto simp: line_of_def field_split_line)

lemma crlf_split_fields:
  "list_all clean_field fs \<Longrightarrow> crlf_split (concat (map (\<lambda>(n, v). field_line n v) fs) @ crlf) = map line_of fs @ [[], []]"
proof (induction fs)
  case (Cons f fs)
  obtain n v where f: "f = (n, v)" by (cases f)
  have "field_line n v @ rest = line_of f @ 0x0D # 0x0A # rest" for rest by (simp add: f field_line_def line_of_def)
  with Cons line_of_clean [of f] show ?case by (simp add: f crlf_split_line)
qed simp

lemma write_head_lines:
  assumes "status r < 65536"
  shows "write_head tokens version date r =
    (bs ''HTTP/1.1 '' @ dec_digits (status r) @ bs '' '' @ reason (status r)) @ 0x0D # 0x0A #
     (concat (map (\<lambda>(n, v). field_line n v) (head_fields tokens version date r)) @ crlf)"
proof -
  have "unat (of_nat (status r) :: u64) = status r"
    using assms by (simp add: unsigned_of_nat take_bit_nat_eq_self_iff)
  then have "(case status_line (status r) of Some l \<Rightarrow> l
     | None \<Rightarrow> bs ''HTTP/1.1 '' @ push_num [] (of_nat (status r)) @ bs '' '' @ reason (status r) @ crlf) =
    bs ''HTTP/1.1 '' @ dec_digits (status r) @ bs '' '' @ reason (status r) @ crlf"
    by (auto split: option.split dest: status_line_reason)
  moreover have "(if \<not> resp_has (bs ''server'') r
       then (case tokens of
               TokensOn \<Rightarrow> bs ''Server: '' @ bs ''oxiserve'' @ bs ''/'' @ version @ crlf
             | _ \<Rightarrow> bs ''Server: '' @ bs ''oxiserve'' @ crlf) else []) =
    concat (map (\<lambda>(n, v). field_line n v) (if resp_has (bs ''server'') r then []
     else [(bs ''Server'', bs ''oxiserve'' @ (if tokens = TokensOn then bs ''/'' @ version else []))]))"
    by (cases tokens) (simp_all add: field_line_def)
  moreover have "(if \<not> resp_has (bs ''date'') r then bs ''Date: '' @ date @ crlf else []) =
    concat (map (\<lambda>(n, v). field_line n v) (if resp_has (bs ''date'') r then [] else [(bs ''Date'', date)]))"
    by (simp add: field_line_def)
  moreover have "(case resp_framing r of
         FLength n \<Rightarrow> bs ''Content-Length: '' @ push_num [] n @ crlf
       | FChunked \<Rightarrow> bs ''Transfer-Encoding: chunked'' @ crlf
       | _ \<Rightarrow> []) =
    concat (map (\<lambda>(n, v). field_line n v) (case resp_framing r of
         FLength n \<Rightarrow> [(bs ''Content-Length'', dec_digits (unat n))]
       | FChunked \<Rightarrow> [(bs ''Transfer-Encoding'', bs ''chunked'')]
       | _ \<Rightarrow> []))"
    by (cases "resp_framing r") (simp_all add: field_line_def)
  moreover have "(if status r \<noteq> 101
       then (if resp_keep_alive r then bs ''Connection: keep-alive'' @ crlf else bs ''Connection: close'' @ crlf) else []) =
    concat (map (\<lambda>(n, v). field_line n v) (if status r = 101 then []
      else [(bs ''Connection'', if resp_keep_alive r then bs ''keep-alive'' else bs ''close'')]))"
    by (simp add: field_line_def)
  ultimately show ?thesis
    by (simp only: write_head_def head_fields_def map_append concat_append append_assoc append_Cons append_Nil)
qed

lemma takeWhile_map_line: "list_all clean_field fs \<Longrightarrow> takeWhile (\<lambda>l. l \<noteq> []) (map line_of fs @ [] # ls) = map line_of fs \<and>
    dropWhile (\<lambda>l. l \<noteq> []) (map line_of fs @ [] # ls) = [] # ls"
  by (induction fs) (auto dest: line_of_clean)

lemma map_field_split: "list_all clean_field fs \<Longrightarrow> map (field_split \<circ> line_of) fs = fs"
  by (induction fs) (auto dest: line_of_clean)

lemma head_fields_clean:
  assumes "list_all clean_field (resp_iter r)" "clean version" "clean date"
  shows "list_all clean_field (head_fields tokens version date r)"
  using assms by (simp add: head_fields_def split: framing.split)

lemma head_of_write_head:
  assumes "status r < 65536" "list_all clean_field (resp_iter r)" "clean version" "clean date"
  shows "head_of_bytes (write_head tokens version date r) = Some (status r, head_fields tokens version date r)"
proof -
  let ?fs = "head_fields tokens version date r"
  let ?l = "bs ''HTTP/1.1 '' @ dec_digits (status r) @ bs '' '' @ reason (status r)"
  note fs = head_fields_clean [OF assms(2-4), of tokens]
  have "clean ?l" by simp
  then have split: "crlf_split (write_head tokens version date r) = ?l # map line_of ?fs @ [[], []]"
    unfolding write_head_lines [OF assms(1)] by (simp only: crlf_split_line crlf_split_fields [OF fs])
  have "list_all (\<lambda>b. b \<noteq> 0x20) (dec_digits (status r))"
    using dec_digits_ascii [of "status r"] by (auto simp: list_all_iff is_ascii_digit_def)
  then have "takeWhile (\<lambda>b. b \<noteq> 0x20) (drop 9 ?l) = dec_digits (status r)"
    by (simp add: list_all_iff takeWhile_append2)
  then show ?thesis
    using takeWhile_map_line [OF fs, of "[[]]"] map_field_split [OF fs] unfolding head_of_bytes_def split by simp
qed



section \<open>The reply a connection writes\<close>

text \<open>
  \<^verbatim>\<open>serve_h1\<close> decides whether the connection survives before it frames the reply: what the client
  asked for, the request limit, a body that could not be read, and the keep-alive timeout.
\<close>

definition conn_reply ::
  "bool \<Rightarrow> bool \<Rightarrow> bool \<Rightarrow> bool \<Rightarrow> bool \<Rightarrow> bool \<Rightarrow> ('m, 'f, 'i, 'd) reply \<Rightarrow> ('m, 'f, 'i, 'd) reply" where
  "conn_reply client_wants_keepalive over_request_limit body_ok timeout_positive http11 head_only rp =
    (let rp = rp\<lparr>rresp := (rresp rp)\<lparr>resp_keep_alive := resp_keep_alive (rresp rp) \<and> client_wants_keepalive \<and>
              \<not> over_request_limit \<and> body_ok \<and> timeout_positive\<rparr>\<rparr>;
         rp = frame http11 rp
     in if head_only then rp\<lparr>reply_body := BEmpty\<rparr> else rp)"

text \<open>
  How a recipient delimits the body from the head alone (RFC 9112, section 6.3): no body for a status
  without one or an answer to \<^verbatim>\<open>HEAD\<close>, then chunked coding, then the length, else until the close.
\<close>

datatype delimiter = DNothing | DLength nat | DChunks | DClose | DBad

definition values_of :: "bytes \<Rightarrow> (bytes \<times> bytes) list \<Rightarrow> bytes list" where
  "values_of name fs = map snd (filter (\<lambda>(n, _). eq_ignore_ascii_case n name) fs)"

definition recipient :: "bool \<Rightarrow> nat \<times> (bytes \<times> bytes) list \<Rightarrow> delimiter" where
  "recipient head_only h =
    (if head_only \<or> is_bodyless (fst h) then DNothing
     else (case values_of (bs ''transfer-encoding'') (snd h) of
             [v] \<Rightarrow> if eq_ignore_ascii_case v (bs ''chunked'') then DChunks else DBad
           | _ # _ # _ \<Rightarrow> DBad
           | [] \<Rightarrow> (case values_of (bs ''content-length'') (snd h) of
                     [] \<Rightarrow> DClose
                   | [v] \<Rightarrow> (case dec_value 0 v of Some n \<Rightarrow> DLength n | None \<Rightarrow> DBad)
                   | _ # _ # _ \<Rightarrow> DBad)))"

definition unframed :: "resp \<Rightarrow> bool" where
  "unframed r \<longleftrightarrow> resp_framing r = FNone \<and>
     list_all (\<lambda>(n, _). \<not> eq_ignore_ascii_case n (bs ''transfer-encoding'') \<and> \<not> eq_ignore_ascii_case n (bs ''content-length''))
       (resp_iter r)"

fun is_upgraded :: "('m, 'f, 'i, 'd) reply_body \<Rightarrow> bool" where
  "is_upgraded (BUpgraded _ _ _) = True"
| "is_upgraded _ = False"

lemma frame_plain:
  "\<not> is_upgraded (reply_body rp) \<Longrightarrow> frame http11 rp =
    (if is_bodyless (status (rresp rp))
        then rp\<lparr>reply_body := BEmpty, rresp := (rresp rp)\<lparr>resp_framing := FNone\<rparr>\<rparr>
        else if resp_framing (rresp rp) \<noteq> FNone then rp
        else rp\<lparr>rresp := (rresp rp)\<lparr>resp_framing :=
               (case known_len (reply_body rp) of
                  Some n \<Rightarrow> FLength n
                | None \<Rightarrow> if http11 then FChunked else FUntilClose)\<rparr>\<rparr>)"
  by (cases "reply_body rp") (simp_all add: frame_def)

lemma conn_reply_resp:
  assumes "\<not> is_upgraded (reply_body rp)"
  shows "rresp (conn_reply want over ok pos http11 head_only rp) =
    (rresp rp)\<lparr>resp_framing :=
        (if is_bodyless (status (rresp rp)) then FNone
         else if resp_framing (rresp rp) \<noteq> FNone then resp_framing (rresp rp)
         else (case known_len (reply_body rp) of Some n \<Rightarrow> FLength n | None \<Rightarrow> if http11 then FChunked else FUntilClose)),
      resp_keep_alive := (resp_keep_alive (rresp rp) \<and> want \<and> \<not> over \<and> ok \<and> pos)\<rparr>"
  using assms by (simp add: conn_reply_def frame_plain Let_def)

lemma values_of_append [simp]: "values_of n (fs @ gs) = values_of n fs @ values_of n gs"
  "values_of n [] = []" "values_of n ((m, v) # fs) = (if eq_ignore_ascii_case m n then [v] else []) @ values_of n fs"
  by (simp_all add: values_of_def)

lemma values_of_none: "list_all (\<lambda>(n, _). \<not> eq_ignore_ascii_case n m) fs \<Longrightarrow> values_of m fs = []"
  by (induction fs) auto

lemma resp_iter_framing [simp]: "resp_iter (r\<lparr>resp_framing := f\<rparr>) = resp_iter r" "resp_iter (r\<lparr>resp_keep_alive := k\<rparr>) = resp_iter r"
  by (simp_all add: resp_iter_def)

lemma framing_values:
  assumes "list_all (\<lambda>(n, _). \<not> eq_ignore_ascii_case n (bs ''transfer-encoding'') \<and> \<not> eq_ignore_ascii_case n (bs ''content-length''))
       (resp_iter r)"
  shows "values_of (bs ''transfer-encoding'') (head_fields tokens version date r) = (if resp_framing r = FChunked then [bs ''chunked''] else [])"
    and "values_of (bs ''content-length'') (head_fields tokens version date r) =
      (case resp_framing r of FLength n \<Rightarrow> [dec_digits (unat n)] | _ \<Rightarrow> [])"
proof -
  have none: "values_of (bs ''transfer-encoding'') (resp_iter r) = []" "values_of (bs ''content-length'') (resp_iter r) = []"
    using assms by (auto intro!: values_of_none simp: list_all_iff)
  show "values_of (bs ''transfer-encoding'') (head_fields tokens version date r) = (if resp_framing r = FChunked then [bs ''chunked''] else [])"
    using none(1) unfolding head_fields_def
    by (cases "resp_framing r") (auto simp: eq_ignore_ascii_case_def to_ascii_lowercase_def)
  show "values_of (bs ''content-length'') (head_fields tokens version date r) =
      (case resp_framing r of FLength n \<Rightarrow> [dec_digits (unat n)] | _ \<Rightarrow> [])"
    using none(2) unfolding head_fields_def
    by (cases "resp_framing r") (auto simp: eq_ignore_ascii_case_def to_ascii_lowercase_def)
qed

text \<open>What the head tells a client about a reply whose framing is left to the connection.\<close>

lemma recipient_conn_reply:
  assumes "unframed (rresp rp)" "\<not> is_upgraded (reply_body rp)"
  shows "recipient head_only (status (rresp rp), head_fields tokens version date (rresp (conn_reply want over ok pos http11 head_only rp))) =
    (if head_only \<or> is_bodyless (status (rresp rp)) then DNothing
     else (case known_len (reply_body rp) of Some n \<Rightarrow> DLength (unat n) | None \<Rightarrow> if http11 then DChunks else DClose))"
proof -
  let ?r = "rresp (conn_reply want over ok pos http11 head_only rp)"
  have iter: "resp_iter ?r = resp_iter (rresp rp)" by (simp add: conn_reply_resp [OF assms(2)])
  have un: "list_all (\<lambda>(n, _). \<not> eq_ignore_ascii_case n (bs ''transfer-encoding'') \<and> \<not> eq_ignore_ascii_case n (bs ''content-length''))
       (resp_iter ?r)"
    using assms(1) unfolding unframed_def iter by blast
  have fr: "resp_framing ?r = (if is_bodyless (status (rresp rp)) then FNone
      else (case known_len (reply_body rp) of Some n \<Rightarrow> FLength n | None \<Rightarrow> if http11 then FChunked else FUntilClose))"
    using assms(1) by (simp add: conn_reply_resp [OF assms(2)] unframed_def)
  show ?thesis
    unfolding recipient_def fst_conv snd_conv framing_values [OF un] fr by (simp split: option.split)
qed

text \<open>
  An HTTP/1.0 client that asked for keep-alive and gets a body of unknown length (a streamed FastCGI
  response) receives a head that announces keep-alive and no length: it can only read until the
  close, which the connection does not perform.
\<close>
theorem http10_keepalive_unbounded:
  assumes "unframed (rresp rp)" "\<not> is_upgraded (reply_body rp)" "known_len (reply_body rp) = None"
    "\<not> is_bodyless (status (rresp rp))" "status (rresp rp) \<noteq> 101" "resp_keep_alive (rresp rp)"
  shows "let r = rresp (conn_reply True False True True False False rp)
    in resp_keep_alive r \<and> (bs ''Connection'', bs ''keep-alive'') \<in> set (head_fields tokens version date r) \<and>
       recipient False (status r, head_fields tokens version date r) = DClose"
proof -
  let ?r = "rresp (conn_reply True False True True False False rp)"
  have iter: "resp_iter ?r = resp_iter (rresp rp)" by (simp add: conn_reply_resp [OF assms(2)])
  have un: "list_all (\<lambda>(n, _). \<not> eq_ignore_ascii_case n (bs ''transfer-encoding'') \<and> \<not> eq_ignore_ascii_case n (bs ''content-length''))
       (resp_iter ?r)"
    using assms(1) unfolding unframed_def iter by blast
  have r: "resp_framing ?r = FUntilClose" "status ?r = status (rresp rp)" "resp_keep_alive ?r"
    using assms by (simp_all add: conn_reply_resp [OF assms(2)] unframed_def)
  then have "(bs ''Connection'', bs ''keep-alive'') \<in> set (head_fields tokens version date ?r)"
    using assms(5) by (simp add: head_fields_def)
  then show ?thesis using r assms(4) unfolding Let_def recipient_def fst_conv snd_conv framing_values [OF un] by simp
qed

theorem http10_keepalive_unbounded_witness:
  "let r = rresp (conn_reply True False True True False False
      \<lparr>rresp = resp_new, reply_body = (BStream [] () None :: (unit, unit, unit, unit) reply_body)\<rparr>)
   in resp_keep_alive r \<and> (bs ''Connection'', bs ''keep-alive'') \<in> set (head_fields TokensOff [] [] r) \<and>
      recipient False (status r, head_fields TokensOff [] [] r) = DClose"
proof -
  have "unframed resp_new" "status resp_new = 200" "resp_keep_alive resp_new" "\<not> is_bodyless 200"
    by (simp_all add: unframed_def is_bodyless_def) (simp_all add: resp_new_def)
  with http10_keepalive_unbounded [of "\<lparr>rresp = resp_new, reply_body = (BStream [] () None :: (unit, unit, unit, unit) reply_body)\<rparr>"
      TokensOff "[]" "[]"]
  show ?thesis by simp
qed

end
