(* ===== verification/Files.thy ===== *)
theory Files
  imports Uri Request Routing Response Http_Date
begin

text \<open>
  Static files (\<^verbatim>\<open>server/files.rs\<close>): the path of a request under \<^verbatim>\<open>root\<close> or \<^verbatim>\<open>alias\<close>, directories and
  their index, entity tags, conditional requests, byte ranges and the reply that serves a file.
  The file system behind the open-file cache, template rendering, the directory listing, memory
  mapping and \<^verbatim>\<open>httpdate::parse_http_date\<close> are arguments. File times are nanoseconds since the
  epoch, sizes and offsets 64-bit words (the release profile wraps on overflow).
\<close>

section \<open>Paths\<close>

record fctx =
  fbuf :: bytes
  freq :: req
  furi :: bytes
  fargs :: bytes
  fscheme :: bytes
  flocal_port :: "nat option"
  fdocument_root :: bytes
  ffilename :: bytes

datatype if_modified_since_conf = ImsOff | ImsExact | ImsBefore

type_synonym template = "fctx \<Rightarrow> bytes"

record file_conf =
  fc_alias :: "template option"
  fc_root :: template
  fc_index :: "template list"
  fc_autoindex :: bool
  fc_absolute_redirect :: bool
  fc_port_in_redirect :: bool
  fc_server_tokens :: server_tokens
  fc_etag :: bool
  fc_if_modified_since :: if_modified_since_conf
  fc_max_ranges :: "nat option"
  fc_sendfile :: bool
  fc_default_type :: bytes
  fc_charset :: "bytes option"

text \<open>\<^verbatim>\<open>str::get(n..)\<close>: nothing when the index is out of range or inside a character.\<close>

definition str_from :: "nat \<Rightarrow> bytes \<Rightarrow> bytes option" where
  "str_from n s =
    (if n < length s then (if is_cont (s ! n) then None else Some (drop n s))
     else if n = length s then Some [] else None)"

definition ends_with_slash :: "bytes \<Rightarrow> bool" where
  "ends_with_slash s \<longleftrightarrow> s \<noteq> [] \<and> last s = 0x2F"

definition starts_with_slash :: "bytes \<Rightarrow> bool" where
  "starts_with_slash s \<longleftrightarrow> s \<noteq> [] \<and> hd s = 0x2F"

fun alias_prefix_len :: "'r loc_match option \<Rightarrow> bytes \<Rightarrow> nat" where
  "alias_prefix_len (Some (LPrefix p)) uri = length p"
| "alias_prefix_len (Some (LPrefixNoRegex p)) uri = length p"
| "alias_prefix_len (Some (LExact p)) uri = length p"
| "alias_prefix_len _ uri = length uri"

definition map_path :: "fctx \<Rightarrow> file_conf \<Rightarrow> 'r loc_match option \<Rightarrow> bytes" where
  "map_path ctx core lm =
    (case fc_alias core of
       Some al \<Rightarrow>
        (let p = al ctx;
             rest = (case str_from (alias_prefix_len lm (furi ctx)) (furi ctx) of Some r \<Rightarrow> r | None \<Rightarrow> [])
         in if rest = [] then p
            else (let p = (if ends_with_slash p \<and> starts_with_slash rest then butlast p
                           else if \<not> ends_with_slash p \<and> \<not> starts_with_slash rest then p @ [0x2F] else p)
                  in p @ rest))
     | None \<Rightarrow> fc_root core ctx @ furi ctx)"

section \<open>Entity tags and conditions\<close>

definition truncate_secs :: "int \<Rightarrow> u64" where
  "truncate_secs t = of_int (secs_since_epoch t)"

definition make_etag :: "int \<Rightarrow> u64 \<Rightarrow> bytes" where
  "make_etag mtime sz = push_hex (push_hex (bs ''\"'') (truncate_secs mtime) @ bs ''-'') sz @ bs ''\"''"

fun trim_start_weak :: "bytes \<Rightarrow> bytes" where
  "trim_start_weak (a # b # s) = (if a = 0x57 \<and> b = 0x2F then trim_start_weak s else a # b # s)"
| "trim_start_weak s = s"

definition etag_list_matches :: "bytes \<Rightarrow> bytes \<Rightarrow> bool \<Rightarrow> bool" where
  "etag_list_matches l etag weak =
    (let target = trim_start_weak etag
     in list_ex (\<lambda>c. let c = trim c; c = (if weak then trim_start_weak c else c) in c = target) (split_on 0x2C l))"

text \<open>Times are compared as \<^verbatim>\<open>SystemTime\<close>s, down to the nanosecond.\<close>

definition evaluate_preconditions ::
  "(bytes \<Rightarrow> int option) \<Rightarrow> (hot \<Rightarrow> bytes option) \<Rightarrow> file_conf \<Rightarrow> bytes \<Rightarrow> int \<Rightarrow> nat option" where
  "evaluate_preconditions parse_http_date hv core etag mtime =
    (let gate =
       (case hv IfMatch of
          Some v \<Rightarrow> if trim v \<noteq> bs ''*'' \<and> \<not> etag_list_matches v etag False then Some 412 else None
        | None \<Rightarrow>
           (case hv IfUnmodifiedSince of
              Some v \<Rightarrow> (case parse_http_date v of Some t \<Rightarrow> if mtime > t then Some 412 else None | None \<Rightarrow> None)
            | None \<Rightarrow> None))
     in case gate of
          Some c \<Rightarrow> Some c
        | None \<Rightarrow>
           (case hv IfNoneMatch of
              Some v \<Rightarrow> if trim v = bs ''*'' \<or> etag_list_matches v etag True then Some 304 else None
            | None \<Rightarrow>
               if fc_if_modified_since core = ImsOff then None
               else (case hv IfModifiedSince of
                       Some v \<Rightarrow>
                        (case parse_http_date v of
                           Some t \<Rightarrow>
                            (let unmodified = (if fc_if_modified_since core = ImsBefore then mtime < t else mtime \<le> t)
                             in if unmodified \<or> truncate_secs mtime = truncate_secs t then Some 304 else None)
                         | None \<Rightarrow> None)
                     | None \<Rightarrow> None)))"

definition if_range_matches :: "(bytes \<Rightarrow> int option) \<Rightarrow> (hot \<Rightarrow> bytes option) \<Rightarrow> bytes \<Rightarrow> int \<Rightarrow> bool" where
  "if_range_matches parse_http_date hv etag mtime =
    (case hv IfRange of
       None \<Rightarrow> True
     | Some v \<Rightarrow>
        (let v = trim v
         in if starts_with v (bs ''\"'') \<or> starts_with v (bs ''W/'') then v = etag
            else (case parse_http_date v of
                    Some t \<Rightarrow> truncate_secs mtime = truncate_secs t
                  | None \<Rightarrow> False)))"

section \<open>Ranges\<close>

datatype range_spec = RNone | RUnsatisfiable | ROne u64 u64

definition parse_u64 :: "bytes \<Rightarrow> u64 option" where
  "parse_u64 s = map_option of_nat (parse_unsigned 64 s)"

definition parse_range :: "bytes \<Rightarrow> u64 \<Rightarrow> range_spec" where
  "parse_range h sz =
    (case strip_prefix (bs ''bytes='') (trim h) of
       None \<Rightarrow> RNone
     | Some spec \<Rightarrow>
        (case split_on 0x2C spec of
           [spec1] \<Rightarrow>
            (case split_once 0x2D (trim spec1) of
               None \<Rightarrow> RNone
             | Some (a, b) \<Rightarrow>
                if a = []
                then (case parse_u64 b of
                        None \<Rightarrow> RNone
                      | Some n \<Rightarrow> if n = 0 then RUnsatisfiable
                                  else ROne (if n \<le> sz then sz - n else 0) sz)
                else (case parse_u64 a of
                        None \<Rightarrow> RNone
                      | Some start \<Rightarrow>
                         if start \<ge> sz then RUnsatisfiable
                         else (case (if b = [] then Some sz
                                     else map_option (\<lambda>n. min (n + 1) sz) (parse_u64 b)) of
                                 None \<Rightarrow> RNone
                               | Some e \<Rightarrow> if e \<le> start then RUnsatisfiable else ROne start e)))
         | _ \<Rightarrow> RNone))"

section \<open>Serving\<close>

datatype 'f cached = CFile 'f u64 int | CDir | CError nat

datatype 'b served = SReply 'b | SInternal bytes | SStatus nat

abbreviation INLINE_MAX :: u64 where "INLINE_MAX \<equiv> 65536"
abbreviation MMAP_MAX :: u64 where "MMAP_MAX \<equiv> 262144"

text \<open>\<open>mmap\<close> is the outcome of mapping the whole file: the map and its length, or a failure.\<close>

definition make_body ::
  "('f \<Rightarrow> ('m \<times> nat) option) \<Rightarrow> 'f \<Rightarrow> u64 \<Rightarrow> u64 \<Rightarrow> bool \<Rightarrow> ('m, 'f, 'i, 'd) reply_body" where
  "make_body mmap f start len sendfile =
    (if len = 0 then BEmpty
     else if len \<le> INLINE_MAX then BInline f start len
     else if \<not> sendfile \<and> len \<le> MMAP_MAX
     then (case mmap f of
             Some (mp, mlen) \<Rightarrow>
               (let s = unat start; e = unat (start + len)
                in if e \<le> mlen then BMmap mp s e else BFile f start len)
           | None \<Rightarrow> BFile f start len)
     else BFile f start len)"

definition write_content_type :: "(bytes \<rightharpoonup> bytes) \<Rightarrow> file_conf \<Rightarrow> bytes \<Rightarrow> resp \<Rightarrow> resp" where
  "write_content_type mime core fpath =
    (let base = (case mime_lookup mime fpath of Some t \<Rightarrow> t | None \<Rightarrow> fc_default_type core);
         charset = (case fc_charset core of
                      Some cs \<Rightarrow> if starts_with base (bs ''text/'') \<or> base = bs ''application/javascript'' then Some cs else None
                    | None \<Rightarrow> None)
     in header_with (bs ''Content-Type'')
          (\<lambda>o'. o' @ base @ (case charset of Some cs \<Rightarrow> bs ''; charset='' @ cs | None \<Rightarrow> [])))"

definition dir_redirect :: "bytes \<Rightarrow> fctx \<Rightarrow> file_conf \<Rightarrow> ('m, 'f, 'i, 'd) reply" where
  "dir_redirect version ctx core =
    (let origin =
           (if fc_absolute_redirect core
            then (let h = host (freq ctx) (fbuf ctx);
                      port = (case flocal_port ctx of Some p \<Rightarrow> p | None \<Rightarrow> 0);
                      default = (if fscheme ctx = bs ''https'' then 443 else 80)
                  in fscheme ctx @ bs ''://'' @ (if h = [] then bs ''localhost'' else h)
                     @ (if fc_port_in_redirect core \<and> port \<noteq> default then push_num (bs '':'') (of_nat port) else []))
            else []);
         loc = origin @ encode_path (furi ctx) @ [0x2F] @ (if fargs ctx \<noteq> [] then 0x3F # fargs ctx else [])
     in \<lparr>rresp = add_header (bs ''Content-Type'') (bs ''text/html'') (add_header (bs ''Location'') loc (resp_new\<lparr>status := 301\<rparr>)),
         reply_body = BBytes (error_page 301 (signature (fc_server_tokens core) version))\<rparr>)"

definition file_range ::
  "(bytes \<Rightarrow> int option) \<Rightarrow> (hot \<Rightarrow> bytes option) \<Rightarrow> file_conf \<Rightarrow> bytes \<Rightarrow> u64 \<Rightarrow> int \<Rightarrow> range_spec" where
  "file_range parse_http_date hv core etag sz mtime =
    (case hv RangeH of
       Some h \<Rightarrow>
         if fc_max_ranges core \<noteq> Some 0 \<and> if_range_matches parse_http_date hv etag mtime then parse_range h sz else RNone
     | None \<Rightarrow> RNone)"

definition content_range :: "u64 \<Rightarrow> u64 \<Rightarrow> u64 \<Rightarrow> bytes" where
  "content_range s e sz = push_num (push_num (push_num (bs ''bytes '') s @ bs ''-'') (e - 1) @ bs ''/'') sz"

text \<open>\<open>hv\<close> is the header lookup of the request, \<open>meth\<close> its method.\<close>

definition serve_file ::
  "(bytes \<Rightarrow> int option) \<Rightarrow> ('f \<Rightarrow> ('m \<times> nat) option) \<Rightarrow> (bytes \<rightharpoonup> bytes) \<Rightarrow> http_method \<Rightarrow> (hot \<Rightarrow> bytes option) \<Rightarrow>
   file_conf \<Rightarrow> bytes \<Rightarrow> 'f \<Rightarrow> u64 \<Rightarrow> int \<Rightarrow> nat + ('m, 'f, 'i, 'd) reply" where
  "serve_file parse_http_date mmap mime meth hv core fpath f sz mtime =
    (if \<not> is_safe meth \<and> meth \<noteq> Options then Inl 405
     else
       (let etag = make_etag mtime sz;
            last_modified = header_with (bs ''Last-Modified'') (append_http_date_of mtime)
        in case evaluate_preconditions parse_http_date hv core etag mtime of
             Some st \<Rightarrow>
               (let r = resp_new\<lparr>status := st\<rparr>;
                    r = (if st = 304 then last_modified (if fc_etag core then add_header (bs ''ETag'') etag r else r) else r)
                in Inr \<lparr>rresp = r, reply_body = BEmpty\<rparr>)
           | None \<Rightarrow>
               (let r = last_modified (write_content_type mime core fpath resp_new);
                    r = (if fc_etag core then add_header (bs ''ETag'') etag r else r);
                    r = add_header (bs ''Accept-Ranges'') (bs ''bytes'') r;
                    whole = (\<lambda>r s len.
                      if meth = Head then \<lparr>rresp = r\<lparr>resp_framing := FLength len\<rparr>, reply_body = BEmpty\<rparr>
                      else \<lparr>rresp = r, reply_body = make_body mmap f s len (fc_sendfile core)\<rparr>)
                in case file_range parse_http_date hv core etag sz mtime of
                     RUnsatisfiable \<Rightarrow>
                       Inr \<lparr>rresp = header_with (bs ''Content-Range'') (\<lambda>a. push_num (a @ bs ''bytes */'') sz) (r\<lparr>status := 416\<rparr>),
                            reply_body = BEmpty\<rparr>
                   | ROne s e \<Rightarrow>
                       Inr (whole (header_with (bs ''Content-Range'') (\<lambda>a. a @ content_range s e sz) (r\<lparr>status := 206\<rparr>)) s (e - s))
                   | RNone \<Rightarrow> Inr (whole r 0 sz))))"

definition trim_start_slash :: "bytes \<Rightarrow> bytes" where
  "trim_start_slash = dropWhile (\<lambda>b. b = 0x2F)"

fun serve_directory ::
  "(bytes \<Rightarrow> 'f cached) \<Rightarrow> (bytes \<Rightarrow> nat + 'b) \<Rightarrow> fctx \<Rightarrow> file_conf \<Rightarrow> bytes \<Rightarrow> template list \<Rightarrow> 'b served" where
  "serve_directory lookup autoindex ctx core dir (idx # rest) =
    (let name = idx ctx
     in if name = [] then serve_directory lookup autoindex ctx core dir rest
        else (let candidate = (if ends_with_slash dir then dir else dir @ [0x2F]) @ trim_start_slash name
              in case lookup candidate of
                   CFile _ _ _ \<Rightarrow>
                     SInternal ((if ends_with_slash (furi ctx) then furi ctx else furi ctx @ [0x2F]) @ trim_start_slash name)
                 | _ \<Rightarrow> serve_directory lookup autoindex ctx core dir rest))"
| "serve_directory lookup autoindex ctx core dir [] =
    (if fc_autoindex core then (case autoindex dir of Inr r \<Rightarrow> SReply r | Inl c \<Rightarrow> SStatus c) else SStatus 403)"

definition serve ::
  "(bytes \<Rightarrow> int option) \<Rightarrow> ('f \<Rightarrow> ('m \<times> nat) option) \<Rightarrow> (bytes \<rightharpoonup> bytes) \<Rightarrow> (bytes \<Rightarrow> 'f cached) \<Rightarrow>
   (bytes \<Rightarrow> nat + ('m, 'f, 'i, 'd) reply) \<Rightarrow> bytes \<Rightarrow> fctx \<Rightarrow> file_conf \<Rightarrow> 'r loc_match option \<Rightarrow>
   fctx \<times> ('m, 'f, 'i, 'd) reply served" where
  "serve parse_http_date mmap mime lookup autoindex version ctx core lm =
    (let ctx = ctx\<lparr>fdocument_root := (case fc_alias core of Some al \<Rightarrow> al ctx | None \<Rightarrow> fc_root core ctx)\<rparr>;
         p = map_path ctx core lm;
         ctx = ctx\<lparr>ffilename := p\<rparr>
     in (ctx,
         case lookup p of
           CError st \<Rightarrow> SStatus st
         | CDir \<Rightarrow>
             if \<not> ends_with_slash (furi ctx) then SReply (dir_redirect version ctx core)
             else serve_directory lookup autoindex ctx core p (fc_index core)
         | CFile f sz mtime \<Rightarrow>
             (case serve_file parse_http_date mmap mime (rmethod (freq ctx)) (hot_value (freq ctx) (fbuf ctx)) core p f sz mtime of
                Inr r \<Rightarrow> SReply r
              | Inl c \<Rightarrow> SStatus c)))"

datatype io_error = NotFound | PermissionDenied | NameTooLong | TooManyLinks | OtherError

fun io_status :: "io_error \<Rightarrow> nat" where
  "io_status NotFound = 404"
| "io_status PermissionDenied = 403"
| "io_status NameTooLong = 404"
| "io_status TooManyLinks = 404"
| "io_status OtherError = 500"

section \<open>Byte ranges\<close>

lemma word_sub_bounds: "n \<noteq> 0 \<Longrightarrow> n \<le> sz \<Longrightarrow> sz - n \<le> sz \<and> (0 < sz \<longrightarrow> sz - n < (sz :: u64))"
  by (auto simp: word_le_nat_alt word_less_nat_alt unat_sub unat_gt_0)

lemma parse_range_bounds:
  assumes "parse_range h sz = ROne s e"
  shows "e \<le> sz \<and> s \<le> e \<and> (0 < sz \<longrightarrow> s < e)"
  using assms word_sub_bounds unfolding parse_range_def
  by (auto split: option.splits list.splits prod.splits if_splits simp: word_gt_0 not_le less_imp_le)

text \<open>Text without blanks and outside the ASCII range is not trimmed.\<close>

definition plain :: "u8 \<Rightarrow> bool" where
  "plain b \<longleftrightarrow> 0x21 \<le> b \<and> b < 0x80"

lemma ws_len_plain: "list_all plain s \<Longrightarrow> ws_len s = 0"
proof (cases s)
  case (Cons a r)
  assume "list_all plain s"
  with Cons have "0x21 \<le> a" "a < 0x80" by (simp_all add: plain_def)
  then have "\<not> (9 \<le> a \<and> a \<le> 13 \<or> a = 32)" "a \<noteq> 0xC2" "a \<noteq> 0xE1" "a \<noteq> 0xE2" "a \<noteq> 0xE3"
    by (auto simp: word_le_nat_alt word_less_nat_alt)
  then show ?thesis unfolding Cons by (auto split: list.split)
qed simp

lemma list_all_drop: "list_all P xs \<Longrightarrow> list_all P (drop n xs)"
  by (auto simp: list_all_iff dest: in_set_dropD)

lemma trim_plain: "list_all plain s \<Longrightarrow> trim s = s"
  by (simp add: trim_def trim_start.simps [of s] trim_end.simps [of s] ws_len_end_def ws_len_plain list_all_drop)

lemma digit_plain: "is_ascii_digit b \<Longrightarrow> plain b \<and> b \<noteq> 0x2C \<and> b \<noteq> 0x2D"
  by (auto simp: plain_def is_ascii_digit_def word_le_nat_alt word_less_nat_alt)

lemma dec_digits_plain:
  "list_all plain (dec_digits n)" "0x2C \<notin> set (dec_digits n)" "0x2D \<notin> set (dec_digits n)" "dec_digits n \<noteq> []"
  using dec_digits_ascii [of n] digit_plain by (auto simp: list_all_iff) (simp add: dec_digits.simps [of n] split: if_splits)

lemma split_once_first: "c \<notin> set a \<Longrightarrow> split_once c (a @ c # b) = Some (a, b)"
  by (induction a) auto

lemma parse_u64_digits: "n < 18446744073709551616 \<Longrightarrow> parse_u64 (dec_digits n) = Some (of_nat n)"
  using parse_unsigned_dec_digits [of n 64] by (simp add: parse_u64_def)

lemma parse_range_spec:
  assumes "list_all plain spec" "0x2C \<notin> set spec"
  shows "parse_range (bs ''bytes='' @ spec) sz =
    (case split_once 0x2D spec of
       None \<Rightarrow> RNone
     | Some (a, b) \<Rightarrow>
        if a = []
        then (case parse_u64 b of
                None \<Rightarrow> RNone
              | Some n \<Rightarrow> if n = 0 then RUnsatisfiable else ROne (if n \<le> sz then sz - n else 0) sz)
        else (case parse_u64 a of
                None \<Rightarrow> RNone
              | Some start \<Rightarrow>
                 if start \<ge> sz then RUnsatisfiable
                 else (case (if b = [] then Some sz else map_option (\<lambda>n. min (n + 1) sz) (parse_u64 b)) of
                         None \<Rightarrow> RNone
                       | Some e \<Rightarrow> if e \<le> start then RUnsatisfiable else ROne start e)))"
proof -
  have "list_all plain (bs ''bytes='' @ spec)" using assms(1) by (simp add: plain_def)
  then have "trim (bs ''bytes='' @ spec) = bs ''bytes='' @ spec" by (rule trim_plain)
  then have "strip_prefix (bs ''bytes='') (trim (bs ''bytes='' @ spec)) = Some spec"
    by (simp only: strip_prefix_def starts_with_def) simp
  then show ?thesis
    unfolding parse_range_def by (simp only: option.case split_on_no_sep [OF assms(2)] list.case trim_plain [OF assms(1)])
qed

definition first_last :: "nat \<Rightarrow> nat \<Rightarrow> bytes" where
  "first_last a b = bs ''bytes='' @ dec_digits a @ 0x2D # dec_digits b"

lemma parse_first_last:
  assumes "a < 18446744073709551616" "b < 18446744073709551616"
  shows "parse_range (first_last a b) sz =
    (if of_nat a \<ge> sz then RUnsatisfiable
     else if min (of_nat b + 1) sz \<le> of_nat a then RUnsatisfiable else ROne (of_nat a) (min (of_nat b + 1) sz))"
proof -
  have "list_all plain (dec_digits a @ 0x2D # dec_digits b)" "0x2C \<notin> set (dec_digits a @ 0x2D # dec_digits b)"
    using dec_digits_plain [of a] dec_digits_plain [of b] by (simp_all add: plain_def)
  from parse_range_spec [OF this, of sz] show ?thesis
    unfolding first_last_def split_once_first [OF dec_digits_plain(3)]
    by (simp add: dec_digits_plain(4) parse_u64_digits assms)
qed

section \<open>The reply for a file\<close>

text \<open>The part of the file a body is read from.\<close>

fun body_window :: "('m, 'f, 'i, 'd) reply_body \<Rightarrow> (nat \<times> nat) option" where
  "body_window (BMmap m s e) = Some (s, e)"
| "body_window (BInline f off len) = Some (unat off, unat off + unat len)"
| "body_window (BFile f off len) = Some (unat off, unat off + unat len)"
| "body_window BEmpty = Some (0, 0)"
| "body_window _ = None"

lemma make_body_window:
  assumes "s \<le> e"
  shows "body_window (make_body mmap f s (e - s) sf) = Some (if s = e then (0, 0) else (unat s, unat e)) \<and>
    known_len (make_body mmap f s (e - s) sf) = Some (e - s)"
proof -
  have len: "unat s + unat (e - s) = unat e" using assms by (simp add: unat_sub word_le_nat_alt)
  have "unat e - unat s = unat (e - s)" using assms by (simp add: unat_sub)
  then show ?thesis using len by (auto simp: make_body_def Let_def split: option.split)
qed

text \<open>The headers of a file reply before the range is decided.\<close>

definition file_headers :: "(bytes \<rightharpoonup> bytes) \<Rightarrow> file_conf \<Rightarrow> bytes \<Rightarrow> u64 \<Rightarrow> int \<Rightarrow> resp" where
  "file_headers mime core fpath sz mtime =
    (let r = header_with (bs ''Last-Modified'') (append_http_date_of mtime) (write_content_type mime core fpath resp_new);
         r = (if fc_etag core then add_header (bs ''ETag'') (make_etag mtime sz) r else r)
     in add_header (bs ''Accept-Ranges'') (bs ''bytes'') r)"

lemma append_http_date_of_append: "append_http_date_of t a = a @ http_date t"
  by (simp add: http_date_def append_http_date_of_def Let_def split: prod.split)

lemma last_modified_pairs:
  assumes "resp_wf r"
  shows "resp_wf (header_with (bs ''Last-Modified'') (append_http_date_of t) r)"
    "resp_iter (header_with (bs ''Last-Modified'') (append_http_date_of t) r) = resp_iter r @ [(bs ''Last-Modified'', http_date t)]"
  using header_with_append [OF append_http_date_of_append assms] by auto

lemma content_type_pairs:
  obtains v where "resp_wf (write_content_type mime core fpath resp_new)"
    "resp_iter (write_content_type mime core fpath resp_new) = [(bs ''Content-Type'', v)]"
proof -
  have "\<exists>v. write_content_type mime core fpath = header_with (bs ''Content-Type'') (\<lambda>a. a @ v)"
    unfolding write_content_type_def Let_def by (rule exI) (rule refl)
  then obtain v where "write_content_type mime core fpath = header_with (bs ''Content-Type'') (\<lambda>a. a @ v)" ..
  then show thesis using that [of v] header_with_append [of "\<lambda>a. a @ v" v resp_new "bs ''Content-Type''"] by simp
qed

lemma file_headers_pairs:
  obtains v where "resp_wf (file_headers mime core fpath sz mtime)"
    "resp_iter (file_headers mime core fpath sz mtime) =
      [(bs ''Content-Type'', v), (bs ''Last-Modified'', http_date mtime)]
      @ (if fc_etag core then [(bs ''ETag'', make_etag mtime sz)] else []) @ [(bs ''Accept-Ranges'', bs ''bytes'')]"
proof -
  obtain v where "resp_wf (write_content_type mime core fpath resp_new)"
    "resp_iter (write_content_type mime core fpath resp_new) = [(bs ''Content-Type'', v)]"
    by (rule content_type_pairs)
  then show thesis
    using that [of v] unfolding file_headers_def Let_def
    by (auto simp del: bs_simps simp: last_modified_pairs add_header_pairs)
qed

lemma header_with_fields [simp]:
  "status (header_with n f r) = status r" "resp_framing (header_with n f r) = resp_framing r"
  "status (add_header n v r) = status r" "resp_framing (add_header n v r) = resp_framing r"
  by (simp_all add: header_with_def add_header_def Let_def)

lemma file_headers_fields: "status (file_headers mime core fpath sz mtime) = 200" "resp_framing (file_headers mime core fpath sz mtime) = FNone"
  by (simp_all add: file_headers_def write_content_type_def Let_def) (simp_all add: resp_new_def)

text \<open>\<^verbatim>\<open>serve_file\<close> in terms of those headers, once the preconditions let the request through.\<close>

lemma serve_file_eq:
  assumes "is_safe meth \<or> meth = Options"
  shows "serve_file parse_http_date mmap mime meth hv core fpath f sz mtime =
    (case evaluate_preconditions parse_http_date hv core (make_etag mtime sz) mtime of
       Some st \<Rightarrow>
         Inr \<lparr>rresp = (if st = 304 then header_with (bs ''Last-Modified'') (append_http_date_of mtime)
                (if fc_etag core then add_header (bs ''ETag'') (make_etag mtime sz) (resp_new\<lparr>status := st\<rparr>) else resp_new\<lparr>status := st\<rparr>)
              else resp_new\<lparr>status := st\<rparr>), reply_body = BEmpty\<rparr>
     | None \<Rightarrow>
         (let r = file_headers mime core fpath sz mtime;
              whole = (\<lambda>r s len.
                if meth = Head then \<lparr>rresp = r\<lparr>resp_framing := FLength len\<rparr>, reply_body = BEmpty\<rparr>
                else \<lparr>rresp = r, reply_body = make_body mmap f s len (fc_sendfile core)\<rparr>)
          in case file_range parse_http_date hv core (make_etag mtime sz) sz mtime of
               RUnsatisfiable \<Rightarrow>
                 Inr \<lparr>rresp = header_with (bs ''Content-Range'') (\<lambda>a. push_num (a @ bs ''bytes */'') sz) (r\<lparr>status := 416\<rparr>), reply_body = BEmpty\<rparr>
             | ROne s e \<Rightarrow>
                 Inr (whole (header_with (bs ''Content-Range'') (\<lambda>a. a @ content_range s e sz) (r\<lparr>status := 206\<rparr>)) s (e - s))
             | RNone \<Rightarrow> Inr (whole r 0 sz)))"
  using assms unfolding serve_file_def file_headers_def Let_def by (auto simp del: bs_simps)

lemma content_range_text:
  "content_range s e sz = bs ''bytes '' @ dec_digits (unat s) @ bs ''-'' @ dec_digits (unat (e - 1)) @ bs ''/'' @ dec_digits (unat sz)"
  by (simp add: content_range_def del: bs_simps)

lemma content_range_header:
  assumes "\<And>a. g a = a @ v"
  shows "resp_get (bs ''Content-Range'') (header_with (bs ''Content-Range'') g ((file_headers mime core fpath sz mtime)\<lparr>status := st\<rparr>)) = Some v"
proof -
  obtain w where w: "resp_wf (file_headers mime core fpath sz mtime)"
    "resp_iter (file_headers mime core fpath sz mtime) =
      [(bs ''Content-Type'', w), (bs ''Last-Modified'', http_date mtime)]
      @ (if fc_etag core then [(bs ''ETag'', make_etag mtime sz)] else []) @ [(bs ''Accept-Ranges'', bs ''bytes'')]"
    by (rule file_headers_pairs)
  have "resp_wf ((file_headers mime core fpath sz mtime)\<lparr>status := st\<rparr>)"
    "resp_iter ((file_headers mime core fpath sz mtime)\<lparr>status := st\<rparr>) = resp_iter (file_headers mime core fpath sz mtime)"
    using w(1) by (simp_all add: resp_wf_def resp_iter_def)
  with header_with_append [OF assms, of "(file_headers mime core fpath sz mtime)\<lparr>status := st\<rparr>" "bs ''Content-Range''"]
  have "resp_iter (header_with (bs ''Content-Range'') g ((file_headers mime core fpath sz mtime)\<lparr>status := st\<rparr>)) =
    ([(bs ''Content-Type'', w), (bs ''Last-Modified'', http_date mtime)]
      @ (if fc_etag core then [(bs ''ETag'', make_etag mtime sz)] else []) @ [(bs ''Accept-Ranges'', bs ''bytes'')])
    @ [(bs ''Content-Range'', v)]" by (simp only: w(2))
  then show ?thesis
    unfolding resp_get_pairs by (simp add: eq_ignore_ascii_case_def to_ascii_lowercase_def)
qed

lemma preconditions_status:
  "evaluate_preconditions parse_http_date hv core etag mtime = Some st \<Longrightarrow> st = 304 \<or> st = 412"
  by (auto simp: evaluate_preconditions_def Let_def split: option.splits if_splits)

lemma file_range_bounds:
  "file_range parse_http_date hv core etag sz mtime = ROne s e \<Longrightarrow> e \<le> sz \<and> s \<le> e \<and> (0 < sz \<longrightarrow> s < e)"
  using parse_range_bounds by (auto simp: file_range_def split: option.splits if_splits)

section \<open>Entity tags\<close>

lemma hex_plain: "b \<in> set (bs ''0123456789abcdef'') \<Longrightarrow> plain b \<and> b \<noteq> 0x2C \<and> b \<noteq> 0x2D \<and> b \<noteq> 0x22"
  by (auto simp: plain_def)

lemma make_etag_text: "make_etag t sz = 0x22 # push_hex [] (truncate_secs t) @ 0x2D # push_hex [] sz @ [0x22]"
proof -
  have "push_hex (bs ''\"'') (truncate_secs t) = 0x22 # push_hex [] (truncate_secs t)"
    by (subst push_hex_append [of "bs ''\"''"]) simp
  then have "push_hex (push_hex (bs ''\"'') (truncate_secs t) @ bs ''-'') sz =
    0x22 # push_hex [] (truncate_secs t) @ 0x2D # push_hex [] sz"
    by (subst push_hex_append [of "push_hex (bs ''\"'') (truncate_secs t) @ bs ''-''"]) simp
  then show ?thesis by (simp add: make_etag_def)
qed

lemma make_etag_plain: "list_all plain (make_etag t sz)" "0x2C \<notin> set (make_etag t sz)"
proof -
  have h: "list_all plain (push_hex [] n)" "0x2C \<notin> set (push_hex [] n)" for n
    using push_hex_set [of n] hex_plain by (auto simp: list_all_iff simp del: bs_simps)
  show "list_all plain (make_etag t sz)" using h(1) by (simp add: make_etag_text plain_def)
  show "0x2C \<notin> set (make_etag t sz)" using h(2) by (simp add: make_etag_text)
qed

lemma make_etag_inj: "make_etag t sz = make_etag t' sz' \<longleftrightarrow> truncate_secs t = truncate_secs t' \<and> sz = sz'"
proof -
  have no: "0x2D \<notin> set (push_hex [] n)" for n
    using push_hex_set [of n] hex_plain by (auto simp del: bs_simps)
  have cut: "xs = xs' \<and> ys = ys'" if "xs @ 0x2D # ys = xs' @ 0x2D # ys'" "0x2D \<notin> set xs" "0x2D \<notin> set xs'" for xs xs' ys ys' :: bytes
  proof -
    have "Some (xs, ys) = Some (xs', ys')"
      using split_once_first [OF that(2), of ys] unfolding that(1) split_once_first [OF that(3), of ys'] by (rule sym)
    then show ?thesis by (simp only: option.inject prod.inject)
  qed
  show ?thesis
  proof
    assume "make_etag t sz = make_etag t' sz'"
    then have "push_hex [] (truncate_secs t) @ 0x2D # (push_hex [] sz @ [0x22]) =
      push_hex [] (truncate_secs t') @ 0x2D # (push_hex [] sz' @ [0x22])" by (simp only: make_etag_text list.inject)
    from cut [OF this no no] show "truncate_secs t = truncate_secs t' \<and> sz = sz'" by (simp add: push_hex_inj)
  qed (simp add: make_etag_text)
qed

lemma trim_start_weak_etag: "trim_start_weak (make_etag t sz) = make_etag t sz"
  by (simp add: make_etag_text) (cases "push_hex [] (truncate_secs t) @ 0x2D # push_hex [] sz @ [0x22]"; simp)

lemma etag_list_single:
  "etag_list_matches (make_etag t sz) (make_etag t' sz') weak \<longleftrightarrow> truncate_secs t = truncate_secs t' \<and> sz = sz'"
  by (simp add: etag_list_matches_def split_on_no_sep make_etag_plain trim_plain trim_start_weak_etag make_etag_inj)

section \<open>Where a path leads\<close>

text \<open>Lexical resolution of a file path: empty and \<^verbatim>\<open>.\<close> segments drop out, \<^verbatim>\<open>..\<close> goes up.\<close>

fun lexical :: "bytes list \<Rightarrow> bytes list \<Rightarrow> bytes list" where
  "lexical st [] = st"
| "lexical st (s # ss) =
    lexical (if s = [] \<or> s = [dot] then st else if s = [dot, dot] then butlast st else st @ [s]) ss"

definition resolve :: "bytes \<Rightarrow> bytes list" where
  "resolve p = lexical [] (split_on slash p)"

lemma split_on_join: "split_on c (xs @ c # ys) = split_on c xs @ split_on c ys"
  by (induction xs) (auto split: list.split)

lemma lexical_append: "lexical st (xs @ ys) = lexical (lexical st xs) ys"
  by (induction st xs rule: lexical.induct) auto

lemma lexical_down: "list_all (\<lambda>s. s \<noteq> [dot] \<and> s \<noteq> [dot, dot]) ss \<Longrightarrow> lexical st ss = st @ filter (\<lambda>s. s \<noteq> []) ss"
  by (induction ss arbitrary: st) auto

lemma resolve_join: "resolve (d @ slash # p) = lexical (resolve d) (split_on slash p)"
  by (simp add: resolve_def split_on_join lexical_append)

lemma safe_path_segments:
  assumes "safe_path p"
  obtains r where "p = slash # r" "list_all (\<lambda>s. s \<noteq> [dot] \<and> s \<noteq> [dot, dot]) (split_on slash r)"
proof -
  obtain segs where segs: "split_on slash p = [] # segs" "segs \<noteq> []"
    "list_all (\<lambda>t. t \<noteq> [] \<and> t \<noteq> [dot] \<and> t \<noteq> [dot, dot]) (butlast segs)" "last segs \<noteq> [dot]" "last segs \<noteq> [dot, dot]"
    using assms by (auto simp: safe_path_def split: list.splits)
  have "p \<noteq> []" using segs(1,2) by auto
  then obtain c r where p: "p = c # r" by (cases p) auto
  with segs(1) have "c = slash" "segs = split_on slash r" by (auto split: if_splits list.splits)
  moreover have "list_all (\<lambda>s. s \<noteq> [dot] \<and> s \<noteq> [dot, dot]) (butlast segs @ [last segs])"
    using segs(3-5) by (auto simp: list_all_iff)
  then have "list_all (\<lambda>s. s \<noteq> [dot] \<and> s \<noteq> [dot, dot]) segs" using segs(2) by simp
  ultimately show thesis using that p by auto
qed

lemma normalized_safe: "normalize raw = Inr p \<Longrightarrow> safe_path p"
  using already_normal_safe [of raw] normalize_full_safe [of raw p]
  by (auto simp: normalize_def split: if_splits)

definition demo_conf :: file_conf where
  "demo_conf = \<lparr>fc_alias = None, fc_root = \<lambda>_. [], fc_index = [], fc_autoindex = False, fc_absolute_redirect = False,
      fc_port_in_redirect = False, fc_server_tokens = TokensOff, fc_etag = True, fc_if_modified_since = ImsExact,
      fc_max_ranges = None, fc_sendfile = False, fc_default_type = [], fc_charset = None\<rparr>"

section \<open>Properties\<close>

text \<open>C23.
  The reply for a file is exact. A 200 carries the whole file. A 206 for a file that is not empty carries a range inside the file that is not
  empty: with the bytes counted from 0, \<^verbatim>\<open>Content-Range\<close> is the text \<^verbatim>\<open>bytes first-last/size\<close>, and bytes \<open>first\<close> to \<open>last\<close> are what is
  sent (or, for \<^verbatim>\<open>HEAD\<close>, their number is the length announced); a 206 for an empty file sends nothing. 304, 412 and
  416 carry nothing. No request header can make the server read outside the file.
\<close>
theorem file_reply_exact:
  assumes "serve_file parse_http_date mmap mime meth hv core fpath f sz mtime = Inr rp"
  shows "status (rresp rp) \<in> {200, 206, 304, 412, 416} \<and>
    (status (rresp rp) \<in> {304, 412, 416} \<longrightarrow> reply_body rp = BEmpty) \<and>
    (status (rresp rp) = 200 \<longrightarrow> (if meth = Head then resp_framing (rresp rp) = FLength sz
       else known_len (reply_body rp) = Some sz \<and> body_window (reply_body rp) = Some (0, unat sz))) \<and>
    (status (rresp rp) = 206 \<and> 0 < sz \<longrightarrow> (\<exists>fst_byte lst_byte. fst_byte \<le> lst_byte \<and> lst_byte < unat sz \<and>
       resp_get (bs ''Content-Range'') (rresp rp) =
         Some (bs ''bytes '' @ dec_digits fst_byte @ bs ''-'' @ dec_digits lst_byte @ bs ''/'' @ dec_digits (unat sz)) \<and>
       (if meth = Head then resp_framing (rresp rp) = FLength (of_nat (lst_byte + 1 - fst_byte))
        else known_len (reply_body rp) = Some (of_nat (lst_byte + 1 - fst_byte)) \<and>
          body_window (reply_body rp) = Some (fst_byte, lst_byte + 1)))) \<and>
    (status (rresp rp) = 206 \<and> sz = 0 \<longrightarrow> (if meth = Head then resp_framing (rresp rp) = FLength 0
       else known_len (reply_body rp) = Some 0 \<and> body_window (reply_body rp) = Some (0, 0)))"
proof (cases "evaluate_preconditions parse_http_date hv core (make_etag mtime sz) mtime")
  case (Some st)
  have m: "is_safe meth \<or> meth = Options" using assms by (auto simp: serve_file_def split: if_splits)
  from Some have "st = 304 \<or> st = 412" by (rule preconditions_status)
  moreover from assms Some have "reply_body rp = BEmpty" "status (rresp rp) = st"
    unfolding serve_file_eq [OF m] by (auto simp del: bs_simps)
  ultimately show ?thesis by auto
next
  case None
  have m: "is_safe meth \<or> meth = Options" using assms by (auto simp: serve_file_def split: if_splits)
  note eq = assms [unfolded serve_file_eq [OF m] None option.case Let_def]
  show ?thesis
  proof (cases "file_range parse_http_date hv core (make_etag mtime sz) sz mtime")
    case RNone
    with eq make_body_window [of 0 sz mmap f "fc_sendfile core"] show ?thesis
      by (auto simp: file_headers_fields simp del: bs_simps split: if_splits)
  next
    case RUnsatisfiable
    with eq show ?thesis by (auto simp del: bs_simps)
  next
    case (ROne s e)
    note b = file_range_bounds [OF ROne]
    have cr: "resp_get (bs ''Content-Range'') (header_with (bs ''Content-Range'') (\<lambda>a. a @ content_range s e sz)
        ((file_headers mime core fpath sz mtime)\<lparr>status := 206\<rparr>)) = Some (content_range s e sz)"
      by (rule content_range_header) (rule refl)
    have get: "resp_get n (r\<lparr>resp_framing := fr\<rparr>) = resp_get n r" for n r fr by (simp add: resp_get_def)
    have p: "status (rresp rp) = 206" "resp_get (bs ''Content-Range'') (rresp rp) = Some (content_range s e sz)"
      "if meth = Head then resp_framing (rresp rp) = FLength (e - s)
       else reply_body rp = make_body mmap f s (e - s) (fc_sendfile core)"
      using eq ROne cr by (auto simp: get simp del: bs_simps)
    have body: "if meth = Head then resp_framing (rresp rp) = FLength (e - s)
      else known_len (reply_body rp) = Some (e - s) \<and> body_window (reply_body rp) = Some (if s = e then (0, 0) else (unat s, unat e))"
      using p(3) b make_body_window [of s e mmap f "fc_sendfile core"] by (auto simp del: bs_simps split: if_splits)
    show ?thesis
    proof (cases "sz = 0")
      case True
      then have "e = 0" "s = 0" using b by auto
      then show ?thesis using p(1) body True by (simp del: bs_simps)
    next
      case False
      then have lt: "unat s < unat e" "unat e \<le> unat sz" using b word_gt_0 [of sz] by (simp_all add: word_less_nat_alt word_le_nat_alt)
      then have un: "unat (e - 1) = unat e - 1" "unat (e - s) = unat e - 1 + 1 - unat s"
        using unat_sub [of 1 e] unat_sub [of s e] by (simp_all add: word_le_nat_alt)
      then have len: "e - s = of_nat (unat e - 1 + 1 - unat s)" by (metis of_nat_unat ucast_id)
      have "s \<noteq> e" using lt(1) by auto
      then show ?thesis using p(1) False body lt p(2) unfolding content_range_text un(1) len
        by (intro conjI impI exI [of _ "unat s"] exI [of _ "unat e - 1"]) (auto simp del: bs_simps)
    qed
  qed
qed

theorem file_reply_exact_witness:
  "\<exists>(rp :: (unit, unit, unit, unit) reply) a b. serve_file (\<lambda>_. None) (\<lambda>_. None) Map.empty Get ((\<lambda>_. None)(RangeH := Some (first_last 2 3)))
     demo_conf [] () 5 0 = Inr rp \<and> body_window (reply_body rp) = Some (a, b + 1) \<and>
    resp_get (bs ''Content-Range'') (rresp rp) = Some (bs ''bytes '' @ dec_digits a @ bs ''-'' @ dec_digits b @ bs ''/'' @ dec_digits 5)"
proof -
  let ?hv = "(\<lambda>_. None)(RangeH := Some (first_last 2 3))"
  have r: "parse_range (first_last 2 3) 5 = ROne 2 4" by (subst parse_first_last) (simp_all add: word_le_nat_alt)
  define rp :: "(unit, unit, unit, unit) reply" where
    "rp = \<lparr>rresp = header_with (bs ''Content-Range'') (\<lambda>a. a @ content_range 2 4 5) ((file_headers Map.empty demo_conf [] 5 0)\<lparr>status := 206\<rparr>),
           reply_body = make_body (\<lambda>_. None) () 2 2 False\<rparr>"
  have rp: "serve_file (\<lambda>_. None) (\<lambda>_. None) Map.empty Get ?hv demo_conf [] () 5 0 = Inr rp"
    by (subst serve_file_eq) (simp_all add: is_safe_def evaluate_preconditions_def file_range_def if_range_matches_def r Let_def rp_def demo_conf_def del: bs_simps)
  have "status (rresp rp) = 206" by (simp add: rp_def header_with_fields del: bs_simps)
  then show ?thesis using file_reply_exact [OF rp] rp by (auto simp del: bs_simps)
qed

text \<open>
  A range \<^verbatim>\<open>bytes=a-b\<close> means what the protocol says for every pair of numbers the field can hold
  except the very last value: bytes \<open>a\<close> to \<open>b\<close>, cut at the end of the file, and 416 when the range
  starts at or after the end or is backwards.
\<close>
theorem range_first_last:
  assumes "a < 2 ^ 64" "b < 2 ^ 64 - 1"
  shows "parse_range (first_last a b) sz =
    (if unat sz \<le> a \<or> b < a then RUnsatisfiable else ROne (of_nat a) (of_nat (min (b + 1) (unat sz))))"
proof -
  have un: "unat (of_nat a :: u64) = a" "unat (of_nat (b + 1) :: u64) = b + 1"
    using assms by (simp_all only: unsigned_of_nat) (simp_all add: take_bit_nat_eq_self_iff)
  have b1: "of_nat b + 1 = (of_nat (b + 1) :: u64)" by simp
  have m: "min (of_nat b + 1 :: u64) sz = of_nat (min (b + 1) (unat sz))"
  proof (cases "b + 1 \<le> unat sz")
    case True
    then show ?thesis unfolding b1 by (simp only: min_def word_le_nat_alt un(2) if_True)
  next
    case False
    then show ?thesis unfolding b1 by (simp only: min_def word_le_nat_alt un(2) if_False) simp
  qed
  have "unat (of_nat (min (b + 1) (unat sz)) :: u64) = min (b + 1) (unat sz)"
    using un(2) by (cases "b + 1 \<le> unat sz") (simp_all add: min_def)
  then show ?thesis
    using assms by (subst parse_first_last) (auto simp: m word_le_nat_alt un)
qed

theorem range_first_last_witness: "parse_range (first_last 2 99) 10 = ROne 2 10"
  using range_first_last [of 2 99 10] by simp

text \<open>
  The last value of the field overflows: \<^verbatim>\<open>bytes=a-18446744073709551615\<close>, a valid request for the
  rest of the file, is answered 416 for every file and every start inside it.
\<close>
theorem range_last_overflows:
  assumes "a < unat sz"
  shows "parse_range (first_last a 18446744073709551615) sz = RUnsatisfiable"
proof -
  have a: "a < 18446744073709551616" using assms unat_bounds(4) [of sz] by (rule less_trans)
  have "(of_nat 18446744073709551615 :: u64) = - 1" 
    by (rule unat_eqI) (simp only: unsigned_of_nat, simp add: unsigned_minus_1_eq_mask mask_eq_exp_minus_1)
  then have z: "min (of_nat 18446744073709551615 + 1) sz = 0" by (simp only: min_def) simp
  have "(18446744073709551615 :: nat) < 18446744073709551616" by simp
  from parse_first_last [OF a this, of sz] show ?thesis unfolding z by (simp only: word_zero_le if_True if_cancel)
qed

theorem range_last_overflows_witness: "parse_range (first_last 0 18446744073709551615) 100 = RUnsatisfiable"
  using range_last_overflows [of 0 100] by simp

text \<open>
  Revalidation by entity tag: a client that sends back the tag it was given gets 304 exactly when the
  file still has the same size and the same modification second, and the full reply otherwise.
\<close>
theorem etag_revalidation:
  assumes "hv IfMatch = None" "hv IfUnmodifiedSince = None" "hv IfNoneMatch = Some (make_etag seen_mtime seen_size)"
  shows "evaluate_preconditions parse_http_date hv core (make_etag mtime sz) mtime =
    (if truncate_secs seen_mtime = truncate_secs mtime \<and> seen_size = sz then Some 304 else None)"
proof -
  have "trim (make_etag seen_mtime seen_size) \<noteq> bs ''*''"
    by (simp add: trim_plain make_etag_plain) (simp add: make_etag_text)
  with assms show ?thesis by (simp add: evaluate_preconditions_def etag_list_single)
qed

theorem etag_revalidation_witness:
  "evaluate_preconditions (\<lambda>_. None) ((\<lambda>_. None)(IfNoneMatch := Some (make_etag 1000000000 7))) demo_conf (make_etag 1999999999 7) 1999999999 = Some 304"
  using etag_revalidation [of "(\<lambda>_. None)(IfNoneMatch := Some (make_etag 1000000000 7))" 1000000000 7 "\<lambda>_. None" demo_conf 1999999999 7]
  by (simp add: truncate_secs_def secs_since_epoch_def)

text \<open>
  \<^verbatim>\<open>If-Unmodified-Since\<close> compares nanoseconds with a date that has none: on a file whose modification
  time is not a whole second, a client that repeats the \<^verbatim>\<open>Last-Modified\<close> it was given is told 412
  although the file has not changed. The date parser is only assumed to read back a formatted date.
\<close>
theorem if_unmodified_since_subsecond:
  assumes "parse_http_date (http_date mtime) = Some (1000000000 * (mtime div 1000000000))"
    and "mtime mod 1000000000 \<noteq> 0" "hv IfMatch = None" "hv IfUnmodifiedSince = Some (http_date mtime)"
  shows "evaluate_preconditions parse_http_date hv core etag mtime = Some 412"
proof -
  have "0 \<le> mtime mod 1000000000" by simp
  with assms(2) have "0 < mtime mod 1000000000" by linarith
  then have "1000000000 * (mtime div 1000000000) < mtime" using div_mult_mod_eq [of mtime 1000000000] by linarith
  with assms show ?thesis by (simp add: evaluate_preconditions_def)
qed

theorem if_unmodified_since_subsecond_witness:
  "evaluate_preconditions (\<lambda>_. Some 1000000000) ((\<lambda>_. None)(IfUnmodifiedSince := Some (http_date 1500000000))) demo_conf [] 1500000000 = Some 412"
  using if_unmodified_since_subsecond [of "\<lambda>_. Some 1000000000" 1500000000
      "(\<lambda>_. None)(IfUnmodifiedSince := Some (http_date 1500000000))" demo_conf "[]"] by simp

text \<open>C2.
  A file served from \<^verbatim>\<open>root\<close> lies below it: whatever the client sends, if normalisation accepts the
  path then resolving the mapped file path, dots included, only ever descends from the root.
\<close>
theorem root_contains_path:
  assumes "normalize raw = Inr (furi ctx)" "fc_alias core = None"
  shows "\<exists>below. resolve (map_path ctx core lm) = resolve (fc_root core ctx) @ below \<and>
    below = filter (\<lambda>s. s \<noteq> []) (tl (split_on slash (furi ctx)))"
proof -
  from normalized_safe [OF assms(1)] obtain r where r: "furi ctx = slash # r"
    "list_all (\<lambda>s. s \<noteq> [dot] \<and> s \<noteq> [dot, dot]) (split_on slash r)" by (rule safe_path_segments)
  have "map_path ctx core lm = fc_root core ctx @ slash # r" using assms(2) r(1) by (simp add: map_path_def)
  then show ?thesis using lexical_down [OF r(2)] r(1) by (simp add: resolve_join)
qed

theorem root_contains_path_witness:
  "let ctx = \<lparr>fbuf = [], freq = req_new, furi = bs ''/a/b'', fargs = [], fscheme = [], flocal_port = None, fdocument_root = [], ffilename = []\<rparr>
   in normalize (bs ''/x/../a//b'') = Inr (furi ctx) \<and>
      resolve (map_path ctx (demo_conf\<lparr>fc_root := \<lambda>_. bs ''/srv''\<rparr>) (None :: unit loc_match option)) = [bs ''srv'', bs ''a'', bs ''b'']"
proof -
  let ?ctx = "\<lparr>fbuf = [], freq = req_new, furi = bs ''/a/b'', fargs = [], fscheme = [], flocal_port = None, fdocument_root = [], ffilename = []\<rparr>"
  have "normalize (bs ''/x/../a//b'') = Inr (bs ''/a/b'')" by code_simp
  then have "normalize (bs ''/x/../a//b'') = Inr (furi ?ctx)" by simp
  then show ?thesis
    using root_contains_path [of "bs ''/x/../a//b''" ?ctx "demo_conf\<lparr>fc_root := \<lambda>_. bs ''/srv''\<rparr>" None]
    by (simp add: demo_conf_def resolve_def)
qed

text \<open>
  \<^verbatim>\<open>alias\<close> gives no such guarantee when the location prefix does not end in a slash: a normalised path
  that continues the prefix with two dots is mapped to the parent of the aliased directory, whether
  or not the alias ends in a slash.
\<close>
theorem alias_escapes:
  assumes "fc_alias core = Some al" "furi ctx = p @ bs ''../'' @ x" "al ctx \<noteq> []"
  shows "resolve (map_path ctx core (Some (LPrefix p))) = lexical (butlast (resolve (al ctx))) (split_on slash x)"
proof -
  have rest: "str_from (length p) (furi ctx) = Some (bs ''../'' @ x)"
    using assms(2) by (simp add: str_from_def is_cont_def)
  have up: "split_on slash (bs ''../'' @ x) = [dot, dot] # split_on slash x" by simp
  show ?thesis
  proof (cases "ends_with_slash (al ctx)")
    case False
    then have m: "map_path ctx core (Some (LPrefix p)) = al ctx @ slash # bs ''../'' @ x"
      using assms(1) rest by (simp add: map_path_def starts_with_slash_def)
    show ?thesis unfolding m resolve_join up by simp
  next
    case True
    then have al: "al ctx = butlast (al ctx) @ [slash]"
      by (metis append_butlast_last_id ends_with_slash_def)
    have "map_path ctx core (Some (LPrefix p)) = al ctx @ bs ''../'' @ x"
      using True assms(1) rest by (simp add: map_path_def starts_with_slash_def)
    also have "\<dots> = butlast (al ctx) @ slash # bs ''../'' @ x" by (subst al) simp
    finally have m: "map_path ctx core (Some (LPrefix p)) = butlast (al ctx) @ slash # bs ''../'' @ x" .
    have "resolve (map_path ctx core (Some (LPrefix p))) =
      lexical (butlast (resolve (butlast (al ctx)))) (split_on slash x)" unfolding m resolve_join up by simp
    moreover have "resolve (al ctx) = resolve (butlast (al ctx))" by (subst al) (simp add: resolve_join)
    ultimately show ?thesis by simp
  qed
qed

theorem alias_escapes_witness:
  "normalize (bs ''/img../secret'') = Inr (bs ''/img../secret'') \<and>
   resolve (map_path \<lparr>fbuf = [], freq = req_new, furi = bs ''/img../secret'', fargs = [], fscheme = [], flocal_port = None,
       fdocument_root = [], ffilename = []\<rparr> (demo_conf\<lparr>fc_alias := Some (\<lambda>_. bs ''/data/img/'')\<rparr>)
       (Some (LPrefix (bs ''/img'')) :: unit loc_match option)) = [bs ''data'', bs ''secret'']"
proof -
  have "normalize (bs ''/img../secret'') = Inr (bs ''/img../secret'')" by code_simp
  moreover have "resolve (bs ''/data/img/'') = [bs ''data'', bs ''img'']" by (simp add: resolve_def)
  ultimately show ?thesis
    using alias_escapes [of "demo_conf\<lparr>fc_alias := Some (\<lambda>_. bs ''/data/img/'')\<rparr>" "\<lambda>_. bs ''/data/img/''"
      "\<lparr>fbuf = [], freq = req_new, furi = bs ''/img../secret'', fargs = [], fscheme = [], flocal_port = None,
       fdocument_root = [], ffilename = []\<rparr>" "bs ''/img''" "bs ''secret''"] by simp
qed

end
