(* ===== verification/Cache.thy ===== *)
theory Cache
  imports Response
begin

text \<open>
  The content cache of \<^verbatim>\<open>proxy_cache\<close> (\<^verbatim>\<open>server/cache.rs\<close>): key digests and entry paths, the entry
  format on disk, loading and storing with the per-worker index, the maintenance pass, the fetch
  lock, and the conditions for serving stale entries. The file system is a map from paths to
  contents and modification times; the outcomes of its calls and the clock are arguments. A hash
  map is an association list with distinct keys, its order standing for the iteration order.
\<close>

section \<open>Keys and paths\<close>

datatype cache_status = Miss | Hit | Expired | Bypass | Stale | Revalidated

fun cache_status_str :: "cache_status \<Rightarrow> bytes" where
  "cache_status_str Miss = bs ''MISS''"
| "cache_status_str Hit = bs ''HIT''"
| "cache_status_str Expired = bs ''EXPIRED''"
| "cache_status_str Bypass = bs ''BYPASS''"
| "cache_status_str Stale = bs ''STALE''"
| "cache_status_str Revalidated = bs ''REVALIDATED''"

datatype key_hash = KeyHash u64 u64

definition rotate_left5 :: "u64 \<Rightarrow> u64" where
  "rotate_left5 b = push_bit 5 b OR drop_bit 59 b"

definition key_hash_of :: "bytes \<Rightarrow> key_hash" where
  "key_hash_of key =
    (case fold (\<lambda>byte (a, b).
        ((a XOR ucast byte) * 0x100000001b3, (rotate_left5 b XOR ucast byte) * 0x100000001b3))
        key (0xcbf29ce484222325, 0x9e3779b97f4a7c15) of
       (a, b) \<Rightarrow> KeyHash a b)"

definition hex16 :: "u64 \<Rightarrow> bytes" where
  "hex16 w = map (\<lambda>i. bs ''0123456789abcdef'' ! unat (drop_bit (4 * i) w AND 0xF)) (rev [0..<16])"

fun to_hex :: "key_hash \<Rightarrow> bytes" where
  "to_hex (KeyHash a b) = hex16 a @ hex16 b"

text \<open>The path of an entry: the root of the zone, one directory per level, then the file.\<close>

fun level_dirs :: "bytes \<Rightarrow> nat \<Rightarrow> u8 list \<Rightarrow> bytes list" where
  "level_dirs hex e [] = []"
| "level_dirs hex e (n # ns) =
    (let start = e - unat n in take (e - start) (drop start hex) # level_dirs hex start ns)"

definition entry_path :: "bytes list \<Rightarrow> u8 list \<Rightarrow> key_hash \<Rightarrow> bytes list" where
  "entry_path root levels h = root @ level_dirs (to_hex h) (length (to_hex h)) levels @ [to_hex h]"

section \<open>The entry format\<close>

definition MAGIC :: bytes where "MAGIC = bs ''OXCH''"
abbreviation VERSION :: u8 where "VERSION \<equiv> 1"
abbreviation HEADER_LEN :: nat where "HEADER_LEN \<equiv> 37"

definition from_be64 :: "bytes \<Rightarrow> u64" where
  "from_be64 b = push_bit 32 (ucast (from_be32 (b ! 0) (b ! 1) (b ! 2) (b ! 3))) OR ucast (from_be32 (b ! 4) (b ! 5) (b ! 6) (b ! 7))"

definition encode_headers :: "(bytes \<times> bytes) list \<Rightarrow> bytes" where
  "encode_headers hs = concat (map (\<lambda>(n, v). n @ bs '': '' @ v @ crlf) hs)"

definition encode_entry :: "u64 \<Rightarrow> bytes \<Rightarrow> u16 \<Rightarrow> (bytes \<times> bytes) list \<Rightarrow> bytes \<Rightarrow> u64 \<Rightarrow> bytes" where
  "encode_entry now key st hs body ttl =
    (let hdr = encode_headers hs
     in MAGIC @ [VERSION] @ to_be16 st @ to_be64 now @ to_be64 (now + ttl) @ to_be16 (of_nat (length key))
        @ to_be32 (of_nat (length hdr)) @ to_be64 (of_nat (length body)) @ key @ hdr @ body)"

record decoded =
  d_status :: u16
  d_headers :: "(bytes \<times> bytes) list"
  d_body :: bytes
  d_expires :: u64
  d_created :: u64

datatype decode_error = NotAnEntry | Truncated | KeyMismatch

text \<open>\<^verbatim>\<open>split_once(": ")\<close>.\<close>

fun split_colon :: "bytes \<Rightarrow> (bytes \<times> bytes) option" where
  "split_colon [] = None"
| "split_colon (c # cs) =
    (if c = 0x3A \<and> take 1 cs = [0x20] then Some ([], drop 1 cs)
     else map_option (\<lambda>(n, v). (c # n, v)) (split_colon cs))"

definition decode_headers :: "bytes \<Rightarrow> (bytes \<times> bytes) list" where
  "decode_headers b =
    (let text = (case from_utf8 b of Some s \<Rightarrow> s | None \<Rightarrow> [])
     in List.map_filter split_colon (filter (\<lambda>l. l \<noteq> []) (crlf_split text)))"

definition slice_of :: "bytes \<Rightarrow> nat \<Rightarrow> nat \<Rightarrow> bytes" where
  "slice_of b s e = take (e - s) (drop s b)"

definition decode_entry :: "bytes \<Rightarrow> bytes \<Rightarrow> decode_error + decoded" where
  "decode_entry buf key =
    (if length buf < HEADER_LEN then Inl Truncated
     else if take 4 buf \<noteq> MAGIC \<or> buf ! 4 \<noteq> VERSION then Inl NotAnEntry
     else
       (let key_len = unat (from_be16 (buf ! 23) (buf ! 24));
            hdr_len = unat (from_be32 (buf ! 25) (buf ! 26) (buf ! 27) (buf ! 28));
            body_len = unat (from_be64 (slice_of buf 29 37));
            total = HEADER_LEN + key_len + hdr_len + body_len
        in if 2 ^ 64 \<le> total then Inl Truncated
           else if length buf < total then Inl Truncated
           else if slice_of buf HEADER_LEN (HEADER_LEN + key_len) \<noteq> key then Inl KeyMismatch
           else
             (let h_start = HEADER_LEN + key_len; b_start = h_start + hdr_len
              in Inr \<lparr>d_status = from_be16 (buf ! 5) (buf ! 6),
                      d_headers = decode_headers (slice_of buf h_start b_start),
                      d_body = slice_of buf b_start (b_start + body_len),
                      d_expires = from_be64 (slice_of buf 15 23),
                      d_created = from_be64 (slice_of buf 7 15)\<rparr>)))"

section \<open>Index, load and store\<close>

record centry =
  e_expires :: u64
  e_size :: nat
  e_uses :: nat
  e_last_used :: u64

record zone =
  z_name :: bytes
  z_root :: "bytes list"
  z_levels :: "u8 list"
  z_max_entries :: nat
  z_max_size :: nat
  z_inactive :: nat

type_synonym cindex = "((bytes \<times> key_hash) \<times> centry) list"
type_synonym cfs = "bytes list \<rightharpoonup> bytes \<times> u64"

fun idx_update :: "'k \<Rightarrow> ('v \<Rightarrow> 'v) \<Rightarrow> ('k \<times> 'v) list \<Rightarrow> ('k \<times> 'v) list" where
  "idx_update k f [] = []"
| "idx_update k f ((k', v) # xs) = (if k = k' then (k', f v) # xs else (k', v) # idx_update k f xs)"

text \<open>\<^verbatim>\<open>entry(k).or_insert(v)\<close> followed by an update; a new entry may come anywhere in the order.\<close>

definition idx_upsert :: "'k \<Rightarrow> 'v \<Rightarrow> ('v \<Rightarrow> 'v) \<Rightarrow> ('k \<times> 'v) list \<Rightarrow> ('k \<times> 'v) list" where
  "idx_upsert k v f xs = (if k \<in> fst ` set xs then idx_update k f xs else (k, f v) # xs)"

definition fresh_entry :: "u64 \<Rightarrow> centry" where
  "fresh_entry now = \<lparr>e_expires = 0, e_size = 0, e_uses = 0, e_last_used = now\<rparr>"

abbreviation U32_MAX :: nat where "U32_MAX \<equiv> 4294967295"

definition note_use :: "u64 \<Rightarrow> zone \<Rightarrow> key_hash \<Rightarrow> cindex \<Rightarrow> nat \<times> cindex" where
  "note_use now z h idx =
    (let idx = idx_upsert (z_name z, h) (fresh_entry now)
           (\<lambda>e. e\<lparr>e_uses := (if e_uses e < U32_MAX then e_uses e + 1 else U32_MAX), e_last_used := now\<rparr>) idx
     in (case map_of idx (z_name z, h) of Some e \<Rightarrow> e_uses e | None \<Rightarrow> 0, idx))"

abbreviation TOUCH_INTERVAL :: u64 where "TOUCH_INTERVAL \<equiv> 60"

definition touch_if_stale :: "u64 \<Rightarrow> bytes list \<Rightarrow> cfs \<Rightarrow> cfs" where
  "touch_if_stale now p fs =
    (case fs p of
       None \<Rightarrow> fs
     | Some (data, mtime) \<Rightarrow>
        if (if mtime \<le> now then now - mtime else 0) < TOUCH_INTERVAL then fs else fs(p \<mapsto> (data, now)))"

definition load :: "u64 \<Rightarrow> zone \<Rightarrow> bytes \<Rightarrow> key_hash \<Rightarrow> cfs \<Rightarrow> cindex \<Rightarrow> (decoded \<times> cache_status) option \<times> cfs \<times> cindex" where
  "load now z key h fs idx =
    (let p = entry_path (z_root z) (z_levels z) h
     in case fs p of
          None \<Rightarrow> (None, fs, idx)
        | Some (buf, mtime) \<Rightarrow>
           (case decode_entry buf key of
              Inr d \<Rightarrow>
                (Some (d, if d_expires d \<le> now then Expired else Hit),
                 touch_if_stale now p fs,
                 idx_update (z_name z, h) (\<lambda>e. e\<lparr>e_expires := d_expires d, e_size := length buf\<rparr>) idx)
            | Inl _ \<Rightarrow> (None, fs(p := None), idx)))"

definition in_zone :: "bytes \<Rightarrow> (bytes \<times> key_hash) \<times> centry \<Rightarrow> bool" where
  "in_zone zn e \<longleftrightarrow> fst (fst e) = zn"

definition evict :: "bytes \<Rightarrow> cindex \<Rightarrow> cindex" where
  "evict zn idx =
    (let victims = sort_key (\<lambda>e. e_last_used (snd e)) (filter (in_zone zn) idx);
         gone = fst ` set (take (max (length idx div 10) 1) victims)
     in filter (\<lambda>e. fst e \<notin> gone) idx)"

datatype store_io = IoOk | DirFails | WriteFails "nat option" | RenameFails

text \<open>
  \<open>tmp\<close> is the extension of the temporary file, made of the process id; a write that fails may leave
  the first bytes of the data in it.
\<close>

definition store :: "store_io \<Rightarrow> bytes \<Rightarrow> u64 \<Rightarrow> zone \<Rightarrow> key_hash \<Rightarrow> bytes \<Rightarrow> cfs \<Rightarrow> cindex \<Rightarrow> bool \<times> cfs \<times> cindex" where
  "store io tmp now z h data fs idx =
    (let p = entry_path (z_root z) (z_levels z) h; t = butlast p @ [last p @ bs ''.'' @ tmp]
     in case io of
          DirFails \<Rightarrow> (False, fs, idx)
        | WriteFails w \<Rightarrow> (False, case w of Some n \<Rightarrow> fs(t \<mapsto> (take n data, now)) | None \<Rightarrow> fs, idx)
        | RenameFails \<Rightarrow> (False, fs(t \<mapsto> (data, now)), idx)
        | IoOk \<Rightarrow>
           (let idx = (if max (z_max_entries z) 1 \<le> length idx then evict (z_name z) idx else idx)
            in (True, fs(t := None, p \<mapsto> (data, now)),
                idx_upsert (z_name z, h) (fresh_entry now) (\<lambda>e. e\<lparr>e_size := length data, e_last_used := now\<rparr>) idx)))"

section \<open>The maintenance pass\<close>

datatype dnode = DFile bytes nat u64 | DDir bytes "dnode list"

record on_disk =
  o_path :: "bytes list"
  o_size :: nat
  o_mtime :: u64

record manager_stats =
  m_entries :: nat
  m_bytes :: nat
  removed_inactive :: nat
  removed_oversize :: nat
  removed_temp :: nat

definition stats_default :: manager_stats where
  "stats_default = \<lparr>m_entries = 0, m_bytes = 0, removed_inactive = 0, removed_oversize = 0, removed_temp = 0\<rparr>"

text \<open>\<^verbatim>\<open>Path::extension\<close>: what follows the last dot, unless that dot starts the name.\<close>

definition extension :: "bytes \<Rightarrow> bytes option" where
  "extension n = (if 0x2E \<in> set (tl n) then Some (rev (takeWhile (\<lambda>b. b \<noteq> 0x2E) (rev n))) else None)"

definition is_temp :: "bytes \<Rightarrow> bool" where
  "is_temp n \<longleftrightarrow> (case extension n of Some x \<Rightarrow> take 3 x = bs ''tmp'' | None \<Rightarrow> False)"

text \<open>\<open>rm\<close> tells whether removing a path succeeds. The third component lists the removed paths.\<close>

fun collect ::
  "(bytes list \<Rightarrow> bool) \<Rightarrow> bytes list \<Rightarrow> dnode list \<Rightarrow> on_disk list \<times> manager_stats \<times> bytes list list \<Rightarrow>
   on_disk list \<times> manager_stats \<times> bytes list list" where
  "collect rm dir [] acc = acc"
| "collect rm dir (DDir n kids # rest) acc = collect rm dir rest (collect rm (dir @ [n]) kids acc)"
| "collect rm dir (DFile n sz mt # rest) (out, st, gone) =
    (let p = dir @ [n]
     in if is_temp n
        then collect rm dir rest (if rm p then (out, st\<lparr>removed_temp := removed_temp st + 1\<rparr>, gone @ [p]) else (out, st, gone))
        else collect rm dir rest (out @ [\<lparr>o_path = p, o_size = sz, o_mtime = mt\<rparr>], st\<lparr>m_bytes := m_bytes st + sz\<rparr>, gone))"

fun retain_active ::
  "(bytes list \<Rightarrow> bool) \<Rightarrow> u64 \<Rightarrow> nat \<Rightarrow> on_disk list \<Rightarrow> manager_stats \<times> bytes list list \<Rightarrow>
   on_disk list \<times> manager_stats \<times> bytes list list" where
  "retain_active rm now inactive [] (st, gone) = ([], st, gone)"
| "retain_active rm now inactive (e # es) (st, gone) =
    (if inactive < unat now - unat (o_mtime e) \<and> rm (o_path e)
     then retain_active rm now inactive es
            (st\<lparr>removed_inactive := removed_inactive st + 1, m_bytes := m_bytes st - o_size e\<rparr>, gone @ [o_path e])
     else (case retain_active rm now inactive es (st, gone) of (kept, r) \<Rightarrow> (e # kept, r)))"

fun trim_oldest ::
  "(bytes list \<Rightarrow> bool) \<Rightarrow> nat \<Rightarrow> on_disk list \<Rightarrow> manager_stats \<times> bytes list list \<Rightarrow> manager_stats \<times> bytes list list" where
  "trim_oldest rm target [] (st, gone) = (st, gone)"
| "trim_oldest rm target (e # es) (st, gone) =
    (if m_bytes st \<le> target then (st, gone)
     else if rm (o_path e)
     then trim_oldest rm target es
            (st\<lparr>removed_oversize := removed_oversize st + 1, m_bytes := m_bytes st - o_size e\<rparr>, gone @ [o_path e])
     else trim_oldest rm target es (st, gone))"

text \<open>The statistics, the entries seen after the first rule, and every path removed, in order.\<close>

definition manager_pass ::
  "(bytes list \<Rightarrow> bool) \<Rightarrow> u64 \<Rightarrow> zone \<Rightarrow> dnode list \<Rightarrow> manager_stats \<times> on_disk list \<times> bytes list list" where
  "manager_pass rm now z tree =
    (let (entries, st, gone) = collect rm [] tree ([], stats_default, []);
         (entries, st, gone) =
           (if 0 < z_inactive z then retain_active rm now (z_inactive z) entries (st, gone) else (entries, st, gone));
         trim = 0 < z_max_size z \<and> z_max_size z < m_bytes st;
         entries = (if trim then sort_key o_mtime entries else entries);
         (st, gone) = (if trim then trim_oldest rm (z_max_size z - z_max_size z div 10) entries (st, gone) else (st, gone))
     in (st\<lparr>m_entries := length entries - removed_oversize st\<rparr>, entries, gone))"

text \<open>The directories left: removed files are gone, and so are directories without entries.\<close>

fun prune :: "bytes list list \<Rightarrow> bytes list \<Rightarrow> dnode list \<Rightarrow> dnode list" where
  "prune gone dir [] = []"
| "prune gone dir (DFile n sz mt # rest) =
    (if dir @ [n] \<in> set gone then prune gone dir rest else DFile n sz mt # prune gone dir rest)"
| "prune gone dir (DDir n kids # rest) =
    (let kids = prune gone (dir @ [n]) kids
     in if kids = [] then prune gone dir rest else DDir n kids # prune gone dir rest)"

section \<open>The fetch lock\<close>

type_synonym lock_key = "bytes \<times> key_hash"

definition try_lock :: "lock_key \<Rightarrow> lock_key set \<Rightarrow> bool \<times> lock_key set" where
  "try_lock k fetching = (if k \<in> fetching then (False, fetching) else (True, insert k fetching))"

definition drop_lock :: "lock_key \<Rightarrow> lock_key set \<Rightarrow> lock_key set" where
  "drop_lock k fetching = fetching - {k}"

definition is_locked :: "lock_key \<Rightarrow> lock_key set \<Rightarrow> bool" where
  "is_locked k fetching \<longleftrightarrow> k \<in> fetching"

text \<open>
  The lock table of one process. The tasks of its worker threads take and drop locks in any order; \<open>held\<close> maps a task to the lock it owns.
  A task that does not get the lock may still fetch without it once it has waited long enough (\<^verbatim>\<open>wait_for_fetch\<close> in \<^verbatim>\<open>server/proxy.rs\<close>), and
  further worker processes have tables of their own.
\<close>

record lock_state =
  fetching :: "lock_key set"
  held :: "nat \<rightharpoonup> lock_key"

definition lock_init :: lock_state where
  "lock_init = \<lparr>fetching = {}, held = Map.empty\<rparr>"

inductive lock_step :: "lock_state \<Rightarrow> lock_state \<Rightarrow> bool" where
  take: "held s t = None \<Longrightarrow> try_lock k (fetching s) = (True, f) \<Longrightarrow>
     lock_step s (s\<lparr>fetching := f, held := (held s)(t \<mapsto> k)\<rparr>)"
| refused: "held s t = None \<Longrightarrow> try_lock k (fetching s) = (False, f) \<Longrightarrow> lock_step s (s\<lparr>fetching := f\<rparr>)"
| release: "held s t = Some k \<Longrightarrow> lock_step s (s\<lparr>fetching := drop_lock k (fetching s), held := (held s)(t := None)\<rparr>)"

section \<open>Stale entries\<close>

datatype stale_when = WError | WTimeout | WInvalidHeader | WUpdating | WStatus nat

definition parse_stale :: "bytes \<Rightarrow> stale_when option" where
  "parse_stale s =
    (if s = bs ''error'' then Some WError
     else if s = bs ''timeout'' then Some WTimeout
     else if s = bs ''invalid_header'' then Some WInvalidHeader
     else if s = bs ''updating'' then Some WUpdating
     else if s = bs ''off'' then None
     else if take 5 s = bs ''http_'' then map_option WStatus (parse_unsigned 16 (drop 5 s)) else None)"

definition stale_allowed :: "stale_when list \<Rightarrow> stale_when \<Rightarrow> bool" where
  "stale_allowed conds outcome = list_ex (\<lambda>c. c = outcome) conds"

section \<open>Entries read back\<close>

lemma from_be64_to_be64: "from_be64 (to_be64 w) = w"
proof -
  have "from_be64 (to_be64 w) = push_bit 32 (ucast (ucast (drop_bit 32 w) :: u32)) OR ucast (ucast w :: u32)"
    by (simp add: from_be64_def to_be64_def to_be32_def)
  also have "\<dots> = w" by (rule bit_word_eqI) (auto simp: bit_simps)
  finally show ?thesis .
qed

lemma split_colon_line: "list_all (\<lambda>b. b \<noteq> 0x3A) n \<Longrightarrow> split_colon (n @ 0x3A # 0x20 # v) = Some (n, v)"
  by (induction n) auto

fun storable :: "bytes \<times> bytes \<Rightarrow> bool" where
  "storable (n, v) \<longleftrightarrow> clean_field (n, v) \<and> utf8_valid n \<and> utf8_valid v"

lemma utf8_encode_headers: "list_all storable hs \<Longrightarrow> utf8_valid (encode_headers hs)"
  by (induction hs) (auto simp: encode_headers_def utf8_valid_append utf8_valid_Cons_ascii)

lemma crlf_split_headers: "list_all storable hs \<Longrightarrow> crlf_split (encode_headers hs) = map line_of hs @ [[]]"
proof (induction hs)
  case (Cons h hs)
  obtain n v where h: "h = (n, v)" by (cases h)
  have "encode_headers (h # hs) = line_of h @ 0x0D # 0x0A # encode_headers hs"
    by (simp add: h encode_headers_def line_of_def)
  moreover have "clean (line_of h)" using Cons.prems line_of_clean [of h] by (simp add: h)
  ultimately show ?case using Cons by (simp add: crlf_split_line)
qed (simp add: encode_headers_def)

lemma decode_encode_headers: "list_all storable hs \<Longrightarrow> decode_headers (encode_headers hs) = hs"
proof -
  assume hs: "list_all storable hs"
  have "List.map_filter split_colon (filter (\<lambda>l. l \<noteq> []) (map line_of hs @ [[]])) = hs"
    using hs by (induction hs) (auto simp: List.map_filter_def line_of_def split_colon_line)
  then show ?thesis
    using utf8_encode_headers [OF hs] crlf_split_headers [OF hs] by (simp add: decode_headers_def from_utf8_def)
qed

text \<open>The fixed part of an entry, and what a decoder reads from it.\<close>

definition fixed_part :: "u64 \<Rightarrow> u16 \<Rightarrow> u64 \<Rightarrow> u16 \<Rightarrow> u32 \<Rightarrow> u64 \<Rightarrow> bytes" where
  "fixed_part now st ex kl hl bl =
    MAGIC @ [VERSION] @ to_be16 st @ to_be64 now @ to_be64 ex @ to_be16 kl @ to_be32 hl @ to_be64 bl"

lemma to_be_lists:
  obtains a b where "to_be16 w = [a, b]" "from_be16 a b = w"
  by (simp add: to_be16_def that)

lemma to_be32_list:
  obtains a b c d where "to_be32 w = [a, b, c, d]" "from_be32 a b c d = w"
  by (simp add: to_be32_def that)

lemma to_be64_list:
  obtains a b c d e f g h where "to_be64 w = [a, b, c, d, e, f, g, h]" "from_be64 [a, b, c, d, e, f, g, h] = w"
proof -
  have "to_be64 w = [to_be64 w ! 0, to_be64 w ! 1, to_be64 w ! 2, to_be64 w ! 3, to_be64 w ! 4, to_be64 w ! 5, to_be64 w ! 6, to_be64 w ! 7]"
    by (simp add: to_be64_def to_be32_def)
  with from_be64_to_be64 [of w] that show thesis by metis
qed

lemma fixed_part_read:
  fixes rest now st ex kl hl bl
  defines "buf \<equiv> fixed_part now st ex kl hl bl @ rest"
  shows "length (fixed_part now st ex kl hl bl) = HEADER_LEN" "take 4 buf = MAGIC" "buf ! 4 = VERSION"
    "from_be16 (buf ! 5) (buf ! 6) = st" "from_be64 (slice_of buf 7 15) = now" "from_be64 (slice_of buf 15 23) = ex"
    "from_be16 (buf ! 23) (buf ! 24) = kl" "from_be32 (buf ! 25) (buf ! 26) (buf ! 27) (buf ! 28) = hl"
    "from_be64 (slice_of buf 29 37) = bl"
proof -
  obtain s0 s1 where s: "to_be16 st = [s0, s1]" "from_be16 s0 s1 = st" by (rule to_be_lists)
  obtain k0 k1 where k: "to_be16 kl = [k0, k1]" "from_be16 k0 k1 = kl" by (rule to_be_lists)
  obtain h0 h1 h2 h3 where h: "to_be32 hl = [h0, h1, h2, h3]" "from_be32 h0 h1 h2 h3 = hl" by (rule to_be32_list)
  obtain n0 n1 n2 n3 n4 n5 n6 n7 where n: "to_be64 now = [n0, n1, n2, n3, n4, n5, n6, n7]"
    "from_be64 [n0, n1, n2, n3, n4, n5, n6, n7] = now" by (rule to_be64_list)
  obtain e0 e1 e2 e3 e4 e5 e6 e7 where e: "to_be64 ex = [e0, e1, e2, e3, e4, e5, e6, e7]"
    "from_be64 [e0, e1, e2, e3, e4, e5, e6, e7] = ex" by (rule to_be64_list)
  obtain b0 b1 b2 b3 b4 b5 b6 b7 where b: "to_be64 bl = [b0, b1, b2, b3, b4, b5, b6, b7]"
    "from_be64 [b0, b1, b2, b3, b4, b5, b6, b7] = bl" by (rule to_be64_list)
  note lists = s(1) k(1) h(1) n(1) e(1) b(1)
  show "length (fixed_part now st ex kl hl bl) = HEADER_LEN" "take 4 buf = MAGIC" "buf ! 4 = VERSION"
    "from_be16 (buf ! 5) (buf ! 6) = st" "from_be64 (slice_of buf 7 15) = now" "from_be64 (slice_of buf 15 23) = ex"
    "from_be16 (buf ! 23) (buf ! 24) = kl" "from_be32 (buf ! 25) (buf ! 26) (buf ! 27) (buf ! 28) = hl"
    "from_be64 (slice_of buf 29 37) = bl"
    unfolding buf_def fixed_part_def lists
    by (simp_all add: MAGIC_def slice_of_def s(2) k(2) h(2) n(2) e(2) b(2))
qed

lemma encode_entry_fixed:
  "encode_entry now key st hs body ttl =
    fixed_part now st (now + ttl) (of_nat (length key)) (of_nat (length (encode_headers hs))) (of_nat (length body))
    @ key @ encode_headers hs @ body"
  by (simp add: encode_entry_def fixed_part_def Let_def)

definition fits :: "bytes \<Rightarrow> (bytes \<times> bytes) list \<Rightarrow> bytes \<Rightarrow> bool" where
  "fits key hs body \<longleftrightarrow> length key < 65536 \<and> length (encode_headers hs) < 4294967296 \<and>
     HEADER_LEN + length key + length (encode_headers hs) + length body < 18446744073709551616"

lemma unat_of_nat_lengths:
  assumes "fits key hs body"
  shows "unat (of_nat (length key) :: u16) = length key"
    "unat (of_nat (length (encode_headers hs)) :: u32) = length (encode_headers hs)"
    "unat (of_nat (length body) :: u64) = length body"
  using assms by (simp_all add: fits_def unsigned_of_nat take_bit_nat_eq_self_iff)

lemma decode_encode_entry:
  assumes "fits key hs body" "list_all storable hs"
  shows "decode_entry (encode_entry now key st hs body ttl) key' =
    (if key' = key then Inr \<lparr>d_status = st, d_headers = hs, d_body = body, d_expires = now + ttl, d_created = now\<rparr>
     else Inl KeyMismatch)"
proof -
  let ?hdr = "encode_headers hs"
  let ?F = "fixed_part now st (now + ttl) (of_nat (length key)) (of_nat (length ?hdr)) (of_nat (length body))"
  note F = fixed_part_read [of now st "now + ttl" "of_nat (length key)" "of_nat (length ?hdr)" "of_nat (length body)"]
  note un = unat_of_nat_lengths [OF assms(1)]
  have sl: "slice_of (?F @ key @ ?hdr @ body) HEADER_LEN (HEADER_LEN + length key) = key"
    "slice_of (?F @ key @ ?hdr @ body) (HEADER_LEN + length key) (HEADER_LEN + length key + length ?hdr) = ?hdr"
    "slice_of (?F @ key @ ?hdr @ body) (HEADER_LEN + length key + length ?hdr) (HEADER_LEN + length key + length ?hdr + length body) = body"
    using F(1) by (simp_all add: slice_of_def)
  have len: "length (?F @ key @ ?hdr @ body) = HEADER_LEN + length key + length ?hdr + length body"
    using F(1) by simp
  have small: "\<not> 2 ^ 64 \<le> HEADER_LEN + length key + length ?hdr + length body" using assms(1) by (simp add: fits_def)
  show ?thesis
    unfolding encode_entry_fixed decode_entry_def F(2-) un len Let_def sl decode_encode_headers [OF assms(2)]
    using small by auto
qed

lemma decode_truncated:
  assumes "fits key hs body" "n < length (encode_entry now key st hs body ttl)"
  shows "decode_entry (take n (encode_entry now key st hs body ttl)) key' = Inl Truncated"
proof (cases "n < HEADER_LEN")
  case True
  then have "length (take n (encode_entry now key st hs body ttl)) < HEADER_LEN" by simp
  then show ?thesis by (simp only: decode_entry_def if_True)
next
  case False
  let ?hdr = "encode_headers hs"
  let ?F = "fixed_part now st (now + ttl) (of_nat (length key)) (of_nat (length ?hdr)) (of_nat (length body))"
  note F = fixed_part_read [of now st "now + ttl" "of_nat (length key)" "of_nat (length ?hdr)" "of_nat (length body)"]
  note un = unat_of_nat_lengths [OF assms(1)]
  have t: "take n (encode_entry now key st hs body ttl) = ?F @ take (n - HEADER_LEN) (key @ ?hdr @ body)"
    using False F(1) by (simp add: encode_entry_fixed)
  have len: "length (?F @ take (n - HEADER_LEN) (key @ ?hdr @ body)) = n"
    using assms(2) False F(1) unfolding t [symmetric] by simp
  have "n < HEADER_LEN + length key + length ?hdr + length body"
    using assms(2) F(1) by (simp add: encode_entry_fixed)
  then show ?thesis
    unfolding t decode_entry_def F(2-) un len Let_def using False by simp
qed

section \<open>The maintenance pass keeps the newest entries\<close>

abbreviation total_size :: "on_disk list \<Rightarrow> nat" where
  "total_size es \<equiv> sum_list (map o_size es)"

lemma total_size_insort: "total_size (insort_key f x xs) = o_size x + total_size xs"
  by (induction xs) auto

lemma total_size_sort: "total_size (sort_key f xs) = total_size xs"
  by (induction xs) (simp_all add: sort_key_def total_size_insort)

abbreviation always :: "bytes list \<Rightarrow> bool" where
  "always p \<equiv> True"

lemma collect_bytes:
  assumes "collect rm dir ns (out, st, gone) = (out', st', gone')" "m_bytes st = total_size out"
  shows "m_bytes st' = total_size out' \<and> removed_oversize st' = removed_oversize st"
  using assms
proof (induction rm dir ns "(out, st, gone)" arbitrary: out st gone out' st' gone' rule: collect.induct)
  case (2 rm dir n kids rest)
  obtain o1 s1 g1 where k: "collect rm (dir @ [n]) kids (out, st, gone) = (o1, s1, g1)" by (rule prod_cases3)
  from 2(1) [OF k 2(4)] 2(2) [OF k] 2(3) k show ?case by simp
next
  case (3 rm dir n sz mt rest out st gone)
  show ?case
  proof (cases "is_temp n")
    case True
    then show ?thesis using 3 by (cases "rm (dir @ [n])") (simp_all add: Let_def)
  next
    case False
    then show ?thesis using 3(2) [OF refl False] 3(3,4) by (simp add: Let_def)
  qed
qed simp

lemma retain_active_kept:
  assumes "retain_active always now inactive es (st, gone) = (kept, st', gone')" "m_bytes st = total_size es + extra"
  shows "kept = filter (\<lambda>e. unat now - unat (o_mtime e) \<le> inactive) es \<and> m_bytes st' = total_size kept + extra \<and>
    removed_oversize st' = removed_oversize st"
  using assms
proof (induction es arbitrary: st gone kept st' gone' extra)
  case (Cons e es)
  show ?case
  proof (cases "inactive < unat now - unat (o_mtime e)")
    case True
    with Cons.prems Cons.IH [of "st\<lparr>removed_inactive := removed_inactive st + 1, m_bytes := m_bytes st - o_size e\<rparr>"
        "gone @ [o_path e]" kept st' gone' extra]
    show ?thesis by simp
  next
    case False
    obtain k1 s1 g1 where r: "retain_active always now inactive es (st, gone) = (k1, s1, g1)" by (rule prod_cases3)
    with Cons.prems Cons.IH [OF r, of "extra + o_size e"] False show ?thesis by auto
  qed
qed simp

text \<open>Trimming removes a shortest prefix that brings the rest down to the target.\<close>

lemma trim_oldest_prefix:
  assumes "trim_oldest always target es (st, gone) = (st', gone')" "m_bytes st = total_size es"
  shows "removed_oversize st \<le> removed_oversize st' \<and>
    (let k = removed_oversize st' - removed_oversize st
     in k \<le> length es \<and> m_bytes st' = total_size (drop k es) \<and> m_bytes st' \<le> target \<and>
        (0 < k \<longrightarrow> target < total_size (drop (k - 1) es)))"
  using assms
proof (induction es arbitrary: st gone)
  case (Cons e es)
  show ?case
  proof (cases "m_bytes st \<le> target")
    case True
    with Cons.prems show ?thesis by simp
  next
    case False
    let ?st = "st\<lparr>removed_oversize := removed_oversize st + 1, m_bytes := m_bytes st - o_size e\<rparr>"
    from Cons.prems False have "trim_oldest always target es (?st, gone @ [o_path e]) = (st', gone')" "m_bytes ?st = total_size es"
      by simp_all
    from Cons.IH [OF this] have IH: "removed_oversize st + 1 \<le> removed_oversize st'"
      "let k = removed_oversize st' - (removed_oversize st + 1)
       in k \<le> length es \<and> m_bytes st' = total_size (drop k es) \<and> m_bytes st' \<le> target \<and>
          (0 < k \<longrightarrow> target < total_size (drop (k - 1) es))" by simp_all
    define k where "k = removed_oversize st' - (removed_oversize st + 1)"
    have k: "removed_oversize st' - removed_oversize st = Suc k" using IH(1) by (simp add: k_def)
    have "target < total_size (drop k (e # es))" using IH(2) False Cons.prems(2) unfolding k_def [symmetric] Let_def
      by (cases k) (simp_all add: drop_Cons')
    then show ?thesis using IH unfolding k k_def [symmetric] Let_def by simp
  qed
qed simp

section \<open>Lock states\<close>

definition owned :: "lock_state \<Rightarrow> lock_key \<Rightarrow> bool" where
  "owned s k \<longleftrightarrow> (\<exists>t. held s t = Some k)"

definition lock_inv :: "lock_state \<Rightarrow> bool" where
  "lock_inv s \<longleftrightarrow> fetching s = Collect (owned s) \<and> (\<forall>t t' k. held s t = Some k \<longrightarrow> held s t' = Some k \<longrightarrow> t = t')"

lemma owned_take: "held s t = None \<Longrightarrow> Collect (owned (s\<lparr>fetching := f, held := (held s)(t \<mapsto> k)\<rparr>)) = insert k (Collect (owned s))"
  by (intro set_eqI) (auto simp: owned_def, metis option.distinct(1))

lemma owned_release:
  assumes "held s t = Some k" "\<forall>t t' k. held s t = Some k \<longrightarrow> held s t' = Some k \<longrightarrow> t = t'"
  shows "Collect (owned (s\<lparr>fetching := f, held := (held s)(t := None)\<rparr>)) = Collect (owned s) - {k}"
  using assms by (intro set_eqI) (auto simp: owned_def simp del: split_paired_All split_paired_Ex, metis option.inject)

lemma lock_step_inv: "lock_step s s' \<Longrightarrow> lock_inv s \<Longrightarrow> lock_inv s'"
proof (induction rule: lock_step.induct)
  case (take s t k f)
  then have k: "\<not> owned s k" "f = insert k (fetching s)" by (auto simp: lock_inv_def try_lock_def split: if_splits)
  have "held s t' \<noteq> Some k" for t' using k(1) by (simp add: owned_def)
  then show ?case using take k(2) unfolding lock_inv_def owned_take [OF take(1)] by auto
next
  case (refused s t k f)
  then have "f = fetching s" by (auto simp: try_lock_def split: if_splits)
  with refused show ?case by simp
next
  case (release s t k)
  then show ?case using owned_release [OF release(1)] unfolding lock_inv_def drop_lock_def by simp
qed

interpretation fetch_lock: invariant_system "\<lambda>s. s = lock_init" lock_step lock_inv
proof
  show "lock_inv s" if "s = lock_init" for s using that by (simp add: lock_inv_def lock_init_def owned_def)
  show "lock_inv t" if "lock_inv s" "lock_step s t" for s t using lock_step_inv [OF that(2,1)] .
qed

section \<open>Properties\<close>

text \<open>C17.
  An entry is read back exactly, and only for its own key: decoding what \<^verbatim>\<open>encode_entry\<close> wrote gives
  the status, headers, body and times for the key it was written for and \<^verbatim>\<open>KeyMismatch\<close> for every
  other key, so a digest collision never serves one URL for another; and every proper prefix of an
  entry, as an interrupted write leaves it, is refused as truncated.
\<close>
theorem cache_entry_exact:
  assumes "fits key hs body" "list_all storable hs"
  shows "decode_entry (encode_entry now key st hs body ttl) key' =
      (if key' = key then Inr \<lparr>d_status = st, d_headers = hs, d_body = body, d_expires = now + ttl, d_created = now\<rparr>
       else Inl KeyMismatch) \<and>
    (n < length (encode_entry now key st hs body ttl) \<longrightarrow>
       decode_entry (take n (encode_entry now key st hs body ttl)) key' = Inl Truncated)"
  using decode_encode_entry [OF assms] decode_truncated [OF assms(1)] by blast

theorem cache_entry_exact_witness:
  "decode_entry (encode_entry 5 (bs ''/a'') 200 [(bs ''X'', bs ''y'')] (bs ''hi'') 60) (bs ''/a'') =
     Inr \<lparr>d_status = 200, d_headers = [(bs ''X'', bs ''y'')], d_body = bs ''hi'', d_expires = 65, d_created = 5\<rparr> \<and>
   decode_entry (encode_entry 5 (bs ''/a'') 200 [(bs ''X'', bs ''y'')] (bs ''hi'') 60) (bs ''/b'') = Inl KeyMismatch"
proof -
  have "fits (bs ''/a'') [(bs ''X'', bs ''y'')] (bs ''hi'')" "list_all storable [(bs ''X'', bs ''y'')]"
    by (simp_all add: fits_def encode_headers_def utf8_valid_Cons_ascii)
  from cache_entry_exact [OF this, of 5 200 60 "bs ''/a''" 0] cache_entry_exact [OF this, of 5 200 60 "bs ''/b''" 0]
  show ?thesis by simp
qed

text \<open>
  What is stored is found: after a successful \<^verbatim>\<open>store\<close> of an encoded entry, \<^verbatim>\<open>load\<close> for the same key
  returns it unchanged, as a hit until its lifetime is over and as expired from then on. A load for
  another key that has the same digest returns nothing.
\<close>
theorem cache_store_load:
  assumes "fits key hs body" "list_all storable hs"
    and "store IoOk tmp now z h (encode_entry now key st hs body ttl) fs idx = (True, fs', idx')"
  shows "fst (load later z key' h fs' idx') =
    (if key' = key
     then Some (\<lparr>d_status = st, d_headers = hs, d_body = body, d_expires = now + ttl, d_created = now\<rparr>,
                if now + ttl \<le> later then Expired else Hit)
     else None)"
proof -
  have "fs' (entry_path (z_root z) (z_levels z) h) = Some (encode_entry now key st hs body ttl, now)"
    using assms(3) by (auto simp: store_def Let_def)
  then show ?thesis using decode_encode_entry [OF assms(1,2), of now st ttl key'] by (simp add: load_def Let_def)
qed

theorem cache_store_load_witness:
  "\<exists>fs' idx'. store IoOk (bs ''tmp1'') 5 \<lparr>z_name = bs ''z'', z_root = [bs ''c''], z_levels = [], z_max_entries = 10, z_max_size = 0, z_inactive = 0\<rparr>
      (KeyHash 1 2) (encode_entry 5 (bs ''/a'') 200 [] (bs ''hi'') 60) Map.empty [] = (True, fs', idx') \<and>
    fst (load 64 \<lparr>z_name = bs ''z'', z_root = [bs ''c''], z_levels = [], z_max_entries = 10, z_max_size = 0, z_inactive = 0\<rparr> (bs ''/a'') (KeyHash 1 2) fs' idx') =
      Some (\<lparr>d_status = 200, d_headers = [], d_body = bs ''hi'', d_expires = 65, d_created = 5\<rparr>, Hit)"
proof -
  let ?z = "\<lparr>z_name = bs ''z'', z_root = [bs ''c''], z_levels = [] :: u8 list, z_max_entries = 10, z_max_size = 0, z_inactive = 0\<rparr>"
  have f: "fits (bs ''/a'') [] (bs ''hi'')" "list_all storable []"
    by (simp_all add: fits_def encode_headers_def)
  obtain fs' idx' where r: "store IoOk (bs ''tmp1'') 5 ?z (KeyHash 1 2) (encode_entry 5 (bs ''/a'') 200 [] (bs ''hi'') 60) Map.empty [] = (True, fs', idx')"
    by (simp add: store_def Let_def)
  from cache_store_load [OF f r, of 64 "bs ''/a''"] r show ?thesis by (intro exI [of _ fs'] exI [of _ idx']) simp
qed

text \<open>
  The maintenance pass keeps its bounds. When every removal succeeds, what it reports is what is left:
  no entry older than \<^verbatim>\<open>inactive\<close> stays, the bytes left are at most \<^verbatim>\<open>max_size\<close>, the entries removed for
  size are the oldest ones, and no more of them than needed to reach nine tenths of the limit.
\<close>
theorem cache_manager_bounds:
  assumes "manager_pass always now z tree = (st, entries, gone)"
  shows "let k = removed_oversize st; kept = drop k entries
    in m_bytes st = total_size kept \<and> m_entries st = length kept \<and>
       (0 < z_max_size z \<longrightarrow> m_bytes st \<le> z_max_size z) \<and>
       (0 < z_inactive z \<longrightarrow> list_all (\<lambda>e. unat now - unat (o_mtime e) \<le> z_inactive z) kept) \<and>
       list_all (\<lambda>g. list_all (\<lambda>e. o_mtime g \<le> o_mtime e) kept) (take k entries) \<and>
       (0 < k \<longrightarrow> z_max_size z - z_max_size z div 10 < total_size (drop (k - 1) entries))"
proof -
  obtain es0 s0 g0 where c: "collect always [] tree ([], stats_default, []) = (es0, s0, g0)" by (rule prod_cases3)
  have s0: "m_bytes s0 = total_size es0" "removed_oversize s0 = 0"
    using collect_bytes [OF c] by (simp_all add: stats_default_def)
  obtain es1 s1 g1 where r: "(if 0 < z_inactive z then retain_active always now (z_inactive z) es0 (s0, g0) else (es0, s0, g0)) = (es1, s1, g1)"
    by (rule prod_cases3)
  have s1: "m_bytes s1 = total_size es1" "removed_oversize s1 = 0"
    "0 < z_inactive z \<Longrightarrow> list_all (\<lambda>e. unat now - unat (o_mtime e) \<le> z_inactive z) es1"
    using r s0 retain_active_kept [of now "z_inactive z" es0 s0 g0 es1 s1 g1 0]
    by (auto simp: list_all_iff split: if_splits)
  show ?thesis
  proof (cases "0 < z_max_size z \<and> z_max_size z < m_bytes s1")
    case False
    then have "st = s1\<lparr>m_entries := length es1\<rparr>" "entries = es1"
      using assms s1(2) by (auto simp: manager_pass_def c r Let_def)
    then show ?thesis using s1 False by (auto simp: Let_def)
  next
    case True
    obtain s2 g2 where t: "trim_oldest always (z_max_size z - z_max_size z div 10) (sort_key o_mtime es1) (s1, g1) = (s2, g2)"
      by (rule prod.exhaust)
    have eq: "st = s2\<lparr>m_entries := length es1 - removed_oversize s2\<rparr>" "entries = sort_key o_mtime es1"
      using assms True by (auto simp: manager_pass_def c r t Let_def)
    have "total_size (sort_key o_mtime es1) = total_size es1" by (rule total_size_sort)
    with trim_oldest_prefix [OF t] s1(1,2) have p: "removed_oversize s2 \<le> length es1"
      "m_bytes s2 = total_size (drop (removed_oversize s2) (sort_key o_mtime es1))" "m_bytes s2 \<le> z_max_size z - z_max_size z div 10"
      "0 < removed_oversize s2 \<Longrightarrow> z_max_size z - z_max_size z div 10 < total_size (drop (removed_oversize s2 - 1) (sort_key o_mtime es1))"
      by (auto simp: Let_def)
    let ?k = "removed_oversize s2" and ?xs = "sort_key o_mtime es1"
    have "sorted (map o_mtime (take ?k ?xs @ drop ?k ?xs))" by simp
    then have "\<forall>g \<in> set (take ?k ?xs). \<forall>e \<in> set (drop ?k ?xs). o_mtime g \<le> o_mtime e"
      unfolding map_append sorted_append by auto
    moreover have "0 < z_inactive z \<longrightarrow> list_all (\<lambda>e. unat now - unat (o_mtime e) \<le> z_inactive z) (drop ?k ?xs)"
      using s1(3) by (auto simp: list_all_iff dest: in_set_dropD)
    ultimately show ?thesis using p unfolding eq Let_def by (auto simp: list_all_iff)
  qed
qed

theorem cache_manager_bounds_witness:
  "let tree = [DFile (bs ''a'') 60 1, DDir (bs ''d'') [DFile (bs ''b'') 50 2], DFile (bs ''x.tmp9'') 7 3]
   in \<exists>st entries gone. manager_pass always 10 \<lparr>z_name = [], z_root = [], z_levels = [], z_max_entries = 1, z_max_size = 100, z_inactive = 0\<rparr> tree = (st, entries, gone) \<and>
      m_bytes st \<le> 100"
proof -
  let ?z = "\<lparr>z_name = [], z_root = [], z_levels = [], z_max_entries = 1, z_max_size = 100, z_inactive = 0\<rparr>"
  let ?tree = "[DFile (bs ''a'') 60 1, DDir (bs ''d'') [DFile (bs ''b'') 50 2], DFile (bs ''x.tmp9'') 7 3]"
  obtain st entries gone where r: "manager_pass always 10 ?z ?tree = (st, entries, gone)" by (rule prod_cases3)
  from cache_manager_bounds [OF r] have "m_bytes st \<le> 100" by (simp add: Let_def)
  with r show ?thesis by (auto simp: Let_def)
qed

text \<open>C18.
  Within a process the fetch lock is exclusive and never stuck: however its tasks take and drop locks, no key is owned by
  two tasks at once, a key counts as locked exactly while some task owns it, and \<^verbatim>\<open>try_lock\<close> succeeds
  exactly on the others. The statement is about the ownership of locks, not about fetches made without one.
\<close>
theorem fetch_lock_exclusive:
  assumes "reachable (\<lambda>s. s = lock_init) lock_step s"
  shows "(held s t = Some k \<longrightarrow> held s t' = Some k \<longrightarrow> t = t') \<and>
    (is_locked k (fetching s) \<longleftrightarrow> (\<exists>t. held s t = Some k)) \<and>
    (fst (try_lock k (fetching s)) \<longleftrightarrow> \<not> (\<exists>t. held s t = Some k))"
proof -
  have inv: "lock_inv s" using assms by (rule fetch_lock.reachable_inv)
  then show ?thesis by (auto simp: lock_inv_def is_locked_def try_lock_def owned_def simp del: split_paired_All split_paired_Ex)
qed

theorem fetch_lock_exclusive_witness:
  "let s = lock_init\<lparr>fetching := {(bs ''z'', KeyHash 1 2)}, held := [0 \<mapsto> (bs ''z'', KeyHash 1 2)]\<rparr>
   in reachable (\<lambda>s. s = lock_init) lock_step s \<and> \<not> fst (try_lock (bs ''z'', KeyHash 1 2) (fetching s))"
proof -
  let ?k = "(bs ''z'', KeyHash 1 2)"
  let ?s = "lock_init\<lparr>fetching := {?k}, held := [0 \<mapsto> ?k]\<rparr>"
  have "lock_step lock_init (lock_init\<lparr>fetching := {?k}, held := (held lock_init)(0 \<mapsto> ?k)\<rparr>)"
    by (rule lock_step.take) (simp_all add: lock_init_def try_lock_def)
  then have r: "reachable (\<lambda>s. s = lock_init) lock_step ?s"
    by (intro reach_step [OF reach_init]) (simp_all add: lock_init_def)
  from fetch_lock_exclusive [OF r, of 0 ?k 0] r show ?thesis by (auto simp: Let_def)
qed

end
