(* ===== verification/Config_Syntax.thy ===== *)
theory Config_Syntax
  imports Prelude
begin

text \<open>
  The configuration grammar (\<^verbatim>\<open>config/lexer.rs\<close>, \<^verbatim>\<open>config/ast.rs\<close>): the tokenizer with its quoting and
  escape rules, the directive parser with \<^verbatim>\<open>include\<close> expansion, and the dump that renders a tree back
  to text. The lexer works on the rest of the input in place of an index; reading files,
  canonical paths and globbing are arguments. The parser recurses on a fuel that is shown to be
  enough, and \<^verbatim>\<open>include\<close> on the depth that is left.
\<close>

section \<open>Tokens\<close>

datatype tok = Word bytes | TOpen | TClose | TSemi

record token =
  tk :: tok
  tline :: nat
  tquoted :: bool

datatype lex_error = UnterminatedQuote nat | AfterQuote nat | UnexpectedByte u8 nat

abbreviation bslash :: u8 where "bslash \<equiv> 0x5C"
abbreviation newline :: u8 where "newline \<equiv> 0x0A"
abbreviation dquote :: u8 where "dquote \<equiv> 0x22"
abbreviation squote :: u8 where "squote \<equiv> 0x27"
abbreviation hash :: u8 where "hash \<equiv> 0x23"
abbreviation blank :: u8 where "blank \<equiv> 0x20"
abbreviation semi :: u8 where "semi \<equiv> 0x3B"
abbreviation obrace :: u8 where "obrace \<equiv> 0x7B"
abbreviation cbrace :: u8 where "cbrace \<equiv> 0x7D"

definition is_delim :: "u8 \<Rightarrow> bool" where
  "is_delim c \<longleftrightarrow> c = blank \<or> c = 0x09 \<or> c = 0x0D \<or> c = newline \<or> c = semi \<or> c = obrace \<or> c = cbrace"

fun unescape_loop :: "bytes \<Rightarrow> bytes" where
  "unescape_loop [] = []"
| "unescape_loop [c] = [c]"
| "unescape_loop (c # d # r) =
    (if c = bslash then
       (if d = dquote \<or> d = squote \<or> d = bslash then d # unescape_loop r
        else if d = 0x74 then 0x09 # unescape_loop r
        else if d = 0x72 then 0x0D # unescape_loop r
        else if d = 0x6E then newline # unescape_loop r
        else c # unescape_loop (d # r))
     else c # unescape_loop (d # r))"

definition unescape :: "bytes \<Rightarrow> bytes" where
  "unescape raw = (if bslash \<notin> set raw then from_utf8_lossy raw else from_utf8_lossy (unescape_loop raw))"

section \<open>The lexer\<close>

text \<open>A comment runs up to, not over, the end of the line.\<close>

function skip_trivia :: "nat \<Rightarrow> bytes \<Rightarrow> nat \<times> bytes" where
  "skip_trivia line b =
    (case b of
       [] \<Rightarrow> (line, [])
     | c # r \<Rightarrow>
        if c = newline then skip_trivia (line + 1) r
        else if c = blank \<or> c = 0x09 \<or> c = 0x0D then skip_trivia line r
        else if c = hash then skip_trivia line (dropWhile (\<lambda>x. x \<noteq> newline) r)
        else (line, b))"
  by pat_completeness auto
termination
  by (relation "measure (length \<circ> snd)") (auto simp: le_imp_less_Suc length_dropWhile_le)

declare skip_trivia.simps [simp del]

text \<open>Scans after the opening quote: the raw word, the line, and the input after the closing quote.\<close>

fun quoted_scan :: "u8 \<Rightarrow> nat \<Rightarrow> bytes \<Rightarrow> bytes \<Rightarrow> lex_error + (bytes \<times> nat \<times> bytes)" where
  "quoted_scan q line raw [] = Inl (UnterminatedQuote line)"
| "quoted_scan q line raw [c] = (if c = q then Inr (raw, line, []) else quoted_scan q (if c = newline then line + 1 else line) (raw @ [c]) [])"
| "quoted_scan q line raw (c # d # r) =
    (if c = bslash then quoted_scan q (if d = newline then line + 1 else line) (raw @ [c, d]) r
     else if c = q then Inr (raw, line, d # r)
     else quoted_scan q (if c = newline then line + 1 else line) (raw @ [c]) (d # r))"

definition quoted_word :: "u8 \<Rightarrow> nat \<Rightarrow> bytes \<Rightarrow> lex_error + (bytes \<times> nat \<times> bytes)" where
  "quoted_word q line b =
    (case quoted_scan q line [] b of
       Inl e \<Rightarrow> Inl e
     | Inr (raw, line, rest) \<Rightarrow>
        if rest \<noteq> [] \<and> \<not> is_delim (hd rest) then Inl (AfterQuote line) else Inr (unescape raw, line, rest))"

fun bare_scan :: "bytes \<Rightarrow> bytes \<Rightarrow> bytes \<times> bytes" where
  "bare_scan raw [] = (raw, [])"
| "bare_scan raw [c] = (if is_delim c then (raw, [c]) else (raw @ [c], []))"
| "bare_scan raw (c # d # r) =
    (if c = bslash then bare_scan (raw @ [c, d]) r
     else if is_delim c then (raw, c # d # r)
     else bare_scan (raw @ [c]) (d # r))"

definition bare_word :: "nat \<Rightarrow> bytes \<Rightarrow> lex_error + (bytes \<times> bytes)" where
  "bare_word line b =
    (case bare_scan [] b of
       (raw, rest) \<Rightarrow> if raw = [] then Inl (UnexpectedByte (hd b) line) else Inr (unescape raw, rest))"

lemma skip_trivia_length: "length (snd (skip_trivia line b)) \<le> length b"
proof (induction line b rule: skip_trivia.induct)
  case (1 line b)
  show ?case
  proof (cases b)
    case (Cons c r)
    have "length (dropWhile (\<lambda>x. x \<noteq> newline) r) \<le> length r" by (rule length_dropWhile_le)
    with 1 Cons show ?thesis by (subst skip_trivia.simps) (auto intro: le_SucI order_trans)
  qed (simp add: skip_trivia.simps)
qed

lemma quoted_scan_length: "quoted_scan q line raw b = Inr (w, l, rest) \<Longrightarrow> length rest < length b"
  by (induction q line raw b arbitrary: w l rest rule: quoted_scan.induct)
    (auto split: if_splits intro: less_SucI dest: less_imp_le)

lemma bare_scan_length: "bare_scan raw b = (w, rest) \<Longrightarrow> length rest + length w = length raw + length b"
  by (induction raw b rule: bare_scan.induct) (auto split: if_splits)

lemma quoted_word_length: "quoted_word q line b = Inr (w, l, rest) \<Longrightarrow> length rest < length b"
  by (auto simp: quoted_word_def dest!: quoted_scan_length split: sum.splits if_splits)

lemma bare_word_length: "bare_word line b = Inr (w, rest) \<Longrightarrow> length rest < length b"
  using bare_scan_length [of "[]" b] by (auto simp: bare_word_def split: prod.splits if_splits)
    (metis add.commute add_0 add_less_same_cancel1 length_greater_0_conv less_add_same_cancel2)

function lex :: "nat \<Rightarrow> bytes \<Rightarrow> lex_error + token list" where
  "lex line0 b0 =
    (case skip_trivia line0 b0 of
       (line, b) \<Rightarrow>
        (case b of
           [] \<Rightarrow> Inr []
         | c # r \<Rightarrow>
            if c = obrace then map_sum id (Cons \<lparr>tk = TOpen, tline = line, tquoted = False\<rparr>) (lex line r)
            else if c = cbrace then map_sum id (Cons \<lparr>tk = TClose, tline = line, tquoted = False\<rparr>) (lex line r)
            else if c = semi then map_sum id (Cons \<lparr>tk = TSemi, tline = line, tquoted = False\<rparr>) (lex line r)
            else if c = dquote \<or> c = squote then
              (case quoted_word c line r of
                 Inl e \<Rightarrow> Inl e
               | Inr (w, line', rest) \<Rightarrow> map_sum id (Cons \<lparr>tk = Word w, tline = line, tquoted = True\<rparr>) (lex line' rest))
            else
              (case bare_word line b of
                 Inl e \<Rightarrow> Inl e
               | Inr (w, rest) \<Rightarrow> map_sum id (Cons \<lparr>tk = Word w, tline = line, tquoted = False\<rparr>) (lex line rest))))"
  by pat_completeness auto
termination
proof (relation "measure (length \<circ> snd)", goal_cases)
  case 1
  show ?case by simp
next
  case (2 line0 b0 x y c r)
  then show ?case using skip_trivia_length [of line0 b0] by (auto dest!: sym [of _ "skip_trivia line0 b0"])
next
  case (3 line0 b0 x y c r)
  then show ?case using skip_trivia_length [of line0 b0] by (auto dest!: sym [of _ "skip_trivia line0 b0"])
next
  case (4 line0 b0 x y c r)
  then show ?case using skip_trivia_length [of line0 b0] by (auto dest!: sym [of _ "skip_trivia line0 b0"])
next
  case 5
  then show ?case
    by (clarsimp dest!: sym [of _ "skip_trivia _ _"] quoted_word_length)
      (metis Suc_lessD less_trans_Suc not_less_eq length_Cons less_le_trans skip_trivia_length snd_conv)
next
  case 6
  then show ?case
    by (clarsimp dest!: sym [of _ "skip_trivia _ _"] bare_word_length)
      (metis length_Cons less_le_trans skip_trivia_length snd_conv)
qed

declare lex.simps [simp del]

definition tokenize :: "bytes \<Rightarrow> lex_error + token list" where
  "tokenize src = lex 1 src"

section \<open>The directive tree\<close>

datatype directive = Directive (dname: bytes) (dargs: "bytes list") (dblock: "directive list option") (dline: nat) (dfile: bytes)

definition children :: "directive \<Rightarrow> directive list" where
  "children d = (case dblock d of Some b \<Rightarrow> b | None \<Rightarrow> [])"

definition find_child :: "bytes \<Rightarrow> directive \<Rightarrow> directive option" where
  "find_child n d = find (\<lambda>c. dname c = n) (children d)"

datatype parse_msg =
    UnexpectedEof | UnexpectedClose | UnexpectedSemi | UnexpectedOpen
  | EofAfter bytes | NotTerminated bytes
  | BadIncludeArgs | BadPattern | CannotRead | IncludedHere
  | TooDeep | RecursiveInclude | LexFailed lex_error

datatype parse_error = ParseError parse_msg nat bytes | OutOfFuel

text \<open>What a parser of one file carries: how an \<^verbatim>\<open>include\<close> is expanded, the file, the line of its last token.\<close>

record parser =
  p_inc :: "directive \<Rightarrow> parse_error + directive list"
  p_file :: bytes
  p_last :: nat

definition here :: "parser \<Rightarrow> token list \<Rightarrow> nat" where
  "here p ts = (case ts of t # _ \<Rightarrow> tline t | [] \<Rightarrow> p_last p)"

definition perr :: "parser \<Rightarrow> token list \<Rightarrow> parse_msg \<Rightarrow> parse_error + 'a" where
  "perr p ts msg = Inl (ParseError msg (here p ts) (p_file p))"

fun parse_block :: "nat \<Rightarrow> parser \<Rightarrow> bool \<Rightarrow> token list \<Rightarrow> parse_error + (directive list \<times> token list)"
  and parse_args :: "nat \<Rightarrow> parser \<Rightarrow> bytes \<Rightarrow> nat \<Rightarrow> bytes list \<Rightarrow> token list \<Rightarrow> parse_error + (directive \<times> token list)" where
  "parse_block 0 p toplevel ts = Inl OutOfFuel"
| "parse_block (Suc n) p toplevel ts =
    (case ts of
       [] \<Rightarrow> if toplevel then Inr ([], []) else perr p ts UnexpectedEof
     | t # rest \<Rightarrow>
        (case tk t of
           TClose \<Rightarrow> if toplevel then perr p ts UnexpectedClose else Inr ([], rest)
         | TSemi \<Rightarrow> perr p ts UnexpectedSemi
         | TOpen \<Rightarrow> perr p ts UnexpectedOpen
         | Word name \<Rightarrow>
            (case parse_args n p name (tline t) [] rest of
               Inl e \<Rightarrow> Inl e
             | Inr (d, rest) \<Rightarrow>
                (case (if dname d = bs ''include'' \<and> dblock d = None then p_inc p d else Inr [d]) of
                   Inl e \<Rightarrow> Inl e
                 | Inr ds \<Rightarrow>
                    (case parse_block n p toplevel rest of
                       Inl e \<Rightarrow> Inl e
                     | Inr (out, rest) \<Rightarrow> Inr (ds @ out, rest))))))"
| "parse_args 0 p name line args ts = Inl OutOfFuel"
| "parse_args (Suc n) p name line args ts =
    (case ts of
       [] \<Rightarrow> perr p ts (EofAfter name)
     | t # rest \<Rightarrow>
        (case tk t of
           Word w \<Rightarrow> parse_args n p name line (args @ [w]) rest
         | TSemi \<Rightarrow> Inr (Directive name args None line (p_file p), rest)
         | TOpen \<Rightarrow>
            (case parse_block n p False rest of
               Inl e \<Rightarrow> Inl e
             | Inr (block, rest) \<Rightarrow> Inr (Directive name args (Some block) line (p_file p), rest))
         | TClose \<Rightarrow> perr p ts (NotTerminated name)))"

section \<open>Files and includes\<close>

text \<open>The environment of the configuration loader: contents, canonical path, glob matches.\<close>

record loader =
  l_read :: "bytes \<rightharpoonup> bytes"
  l_canon :: "bytes \<Rightarrow> bytes"
  l_glob :: "bytes \<Rightarrow> bytes list option"

abbreviation MAX_INCLUDE_DEPTH :: nat where "MAX_INCLUDE_DEPTH \<equiv> 32"

text \<open>\<^verbatim>\<open>base.join(pat)\<close>, the base being the directory of the including file.\<close>

definition parent_dir :: "bytes \<Rightarrow> bytes" where
  "parent_dir f = rev (dropWhile (\<lambda>b. b \<noteq> 0x2F) (rev f))"

definition include_path :: "bytes \<Rightarrow> bytes \<Rightarrow> bytes" where
  "include_path file pat = (if pat \<noteq> [] \<and> hd pat = 0x2F then pat else parent_dir file @ pat)"

definition is_glob :: "bytes \<Rightarrow> bool" where
  "is_glob p = list_ex (\<lambda>b. b = 0x2A \<or> b = 0x3F \<or> b = 0x5B) p"

text \<open>Paths are ordered by their components, each compared as bytes.\<close>

fun byte_le :: "bytes \<Rightarrow> bytes \<Rightarrow> bool" where
  "byte_le [] ys = True"
| "byte_le (x # xs) [] = False"
| "byte_le (x # xs) (y # ys) = (x < y \<or> x = y \<and> byte_le xs ys)"

fun components_le :: "bytes list \<Rightarrow> bytes list \<Rightarrow> bool" where
  "components_le [] ys = True"
| "components_le (x # xs) [] = False"
| "components_le (x # xs) (y # ys) = (if x = y then components_le xs ys else byte_le x y)"

definition path_le :: "bytes \<Rightarrow> bytes \<Rightarrow> bool" where
  "path_le p q = components_le (filter (\<lambda>s. s \<noteq> []) (split_on 0x2F p)) (filter (\<lambda>s. s \<noteq> []) (split_on 0x2F q))"

fun insert_path :: "bytes \<Rightarrow> bytes list \<Rightarrow> bytes list" where
  "insert_path p [] = [p]"
| "insert_path p (q # qs) = (if path_le p q then p # q # qs else q # insert_path p qs)"

definition sort_paths :: "bytes list \<Rightarrow> bytes list" where
  "sort_paths ps = foldr insert_path ps []"

definition at_include :: "directive \<Rightarrow> parse_error \<Rightarrow> parse_error" where
  "at_include d e =
    (case e of ParseError CannotRead l f \<Rightarrow> if l = 0 then ParseError IncludedHere (dline d) (dfile d) else e | _ \<Rightarrow> e)"

fun include_all :: "(bytes \<Rightarrow> parse_error + directive list) \<Rightarrow> directive \<Rightarrow> bytes list \<Rightarrow> parse_error + directive list" where
  "include_all parse d [] = Inr []"
| "include_all parse d (p # ps) =
    (case parse p of
       Inl e \<Rightarrow> Inl (at_include d e)
     | Inr sub \<Rightarrow> map_sum id (append sub) (include_all parse d ps))"

definition expand_include :: "loader \<Rightarrow> bytes \<Rightarrow> (bytes \<Rightarrow> parse_error + directive list) \<Rightarrow> directive \<Rightarrow> parse_error + directive list" where
  "expand_include ld file parse d =
    (case dargs d of
       [pat] \<Rightarrow>
        (let p = include_path file pat
         in if is_glob p
            then (case l_glob ld p of
                    None \<Rightarrow> Inl (ParseError BadPattern (dline d) (dfile d))
                  | Some ps \<Rightarrow> include_all parse d (sort_paths ps))
            else include_all parse d [p])
     | _ \<Rightarrow> Inl (ParseError BadIncludeArgs (dline d) (dfile d)))"

text \<open>\<open>budget\<close> is \<open>MAX_INCLUDE_DEPTH + 1 - depth\<close>; \<open>seen\<close> holds the files being parsed on this branch.\<close>

primrec parse_file_inner :: "nat \<Rightarrow> loader \<Rightarrow> bytes set \<Rightarrow> bytes \<Rightarrow> parse_error + directive list" where
  "parse_file_inner 0 ld seen file = Inl (ParseError TooDeep 0 file)"
| "parse_file_inner (Suc budget) ld seen file =
    (if l_canon ld file \<in> seen then Inl (ParseError RecursiveInclude 0 file)
     else
       (case l_read ld file of
          None \<Rightarrow> Inl (ParseError CannotRead 0 file)
        | Some src \<Rightarrow>
           (case tokenize src of
              Inl e \<Rightarrow> Inl (ParseError (LexFailed e) (case e of UnterminatedQuote l \<Rightarrow> l | AfterQuote l \<Rightarrow> l | UnexpectedByte _ l \<Rightarrow> l) file)
            | Inr ts \<Rightarrow>
               map_sum id fst
                 (parse_block (Suc (length ts))
                    \<lparr>p_inc = expand_include ld file (\<lambda>f. parse_file_inner budget ld (insert (l_canon ld file) seen) f),
                     p_file = file, p_last = (if ts = [] then 0 else tline (last ts))\<rparr> True ts))))"

definition parse_file :: "loader \<Rightarrow> bytes \<Rightarrow> parse_error + directive list" where
  "parse_file ld file = parse_file_inner (Suc MAX_INCLUDE_DEPTH) ld {} file"

section \<open>The dump\<close>

fun has_whitespace :: "bytes \<Rightarrow> bool" where
  "has_whitespace [] = False"
| "has_whitespace (c # cs) = (0 < ws_len (c # cs) \<or> has_whitespace cs)"

definition needs_quotes :: "bytes \<Rightarrow> bool" where
  "needs_quotes a \<longleftrightarrow> a = [] \<or> has_whitespace a \<or> semi \<in> set a \<or> obrace \<in> set a \<or> cbrace \<in> set a"

definition escape :: "bytes \<Rightarrow> bytes" where
  "escape a = concat (map (\<lambda>b. if b = bslash then [bslash, bslash] else if b = dquote then [bslash, dquote] else [b]) a)"

definition dump_arg :: "bytes \<Rightarrow> bytes" where
  "dump_arg a = blank # (if needs_quotes a then dquote # escape a @ [dquote] else a)"

definition dump_indent :: "nat \<Rightarrow> bytes" where
  "dump_indent n = concat (replicate n (bs ''    ''))"

fun dump :: "nat \<Rightarrow> directive list \<Rightarrow> bytes" where
  "dump n [] = []"
| "dump n (Directive name args block line file # ds) =
    dump_indent n @ name @ concat (map dump_arg args)
    @ (case block of
         Some b \<Rightarrow> bs '' {'' @ [newline] @ dump (n + 1) b @ dump_indent n @ bs ''}'' @ [newline]
       | None \<Rightarrow> bs '';'' @ [newline])
    @ dump n ds"

section \<open>The parser inverts flattening\<close>

text \<open>The tokens of a tree.\<close>

fun flat :: "directive list \<Rightarrow> tok list" where
  "flat [] = []"
| "flat (Directive name args block line file # ds) =
    Word name # map Word args @ (case block of Some b \<Rightarrow> TOpen # flat b @ [TClose] | None \<Rightarrow> [TSemi]) @ flat ds"

definition flat_block :: "directive list option \<Rightarrow> tok list" where
  "flat_block block = (case block of Some b \<Rightarrow> TOpen # flat b @ [TClose] | None \<Rightarrow> [TSemi])"

lemma flat_Cons: "flat (Directive name args block line file # ds) = Word name # map Word args @ flat_block block @ flat ds"
  by (simp add: flat_block_def)

text \<open>Trees up to the places they came from.\<close>

primrec erase :: "directive \<Rightarrow> directive" where
  "erase (Directive n a b l f) = Directive n a (map_option (map erase) b) 0 []"

text \<open>An unquoted token.\<close>

definition bare_tok :: "nat \<Rightarrow> tok \<Rightarrow> token" where
  "bare_tok line t = \<lparr>tk = t, tline = line, tquoted = False\<rparr>"

lemma bare_tok_tk [simp]: "tk (bare_tok l t) = t"
  by (simp add: bare_tok_def)

lemma erase_eq: "erase d = erase d' \<longleftrightarrow>
    dname d = dname d' \<and> dargs d = dargs d' \<and> map_option (map erase) (dblock d) = map_option (map erase) (dblock d')"
  by (cases d; cases d') simp

definition no_include_tok :: "tok list \<Rightarrow> bool" where
  "no_include_tok ts \<longleftrightarrow> Word (bs ''include'') \<notin> set ts"

lemma no_include_append [simp]: "no_include_tok (xs @ ys) \<longleftrightarrow> no_include_tok xs \<and> no_include_tok ys"
  "no_include_tok (x # xs) \<longleftrightarrow> x \<noteq> Word (bs ''include'') \<and> no_include_tok xs" "no_include_tok []"
  by (auto simp: no_include_tok_def)

lemma parse_sound:
  "parse_block n p toplevel ts = Inr (ds, rest) \<Longrightarrow> no_include_tok (map tk ts) \<Longrightarrow>
     (if toplevel then rest = [] \<and> map tk ts = flat ds else map tk ts = flat ds @ TClose # map tk rest)"
  "parse_args n p name line args ts = Inr (d, rest) \<Longrightarrow> no_include_tok (map tk ts) \<Longrightarrow>
     (\<exists>more. dname d = name \<and> dargs d = args @ more \<and> map tk ts = map Word more @ flat_block (dblock d) @ map tk rest)"
proof (induction n p toplevel ts and n p name line args ts arbitrary: ds rest and d rest rule: parse_block_parse_args.induct)
  case (2 n p toplevel ts)
  show ?case
  proof (cases ts)
    case Nil
    with 2 show ?thesis by (auto simp: perr_def split: if_splits)
  next
    case (Cons t ts')
    show ?thesis
    proof (cases "tk t")
      case (Word name)
      with 2(3) Cons obtain d r1 where d: "parse_args n p name (tline t) [] ts' = Inr (d, r1)"
        by (auto split: sum.splits)
      from 2(1) [OF Cons Word d] 2(4) Cons obtain more where m: "dname d = name" "dargs d = more"
        "map tk ts' = map Word more @ flat_block (dblock d) @ map tk r1" by auto
      have ninc: "name \<noteq> bs ''include''" "no_include_tok (map tk r1)" using 2(4) Cons Word m(3) by auto
      with 2(3) Cons Word d m(1) obtain out where o: "parse_block n p toplevel r1 = Inr (out, rest)" "ds = d # out"
        by (auto split: sum.splits)
      from 2(2) [OF Cons Word d refl _ o(1) ninc(2)] ninc(1) m(1) have
        IH: "if toplevel then rest = [] \<and> map tk r1 = flat out else map tk r1 = flat out @ TClose # map tk rest"
        by auto
      obtain l f where "d = Directive name more (dblock d) l f" using m by (cases d) auto
      then have "flat ds = Word name # map Word more @ flat_block (dblock d) @ flat out"
        unfolding o(2) by (metis flat_Cons)
      then show ?thesis using IH m(3) Cons Word by auto
    qed (use 2(3) Cons in \<open>auto simp: perr_def split: if_splits\<close>)
  qed
next
  case (4 n p name line args ts)
  show ?case
  proof (cases ts)
    case Nil
    with 4 show ?thesis by (auto simp: perr_def)
  next
    case (Cons t ts')
    show ?thesis
    proof (cases "tk t")
      case (Word w)
      from 4 Cons Word show ?thesis by (force intro: exI [of _ "w # _"])
    next
      case TOpen
      with 4(3) Cons obtain b where b: "parse_block n p False ts' = Inr (b, rest)" "d = Directive name args (Some b) line (p_file p)"
        by (auto split: sum.splits)
      from 4(2) [OF Cons TOpen b(1)] 4(4) Cons have "map tk ts' = flat b @ TClose # map tk rest" by simp
      then show ?thesis using Cons TOpen b(2) by (simp add: flat_block_def)
    qed (use 4(3) Cons in \<open>auto simp: perr_def flat_block_def\<close>)
  qed
qed auto

text \<open>Conversely, every flattened tree is parsed, with fuel for each of its tokens.\<close>

definition tail_ok :: "bool \<Rightarrow> tok list \<Rightarrow> tok list \<Rightarrow> bool" where
  "tail_ok toplevel tail rest \<longleftrightarrow> (if toplevel then tail = [] \<and> rest = [] else tail = TClose # rest)"

lemma parse_complete:
  "(\<forall>toplevel ts ds tail rs. length ts < n \<longrightarrow> map tk ts = flat ds @ tail \<longrightarrow> tail_ok toplevel tail rs \<longrightarrow> no_include_tok (flat ds) \<longrightarrow>
     (\<exists>ds' rest. parse_block n p toplevel ts = Inr (ds', rest) \<and> map erase ds' = map erase ds \<and> map tk rest = rs)) \<and>
   (\<forall>name line args ts more block tail. length ts < n \<longrightarrow> map tk ts = map Word more @ flat_block block @ tail \<longrightarrow>
     no_include_tok (flat_block block) \<longrightarrow>
     (\<exists>d rest. parse_args n p name line args ts = Inr (d, rest) \<and> dname d = name \<and> dargs d = args @ more \<and>
        map_option (map erase) (dblock d) = map_option (map erase) block \<and> map tk rest = tail))"
proof (induction n)
  case (Suc n)
  note IHb = Suc.IH [THEN conjunct1, rule_format] and IHa = Suc.IH [THEN conjunct2, rule_format]
  show ?case
  proof (intro conjI allI impI, goal_cases)
    case (1 toplevel ts ds tail rs)
    show ?case
    proof (cases ds)
      case Nil
      with 1 show ?thesis by (cases ts) (auto simp: tail_ok_def split: if_splits)
    next
      case (Cons d ds1)
      obtain name args block line fl where d: "d = Directive name args block line fl" by (cases d)
      with 1(2) Cons have "map tk ts = Word name # map Word args @ flat_block block @ flat ds1 @ tail"
        by (simp only: flat_Cons append_Cons append_assoc)
      then obtain t ts' where ts: "ts = t # ts'" "tk t = Word name"
        "map tk ts' = map Word args @ flat_block block @ flat ds1 @ tail" by (cases ts) auto
      have ninc: "name \<noteq> bs ''include''" "no_include_tok (flat_block block)" "no_include_tok (flat ds1)"
        using 1(4) unfolding Cons d flat_Cons by simp_all
      have "length ts' < n" using 1(1) ts(1) by simp
      from IHa [OF this ts(3) ninc(2), of name "tline t" "[]"] obtain d' r1 where
        d': "parse_args n p name (tline t) [] ts' = Inr (d', r1)" "dname d' = name" "dargs d' = args"
          "map_option (map erase) (dblock d') = map_option (map erase) block" "map tk r1 = flat ds1 @ tail" by auto
      have "length (map tk r1) \<le> length (map tk ts')" unfolding d'(5) ts(3) by simp
      then have "length r1 < n" using \<open>length ts' < n\<close> by simp
      from IHb [OF this d'(5) 1(3) ninc(3)] obtain ds' rest where
        ds': "parse_block n p toplevel r1 = Inr (ds', rest)" "map erase ds' = map erase ds1" "map tk rest = rs" by auto
      have "erase d' = erase d" unfolding erase_eq using d'(2-4) by (simp add: d)
      then show ?thesis using ts d' ds' ninc(1) Cons by auto
    qed
  next
    case (2 name line args ts more block tail)
    show ?case
    proof (cases more)
      case (Cons w ws)
      with 2(2) obtain t ts' where ts: "ts = t # ts'" "tk t = Word w" "map tk ts' = map Word ws @ flat_block block @ tail"
        by (cases ts) auto
      from 2(1) ts(1) have "length ts' < n" by simp
      from IHa [OF this ts(3) 2(3), of name line "args @ [w]"] ts Cons show ?thesis by auto
    next
      case Nil
      show ?thesis
      proof (cases block)
        case None
        with 2(2) Nil obtain t ts' where "ts = t # ts'" "tk t = TSemi" "map tk ts' = tail"
          by (cases ts) (auto simp: flat_block_def)
        then show ?thesis using Nil None by simp
      next
        case (Some b)
        with 2(2) Nil obtain t ts' where ts: "ts = t # ts'" "tk t = TOpen" "map tk ts' = flat b @ TClose # tail"
          by (cases ts) (auto simp: flat_block_def)
        have "length ts' < n" using 2(1) ts(1) by simp
        moreover have "no_include_tok (flat b)" using 2(3) Some by (simp add: flat_block_def)
        ultimately obtain b' rest where "parse_block n p False ts' = Inr (b', rest)" "map erase b' = map erase b" "map tk rest = tail"
          using IHb [of ts' b "TClose # tail" False tail] ts(3) by (auto simp: tail_ok_def)
        then show ?thesis using ts Nil Some by simp
      qed
    qed
  qed
qed simp

lemma flat_erase: "map erase ds = map erase ds' \<Longrightarrow> flat ds = flat ds'"
proof (induction ds arbitrary: ds' rule: flat.induct)
  case (2 name args block line fl ds)
  from 2(3) obtain d' ds1 where d': "ds' = d' # ds1" "erase (Directive name args block line fl) = erase d'" "map erase ds = map erase ds1"
    by auto
  obtain name' args' block' line' fl' where e: "d' = Directive name' args' block' line' fl'" by (cases d')
  have f: "flat ds = flat ds1" by (rule 2(2) [OF d'(3)])
  from d'(2) have m: "name = name'" "args = args'" "map_option (map erase) block = map_option (map erase) block'"
    by (simp_all add: e)
  have "flat_block block = flat_block block'"
  proof (cases block)
    case None
    with m(3) show ?thesis by (cases block') simp_all
  next
    case (Some b)
    with m(3) obtain b' where b': "block' = Some b'" "map erase b = map erase b'" by (cases block') simp_all
    have "flat b = flat b'" by (rule 2(1) [OF Some b'(2)])
    then show ?thesis by (simp add: Some b'(1) flat_block_def)
  qed
  then show ?case unfolding d'(1) e flat_Cons m(1,2) f by simp
qed simp

text \<open>Enough fuel: with one unit per token and one more, the parser always decides.\<close>

lemma parse_rest_shorter:
  "parse_block n p toplevel ts = Inr (ds, rest) \<Longrightarrow> length rest \<le> length ts"
  "parse_args n p name line args ts = Inr (d, rest) \<Longrightarrow> length rest < length ts"
proof (induction n p toplevel ts and n p name line args ts arbitrary: ds rest and d rest rule: parse_block_parse_args.induct)
  case (2 n p toplevel ts)
  show ?case
  proof (cases ts)
    case (Cons t ts')
    show ?thesis
    proof (cases "tk t")
      case (Word name)
      with 2(3) Cons obtain d r1 out where d: "parse_args n p name (tline t) [] ts' = Inr (d, r1)" "parse_block n p toplevel r1 = Inr (out, rest)"
        by (auto split: sum.splits)
      have "length r1 < length ts'" by (rule 2(1) [OF Cons Word d(1)])
      moreover have "length rest \<le> length r1"
        using 2(2) [OF Cons Word d(1) refl _ d(2)] 2(3) Cons Word d(1) by (auto split: sum.splits if_splits)
      ultimately show ?thesis using Cons by simp
    qed (use 2(3) Cons in \<open>auto simp: perr_def split: if_splits\<close>)
  qed (use 2(3) in \<open>auto simp: perr_def split: if_splits\<close>)
next
  case (4 n p name line args ts)
  show ?case
  proof (cases ts)
    case (Cons t ts')
    show ?thesis
    proof (cases "tk t")
      case (Word w)
      with 4 Cons show ?thesis by fastforce
    next
      case TOpen
      with 4(3) Cons obtain b where "parse_block n p False ts' = Inr (b, rest)" by (auto split: sum.splits)
      from 4(2) [OF Cons TOpen this] Cons show ?thesis by simp
    qed (use 4(3) Cons in \<open>auto simp: perr_def\<close>)
  qed (use 4(3) in \<open>auto simp: perr_def\<close>)
qed auto

text \<open>The errors that the parser never raises by itself.\<close>

definition no_own_error :: "(parse_error \<Rightarrow> bool) \<Rightarrow> bool" where
  "no_own_error E \<longleftrightarrow> (\<forall>m l f. E (ParseError m l f) \<longrightarrow> m = TooDeep)"

lemma perr_own: "no_own_error E \<Longrightarrow> perr p ts m = Inl e \<Longrightarrow> m \<noteq> TooDeep \<Longrightarrow> \<not> E e"
  by (auto simp: perr_def no_own_error_def)

lemma parse_errors:
  assumes E: "no_own_error E" and inc: "\<And>d e. p_inc p d = Inl e \<Longrightarrow> \<not> E e"
  shows "(\<forall>toplevel ts e. length ts < n \<longrightarrow> parse_block n p toplevel ts = Inl e \<longrightarrow> \<not> E e) \<and>
    (\<forall>name line args ts e. length ts < n \<longrightarrow> parse_args n p name line args ts = Inl e \<longrightarrow> \<not> E e)"
proof (induction n)
  case (Suc n)
  note IHb = Suc.IH [THEN conjunct1, rule_format] and IHa = Suc.IH [THEN conjunct2, rule_format]
  show ?case
  proof (intro conjI allI impI, goal_cases)
    case (1 toplevel ts e)
    show ?case
    proof (cases ts)
      case Nil
      with 1(2) show ?thesis by (auto dest!: perr_own [OF E] split: if_splits)
    next
      case (Cons t ts')
      show ?thesis
      proof (cases "tk t")
        case (Word name)
        have l: "length ts' < n" using 1 Cons by simp
        show ?thesis
        proof (cases "parse_args n p name (tline t) [] ts'")
          case (Inl e')
          with IHa [OF l Inl] 1(2) Cons Word show ?thesis by simp
        next
          case (Inr dr)
          obtain d r1 where dr: "dr = (d, r1)" by (cases dr)
          have "length r1 < n" using parse_rest_shorter(2) [of n p name "tline t" "[]" ts' d r1] Inr dr l by simp
          note b = IHb [OF this, of toplevel]
          show ?thesis using b inc [of d] 1(2) Inr dr Cons Word by (auto split: sum.splits if_splits)
        qed
      qed (use 1(2) Cons in \<open>auto dest!: perr_own [OF E] split: if_splits\<close>)
    qed
  next
    case (2 name line args ts e)
    show ?case
    proof (cases ts)
      case Nil
      with 2(2) show ?thesis by (auto dest!: perr_own [OF E])
    next
      case (Cons t ts')
      then have l: "length ts' < n" using 2 by simp
      show ?thesis using IHb [OF l, of False] IHa [OF l, of name line] 2(2) Cons
        by (cases "tk t") (auto dest!: perr_own [OF E] split: sum.splits)
    qed
  qed
qed simp

text \<open>C31.
  The directive parser is exact: a token list in which no word is \<open>include\<close> is accepted, with a tree equal to
  \<open>ds\<close> up to source positions, if and only if its tokens are the flattening of \<open>ds\<close>.\<close>

theorem config_parse_exact:
  assumes "no_include_tok (map tk ts)"
  shows "(\<exists>ds'. parse_block (Suc (length ts)) p True ts = Inr (ds', []) \<and> map erase ds' = map erase ds) \<longleftrightarrow>
    map tk ts = flat ds"
proof
  assume "\<exists>ds'. parse_block (Suc (length ts)) p True ts = Inr (ds', []) \<and> map erase ds' = map erase ds"
  then obtain ds' where "parse_block (Suc (length ts)) p True ts = Inr (ds', [])" and e: "map erase ds' = map erase ds" by blast
  from parse_sound(1) [OF this(1) assms] have "map tk ts = flat ds'" by simp
  then show "map tk ts = flat ds" using flat_erase [OF e] by simp
next
  assume f: "map tk ts = flat ds"
  from parse_complete [of "Suc (length ts)" p, THEN conjunct1, rule_format, of ts ds "[]" True "[]"] f assms
  show "\<exists>ds'. parse_block (Suc (length ts)) p True ts = Inr (ds', []) \<and> map erase ds' = map erase ds"
    by (auto simp: tail_ok_def)
qed

theorem config_parse_exact_witness:
  "\<exists>ds'. parse_block (Suc (length [bare_tok 1 (Word [0x61]), bare_tok 1 TOpen, bare_tok 2 (Word [0x62]), bare_tok 2 (Word [0x63]), bare_tok 2 TSemi, bare_tok 3 TClose]))
      \<lparr>p_inc = (\<lambda>d. Inr []), p_file = [], p_last = 1\<rparr> True
      [bare_tok 1 (Word [0x61]), bare_tok 1 TOpen, bare_tok 2 (Word [0x62]), bare_tok 2 (Word [0x63]), bare_tok 2 TSemi, bare_tok 3 TClose] = Inr (ds', [])
    \<and> map erase ds' = map erase [Directive [0x61] [] (Some [Directive [0x62] [[0x63]] None 0 []]) 0 []]"
  by (subst config_parse_exact) simp_all

section \<open>Includes come to an end\<close>

lemma map_sum_Inl_iff: "map_sum id f x = Inl e \<longleftrightarrow> x = Inl e"
  by (cases x) auto

lemma at_include_errors: "no_own_error E \<Longrightarrow> E (at_include d e) \<Longrightarrow> E e"
  by (fastforce simp: at_include_def no_own_error_def split: parse_error.splits parse_msg.splits if_splits)

lemma include_all_errors:
  "no_own_error E \<Longrightarrow> (\<And>f e. parse f = Inl e \<Longrightarrow> \<not> E e) \<Longrightarrow> include_all parse d ps = Inl e \<Longrightarrow> \<not> E e"
  by (induction ps) (auto simp: map_sum_Inl_iff dest: at_include_errors split: sum.splits)

lemma expand_include_errors:
  assumes E: "no_own_error E" and parse: "\<And>f e. parse f = Inl e \<Longrightarrow> \<not> E e"
    and e: "expand_include ld f parse d = Inl e"
  shows "\<not> E e"
proof -
  have own: "\<not> E (ParseError m l g)" if "m \<noteq> TooDeep" for m l g using E that by (auto simp: no_own_error_def)
  have ia: "include_all parse d ps = Inl e \<Longrightarrow> \<not> E e" for ps using E parse by (rule include_all_errors)
  consider "\<exists>ps. include_all parse d ps = Inl e" | "\<exists>m l g. m \<noteq> TooDeep \<and> e = ParseError m l g"
    using e by (auto simp: expand_include_def Let_def simp del: include_all.simps split: list.splits option.splits if_splits)
  then show ?thesis using ia own by cases blast+
qed

lemma parse_file_inner_errors:
  assumes E: "no_own_error E" and C: "C = l_canon ld ` dom (l_read ld)"
  shows "(\<forall>f. E (ParseError TooDeep 0 f) \<longrightarrow> finite C \<and> card (C - seen) < budget) \<Longrightarrow>
    parse_file_inner budget ld seen f = Inl e \<Longrightarrow> \<not> E e"
proof (induction budget arbitrary: seen f e)
  case 0
  then show ?case by auto
next
  case (Suc b)
  have own: "\<not> E (ParseError m l g)" if "m \<noteq> TooDeep" for m l g using E that by (auto simp: no_own_error_def)
  let ?seen = "insert (l_canon ld f) seen"
  show ?case
  proof (cases "\<exists>m l g. m \<noteq> TooDeep \<and> e = ParseError m l g")
    case True
    then show ?thesis using own by blast
  next
    case False
    with Suc.prems(2) obtain src ts q where r: "l_canon ld f \<notin> seen" "l_read ld f = Some src" "tokenize src = Inr ts"
      and q: "p_inc q = expand_include ld f (parse_file_inner b ld ?seen)" "parse_block (Suc (length ts)) q True ts = Inl e"
      by (fastforce simp: map_sum_Inl_iff split: if_splits option.splits sum.splits)
    have "l_canon ld f \<in> C - seen" using r(1,2) C by blast
    then have "finite C \<Longrightarrow> card (C - ?seen) < card (C - seen)" by (intro psubset_card_mono) auto
    with Suc.prems(1) have "\<forall>g. E (ParseError TooDeep 0 g) \<longrightarrow> finite C \<and> card (C - ?seen) < b" by fastforce
    note inner = Suc.IH [OF this]
    have "\<not> E e'" if "p_inc q d = Inl e'" for d e'
      using E inner that [unfolded q(1)] by (rule expand_include_errors)
    from parse_errors [OF E this, THEN conjunct1, rule_format, OF _ _ q(2)] show ?thesis by simp
  qed
qed

text \<open>
  Reading a configuration always comes to a verdict: whatever the files hold and include, the parser's fuel, one unit
  per token, is never used up. And when at most 32 canonical files can be read the depth limit is never the
  reason for a refusal: a file that includes itself, directly or through others, is reported as a recursive
  include.\<close>

theorem config_includes_terminate:
  "parse_file ld f \<noteq> Inl OutOfFuel \<and>
   (finite (l_canon ld ` dom (l_read ld)) \<and> card (l_canon ld ` dom (l_read ld)) \<le> MAX_INCLUDE_DEPTH \<longrightarrow>
     parse_file ld f \<noteq> Inl (ParseError TooDeep line g))"
proof (intro conjI impI notI)
  assume "parse_file ld f = Inl OutOfFuel"
  from parse_file_inner_errors [OF _ refl _ this [unfolded parse_file_def], of "\<lambda>e. e = OutOfFuel"]
  show False by (simp add: no_own_error_def)
next
  assume c: "finite (l_canon ld ` dom (l_read ld)) \<and> card (l_canon ld ` dom (l_read ld)) \<le> MAX_INCLUDE_DEPTH"
    and e: "parse_file ld f = Inl (ParseError TooDeep line g)"
  from parse_file_inner_errors [OF _ refl _ e [unfolded parse_file_def], of "\<lambda>e. \<exists>l g. e = ParseError TooDeep l g"] c
  show False by (auto simp: no_own_error_def)
qed

theorem config_includes_terminate_witness:
  "parse_file \<lparr>l_read = [[0x61] \<mapsto> bs ''include a;''], l_canon = id, l_glob = (\<lambda>_. None)\<rparr> [0x61] \<noteq> Inl (ParseError TooDeep 0 [0x61])"
  using config_includes_terminate [of "\<lparr>l_read = [[0x61] \<mapsto> bs ''include a;''], l_canon = id, l_glob = (\<lambda>_. None)\<rparr>" "[0x61]" 0 "[0x61]"]
  by simp

section \<open>The dump reads back\<close>

text \<open>
  Words that the dump writes bare and the lexer reads back: no delimiter, no quote or comment sign in
  front, and no backslash that the lexer would resolve.
\<close>

fun inert :: "bytes \<Rightarrow> bool" where
  "inert [] = True"
| "inert [c] = (c \<noteq> bslash)"
| "inert (c # d # r) = (if c = bslash then d \<notin> {dquote, squote, bslash, 0x74, 0x72, 0x6E} \<and> inert r else inert (d # r))"

definition bare_ok :: "bytes \<Rightarrow> bool" where
  "bare_ok a \<longleftrightarrow> a \<noteq> [] \<and> hd a \<notin> {dquote, squote, hash} \<and> list_all (\<lambda>c. \<not> is_delim c) a \<and> inert a"

definition arg_ok :: "bytes \<Rightarrow> bool" where
  "arg_ok a \<longleftrightarrow> utf8_valid a \<and> (needs_quotes a \<or> bare_ok a)"

fun dumpable :: "directive list \<Rightarrow> bool" where
  "dumpable [] = True"
| "dumpable (Directive name args block line file # ds) =
    (utf8_valid name \<and> bare_ok name \<and> list_all arg_ok args
     \<and> (case block of Some b \<Rightarrow> dumpable b | None \<Rightarrow> True) \<and> dumpable ds)"

lemma unescape_inert: "inert a \<Longrightarrow> unescape_loop a = a"
proof (induction a rule: inert.induct)
  case (3 c d r)
  then show ?case by (cases r) (auto split: if_splits)
qed auto

lemma unescape_loop_plain: "c \<noteq> bslash \<Longrightarrow> unescape_loop (c # s) = c # unescape_loop s"
  by (cases s) auto

lemma unescape_escape: "unescape_loop (escape a) = a"
  by (induction a) (auto simp: escape_def unescape_loop_plain)

lemma unescape_bare: "utf8_valid a \<Longrightarrow> inert a \<Longrightarrow> unescape a = a"
  by (simp add: unescape_def unescape_inert from_utf8_lossy_valid)

lemma unescape_quoted: "utf8_valid a \<Longrightarrow> unescape (escape a) = a"
proof -
  assume a: "utf8_valid a"
  have "bslash \<notin> set (escape a) \<Longrightarrow> unescape_loop (escape a) = escape a" for a
    by (induction a) (auto simp: escape_def unescape_loop_plain)
  with a show ?thesis using unescape_escape [of a] by (auto simp: unescape_def from_utf8_lossy_valid)
qed

lemma quoted_scan_plain: "c \<noteq> bslash \<Longrightarrow> c \<noteq> q \<Longrightarrow>
    quoted_scan q line raw (c # s) = quoted_scan q (if c = newline then line + 1 else line) (raw @ [c]) s"
  by (cases s) auto

lemma quoted_scan_quote: "q \<noteq> bslash \<Longrightarrow> quoted_scan q line raw (q # s) = Inr (raw, line, s)"
  by (cases s) auto

lemma quoted_scan_escape:
  "\<exists>line'. quoted_scan dquote line raw (escape a @ dquote # rest) = Inr (raw @ escape a, line', rest)"
proof (induction a arbitrary: line raw)
  case Nil
  show ?case by (simp add: escape_def quoted_scan_quote)
next
  case (Cons c a)
  have e: "escape (c # a) = (if c = bslash then [bslash, bslash] else if c = dquote then [bslash, dquote] else [c]) @ escape a"
    by (simp add: escape_def)
  show ?case unfolding e using Cons [of _ "raw @ [bslash, c]"] Cons [of _ "raw @ [c]"]
    by (auto simp: quoted_scan_plain)
qed

lemma bare_scan_plain: "c \<noteq> bslash \<Longrightarrow> \<not> is_delim c \<Longrightarrow> bare_scan raw (c # s) = bare_scan (raw @ [c]) s"
  by (cases s) auto

lemma bare_scan_stop: "is_delim c \<Longrightarrow> bare_scan raw (c # s) = (raw, c # s)"
  by (cases s) (auto simp: is_delim_def)

lemma bare_scan_inert:
  "inert a \<Longrightarrow> list_all (\<lambda>c. \<not> is_delim c) a \<Longrightarrow> is_delim d \<Longrightarrow> bare_scan raw (a @ d # rest) = (raw @ a, d # rest)"
  by (induction a arbitrary: raw rule: inert.induct) (auto simp: bare_scan_plain bare_scan_stop split: if_splits)

text \<open>\<open>b\<close> is read as the words \<open>ws\<close>, with \<open>rest\<close> still to be read.\<close>

definition lexes :: "bytes \<Rightarrow> tok list \<Rightarrow> bytes \<Rightarrow> bool" where
  "lexes b ws rest \<longleftrightarrow> (\<forall>line. \<exists>line'. \<forall>ts. lex line' rest = Inr ts \<longrightarrow> (\<exists>ts'. lex line b = Inr ts' \<and> map tk ts' = ws @ map tk ts))"

lemma lexes_trans: "lexes a ws b \<Longrightarrow> lexes b ws' c \<Longrightarrow> lexes a (ws @ ws') c"
  unfolding lexes_def by (metis append_assoc)

lemma lexes_refl: "lexes a [] a"
  by (auto simp: lexes_def)

lemma lexes_space: "lexes (blank # r) [] r" "lexes (newline # r) [] r"
proof -
  have "skip_trivia line (blank # r) = skip_trivia line r" for line by (simp add: skip_trivia.simps [of line "blank # r"])
  then have "lex line (blank # r) = lex line r" for line by (simp add: lex.simps [of line])
  then show "lexes (blank # r) [] r" unfolding lexes_def by auto
  have "skip_trivia line (newline # r) = skip_trivia (line + 1) r" for line by (simp add: skip_trivia.simps [of line "newline # r"])
  then have "lex line (newline # r) = lex (line + 1) r" for line by (simp add: lex.simps [of line "newline # r"] lex.simps [of "Suc line" r])
  then show "lexes (newline # r) [] r" unfolding lexes_def by (metis append_Nil)
qed

lemma lexes_one:
  assumes "\<And>line. \<exists>line' q. lex line b = map_sum id (Cons \<lparr>tk = t, tline = line, tquoted = q\<rparr>) (lex line' rest)"
  shows "lexes b [t] rest"
proof (unfold lexes_def, intro allI)
  fix line
  from assms [of line] obtain line' q where l: "lex line b = map_sum id (Cons \<lparr>tk = t, tline = line, tquoted = q\<rparr>) (lex line' rest)"
    by blast
  show "\<exists>line'. \<forall>ts. lex line' rest = Inr ts \<longrightarrow> (\<exists>ts'. lex line b = Inr ts' \<and> map tk ts' = [t] @ map tk ts)"
    by (rule exI [of _ line']) (simp add: l)
qed

lemma skip_trivia_stop: "c \<notin> {newline, blank, 0x09, 0x0D, hash} \<Longrightarrow> skip_trivia line (c # r) = (line, c # r)"
  by (simp add: skip_trivia.simps)

lemma lexes_sign: "lexes (semi # r) [TSemi] r" "lexes (obrace # r) [TOpen] r" "lexes (cbrace # r) [TClose] r"
  by (rule lexes_one, simp add: lex.simps [of _ "_ # _"] skip_trivia_stop, blast)+

lemma lexes_quoted:
  assumes "utf8_valid a" and "is_delim d"
  shows "lexes (dquote # escape a @ dquote # d # rest) [Word a] (d # rest)"
proof (rule lexes_one)
  fix line
  from quoted_scan_escape [of line "[]" a "d # rest"] obtain line' where
    "quoted_scan dquote line [] (escape a @ dquote # d # rest) = Inr (escape a, line', d # rest)" by auto
  then have q: "quoted_word dquote line (escape a @ dquote # d # rest) = Inr (a, line', d # rest)"
    using assms by (simp add: quoted_word_def unescape_quoted)
  have "lex line (dquote # escape a @ dquote # d # rest) =
      map_sum id (Cons \<lparr>tk = Word a, tline = line, tquoted = True\<rparr>) (lex line' (d # rest))"
    by (simp add: lex.simps [of line "dquote # _"] skip_trivia_stop q)
  then show "\<exists>line' q. lex line (dquote # escape a @ dquote # d # rest) =
      map_sum id (Cons \<lparr>tk = Word a, tline = line, tquoted = q\<rparr>) (lex line' (d # rest))" by blast
qed

lemma lexes_bare:
  assumes "utf8_valid a" and a: "bare_ok a" and d: "is_delim d"
  shows "lexes (a @ d # rest) [Word a] (d # rest)"
proof (rule lexes_one)
  fix line
  obtain c r where c: "a = c # r" using a by (cases a) (auto simp: bare_ok_def)
  have n: "\<not> is_delim c" "c \<notin> {dquote, squote, hash}" using a c by (auto simp: bare_ok_def)
  have "bare_scan [] (a @ d # rest) = (a, d # rest)" using a d bare_scan_inert [of a d "[]" rest] by (simp add: bare_ok_def)
  then have w: "bare_word line (a @ d # rest) = Inr (a, d # rest)"
    using assms by (simp add: bare_word_def unescape_bare bare_ok_def)
  have t: "skip_trivia line (a @ d # rest) = (line, a @ d # rest)"
    unfolding c append_Cons by (rule skip_trivia_stop) (use n in \<open>auto simp: is_delim_def\<close>)
  have "lex line (a @ d # rest) = map_sum id (Cons \<lparr>tk = Word a, tline = line, tquoted = False\<rparr>) (lex line (d # rest))"
    unfolding lex.simps [of line "a @ _"] t using w n unfolding c by (simp add: is_delim_def)
  then show "\<exists>line' q. lex line (a @ d # rest) =
      map_sum id (Cons \<lparr>tk = Word a, tline = line, tquoted = q\<rparr>) (lex line' (d # rest))" by blast
qed

lemma lexes_indent: "lexes (dump_indent n @ r) [] r"
proof (induction n)
  case 0
  show ?case by (simp add: dump_indent_def lexes_refl)
next
  case (Suc n)
  have "dump_indent (Suc n) @ r = blank # blank # blank # blank # dump_indent n @ r" by (simp add: dump_indent_def)
  moreover have "lexes (blank # blank # blank # blank # s) [] s" for s
    using lexes_trans [OF lexes_space(1) lexes_trans [OF lexes_space(1) lexes_trans [OF lexes_space(1) lexes_space(1)]]] by simp
  ultimately show ?case using lexes_trans [OF _ Suc] by fastforce
qed

lemma lexes_args:
  assumes "list_all arg_ok args" and "is_delim d"
  shows "lexes (concat (map dump_arg args) @ d # rest) (map Word args) (d # rest)"
  using assms(1)
proof (induction args)
  case Nil
  show ?case by (simp add: lexes_refl)
next
  case (Cons a args)
  obtain e s where es: "concat (map dump_arg args) @ d # rest = e # s" "is_delim e"
    using assms(2) by (cases args) (auto simp: dump_arg_def is_delim_def)
  have "lexes (dump_arg a @ e # s) [Word a] (e # s)"
  proof (cases "needs_quotes a")
    case True
    with lexes_trans [OF lexes_space(1) lexes_quoted [OF _ es(2)], of a] Cons(2) show ?thesis
      by (simp add: dump_arg_def arg_ok_def)
  next
    case False
    with lexes_trans [OF lexes_space(1) lexes_bare [OF _ _ es(2)], of a] Cons(2) show ?thesis
      by (simp add: dump_arg_def arg_ok_def)
  qed
  then show ?case using lexes_trans [OF _ Cons(1)] Cons(2) unfolding es(1) [symmetric] by fastforce
qed

lemma lexes_dump: "dumpable ds \<Longrightarrow> lexes (dump n ds @ rest) (flat ds) rest"
proof (induction n ds arbitrary: rest rule: dump.induct)
  case (1 n)
  show ?case by (simp add: lexes_refl)
next
  case (2 n name args block line fl ds)
  note ok = 2(3) [unfolded dumpable.simps]
  let ?more = "dump n ds @ rest"
  have more: "lexes ?more (flat ds) rest" using 2(2) ok by blast
  obtain d s where ds: "(case block of
         Some b \<Rightarrow> bs '' {'' @ [newline] @ dump (n + 1) b @ dump_indent n @ bs ''}'' @ [newline]
       | None \<Rightarrow> bs '';'' @ [newline]) @ ?more = d # s" "is_delim d" and tail: "lexes (d # s) (flat_block block) ?more"
  proof (cases block)
    case None
    with lexes_trans [OF lexes_sign(1) lexes_space(2), of ?more] show ?thesis
      by (intro that [of semi "newline # ?more"]) (simp_all add: is_delim_def flat_block_def)
  next
    case (Some b)
    have "lexes (dump (n + 1) b @ dump_indent n @ cbrace # newline # ?more) (flat b) (dump_indent n @ cbrace # newline # ?more)"
      using 2(1) [OF Some] ok Some by simp
    note l = lexes_trans [OF lexes_space(1) lexes_trans [OF lexes_sign(2) lexes_trans [OF lexes_space(2) lexes_trans [OF this
      lexes_trans [OF lexes_indent lexes_trans [OF lexes_sign(3) lexes_space(2)]]]]]]
    show ?thesis
      by (rule that [of blank "obrace # newline # dump (n + 1) b @ dump_indent n @ cbrace # newline # ?more"])
        (use l Some in \<open>simp_all add: is_delim_def flat_block_def\<close>)
  qed
  obtain e t where et: "concat (map dump_arg args) @ d # s = e # t" "is_delim e"
    using ds(2) by (cases args) (auto simp: dump_arg_def is_delim_def)
  have "lexes (concat (map dump_arg args) @ d # s) (map Word args) (d # s)"
    using ok ds(2) by (blast intro: lexes_args)
  moreover have "lexes (name @ e # t) [Word name] (e # t)" using ok et(2) by (blast intro: lexes_bare)
  ultimately have "lexes (dump_indent n @ name @ concat (map dump_arg args) @ d # s)
      ([] @ [Word name] @ map Word args @ flat_block block @ flat ds) rest"
    unfolding et(1) using lexes_trans lexes_indent tail more by metis
  then show ?case unfolding flat_Cons by (simp add: ds(1) [symmetric])
qed

text \<open>C30.
  What \<^verbatim>\<open>oxiserve -T\<close> prints reads back: for a tree whose names and arguments the dump can write (arguments it
  quotes may be any text; bare words start with no quote or comment sign and hold no backslash escape the lexer resolves),
  the dump at any indentation lexes to the tokens of the tree, and parses to the same tree up to source
  positions.\<close>

theorem config_dump_roundtrip:
  assumes "dumpable ds" and "no_include_tok (flat ds)"
  shows "\<exists>ts ds'. tokenize (dump n ds) = Inr ts \<and> map tk ts = flat ds \<and>
    parse_block (Suc (length ts)) p True ts = Inr (ds', []) \<and> map erase ds' = map erase ds"
proof -
  have "lex line [] = Inr []" for line by (simp add: lex.simps skip_trivia.simps)
  with lexes_dump [OF assms(1), of n "[]"] obtain ts where ts: "tokenize (dump n ds) = Inr ts" "map tk ts = flat ds"
    unfolding lexes_def tokenize_def by force
  with parse_complete [of "Suc (length ts)" p, THEN conjunct1, rule_format, of ts ds "[]" True "[]"] assms(2)
  show ?thesis by (auto simp: tail_ok_def)
qed

theorem config_dump_roundtrip_witness:
  "\<exists>ts ds'. tokenize (dump 0 [Directive (bs ''log'') [[], bs ''a;b'', bs ''c''] None 7 []]) = Inr ts \<and>
    map tk ts = flat [Directive (bs ''log'') [[], bs ''a;b'', bs ''c''] None 7 []] \<and>
    parse_block (Suc (length ts)) \<lparr>p_inc = (\<lambda>d. Inr []), p_file = [], p_last = 1\<rparr> True ts = Inr (ds', []) \<and>
    map erase ds' = map erase [Directive (bs ''log'') [[], bs ''a;b'', bs ''c''] None 7 []]"
  by (rule config_dump_roundtrip)
    (simp_all add: bare_ok_def arg_ok_def needs_quotes_def is_delim_def utf8_valid_Cons_ascii)

text \<open>
  Outside those words the dump does not read back: an argument that starts with a comment sign is printed
  bare, and the rest of its line, with the \<^verbatim>\<open>;\<close>, is lost. The argument itself is legal (\<^verbatim>\<open>"#b"\<close>).
\<close>

lemma dump_loses_comment_sign:
  "map_sum id (map tk) (tokenize (bs ''a '' @ [dquote] @ bs ''#b'' @ [dquote] @ bs '';'')) = Inr (flat [Directive (bs ''a'') [bs ''#b''] None 1 []])"
  "map_sum id (map tk) (tokenize (dump 0 [Directive (bs ''a'') [bs ''#b''] None 1 []])) = Inr [Word (bs ''a'')]"
  by code_simp+

end
