(* ===== verification/Http1_Body.thy ===== *)
theory Http1_Body
  imports Request
begin

text \<open>
  Reading a request body from an HTTP/1 connection (\<^verbatim>\<open>server/conn.rs\<close>: \<^verbatim>\<open>read_body\<close>, \<^verbatim>\<open>read_exact_body\<close>,
  \<^verbatim>\<open>read_chunked_body\<close>, \<^verbatim>\<open>fill\<close>, \<^verbatim>\<open>find_crlf\<close>, \<^verbatim>\<open>parse_hex\<close>). A socket is the list of what its reads
  return, one entry per read; after the list the peer has closed. The arithmetic on sizes is that of 64-bit
  words in a release build, and a slice out of range is the outcome \<open>Panic\<close>. The loops terminate because
  each turn takes a read off the socket or moves on in the buffer.
\<close>

section \<open>The socket\<close>

datatype sock_event = Data bytes | IoFailed | TimedOut

type_synonym sock = "sock_event list"

datatype body_error = Status nat | Panic

text \<open>\<^verbatim>\<open>fill\<close> appends what one read returns; zero bytes are the end of the connection.\<close>

fun fill :: "sock \<Rightarrow> bytes \<Rightarrow> body_error + (sock \<times> bytes)" where
  "fill [] b = Inl (Status 400)"
| "fill (Data d # s) b = (if d = [] then Inl (Status 400) else Inr (s, b @ d))"
| "fill (IoFailed # s) b = Inl (Status 400)"
| "fill (TimedOut # s) b = Inl (Status 408)"

lemma fill_length [termination_simp]: "fill s b = Inr (s', b') \<Longrightarrow> length s' < length s"
  by (cases "(s, b)" rule: fill.cases) (auto split: if_splits)

section \<open>Lines and chunk sizes\<close>

function find_crlf_from :: "bytes \<Rightarrow> nat \<Rightarrow> nat option" where
  "find_crlf_from b i =
    (if i + 1 < length b then
       (case position (\<lambda>c. c = 0x0D) (drop i b) of
          Some off \<Rightarrow>
            (let p = i + off
             in if p + 1 < length b then (if b ! (p + 1) = 0x0A then Some p else find_crlf_from b (p + 1)) else None)
        | None \<Rightarrow> None)
     else None)"
  by pat_completeness auto
termination
  by (relation "measure (\<lambda>(b, i). length b - i)") auto

declare find_crlf_from.simps [simp del]

definition find_crlf :: "bytes \<Rightarrow> nat option" where
  "find_crlf b = find_crlf_from b 0"

definition hex_val :: "u8 \<Rightarrow> nat option" where
  "hex_val c =
    (if 0x30 \<le> c \<and> c \<le> 0x39 then Some (unat (c - 0x30))
     else if 0x61 \<le> c \<and> c \<le> 0x66 then Some (unat (c - 0x61) + 10)
     else if 0x41 \<le> c \<and> c \<le> 0x46 then Some (unat (c - 0x41) + 10) else None)"

fun parse_hex_loop :: "nat \<Rightarrow> bytes \<Rightarrow> nat option" where
  "parse_hex_loop n [] = Some n"
| "parse_hex_loop n (c # cs) =
    (case hex_val c of
       Some d \<Rightarrow> if 2 ^ 64 \<le> n * 16 \<or> 2 ^ 64 \<le> n * 16 + d then None else parse_hex_loop (n * 16 + d) cs
     | None \<Rightarrow> if c = 0x20 \<or> c = 0x09 then parse_hex_loop n cs else None)"

definition parse_hex :: "bytes \<Rightarrow> nat option" where
  "parse_hex b = (if b = [] \<or> 16 < length b then None else parse_hex_loop 0 b)"

section \<open>Reading loops\<close>

text \<open>Reads until a line end is in the buffer after \<open>pos\<close>; only the chunk-size line has a limit.\<close>

function need_line :: "bool \<Rightarrow> sock \<Rightarrow> bytes \<Rightarrow> nat \<Rightarrow> body_error + (sock \<times> bytes \<times> nat)" where
  "need_line capped s b pos =
    (case find_crlf (drop pos b) of
       Some i \<Rightarrow> Inr (s, b, pos + i)
     | None \<Rightarrow>
        if capped \<and> 1024 < length b - pos then Inl (Status 400)
        else (case fill s b of
                Inl e \<Rightarrow> Inl e
              | Inr (s, b) \<Rightarrow> need_line capped s b pos))"
  by pat_completeness auto
termination
  by (relation "measure (\<lambda>(_, s, _). length s)") (auto dest: fill_length sym)

declare need_line.simps [simp del]

function need_bytes :: "nat \<Rightarrow> sock \<Rightarrow> bytes \<Rightarrow> nat \<Rightarrow> body_error + (sock \<times> bytes)" where
  "need_bytes need s b pos =
    (if length b - pos < need then
       (case fill s b of
          Inl e \<Rightarrow> Inl e
        | Inr (s, b) \<Rightarrow> need_bytes need s b pos)
     else Inr (s, b))"
  by pat_completeness auto
termination
  by (relation "measure (\<lambda>(_, s, _). length s)") (auto dest: fill_length sym)

declare need_bytes.simps [simp del]

lemma find_crlf_from_bound: "find_crlf_from b i = Some p \<Longrightarrow> i \<le> p \<and> p + 1 < length b"
proof (induction b i rule: find_crlf_from.induct)
  case (1 b i)
  from 1(2) obtain off where off: "i + 1 < length b" "position (\<lambda>c. c = 0x0D) (drop i b) = Some off" "i + off + 1 < length b"
    by (subst (asm) find_crlf_from.simps) (auto simp: Let_def split: if_splits option.splits)
  show ?case
  proof (cases "b ! (i + off + 1) = 0x0A")
    case True
    with 1(2) off show ?thesis by (subst (asm) find_crlf_from.simps) (auto simp: Let_def)
  next
    case False
    have "find_crlf_from b (i + off + 1) = Some p"
      using 1(2) off False by (subst (asm) find_crlf_from.simps) (simp add: Let_def)
    from 1(1) [OF off(1,2) refl _ False this] off show ?thesis by auto
  qed
qed

lemma find_crlf_bound: "find_crlf b = Some p \<Longrightarrow> p + 1 < length b"
  using find_crlf_from_bound [of b 0 p] by (simp add: find_crlf_def)

lemma need_line_bounds:
  "need_line capped s b pos = Inr (s', b', e) \<Longrightarrow> (s' = s \<and> b' = b \<or> length s' < length s) \<and> pos \<le> e \<and> e + 2 \<le> length b'"
proof (induction capped s b pos rule: need_line.induct)
  case (1 capped s b pos)
  show ?case
  proof (cases "find_crlf (drop pos b)")
    case (Some i)
    with find_crlf_bound [OF Some] 1(2) show ?thesis by (subst (asm) need_line.simps) auto
  next
    case None
    with 1(2) obtain s1 b1 where f: "\<not> (capped \<and> 1024 < length b - pos)" "fill s b = Inr (s1, b1)" "need_line capped s1 b1 pos = Inr (s', b', e)"
      by (subst (asm) need_line.simps) (auto split: if_splits sum.splits)
    from 1(1) [OF None f(1,2) refl f(3)] fill_length [OF f(2)] show ?thesis by auto
  qed
qed

lemma need_bytes_bounds:
  "need_bytes need s b pos = Inr (s', b') \<Longrightarrow> (s' = s \<and> b' = b \<or> length s' < length s) \<and> need \<le> length b' - pos"
proof (induction need s b pos rule: need_bytes.induct)
  case (1 need s b pos)
  show ?case
  proof (cases "length b - pos < need")
    case True
    with 1(2) obtain s1 b1 where f: "fill s b = Inr (s1, b1)" "need_bytes need s1 b1 pos = Inr (s', b')"
      by (subst (asm) need_bytes.simps) (auto split: sum.splits)
    from 1(1) [OF True f(1) refl f(2)] fill_length [OF f(1)] show ?thesis by auto
  next
    case False
    with 1(2) show ?thesis by (subst (asm) need_bytes.simps) auto
  qed
qed

text \<open>Trailer lines up to the empty one.\<close>

function trailers :: "sock \<Rightarrow> bytes \<Rightarrow> nat \<Rightarrow> body_error + (sock \<times> bytes \<times> nat)" where
  "trailers s b pos =
    (case need_line False s b pos of
       Inl e \<Rightarrow> Inl e
     | Inr (s, b, e) \<Rightarrow> if e = pos then Inr (s, b, e + 2) else trailers s b (e + 2))"
  by pat_completeness auto
termination
proof (relation "(\<lambda>(s, b, pos). length s) <*mlex*> measure (\<lambda>(s, b, pos). length b - pos)", goal_cases)
  case 1
  show ?case by (simp add: wf_mlex)
next
  case (2 s b pos z s' r b' e)
  then have "need_line False s b pos = Inr (s', b', e)" by simp
  from need_line_bounds [OF this] show ?case by (auto simp: mlex_prod_def)
qed

declare trailers.simps [simp del]

text \<open>\<^verbatim>\<open>&b[i..j]\<close>: \<open>None\<close> is the panic of an index out of range.\<close>

definition slice_range :: "bytes \<Rightarrow> nat \<Rightarrow> nat \<Rightarrow> bytes option" where
  "slice_range b i j = (if i \<le> j \<and> j \<le> length b then Some (take (j - i) (drop i b)) else None)"

text \<open>The size line without its extension.\<close>

definition size_text :: "bytes \<Rightarrow> bytes" where
  "size_text line = (case position (\<lambda>c. c = 0x3B) line of Some i \<Rightarrow> take i line | None \<Rightarrow> line)"

text \<open>One chunk after its size line: the data is taken and the line end after it checked.\<close>

definition chunk_data :: "nat \<Rightarrow> nat \<Rightarrow> sock \<Rightarrow> bytes \<Rightarrow> bytes \<Rightarrow> nat \<Rightarrow> body_error + (sock \<times> bytes \<times> bytes \<times> nat)" where
  "chunk_data mx sz s b body pos =
    (if mx < (length body + sz) mod 2 ^ 64 then Inl (Status 413)
     else (case need_bytes ((sz + 2) mod 2 ^ 64) s b pos of
             Inl e \<Rightarrow> Inl e
           | Inr (s, b) \<Rightarrow>
              (let e = (pos + sz) mod 2 ^ 64
               in case slice_range b pos e of
                    None \<Rightarrow> Inl Panic
                  | Some d \<Rightarrow>
                     (case slice_range b e (e + 2) of
                        None \<Rightarrow> Inl Panic
                      | Some nl \<Rightarrow> if nl \<noteq> [0x0D, 0x0A] then Inl (Status 400) else Inr (s, b, body @ d, e + 2)))))"

lemma chunk_data_bounds:
  assumes "chunk_data mx sz s b body pos = Inr (s', b', body', pos')"
  shows "(s' = s \<and> b' = b \<or> length s' < length s) \<and> pos < pos' \<and> pos' \<le> length b'"
proof -
  from assms obtain e where "need_bytes ((sz + 2) mod 2 ^ 64) s b pos = Inr (s', b')" "pos \<le> e" "e + 2 \<le> length b'" "pos' = e + 2"
    by (auto simp: chunk_data_def Let_def slice_range_def split: if_splits sum.splits)
  with need_bytes_bounds [OF this(1)] show ?thesis by auto
qed

function read_chunked_body :: "nat \<Rightarrow> sock \<Rightarrow> bytes \<Rightarrow> bytes \<Rightarrow> nat \<Rightarrow> body_error + (sock \<times> bytes \<times> bytes \<times> nat)" where
  "read_chunked_body mx s b body pos =
    (case need_line True s b pos of
       Inl e \<Rightarrow> Inl e
     | Inr (s, b, line_end) \<Rightarrow>
        (case parse_hex (size_text (take (line_end - pos) (drop pos b))) of
           None \<Rightarrow> Inl (Status 400)
         | Some sz \<Rightarrow>
            if sz = 0 then map_sum id (\<lambda>(s, b, pos). (s, b, body, pos)) (trailers s b (line_end + 2))
            else (case chunk_data mx sz s b body (line_end + 2) of
                    Inl e \<Rightarrow> Inl e
                  | Inr (s, b, body, pos) \<Rightarrow> read_chunked_body mx s b body pos)))"
  by pat_completeness auto
termination
proof (relation "(\<lambda>(mx, s, b, body, pos). length s) <*mlex*> measure (\<lambda>(mx, s, b, body, pos). length b - pos)", goal_cases)
  case 1
  show ?case by (simp add: wf_mlex)
next
  case (2 mx s b body pos z s1 r b1 line_end sz z' s2 r' b2 r'' body2 pos2)
  then have "need_line True s b pos = Inr (s1, b1, line_end)" "chunk_data mx sz s1 b1 body (line_end + 2) = Inr (s2, b2, body2, pos2)"
    by simp_all
  with need_line_bounds [OF this(1)] chunk_data_bounds [OF this(2)] show ?case by (auto simp: mlex_prod_def)
qed

declare read_chunked_body.simps [simp del]

text \<open>A read into a window of \<open>k\<close> bytes leaves the rest of the data on the socket.\<close>

fun read_exact :: "nat \<Rightarrow> sock \<Rightarrow> bytes \<Rightarrow> body_error + (sock \<times> bytes)" where
  "read_exact n [] body = (if n \<le> length body then Inr ([], body) else Inl (Status 400))"
| "read_exact n (ev # s) body =
    (if n \<le> length body then Inr (ev # s, body)
     else (case ev of
             IoFailed \<Rightarrow> Inl (Status 400)
           | TimedOut \<Rightarrow> Inl (Status 408)
           | Data d \<Rightarrow>
              if d = [] then Inl (Status 400)
              else (let k = n - length body
                    in if length d \<le> k then read_exact n s (body @ d)
                       else Inr (Data (drop k d) # s, body @ take k d))))"

definition read_exact_body :: "nat \<Rightarrow> sock \<Rightarrow> bytes \<Rightarrow> bytes \<Rightarrow> nat \<Rightarrow> body_error + (sock \<times> bytes \<times> bytes \<times> nat)" where
  "read_exact_body n s b body pos =
    (let have = min (length b - pos) n
     in map_sum id (\<lambda>(s, body). (s, b, body, pos + have)) (read_exact n s (body @ take have (drop pos b))))"

text \<open>What \<^verbatim>\<open>read_body\<close> does, and the interim response it sends.\<close>

definition CONTINUE :: bytes where
  "CONTINUE = bs ''HTTP/1.1 100 Continue'' @ [0x0D, 0x0A, 0x0D, 0x0A]"

definition read_body :: "nat \<Rightarrow> req \<Rightarrow> sock \<Rightarrow> bytes \<Rightarrow> bytes \<times> (body_error + (sock \<times> bytes \<times> bytes \<times> nat))" where
  "read_body mx r s b =
    (let pos = req_head_len r; interim = (if expects_continue r b then CONTINUE else [])
     in case rbody r of
          NoBody \<Rightarrow> ([], Inr (s, b, [], pos))
        | Length n \<Rightarrow> if mx < n then ([], Inl (Status 413)) else (interim, read_exact_body n s b [] pos)
        | Chunked \<Rightarrow> (interim, read_chunked_body mx s b [] pos))"

section \<open>Line ends do not depend on how the bytes arrive\<close>

abbreviation line_end :: bytes where "line_end \<equiv> [0x0D, 0x0A]"

fun first_crlf :: "bytes \<Rightarrow> nat option" where
  "first_crlf (c # d # r) = (if c = 0x0D \<and> d = 0x0A then Some 0 else map_option Suc (first_crlf (d # r)))"
| "first_crlf _ = None"

lemma first_crlf_skip: "c \<noteq> 0x0D \<Longrightarrow> first_crlf (c # r) = map_option Suc (first_crlf r)"
  by (cases r) auto

lemma map_plus [simp]:
  "map_option ((+) (0 :: nat)) x = x" "map_option ((+) (Suc n)) x = map_option (\<lambda>k. Suc (n + k)) x"
  by (cases x; simp)+

lemma first_crlf_position:
  "first_crlf s = (case position (\<lambda>c. c = 0x0D) s of None \<Rightarrow> None | Some off \<Rightarrow> map_option ((+) off) (first_crlf (drop off s)))"
  by (induction s) (auto simp: first_crlf_skip option.map_comp o_def option.map_ident split: option.split)

lemma find_crlf_from_first: "find_crlf_from b i = map_option ((+) i) (first_crlf (drop i b))"
proof (induction b i rule: find_crlf_from.induct)
  case (1 b i)
  show ?case
  proof (cases "position (\<lambda>c. c = 0x0D) (drop i b)")
    case None
    then show ?thesis by (subst find_crlf_from.simps) (simp add: first_crlf_position [of "drop i b"])
  next
    case (Some off)
    with position_Some [OF this] have p: "i + off < length b" "b ! (i + off) = 0x0D" by auto
    have f: "first_crlf (drop i b) = map_option ((+) off) (first_crlf (drop (i + off) b))"
      using first_crlf_position [of "drop i b"] Some by (simp add: add.commute)
    show ?thesis
    proof (cases "i + off + 1 < length b")
      case True
      have d: "drop (i + off) b = 0x0D # b ! (i + off + 1) # drop (i + off + 2) b"
        "drop (i + off + 1) b = b ! (i + off + 1) # drop (i + off + 2) b"
        using True p by (simp_all add: Cons_nth_drop_Suc [symmetric])
      show ?thesis
      proof (cases "b ! (i + off + 1) = 0x0A")
        case True': True
        then show ?thesis using True Some f d(1) by (subst find_crlf_from.simps) (simp add: Let_def)
      next
        case False
        from 1 [OF _ Some refl _ False] True have
          "find_crlf_from b (i + off + 1) = map_option ((+) (i + off + 1)) (first_crlf (drop (i + off + 1) b))" by simp
        then show ?thesis using True Some f d False
          by (subst find_crlf_from.simps) (simp add: Let_def option.map_comp o_def add.assoc)
      qed
    next
      case False
      then have "drop (i + off) b = [0x0D]" using p by (simp add: Cons_nth_drop_Suc [symmetric])
      then show ?thesis using False Some f by (subst find_crlf_from.simps) simp
    qed
  qed
qed

lemma find_crlf_first: "find_crlf b = first_crlf b"
  by (simp add: find_crlf_def find_crlf_from_first option.map_ident)

lemma first_crlf_append: "first_crlf xs = Some i \<Longrightarrow> first_crlf (xs @ ys) = Some i"
  by (induction xs arbitrary: i rule: first_crlf.induct) (auto split: if_splits)

lemma first_crlf_prefix: "first_crlf (xs @ ys) = Some i \<Longrightarrow> i + 2 \<le> length xs \<Longrightarrow> first_crlf xs = Some i"
proof (induction xs arbitrary: i rule: first_crlf.induct)
  case (1 c d r)
  then show ?case by (auto split: if_splits)
qed auto

lemma first_crlf_bound: "first_crlf xs = Some i \<Longrightarrow> i + 2 \<le> length xs"
  using find_crlf_bound [of xs i] by (simp add: find_crlf_first)

definition clean_line :: "bytes \<Rightarrow> bool" where
  "clean_line l \<longleftrightarrow> first_crlf (l @ line_end) = Some (length l)"

lemma clean_line_first: "clean_line l \<Longrightarrow> first_crlf (l @ 0x0D # 0x0A # rest) = Some (length l)"
  using first_crlf_append [of "l @ line_end" "length l" rest] by (simp add: clean_line_def)

text \<open>The bytes a socket has left, and a socket whose reads all bring bytes.\<close>

fun incoming :: "sock \<Rightarrow> bytes" where
  "incoming (Data d # s) = d @ incoming s"
| "incoming _ = []"

fun live :: "sock \<Rightarrow> bool" where
  "live [] = True"
| "live (Data d # s) = (d \<noteq> [] \<and> live s)"
| "live _ = False"

lemma fill_live:
  assumes "live s" "incoming s \<noteq> []"
  obtains s' d where "fill s b = Inr (s', b @ d)" "live s'" "incoming s = d @ incoming s'"
  using assms by (cases s rule: live.cases) auto

lemma need_line_ok:
  assumes "live s" "pos \<le> length b" "first_crlf (drop pos (b @ incoming s)) = Some i" "capped \<longrightarrow> i < 1024"
  shows "\<exists>s' d. need_line capped s b pos = Inr (s', b @ d, pos + i) \<and> live s' \<and> incoming s = d @ incoming s' \<and> pos + i + 2 \<le> length (b @ d)"
  using assms
proof (induction s arbitrary: b rule: live.induct)
  case 1
  then show ?case using first_crlf_bound [of "drop pos b" i] by (subst need_line.simps) (simp add: find_crlf_first)
next
  case (2 d s)
  show ?case
  proof (cases "i + 2 \<le> length (drop pos b)")
    case True
    with 2(4) first_crlf_prefix [of "drop pos b" "incoming (Data d # s)" i] 2(3) have "first_crlf (drop pos b) = Some i" by simp
    then show ?thesis using 2 True by (subst need_line.simps) (auto simp: find_crlf_first)
  next
    case False
    then have "find_crlf (drop pos b) = None"
      using first_crlf_append [of "drop pos b" _ "incoming (Data d # s)"] first_crlf_bound [of "drop pos b"] 2(3,4)
      by (cases "first_crlf (drop pos b)") (auto simp: find_crlf_first)
    moreover have "\<not> (capped \<and> 1024 < length b - pos)" using False 2(5) by auto
    ultimately have "need_line capped (Data d # s) b pos = need_line capped s (b @ d) pos"
      using 2(2) by (subst need_line.simps) auto
    with 2(1) [of "b @ d"] 2(2-5) show ?thesis by fastforce
  qed
qed auto

lemma need_bytes_ok:
  assumes "live s" "need + pos \<le> length (b @ incoming s)" "pos \<le> length b"
  shows "\<exists>s' d. need_bytes need s b pos = Inr (s', b @ d) \<and> live s' \<and> incoming s = d @ incoming s' \<and> need + pos \<le> length (b @ d)"
  using assms
proof (induction s arbitrary: b rule: live.induct)
  case 1
  then show ?case by (subst need_bytes.simps) auto
next
  case (2 d s)
  show ?case
  proof (cases "length b - pos < need")
    case True
    then have "need_bytes need (Data d # s) b pos = need_bytes need s (b @ d) pos"
      using 2(2) by (subst need_bytes.simps) auto
    with 2(1) [of "b @ d"] 2(2-4) show ?thesis by fastforce
  next
    case False
    then show ?thesis using 2 by (subst need_bytes.simps) auto
  qed
qed auto

section \<open>Bodies on the wire\<close>

text \<open>
  A chunk is its size line, with any extension, and its data; a chunked body ends with a size line of
  value zero, trailer lines and an empty line.
\<close>

definition size_line :: "bytes \<Rightarrow> nat \<Rightarrow> bool" where
  "size_line l n \<longleftrightarrow> clean_line l \<and> length l < 1024 \<and> parse_hex (size_text l) = Some n"

definition chunk_ok :: "bytes \<times> bytes \<Rightarrow> bool" where
  "chunk_ok c \<longleftrightarrow> snd c \<noteq> [] \<and> size_line (fst c) (length (snd c))"

definition enc_chunk :: "bytes \<times> bytes \<Rightarrow> bytes" where
  "enc_chunk c = fst c @ line_end @ snd c @ line_end"

definition trailer_ok :: "bytes \<Rightarrow> bool" where
  "trailer_ok t \<longleftrightarrow> t \<noteq> [] \<and> clean_line t"

definition enc_trailers :: "bytes list \<Rightarrow> bytes" where
  "enc_trailers trs = concat (map (\<lambda>t. t @ line_end) trs) @ line_end"

definition enc_chunked :: "(bytes \<times> bytes) list \<Rightarrow> bytes \<Rightarrow> bytes list \<Rightarrow> bytes" where
  "enc_chunked cs l trs = concat (map enc_chunk cs) @ l @ line_end @ enc_trailers trs"

lemma drop_at: "xs = pre @ ys \<Longrightarrow> length pre = n \<Longrightarrow> drop n xs = ys"
  by auto

lemma split_read:
  assumes "b @ u = pre @ w" "u = d @ u'"
  shows "(b @ d) @ u' = pre @ w"
  using assms by simp

lemma trailers_ok:
  assumes "list_all trailer_ok trs" "live s" "b @ incoming s = pre @ enc_trailers trs @ rest" "length pre = pos" "pos \<le> length b"
  shows "\<exists>s' d. trailers s b pos = Inr (s', b @ d, pos + length (enc_trailers trs)) \<and> live s' \<and> incoming s = d @ incoming s' \<and>
    pos + length (enc_trailers trs) \<le> length (b @ d)"
  using assms
proof (induction trs arbitrary: s b pre pos)
  case Nil
  then have "first_crlf (drop pos (b @ incoming s)) = Some 0" by (simp add: enc_trailers_def)
  from need_line_ok [OF Nil(2) Nil(5) this, of False] show ?case
    by (subst trailers.simps) (auto simp: enc_trailers_def)
next
  case (Cons t trs)
  have e: "enc_trailers (t # trs) = t @ line_end @ enc_trailers trs" by (simp add: enc_trailers_def)
  have w: "b @ incoming s = (pre @ t @ line_end) @ enc_trailers trs @ rest" using Cons(4) by (simp add: e)
  have "clean_line t" "t \<noteq> []" using Cons(2) by (auto simp: trailer_ok_def)
  then have "first_crlf (drop pos (b @ incoming s)) = Some (length t)" using Cons(5) clean_line_first w by simp
  from need_line_ok [OF Cons(3) Cons(6) this, of False] obtain s1 d where
    n: "need_line False s b pos = Inr (s1, b @ d, pos + length t)" "live s1" "incoming s = d @ incoming s1" "pos + length t + 2 \<le> length (b @ d)"
    by auto
  have "\<exists>s' d'. trailers s1 (b @ d) (pos + length t + 2) = Inr (s', (b @ d) @ d', pos + length t + 2 + length (enc_trailers trs)) \<and>
      live s' \<and> incoming s1 = d' @ incoming s' \<and> pos + length t + 2 + length (enc_trailers trs) \<le> length ((b @ d) @ d')"
    by (rule Cons(1) [OF _ n(2) split_read [OF w n(3)]]) (use Cons(2,5) n(4) in auto)
  then obtain s' d' where "trailers s1 (b @ d) (pos + length t + 2) = Inr (s', (b @ d) @ d', pos + length t + 2 + length (enc_trailers trs))"
    "live s'" "incoming s1 = d' @ incoming s'" "pos + length t + 2 + length (enc_trailers trs) \<le> length ((b @ d) @ d')" by blast
  then show ?case using n(1,3) \<open>t \<noteq> []\<close>
    by (intro exI [of _ s'] exI [of _ "d @ d'"]) (subst trailers.simps, simp add: e)
qed

lemma slice_range_at: "xs = pre @ ys @ zs \<Longrightarrow> length pre = i \<Longrightarrow> j = i + length ys \<Longrightarrow> slice_range xs i j = Some ys"
  by (simp add: slice_range_def)

lemma chunk_data_ok:
  assumes "live s" "b @ incoming s = pre @ data @ line_end @ rest" "length pre = pos" "pos \<le> length b"
    and bound: "length body + length data \<le> mx" "mx < 2 ^ 64" "length (b @ incoming s) < 2 ^ 64"
  shows "\<exists>s' d. chunk_data mx (length data) s b body pos = Inr (s', b @ d, body @ data, pos + length data + 2) \<and>
    live s' \<and> incoming s = d @ incoming s' \<and> pos + length data + 2 \<le> length (b @ d)"
proof -
  have len: "pos + length data + 2 \<le> length (b @ incoming s)" using assms(2,3) by simp
  have m: "(length body + length data) mod 2 ^ 64 = length body + length data" "(length data + 2) mod 2 ^ 64 = length data + 2"
    "(pos + length data) mod 2 ^ 64 = pos + length data" using bound len by simp_all
  from need_bytes_ok [OF assms(1), of "length data + 2" pos b] len assms(4) obtain s' d where
    n: "need_bytes (length data + 2) s b pos = Inr (s', b @ d)" "live s'" "incoming s = d @ incoming s'" "length data + 2 + pos \<le> length (b @ d)"
    by auto
  obtain w where w: "b @ d = pre @ data @ line_end @ w"
  proof -
    have "(b @ d) @ incoming s' = (pre @ data @ line_end) @ rest" using assms(2) n(3) by simp
    moreover have "length (pre @ data @ line_end) \<le> length (b @ d)" using n(4) assms(3) by simp
    ultimately have "\<exists>w. b @ d = (pre @ data @ line_end) @ w"
      by (metis append_eq_append_conv_if append_take_drop_id)
    then show ?thesis using that by auto
  qed
  have "slice_range (b @ d) pos (pos + length data) = Some data"
    by (rule slice_range_at [OF w]) (use assms(3) in auto)
  moreover have "slice_range (b @ d) (pos + length data) (pos + length data + 2) = Some line_end"
    by (rule slice_range_at [of _ "pre @ data" _ w]) (use w assms(3) in auto)
  ultimately have "chunk_data mx (length data) s b body pos = Inr (s', b @ d, body @ data, pos + length data + 2)"
    unfolding chunk_data_def m Let_def n(1) using bound(1) by simp
  then show ?thesis using n(2-4) by (intro exI [of _ s'] exI [of _ d]) simp
qed

lemma line_taken:
  assumes "(b @ d) @ u = pre @ l @ w" "length pre = pos" "pos + length l \<le> length (b @ d)"
  shows "take (length l) (drop pos (b @ d)) = l"
proof -
  have "take (length l) (drop pos (b @ d)) = take (length l) (drop pos ((b @ d) @ u))" using assms(3) by simp
  also have "\<dots> = l" unfolding assms(1) using assms(2) by simp
  finally show ?thesis .
qed

text \<open>Reading a size line, wherever it was cut.\<close>

lemma size_line_ok:
  assumes "size_line l n" "live s" "b @ incoming s = pre @ l @ line_end @ w" "length pre = pos" "pos \<le> length b"
  obtains s1 d where "need_line True s b pos = Inr (s1, b @ d, pos + length l)" "live s1" "incoming s = d @ incoming s1"
    "pos + length l + 2 \<le> length (b @ d)" "parse_hex (size_text (take (length l) (drop pos (b @ d)))) = Some n"
    "(b @ d) @ incoming s1 = (pre @ l @ line_end) @ w"
proof -
  have l: "clean_line l" "length l < 1024" "parse_hex (size_text l) = Some n" using assms(1) by (auto simp: size_line_def)
  have "first_crlf (drop pos (b @ incoming s)) = Some (length l)" using assms(3,4) clean_line_first [OF l(1)] by simp
  from need_line_ok [OF assms(2,5) this, of True] l(2) obtain s1 d where
    n: "need_line True s b pos = Inr (s1, b @ d, pos + length l)" "live s1" "incoming s = d @ incoming s1" "pos + length l + 2 \<le> length (b @ d)"
    by auto
  have w: "(b @ d) @ incoming s1 = pre @ l @ line_end @ w" using assms(3) n(3) by simp
  have "take (length l) (drop pos (b @ d)) = l" by (rule line_taken [OF w assms(4)]) (use n(4) in simp)
  then show ?thesis using that [OF n] l(3) w by simp
qed

lemma read_chunked_ok:
  assumes "list_all chunk_ok cs" "size_line l 0" "list_all trailer_ok trs"
    and "live s" "b @ incoming s = pre @ enc_chunked cs l trs @ rest" "length pre = pos" "pos \<le> length b"
    and "length body + length (concat (map snd cs)) \<le> mx" "mx < 2 ^ 64" "length (b @ incoming s) < 2 ^ 64"
  shows "\<exists>s' d. read_chunked_body mx s b body pos = Inr (s', b @ d, body @ concat (map snd cs), pos + length (enc_chunked cs l trs)) \<and>
    live s' \<and> incoming s = d @ incoming s' \<and> pos + length (enc_chunked cs l trs) \<le> length (b @ d)"
  using assms(1,4-8,10)
proof (induction cs arbitrary: s b pre pos body)
  case Nil
  have "b @ incoming s = pre @ l @ line_end @ enc_trailers trs @ rest" using Nil(3) by (simp add: enc_chunked_def)
  from size_line_ok [OF assms(2) Nil(2) this Nil(4,5)] obtain s1 d where
    n: "need_line True s b pos = Inr (s1, b @ d, pos + length l)" "live s1" "incoming s = d @ incoming s1"
      "pos + length l + 2 \<le> length (b @ d)" "parse_hex (size_text (take (length l) (drop pos (b @ d)))) = Some 0"
      "(b @ d) @ incoming s1 = (pre @ l @ line_end) @ enc_trailers trs @ rest" .
  from trailers_ok [OF assms(3) n(2,6), of "pos + length l + 2"] Nil(4) n(4) obtain s' d' where
    t: "trailers s1 (b @ d) (pos + length l + 2) = Inr (s', (b @ d) @ d', pos + length l + 2 + length (enc_trailers trs))"
      "live s'" "incoming s1 = d' @ incoming s'" "pos + length l + 2 + length (enc_trailers trs) \<le> length ((b @ d) @ d')" by auto
  show ?case using n(1,3,5) t
    by (intro exI [of _ s'] exI [of _ "d @ d'"]) (subst read_chunked_body.simps, simp add: enc_chunked_def)
next
  case (Cons c cs)
  obtain k data where c: "c = (k, data)" by (cases c)
  have ok: "size_line k (length data)" "data \<noteq> []" "list_all chunk_ok cs" using Cons(2) chunk_ok_def [of c] by (simp_all add: c)
  let ?more = "data @ line_end @ enc_chunked cs l trs @ rest"
  have "b @ incoming s = pre @ k @ line_end @ ?more" using Cons(4) by (simp add: enc_chunked_def enc_chunk_def c)
  from size_line_ok [OF ok(1) Cons(3) this Cons(5,6)] obtain s1 d where
    n: "need_line True s b pos = Inr (s1, b @ d, pos + length k)" "live s1" "incoming s = d @ incoming s1"
      "pos + length k + 2 \<le> length (b @ d)" "parse_hex (size_text (take (length k) (drop pos (b @ d)))) = Some (length data)"
      "(b @ d) @ incoming s1 = (pre @ k @ line_end) @ ?more" .
  let ?p = "pos + length k + 2"
  have "length (b @ d @ incoming s1) < 2 ^ 64" using Cons(8) n(3) by simp
  from chunk_data_ok [OF n(2,6), of ?p body mx] this n(4) Cons(5,7) assms(9) obtain s2 d2 where
    m: "chunk_data mx (length data) s1 (b @ d) body ?p = Inr (s2, (b @ d) @ d2, body @ data, ?p + length data + 2)"
      "live s2" "incoming s1 = d2 @ incoming s2" "?p + length data + 2 \<le> length ((b @ d) @ d2)" by (auto simp: c)
  have "\<exists>s' d'. read_chunked_body mx s2 ((b @ d) @ d2) (body @ data) (?p + length data + 2) =
        Inr (s', ((b @ d) @ d2) @ d', (body @ data) @ concat (map snd cs), ?p + length data + 2 + length (enc_chunked cs l trs)) \<and>
      live s' \<and> incoming s2 = d' @ incoming s' \<and> ?p + length data + 2 + length (enc_chunked cs l trs) \<le> length (((b @ d) @ d2) @ d')"
    by (rule Cons(1) [OF ok(3) m(2), where pre = "pre @ k @ line_end @ data @ line_end"])
      (use n(3,6) m(3,4) Cons(5,7,8) in \<open>auto simp: c\<close>)
  then obtain s' d' where r: "read_chunked_body mx s2 ((b @ d) @ d2) (body @ data) (?p + length data + 2) =
        Inr (s', ((b @ d) @ d2) @ d', (body @ data) @ concat (map snd cs), ?p + length data + 2 + length (enc_chunked cs l trs))"
      "live s'" "incoming s2 = d' @ incoming s'" "?p + length data + 2 + length (enc_chunked cs l trs) \<le> length (((b @ d) @ d2) @ d')"
    by blast
  have e: "length (enc_chunked (c # cs) l trs) = length k + 2 + length data + 2 + length (enc_chunked cs l trs)"
    by (simp add: enc_chunked_def enc_chunk_def c)
  have "read_chunked_body mx s b body pos =
      Inr (s', b @ (d @ d2 @ d'), body @ concat (map snd (c # cs)), pos + length (enc_chunked (c # cs) l trs))"
    unfolding e by (subst read_chunked_body.simps) (use n(1,5) ok(2) m(1) r(1) in \<open>simp add: c add.assoc\<close>)
  moreover have "incoming s = (d @ d2 @ d') @ incoming s'" using n(3) m(3) r(3) by simp
  ultimately show ?case using r(2,4) unfolding e by (intro exI conjI) (assumption | simp)+
qed

lemma read_exact_ok:
  assumes "live s" "incoming s = data @ rest" "length body + length data = n"
  shows "\<exists>s'. read_exact n s body = Inr (s', body @ data) \<and> live s' \<and> incoming s' = rest"
  using assms
proof (induction s arbitrary: body data rule: live.induct)
  case 1
  then show ?case by simp
next
  case (2 d s)
  show ?case
  proof (cases "data = []")
    case True
    with 2(4) have "n \<le> length body" by simp
    with True 2(2,3) show ?thesis by simp
  next
    case False
    then have n: "\<not> n \<le> length body" "n - length body = length data" using 2(4) by auto
    show ?thesis
    proof (cases "length d \<le> length data")
      case True
      with 2(3) have "d = take (length d) data" and i: "incoming s = drop (length d) data @ rest"
        by (auto simp: append_eq_append_conv_if)
      then have d: "data = d @ drop (length d) data" by (metis append_take_drop_id)
      then have "length (body @ d) + length (drop (length d) data) = n" using 2(4) True by simp
      from 2(1) [OF _ i this] d 2(2) n True show ?thesis by (simp add: Let_def)
    next
      case False
      with 2(3) have "take (length data) d = data" "drop (length data) d @ incoming s = rest"
        by (auto simp: append_eq_append_conv_if)
      with False n 2(2) show ?thesis by (simp add: Let_def)
    qed
  qed
qed auto

lemma drop_rest:
  assumes "b @ u = h @ x" "length h \<le> length b"
  shows "drop (length h) b @ u = x"
  using arg_cong [OF assms(1), of "drop (length h)"] assms(2) by simp

lemma read_exact_body_ok:
  assumes "live s" "b @ incoming s = pre @ data @ rest" "length pre = pos" "pos \<le> length b"
  shows "\<exists>s'. read_exact_body (length data) s b [] pos = Inr (s', b, data, pos + min (length b - pos) (length data)) \<and>
    live s' \<and> drop (pos + min (length b - pos) (length data)) b @ incoming s' = rest"
proof -
  let ?have = "min (length b - pos) (length data)"
  let ?got = "take ?have (drop pos b)"
  have b: "drop pos b @ incoming s = data @ rest" using drop_rest [OF assms(2)] assms(3,4) by simp
  have got: "?got = take ?have data"
    using arg_cong [OF b, of "take ?have"] by simp
  have inc: "drop ?have (drop pos b) @ incoming s = drop ?have data @ rest"
    using arg_cong [OF b, of "drop ?have"] by simp
  show ?thesis
  proof (cases "length b - pos \<le> length data")
    case True
    then have "incoming s = drop ?have data @ rest" using inc by simp
    from read_exact_ok [OF assms(1) this, of "?got" "length data"] True got
    obtain s' where "read_exact (length data) s ?got = Inr (s', data)" "live s'" "incoming s' = rest" by auto
    then show ?thesis using True assms(4) by (simp add: read_exact_body_def Let_def)
  next
    case False
    then have "?got = data" using got by simp
    moreover have "read_exact (length data) s data = Inr (s, data)" by (cases s) auto
    ultimately show ?thesis using False assms(1) inc by (simp add: read_exact_body_def Let_def add.commute)
  qed
qed

text \<open>\<open>w\<close> is a way to write the body \<open>d\<close> with the framing that the head announces.\<close>

fun body_wire :: "req_body \<Rightarrow> bytes \<Rightarrow> bytes \<Rightarrow> bool" where
  "body_wire NoBody w d \<longleftrightarrow> w = [] \<and> d = []"
| "body_wire (Length n) w d \<longleftrightarrow> w = d \<and> length d = n"
| "body_wire Chunked w d \<longleftrightarrow> (\<exists>cs l trs. list_all chunk_ok cs \<and> size_line l 0 \<and> list_all trailer_ok trs \<and>
     w = enc_chunked cs l trs \<and> d = concat (map snd cs))"

lemma read_body_ok:
  assumes "body_wire (rbody r) w d" "length d \<le> mx" "mx < 2 ^ 64" "live s"
    and "b @ incoming s = h @ w @ rest" "length h = req_head_len r" "req_head_len r \<le> length b" "length (b @ incoming s) < 2 ^ 64"
  shows "\<exists>s' x pos. snd (read_body mx r s b) = Inr (s', b @ x, d, pos) \<and> pos \<le> length (b @ x) \<and> drop pos (b @ x) @ incoming s' = rest \<and> live s'"
proof (cases "rbody r")
  case NoBody
  with assms(1,5) have "b @ incoming s = h @ rest" by simp
  then have "drop (req_head_len r) b @ incoming s = rest" using drop_rest assms(6,7) by metis
  then show ?thesis using NoBody assms(1,4,7) by (simp add: read_body_def Let_def)
next
  case (Length n)
  with assms(1,5) have "b @ incoming s = h @ d @ rest" "length d = n" by auto
  from read_exact_body_ok [OF assms(4) this(1) assms(6,7)] this(2) Length assms(2,7) show ?thesis
    by (auto simp: read_body_def Let_def)
next
  case Chunked
  with assms(1) obtain cs l trs where e: "list_all chunk_ok cs" "size_line l 0" "list_all trailer_ok trs"
    "w = enc_chunked cs l trs" "d = concat (map snd cs)" by auto
  from read_chunked_ok [OF e(1-3) assms(4) assms(5) [unfolded e(4)] assms(6,7), of "[]" mx] assms(2,3,8) e(5)
  obtain s' x where r: "read_chunked_body mx s b [] (req_head_len r) = Inr (s', b @ x, d, req_head_len r + length w)"
    "live s'" "incoming s = x @ incoming s'" "req_head_len r + length w \<le> length (b @ x)"
    by (auto simp: e(4))
  have "(b @ x) @ incoming s' = (h @ w) @ rest" using assms(5) r(3) by simp
  then have "drop (length (h @ w)) ((b @ x) @ incoming s') = rest" by (rule drop_at) simp
  then have "drop (req_head_len r + length w) (b @ x) @ incoming s' = rest" using r(4) assms(6) by simp
  then show ?thesis using r(1,2,4) Chunked by (simp add: read_body_def Let_def)
qed

text \<open>C12.
  The body of an HTTP/1 request is read exactly, however the network cuts the bytes: for every way to write a body with the framing
  the head announces (a length, or chunks with extensions and trailers) that is within the size limit, the body read is that
  body, and what is left in the buffer and on the socket is exactly what follows the request.\<close>

theorem http1_body_exact:
  assumes "body_wire (rbody r) w d" "length d \<le> mx" "mx < 2 ^ 64" "live s"
    and "b @ incoming s = h @ w @ rest" "length h = req_head_len r" "req_head_len r \<le> length b" "length (b @ incoming s) < 2 ^ 64"
  shows "\<exists>s' b' pos. snd (read_body mx r s b) = Inr (s', b', d, pos) \<and> drop pos b' @ incoming s' = rest"
  using read_body_ok [OF assms] by blast

text \<open>Two chunks in four reads, with a pipelined byte behind them.\<close>

lemma demo_lines: "size_line (bs ''3;x'') 3" "size_line (bs ''2'') 2" "size_line (bs ''0'') 0"
  by (simp_all add: size_line_def clean_line_def size_text_def parse_hex_def hex_val_def)

lemma demo_wire: "body_wire Chunked (enc_chunked [(bs ''3;x'', bs ''abc''), (bs ''2'', bs ''de'')] (bs ''0'') []) (bs ''abcde'')"
proof -
  have "list_all chunk_ok [(bs ''3;x'', bs ''abc''), (bs ''2'', bs ''de'')]"
    using demo_lines(1,2) by (simp add: chunk_ok_def numeral_3_eq_3 numeral_2_eq_2)
  moreover have "bs ''abcde'' = concat (map snd [(bs ''3;x'', bs ''abc''), (bs ''2'', bs ''de'')])" by simp
  ultimately show ?thesis unfolding body_wire.simps using demo_lines(3) list.pred_inject(1) by blast
qed

theorem http1_body_exact_witness:
  "\<exists>s' b' pos. snd (read_body 100 (req_new\<lparr>rbody := Chunked\<rparr>)
      [Data (bs ''x'' @ line_end @ bs ''abc'' @ [0x0D]), Data ([0x0A] @ bs ''2'' @ line_end @ bs ''de'' @ line_end @ bs ''0''), Data (line_end @ line_end @ bs ''G'')]
      (bs ''3;'')) = Inr (s', b', bs ''abcde'', pos) \<and> drop pos b' @ incoming s' = bs ''G''"
proof (rule http1_body_exact [where h = "[]" and w = "enc_chunked [(bs ''3;x'', bs ''abc''), (bs ''2'', bs ''de'')] (bs ''0'') []"])
  show "body_wire (rbody (req_new\<lparr>rbody := Chunked\<rparr>)) (enc_chunked [(bs ''3;x'', bs ''abc''), (bs ''2'', bs ''de'')] (bs ''0'') []) (bs ''abcde'')"
    using demo_wire by simp
qed (simp_all add: req_new_def enc_chunked_def enc_chunk_def enc_trailers_def)

section \<open>Sizes that wrap\<close>

lemma chunk_turn:
  assumes "need_line True s b pos = Inr (s1, b1, e)" "take (e - pos) (drop pos b1) = l" "parse_hex (size_text l) = Some n"
  shows "n \<noteq> 0 \<Longrightarrow> chunk_data mx n s1 b1 body (e + 2) = Inr (s2, b2, body2, pos2) \<Longrightarrow>
      read_chunked_body mx s b body pos = read_chunked_body mx s2 b2 body2 pos2"
    and "n \<noteq> 0 \<Longrightarrow> chunk_data mx n s1 b1 body (e + 2) = Inl er \<Longrightarrow> read_chunked_body mx s b body pos = Inl er"
    and "n = 0 \<Longrightarrow> trailers s1 b1 (e + 2) = Inr (s2, b2, pos2) \<Longrightarrow> read_chunked_body mx s b body pos = Inr (s2, b2, body, pos2)"
  using assms by (simp_all add: read_chunked_body.simps [of mx s b body pos])

text \<open>C37.
  A chunk of size 2^64 - 1 after a chunk with data crashes the reader. The sum of the body so far and the announced size wraps
  below the limit, so it is not refused with 413; one byte more is enough to pass the wait for the chunk,
  and the slice from the position to the wrapped end is out of range: a panic, which the release profile turns into
  an abort of the server. The head before the body and what follows on the socket are arbitrary.\<close>

theorem chunked_size_wraps:
  assumes "length pre < 2 ^ 63" "1 \<le> mx"
  shows "read_chunked_body mx s (pre @ bs ''1'' @ line_end @ bs ''X'' @ line_end @ bs ''ffffffffffffffff'' @ line_end @ [y]) [] (length pre) = Inl Panic"
proof -
  let ?b = "pre @ bs ''1'' @ line_end @ bs ''X'' @ line_end @ bs ''ffffffffffffffff'' @ line_end @ [y]"
  have h: "parse_hex (size_text (bs ''1'')) = Some 1" "parse_hex (size_text (bs ''ffffffffffffffff'')) = Some (2 ^ 64 - 1)"
    by (simp_all add: size_text_def parse_hex_def hex_val_def)
  have l1: "need_line True s ?b (length pre) = Inr (s, ?b, length pre + 1)"
    by (subst need_line.simps) (simp add: find_crlf_first)
  have l2: "need_line True s ?b (length pre + 6) = Inr (s, ?b, length pre + 22)"
    by (subst need_line.simps) (simp add: find_crlf_first)
  have c1: "chunk_data mx 1 s ?b [] (length pre + 3) = Inr (s, ?b, bs ''X'', length pre + 6)"
    using assms by (subst chunk_data_def, subst need_bytes.simps) (simp add: Let_def slice_range_def)
  have wrap: "(length pre + 24 + (2 ^ 64 - 1)) mod 2 ^ 64 = length pre + 23"
  proof -
    have "length pre + 24 + (2 ^ 64 - 1) = (length pre + 23) + 2 ^ 64" by simp
    then show ?thesis using assms(1) by (simp only: mod_add_self2) simp
  qed
  have c2: "chunk_data mx (2 ^ 64 - 1) s ?b (bs ''X'') (length pre + 24) = Inl Panic"
    using assms(2) unfolding chunk_data_def wrap Let_def
    by (subst need_bytes.simps) (simp add: slice_range_def)
  have "read_chunked_body mx s ?b [] (length pre) = read_chunked_body mx s ?b (bs ''X'') (length pre + 6)"
    by (rule chunk_turn(1) [OF l1 _ h(1)]) (use c1 in \<open>simp_all add: numeral_3_eq_3\<close>)
  also have "\<dots> = Inl Panic"
    by (rule chunk_turn(2) [OF l2 _ h(2)]) (use c2 in \<open>simp_all add: add.commute\<close>)
  finally show ?thesis .
qed

theorem chunked_size_wraps_witness:
  "read_chunked_body 1048576 [] ([] @ bs ''1'' @ line_end @ bs ''X'' @ line_end @ bs ''ffffffffffffffff'' @ line_end @ [0]) [] (length ([] :: bytes)) = Inl Panic"
  by (rule chunked_size_wraps) simp_all

text \<open>
  A size line of blanks is taken for the last chunk: it is not empty, blanks are skipped, and the value is zero. What follows
  is read as trailers, so a body that another reader refuses ends here.\<close>

theorem blank_chunk_size_ends_body:
  "parse_hex [] = None \<and> parse_hex [0x20] = Some 0 \<and>
   read_chunked_body mx s ([0x20] @ line_end @ line_end @ rest) [] 0 = Inr (s, [0x20] @ line_end @ line_end @ rest, [], 5)"
proof -
  have h: "parse_hex [0x20] = Some 0" by (simp add: parse_hex_def hex_val_def)
  have "trailers s ([0x20] @ line_end @ line_end @ rest) 3 = Inr (s, [0x20] @ line_end @ line_end @ rest, 5)"
    by (subst trailers.simps, subst need_line.simps) (simp add: find_crlf_first)
  moreover have "need_line True s ([0x20] @ line_end @ line_end @ rest) 0 = Inr (s, [0x20] @ line_end @ line_end @ rest, 1)"
    by (subst need_line.simps) (simp add: find_crlf_first)
  ultimately have "read_chunked_body mx s ([0x20] @ line_end @ line_end @ rest) [] 0 = Inr (s, [0x20] @ line_end @ line_end @ rest, [], 5)"
    by (intro chunk_turn(3) [where l = "[0x20]" and n = 0]) (simp_all add: size_text_def h numeral_3_eq_3)
  then show ?thesis using h by (simp add: parse_hex_def)
qed

end
