(* ===== verification/Http1_Conn.thy ===== *)
theory Http1_Conn
  imports Http1_Body Response Routing Uri
begin

text \<open>
  The HTTP/1 connection (\<^verbatim>\<open>server/conn.rs\<close>): reading a request head, the turn from request to response,
  the decision to keep the connection, the writers of the response body, and the pool of connection states.
  The head tokenizer, the request handler, the regular expressions of server names, the clock and file
  reads are arguments. Sockets are those of the body reader; what the server writes is collected.
\<close>

section \<open>Reading a head\<close>

datatype head_error = HeadEof | HeadTimeout | HeadTooLarge | HeadIo

datatype head_result = HeadDone req sock bytes | HeadBad nat | HeadFailed head_error

fun read_head :: "(bytes \<Rightarrow> hp_error + (hp_status \<times> hp_request)) \<Rightarrow> nat \<Rightarrow> sock \<Rightarrow> bytes \<Rightarrow> req \<Rightarrow> head_result" where
  "read_head httparse max_head s b r =
    (let (r, res) = (if b \<noteq> [] then req_parse httparse r b else (r, Partial))
     in case res of
          Complete \<Rightarrow> HeadDone r s b
        | Error c \<Rightarrow> HeadBad c
        | Partial \<Rightarrow>
           if b \<noteq> [] \<and> max_head < length b then HeadFailed HeadTooLarge
           else (case s of
                   [] \<Rightarrow> HeadFailed (if b = [] then HeadEof else HeadIo)
                 | Data d # s \<Rightarrow>
                    if d = [] then HeadFailed (if b = [] then HeadEof else HeadIo)
                    else read_head httparse max_head s (b @ d) r
                 | IoFailed # s \<Rightarrow> HeadFailed HeadIo
                 | TimedOut # s \<Rightarrow> HeadFailed HeadTimeout))"

declare read_head.simps [simp del]

section \<open>Writing a response\<close>

text \<open>One vectored write takes \<open>n\<close> bytes of head and body; \<open>None\<close>: the peer takes nothing more.\<close>

fun write_head_and_slice :: "nat list \<Rightarrow> bytes \<Rightarrow> bytes \<Rightarrow> nat \<Rightarrow> nat \<Rightarrow> bytes option" where
  "write_head_and_slice takes hd_bytes body head_off body_off =
    (if head_off < length hd_bytes \<or> body_off < length body then
       (case takes of
          [] \<Rightarrow> None
        | n # takes \<Rightarrow>
           if n = 0 then None
           else (let head_take = min n (length hd_bytes - head_off)
                 in map_option ((@) (take n (drop head_off hd_bytes @ drop body_off body)))
                      (write_head_and_slice takes hd_bytes body (head_off + head_take) (body_off + (n - head_take)))))
     else Some [])"

declare write_head_and_slice.simps [simp del]

text \<open>The copy loop of \<^verbatim>\<open>stream_file\<close>, and of \<^verbatim>\<open>sendfile_all\<close> with a step of one GiB.\<close>

function stream_loop :: "(nat \<Rightarrow> nat \<Rightarrow> bytes) \<Rightarrow> nat \<Rightarrow> nat \<Rightarrow> nat \<Rightarrow> nat \<Rightarrow> bytes" where
  "stream_loop read_at chunk len sent pos =
    (if sent < len then
       (let want = min chunk (len - sent); got = take want (read_at pos want)
        in if got = [] then [] else got @ stream_loop read_at chunk len (sent + length got) (pos + length got))
     else [])"
  by pat_completeness auto
termination
proof (relation "measure (\<lambda>(_, _, len, sent, _). len - sent)", goal_cases)
  case (2 read_at chunk len sent pos want got)
  then obtain x xs where "got = x # xs" by (cases got) blast+
  with 2(1) show ?case by simp
qed simp

declare stream_loop.simps [simp del]

definition clamp :: "nat \<Rightarrow> nat \<Rightarrow> nat \<Rightarrow> nat" where
  "clamp lo hi n = max lo (min hi n)"

definition stream_file :: "(nat \<Rightarrow> nat \<Rightarrow> bytes) \<Rightarrow> nat \<Rightarrow> bool \<Rightarrow> nat \<Rightarrow> nat \<Rightarrow> bytes" where
  "stream_file read_at buf_size sendfile offset len =
    (if sendfile then stream_loop read_at (2 ^ 30) len 0 offset
     else stream_loop read_at (min (clamp (16 * 1024) (512 * 1024) buf_size) (max len 1)) len 0 offset)"

text \<open>Copies a proxied body: what was sent, and whether the upstream did not fail.\<close>

fun stream_upstream_loop :: "sock \<Rightarrow> nat \<Rightarrow> nat option \<Rightarrow> bytes \<times> bool" where
  "stream_upstream_loop io sent len =
    (if (case len of Some n \<Rightarrow> n \<le> sent | None \<Rightarrow> False) then ([], True)
     else (case io of
             [] \<Rightarrow> ([], True)
           | Data d # io \<Rightarrow>
              if d = [] then ([], True)
              else (let k = (case len of Some n \<Rightarrow> min (length d) (n - sent) | None \<Rightarrow> length d)
                    in apfst ((@) (take k d)) (stream_upstream_loop io (sent + k) len))
           | _ # io \<Rightarrow> ([], False)))"

declare stream_upstream_loop.simps [simp del]

definition stream_upstream :: "bytes \<Rightarrow> sock \<Rightarrow> nat option \<Rightarrow> bytes \<times> bool" where
  "stream_upstream pre io len = apfst ((@) pre) (stream_upstream_loop io (length pre) len)"

text \<open>One direction of a tunnel, up to the first read that brings nothing.\<close>

fun tunnel_copy :: "sock \<Rightarrow> bytes" where
  "tunnel_copy (Data d # s) = (if d = [] then [] else d @ tunnel_copy s)"
| "tunnel_copy _ = []"

text \<open>
  What the writers need of the world: file reads, the package version and the formatted date; and of the
  server's configuration.
\<close>

record 'f wenv =
  w_read_at :: "'f \<Rightarrow> nat \<Rightarrow> nat \<Rightarrow> bytes"
  w_version :: bytes
  w_date :: bytes
  w_plain_tcp :: bool

record server_core =
  sc_max_body :: nat
  sc_keepalive_requests :: nat
  sc_keepalive_timeout :: nat
  sc_server_tokens :: server_tokens
  sc_output_buffer :: nat
  sc_sendfile :: bool

type_synonym 'f http_reply = "(bytes, 'f, sock, sock) reply"

fun body_out :: "'f wenv \<Rightarrow> server_core \<Rightarrow> (bytes, 'f, sock, sock) reply_body \<Rightarrow> bytes \<times> bool" where
  "body_out w sv BEmpty = ([], True)"
| "body_out w sv (BBytes b) = (b, True)"
| "body_out w sv (BMmap m i j) = (take (j - i) (drop i m), True)"
| "body_out w sv (BInline f off n) = (take (unat n) (w_read_at w f (unat off) (unat n)), True)"
| "body_out w sv (BFile f off n) =
    (stream_file (w_read_at w f) (sc_output_buffer sv) (sc_sendfile sv \<and> w_plain_tcp w) (unat off) (unat n), True)"
| "body_out w sv (BStream pre io n) = stream_upstream pre io (map_option unat n)"
| "body_out w sv (BUpgraded pre io idle) = (pre @ tunnel_copy io, True)"

definition write_reply :: "'f wenv \<Rightarrow> server_core \<Rightarrow> bool \<Rightarrow> 'f http_reply \<Rightarrow> bytes \<times> bool" where
  "write_reply w sv head_only rp =
    (let hd_bytes = write_head (sc_server_tokens sv) (w_version w) (w_date w) (rresp rp)
     in if head_only \<or> reply_body rp = BEmpty then (hd_bytes, True)
        else apfst ((@) hd_bytes) (body_out w sv (reply_body rp)))"

definition bare_error :: "'f wenv \<Rightarrow> nat \<Rightarrow> bytes" where
  "bare_error w code =
    (let body = error_page code (Some (bs ''oxiserve''));
         r = add_header (bs ''Content-Type'') (bs ''text/html'')
               (resp_new\<lparr>status := code, resp_keep_alive := False, resp_framing := FLength (of_nat (length body))\<rparr>)
     in write_head TokensOn (w_version w) (w_date w) r @ body)"

section \<open>One turn of the connection\<close>

record ('f, 's, 'r) cenv =
  e_httparse :: "bytes \<Rightarrow> hp_error + (hp_status \<times> hp_request)"
  e_listener :: "('r, 's) listener"
  e_re_match :: "'r \<Rightarrow> bytes \<Rightarrow> bool"
  e_core :: "'s \<Rightarrow> server_core"
  e_max_head :: nat
  e_handle :: "'s \<Rightarrow> req \<Rightarrow> bytes \<Rightarrow> bytes \<Rightarrow> bytes \<Rightarrow> nat \<Rightarrow> 'f http_reply"
  e_error_reply :: "'s \<Rightarrow> req \<Rightarrow> bytes \<Rightarrow> nat \<Rightarrow> 'f http_reply"
  e_writer :: "'f wenv"

record conn =
  k_sock :: sock
  k_read :: bytes
  k_req :: req
  k_requests :: nat
  k_out :: bytes

datatype turn = Closed bytes | Next conn | Aborted

text \<open>A request that was received: the server and the normalised path chosen for it, and its body.\<close>

datatype 's received =
    Ended bytes
  | Crashed
  | Received 's bytes req bytes bytes "nat + (bytes \<times> sock \<times> nat)"

definition receive :: "('f, 's, 'r) cenv \<Rightarrow> conn \<Rightarrow> 's received" where
  "receive env c =
    (case read_head (e_httparse env) (e_max_head env) (k_sock c) (k_read c) (k_req c) of
       HeadFailed HeadEof \<Rightarrow> Ended []
     | HeadFailed HeadTimeout \<Rightarrow> Ended (if 0 < k_requests c then [] else bare_error (e_writer env) 408)
     | HeadFailed HeadTooLarge \<Rightarrow> Ended (bare_error (e_writer env) 431)
     | HeadFailed HeadIo \<Rightarrow> Ended []
     | HeadBad code \<Rightarrow> Ended (bare_error (e_writer env) code)
     | HeadDone r s b \<Rightarrow>
        (let sv = match_host (e_re_match env) (e_listener env) (host r b)
         in case normalize (slice b (path r)) of
              Inl _ \<Rightarrow> Ended (bare_error (e_writer env) 400)
            | Inr uri \<Rightarrow>
               (case read_body (sc_max_body (e_core env sv)) r s b of
                  (interim, Inl (Status code)) \<Rightarrow> Received sv uri r b interim (Inl code)
                | (interim, Inl Panic) \<Rightarrow> Crashed
                | (interim, Inr (s, b, body, pos)) \<Rightarrow> Received sv uri r b interim (Inr (body, s, pos)))))"

text \<open>The reply as it is sent: whether the connection survives, the framing, no body for HEAD.\<close>

definition final_reply :: "server_core \<Rightarrow> req \<Rightarrow> nat \<Rightarrow> bool \<Rightarrow> 'f http_reply \<Rightarrow> 'f http_reply" where
  "final_reply sv r requests body_ok rp =
    conn_reply (keep_alive r) (sc_keepalive_requests sv \<le> requests) body_ok (0 < sc_keepalive_timeout sv)
      (minor r = 1) (rmethod r = Head) rp"

definition serve_turn :: "('f, 's, 'r) cenv \<Rightarrow> conn \<Rightarrow> turn" where
  "serve_turn env c =
    (case receive env c of
       Ended out \<Rightarrow> Closed (k_out c @ out)
     | Crashed \<Rightarrow> Aborted
     | Received sv uri r b interim res \<Rightarrow>
        (let requests = k_requests c + 1;
             rp = (case res of
                     Inl code \<Rightarrow> e_error_reply env sv r b code
                   | Inr (body, _, _) \<Rightarrow> e_handle env sv r b body uri requests);
             rp = final_reply (e_core env sv) r requests (case res of Inl _ \<Rightarrow> False | Inr _ \<Rightarrow> True) rp
         in case write_reply (e_writer env) (e_core env sv) (rmethod r = Head) rp of
              (out, ok) \<Rightarrow>
               (case res of
                  Inr (_, s, pos) \<Rightarrow>
                    if ok \<and> resp_keep_alive (rresp rp)
                    then Next \<lparr>k_sock = s, k_read = drop (min pos (length b)) b, k_req = r,
                               k_requests = requests, k_out = k_out c @ interim @ out\<rparr>
                    else Closed (k_out c @ interim @ out)
                | Inl _ \<Rightarrow> Closed (k_out c @ interim @ out))))"

text \<open>The loop; \<open>None\<close> when the fuel is used up.\<close>

fun serve_conn :: "nat \<Rightarrow> ('f, 's, 'r) cenv \<Rightarrow> conn \<Rightarrow> turn option" where
  "serve_conn 0 env c = None"
| "serve_conn (Suc n) env c =
    (case serve_turn env c of Next c \<Rightarrow> serve_conn n env c | t \<Rightarrow> Some t)"

definition conn_start :: "bytes \<Rightarrow> sock \<Rightarrow> conn" where
  "conn_start prefix s = \<lparr>k_sock = s, k_read = prefix, k_req = req_new, k_requests = 0, k_out = []\<rparr>"

section \<open>A request is taken off the stream\<close>

text \<open>
  What the tokenizer does on a head \<open>h\<close>: it asks for more on every proper prefix, and is done at the end
  of the head whatever follows, with ranges inside the head.
\<close>

definition tokenized :: "(bytes \<Rightarrow> hp_error + (hp_status \<times> hp_request)) \<Rightarrow> bytes \<Rightarrow> hp_request \<Rightarrow> bool" where
  "tokenized httparse h p \<longleftrightarrow> h \<noteq> [] \<and> max_headers_respected httparse \<and>
     (\<forall>y. httparse (h @ y) = Inr (HpComplete (length h), p)) \<and>
     (\<forall>n < length h. \<exists>q. httparse (take n h) = Inr (HpPartial, q)) \<and>
     (\<forall>f \<in> set (hp_headers p). snd (fst f) \<le> length h \<and> snd (snd f) \<le> length h)"

text \<open>A head that is not refused, and the framing of its body.\<close>

definition head_ok :: "bytes \<Rightarrow> hp_request \<Rightarrow> req_body \<Rightarrow> bool" where
  "head_ok h p bd \<longleftrightarrow> hp_method p \<noteq> None \<and> hp_path p \<noteq> None \<and>
     (\<exists>v. hp_version p = Some v \<and> v \<le> 1 \<and> (v = 1 \<longrightarrow> header_values h (kept_headers h p) (bs ''host'') \<noteq> [])) \<and>
     framing_spec (header_values h (kept_headers h p) (bs ''transfer-encoding''))
       (header_values h (kept_headers h p) (bs ''content-length'')) = Some bd"

lemma sub_append_le: "snd r \<le> length buf \<Longrightarrow> sub (buf @ c) r = sub buf r"
  by (cases r) (simp add: sub_def)

lemma kept_headers_append:
  "\<forall>f \<in> set (hp_headers p). snd (fst f) \<le> length h \<and> snd (snd f) \<le> length h \<Longrightarrow> kept_headers (h @ y) p = kept_headers h p"
  unfolding kept_headers_def by (rule takeWhile_cong) (auto simp: sub_append_le)

lemma header_values_append:
  assumes "\<forall>f \<in> set (hp_headers p). snd (fst f) \<le> length h \<and> snd (snd f) \<le> length h"
  shows "header_values (h @ y) (kept_headers h p) n = header_values h (kept_headers h p) n"
proof -
  have k: "\<forall>f \<in> set (kept_headers h p). snd (fst f) \<le> length h \<and> snd (snd f) \<le> length h"
    using assms set_takeWhileD unfolding kept_headers_def by fastforce
  then have "filter (named (h @ y) n) (kept_headers h p) = filter (named h n) (kept_headers h p)"
    by (intro filter_cong) (auto simp: named_append)
  then show ?thesis using k by (auto simp: header_values_def slice_def sub_append_le)
qed

text \<open>The fields of a parsed request that come from the request line and the tokenizer.\<close>

definition line_fields :: "req \<Rightarrow> http_method \<times> range \<times> nat \<times> nat" where
  "line_fields r = (rmethod r, path r, minor r, req_head_len r)"

lemma line_fields_kept [simp]:
  "line_fields (fold (push_header buf) hs r) = line_fields r" "line_fields (set_keep_alive r buf) = line_fields r"
  "line_fields (fst (framing r buf)) = line_fields r"
proof -
  have "line_fields (push_header buf h r) = line_fields r" for h r
    by (simp add: push_header_def line_fields_def Let_def split: option.split)
  then show "line_fields (fold (push_header buf) hs r) = line_fields r" by (induction hs arbitrary: r) simp_all
  show "line_fields (set_keep_alive r buf) = line_fields r"
    by (simp add: set_keep_alive_def line_fields_def Let_def split: option.split)
  show "line_fields (fst (framing r buf)) = line_fields r"
    by (simp add: framing_def line_fields_def Let_def split: option.split)
qed

lemma parse_line_fields:
  assumes "httparse buf = Inr (HpComplete n, p)" "hp_method p = Some m" "hp_path p = Some t" "hp_version p = Some v" "v \<le> 1"
    and "req_parse httparse r0 buf = (r, Complete)"
  shows "line_fields r = (method_parse (sub buf m), (fst t, fst t + length (fst (split_query (sub buf t)))), v, n)"
proof -
  define r1 where "r1 = set_keep_alive (fold (push_header buf) (takeWhile (\<lambda>h. sub buf (fst h) \<noteq> []) (hp_headers p))
    ((set_target (req_reset r0) buf m t)\<lparr>minor := v, req_head_len := n\<rparr>)) buf"
  have "r = fst (framing r1 buf)"
    using assms by (auto simp: req_parse_def Let_def r1_def split: prod.splits parse_result.splits if_splits)
  then show ?thesis by (simp add: r1_def) (simp add: line_fields_def set_target_def Let_def split_def)
qed

lemma parse_head_ok:
  assumes t: "tokenized httparse h p" and ok: "head_ok h p bd"
  shows "\<exists>r. req_parse httparse r0 (h @ y) = (r, Complete) \<and> rbody r = bd \<and> req_head_len r = length h \<and>
    line_fields r = (method_parse (sub (h @ y) (the (hp_method p))),
      (fst (the (hp_path p)), fst (the (hp_path p)) + length (fst (split_query (sub (h @ y) (the (hp_path p)))))), the (hp_version p), length h) \<and>
    keep_alive r = keep_alive_spec (the (hp_version p)) (header_values h (kept_headers h p) (bs ''connection''))"
proof -
  from t have hp: "max_headers_respected httparse" "httparse (h @ y) = Inr (HpComplete (length h), p)"
    and rg: "\<forall>f \<in> set (hp_headers p). snd (fst f) \<le> length h \<and> snd (snd f) \<le> length h"
    unfolding tokenized_def by blast+
  from ok obtain m u v where l: "hp_method p = Some m" "hp_path p = Some u" "hp_version p = Some v" "v \<le> 1"
    "v = 1 \<longrightarrow> header_values h (kept_headers h p) (bs ''host'') \<noteq> []"
    "framing_spec (header_values h (kept_headers h p) (bs ''transfer-encoding''))
       (header_values h (kept_headers h p) (bs ''content-length'')) = Some bd"
    unfolding head_ok_def by blast
  obtain r where r: "req_parse httparse r0 (h @ y) = (r\<lparr>rbody := bd\<rparr>, Complete)"
      "keep_alive r = keep_alive_spec v (header_values h (kept_headers h p) (bs ''connection''))"
    by (rule req_parse_complete [OF hp l(1-4), of r0])
      (use l(5,6) in \<open>simp add: kept_headers_append [OF rg] header_values_append [OF rg] del: bs_simps\<close>)
  have "line_fields (r\<lparr>rbody := bd\<rparr>) = (method_parse (sub (h @ y) m), (fst u, fst u + length (fst (split_query (sub (h @ y) u)))), v, length h)"
    by (rule parse_line_fields [OF hp(2) l(1-4) r(1)])
  then show ?thesis using r l(1-3) by (auto simp: line_fields_def)
qed

lemma parse_prefix_partial:
  "tokenized httparse h p \<Longrightarrow> n < length h \<Longrightarrow> snd (req_parse httparse r0 (take n h)) = Partial"
  unfolding tokenized_def by (auto simp: req_parse_def Let_def)

lemma whole_head:
  assumes "b @ u = h @ x" "length h \<le> length b"
  shows "\<exists>y. b = h @ y"
proof -
  have "take (length h) b = h" using arg_cong [OF assms(1), of "take (length h)"] assms(2) by simp
  then show ?thesis using append_take_drop_id [of "length h" b] by metis
qed

lemma read_head_ok:
  assumes t: "tokenized httparse h p" and ok: "head_ok h p bd" and "length h \<le> mx"
    and "live s" "b @ incoming s = h @ x"
  shows "\<exists>r s' d r0. read_head httparse mx s b r1 = HeadDone r s' (b @ d) \<and> live s' \<and> incoming s = d @ incoming s' \<and>
    length h \<le> length (b @ d) \<and> rbody r = bd \<and> req_head_len r = length h \<and> req_parse httparse r0 (b @ d) = (r, Complete)"
  using assms(4,5)
proof (induction s arbitrary: b r1 rule: live.induct)
  case 1
  then obtain y where b: "b = h @ y" by auto
  from parse_head_ok [OF t ok, of r1 y] t show ?case
    by (subst read_head.simps) (auto simp: b tokenized_def)
next
  case (2 d s)
  show ?case
  proof (cases "length h \<le> length b")
    case True
    then obtain y where b: "b = h @ y" using whole_head [OF 2(3)] by blast
    from parse_head_ok [OF t ok, of r1 y] t 2(2) show ?thesis
      by (subst read_head.simps) (auto simp: b tokenized_def)
  next
    case False
    with 2(3) have b: "b = take (length b) h" by (auto simp: append_eq_append_conv_if)
    have "b \<noteq> [] \<Longrightarrow> snd (req_parse httparse r1 b) = Partial"
      using parse_prefix_partial [OF t, of "length b" r1] b False by simp
    then have "\<exists>r2. read_head httparse mx (Data d # s) b r1 = read_head httparse mx s (b @ d) r2"
      using False assms(3) 2(2) by (subst read_head.simps) (auto split: prod.splits)
    then obtain r2 where r2: "read_head httparse mx (Data d # s) b r1 = read_head httparse mx s (b @ d) r2" ..
    have "\<exists>r s' d' r0. read_head httparse mx s (b @ d) r2 = HeadDone r s' ((b @ d) @ d') \<and> live s' \<and> incoming s = d' @ incoming s' \<and>
        length h \<le> length ((b @ d) @ d') \<and> rbody r = bd \<and> req_head_len r = length h \<and> req_parse httparse r0 ((b @ d) @ d') = (r, Complete)"
      by (rule 2(1)) (use 2(2,3) in auto)
    then show ?thesis unfolding r2 by (fastforce simp: append_assoc)
  qed
qed auto

lemma receive_ok:
  assumes t: "tokenized (e_httparse env) h p" and ok: "head_ok h p bd" and "length h \<le> e_max_head env"
    and w: "body_wire bd w d" "\<forall>sv. length d \<le> sc_max_body (e_core env sv) \<and> sc_max_body (e_core env sv) < 2 ^ 64"
    and s: "live (k_sock c)" "k_read c @ incoming (k_sock c) = h @ w @ rest" "length (h @ w @ rest) < 2 ^ 64"
  shows "\<exists>r b y r0. req_parse (e_httparse env) r0 b = (r, Complete) \<and> b = h @ y \<and>
    (case normalize (slice b (path r)) of
       Inl _ \<Rightarrow> receive env c = Ended (bare_error (e_writer env) 400)
     | Inr uri \<Rightarrow> \<exists>x interim s' pos.
         receive env c = Received (match_host (e_re_match env) (e_listener env) (host r b)) uri r (b @ x) interim (Inr (d, s', pos)) \<and>
         drop (min pos (length (b @ x))) (b @ x) @ incoming s' = rest \<and> live s')"
proof -
  from read_head_ok [OF t ok assms(3) s(1,2), of "k_req c"] obtain r s1 e r0 where
    h: "read_head (e_httparse env) (e_max_head env) (k_sock c) (k_read c) (k_req c) = HeadDone r s1 (k_read c @ e)"
      "live s1" "incoming (k_sock c) = e @ incoming s1" "length h \<le> length (k_read c @ e)" "rbody r = bd" "req_head_len r = length h"
      "req_parse (e_httparse env) r0 (k_read c @ e) = (r, Complete)" by blast
  let ?b = "k_read c @ e" and ?sv = "match_host (e_re_match env) (e_listener env) (host r (k_read c @ e))"
  have st: "?b @ incoming s1 = h @ w @ rest" using s(2) h(3) by simp
  from whole_head [OF st h(4)] obtain y where y: "?b = h @ y" by blast
  have "\<exists>s' x pos. snd (read_body (sc_max_body (e_core env ?sv)) r s1 ?b) = Inr (s', ?b @ x, d, pos) \<and> pos \<le> length (?b @ x) \<and>
      drop pos (?b @ x) @ incoming s' = rest \<and> live s'"
  proof (rule read_body_ok [OF _ _ _ h(2) st])
    show "body_wire (rbody r) w d" using w(1) h(5) by simp
    show "length (?b @ incoming s1) < 2 ^ 64" unfolding st by (rule s(3))
  qed (use w(2) h(4,6) in simp_all)
  then obtain s' x pos where
    b: "snd (read_body (sc_max_body (e_core env ?sv)) r s1 ?b) = Inr (s', ?b @ x, d, pos)" "pos \<le> length (?b @ x)"
      "drop pos (?b @ x) @ incoming s' = rest" "live s'" by blast
  obtain interim where rb: "read_body (sc_max_body (e_core env ?sv)) r s1 ?b = (interim, Inr (s', ?b @ x, d, pos))"
    using b(1) by (cases "read_body (sc_max_body (e_core env ?sv)) r s1 ?b") simp
  show ?thesis
  proof (cases "normalize (slice ?b (path r))")
    case (Inl u)
    then show ?thesis using h(1,7) y by (intro exI [of _ r] exI [of _ ?b] exI [of _ y] exI [of _ r0]) (simp add: receive_def Let_def)
  next
    case (Inr uri)
    have "receive env c = Received ?sv uri r (?b @ x) interim (Inr (d, s', pos))"
      by (simp only: receive_def h(1) head_result.case Let_def Inr rb sum.case prod.case)
    moreover have "drop (min pos (length (?b @ x))) (?b @ x) @ incoming s' = rest" using b(2,3) by simp
    ultimately have "\<exists>x interim s' pos. receive env c = Received ?sv uri r (?b @ x) interim (Inr (d, s', pos)) \<and>
        drop (min pos (length (?b @ x))) (?b @ x) @ incoming s' = rest \<and> live s'" using b(4) by blast
    note main = this
    show ?thesis
      by (rule exI [where x = r], rule exI [where x = ?b], rule exI [where x = y], rule exI [where x = r0])
        (use main h(7) y in \<open>simp only: Inr [unfolded y] sum.case simp_thms\<close>)
  qed
qed

lemma receive_rest:
  assumes "tokenized (e_httparse env) h p" "head_ok h p bd" "length h \<le> e_max_head env"
    and "body_wire bd w d" "\<forall>sv. length d \<le> sc_max_body (e_core env sv) \<and> sc_max_body (e_core env sv) < 2 ^ 64"
    and "live (k_sock c)" "k_read c @ incoming (k_sock c) = h @ w @ rest" "length (h @ w @ rest) < 2 ^ 64"
    and rc: "receive env c = Received sv uri r b interim (Inr (body, s, pos))"
  shows "drop (min pos (length b)) b @ incoming s = rest \<and> live s"
proof -
  obtain r' b' where c: "case normalize (slice b' (path r')) of
       Inl _ \<Rightarrow> receive env c = Ended (bare_error (e_writer env) 400)
     | Inr uri \<Rightarrow> \<exists>x interim s' pos.
         receive env c = Received (match_host (e_re_match env) (e_listener env) (host r' b')) uri r' (b' @ x) interim (Inr (d, s', pos)) \<and>
         drop (min pos (length (b' @ x))) (b' @ x) @ incoming s' = rest \<and> live s'"
    using receive_ok [OF assms(1-8)] by blast
  show ?thesis
  proof (cases "normalize (slice b' (path r'))")
    case (Inl u)
    with c rc show ?thesis by simp
  next
    case (Inr uri')
    with c obtain x i s' q where "receive env c = Received (match_host (e_re_match env) (e_listener env) (host r' b')) uri' r' (b' @ x) i (Inr (d, s', q))"
      and r: "drop (min q (length (b' @ x))) (b' @ x) @ incoming s' = rest" "live s'" by auto
    with rc have "b = b' @ x" "s = s'" "pos = q" by simp_all
    with r show ?thesis by simp
  qed
qed

lemma serve_turn_Next:
  assumes "serve_turn env c = Next c'"
  obtains sv uri r b interim body s pos where "receive env c = Received sv uri r b interim (Inr (body, s, pos))"
    "k_sock c' = s" "k_read c' = drop (min pos (length b)) b" "k_requests c' = k_requests c + 1" "k_requests c' < sc_keepalive_requests (e_core env sv)"
proof -
  have kept: "resp_keep_alive (rresp (final_reply sv r n ok rp)) \<Longrightarrow> n < sc_keepalive_requests sv" for sv r n ok rp
    by (auto simp: final_reply_def conn_reply_def frame_def Let_def split: if_splits reply_body.splits)
  from assms obtain sv uri r b interim res where rc: "receive env c = Received sv uri r b interim res"
    by (auto simp: serve_turn_def split: received.splits)
  moreover obtain body s pos where "res = Inr (body, s, pos)"
    using assms rc by (cases res) (auto simp: serve_turn_def Let_def split: prod.splits)
  ultimately show ?thesis using assms that
    by (auto simp: serve_turn_def Let_def dest!: kept split: prod.splits if_splits)
qed

text \<open>C4.
  One turn of the connection takes exactly one request off the stream, however the bytes arrive and whatever is pipelined behind
  it. A head the tokenizer accepts and the server does not refuse, followed by a body written with the framing of the head, is handed
  over with exactly that body, unless its path is refused with 400; and when the connection goes on, what is left in the buffer and on
  the socket is exactly the rest of the stream.\<close>

theorem http1_one_request:
  assumes "tokenized (e_httparse env) h p" "head_ok h p bd" "length h \<le> e_max_head env"
    and "body_wire bd w d" "\<forall>sv. length d \<le> sc_max_body (e_core env sv) \<and> sc_max_body (e_core env sv) < 2 ^ 64"
    and "live (k_sock c)" "k_read c @ incoming (k_sock c) = h @ w @ rest" "length (h @ w @ rest) < 2 ^ 64"
  shows "(\<exists>r b y r0. req_parse (e_httparse env) r0 b = (r, Complete) \<and> b = h @ y \<and>
      (case normalize (slice b (path r)) of
         Inl _ \<Rightarrow> receive env c = Ended (bare_error (e_writer env) 400)
       | Inr uri \<Rightarrow> \<exists>x interim s' pos.
           receive env c = Received (match_host (e_re_match env) (e_listener env) (host r b)) uri r (b @ x) interim (Inr (d, s', pos)))) \<and>
    (\<forall>c'. serve_turn env c = Next c' \<longrightarrow> k_read c' @ incoming (k_sock c') = rest \<and> live (k_sock c'))"
proof (intro conjI allI impI)
  show "\<exists>r b y r0. req_parse (e_httparse env) r0 b = (r, Complete) \<and> b = h @ y \<and>
      (case normalize (slice b (path r)) of
         Inl _ \<Rightarrow> receive env c = Ended (bare_error (e_writer env) 400)
       | Inr uri \<Rightarrow> \<exists>x interim s' pos.
           receive env c = Received (match_host (e_re_match env) (e_listener env) (host r b)) uri r (b @ x) interim (Inr (d, s', pos)))"
    using receive_ok [OF assms] by (fastforce split: sum.splits)
next
  fix c'
  assume "serve_turn env c = Next c'"
  then obtain sv uri r b interim body s pos where n: "receive env c = Received sv uri r b interim (Inr (body, s, pos))"
    "k_sock c' = s" "k_read c' = drop (min pos (length b)) b" by (rule serve_turn_Next)
  from receive_rest [OF assms n(1)] show "k_read c' @ incoming (k_sock c') = rest" "live (k_sock c')" using n(2,3) by simp_all
qed

text \<open>A concrete connection for the examples.\<close>

definition demo_head :: bytes where
  "demo_head = bs ''GET / HTTP/1.1'' @ [0x0D, 0x0A] @ bs ''Host: x'' @ [0x0D, 0x0A, 0x0D, 0x0A]"

definition demo_parts1 :: hp_request where
  "demo_parts1 = \<lparr>hp_method = Some (0, 3), hp_path = Some (4, 5), hp_version = Some 1, hp_headers = [((16, 20), (22, 23))]\<rparr>"

definition demo_tokenizer :: "bytes \<Rightarrow> hp_error + (hp_status \<times> hp_request)" where
  "demo_tokenizer b =
    Inr (if take (length demo_head) b = demo_head then HpComplete (length demo_head) else HpPartial, demo_parts1)"

definition demo_core :: server_core where
  "demo_core = \<lparr>sc_max_body = 1048576, sc_keepalive_requests = 1000, sc_keepalive_timeout = 75, sc_server_tokens = TokensOn,
     sc_output_buffer = 32768, sc_sendfile = False\<rparr>"

definition demo_stream_reply :: "nat http_reply" where
  "demo_stream_reply = \<lparr>rresp = resp_new, reply_body = BStream (bs ''ab'') [] (Some 10)\<rparr>"

definition demo_env :: "(nat, nat, nat) cenv" where
  "demo_env = \<lparr>e_httparse = demo_tokenizer, e_listener = \<lparr>servers = [(0, [])], default_server = 0\<rparr>, e_re_match = (\<lambda>_ _. False),
     e_core = (\<lambda>_. demo_core), e_max_head = 32768, e_handle = (\<lambda>_ _ _ _ _ _. demo_stream_reply),
     e_error_reply = (\<lambda>_ _ _ _. demo_stream_reply),
     e_writer = \<lparr>w_read_at = (\<lambda>_ _ _. []), w_version = bs ''1'', w_date = bs ''d'', w_plain_tcp = True\<rparr>\<rparr>"

lemma demo_head_length: "length demo_head = 27"
  by (simp add: demo_head_def)

lemma demo_tokenized: "tokenized demo_tokenizer demo_head demo_parts1"
proof -
  have "take (length demo_head) (take n demo_head) \<noteq> demo_head" if "n < length demo_head" for n
    using arg_cong [of "take (length demo_head) (take n demo_head)" demo_head length] that by auto
  then show ?thesis
    by (auto simp: tokenized_def demo_tokenizer_def max_headers_respected_def demo_parts1_def demo_head_length)
      (simp add: demo_head_def)
qed

lemma demo_head_ok: "head_ok demo_head demo_parts1 NoBody"
proof -
  have "kept_headers demo_head demo_parts1 = [((16, 20), (22, 23))]"
    "header_values demo_head [((16, 20), (22, 23))] (bs ''host'') = [bs ''x'']"
    "header_values demo_head [((16, 20), (22, 23))] (bs ''transfer-encoding'') = []"
    "header_values demo_head [((16, 20), (22, 23))] (bs ''content-length'') = []"
    by code_simp+
  then show ?thesis by (simp add: head_ok_def demo_parts1_def del: bs_simps)
qed

theorem http1_one_request_witness:
  "\<exists>r b y r0. req_parse demo_tokenizer r0 b = (r, Complete) \<and> b = demo_head @ y \<and>
      (case normalize (slice b (path r)) of
         Inl _ \<Rightarrow> receive demo_env (conn_start (take 5 demo_head) [Data (drop 5 demo_head @ bs ''GET'')]) = Ended (bare_error (e_writer demo_env) 400)
       | Inr uri \<Rightarrow> \<exists>x interim s' pos.
           receive demo_env (conn_start (take 5 demo_head) [Data (drop 5 demo_head @ bs ''GET'')]) =
             Received (match_host (e_re_match demo_env) (e_listener demo_env) (host r b)) uri r (b @ x) interim (Inr ([], s', pos)))"
proof -
  have "e_httparse demo_env = demo_tokenizer" "e_max_head demo_env = 32768" "\<And>sv. e_core demo_env sv = demo_core"
    by (simp_all add: demo_env_def)
  then show ?thesis
    using http1_one_request [of demo_env demo_head demo_parts1 NoBody "[]" "[]"
      "conn_start (take 5 demo_head) [Data (drop 5 demo_head @ bs ''GET'')]" "bs ''GET''"] demo_tokenized demo_head_ok
    by (simp add: demo_head_length conn_start_def demo_core_def)
qed

text \<open>C35.
  The loop of a connection ends: when no server allows more than \<open>k\<close> requests on a connection, and \<open>k\<close> is at least 1, the loop
  has ended after at most \<open>k\<close> turns, whatever the client sends and however long it keeps sending.\<close>

theorem http1_serve_terminates:
  assumes "\<forall>sv. sc_keepalive_requests (e_core env sv) \<le> k" "0 < k"
  shows "\<exists>t. serve_conn k env (conn_start prefix s) = Some t"
proof -
  have "\<exists>t. serve_conn n env c = Some t" if "0 < n" "k \<le> n + k_requests c" for n c
    using that
  proof (induction n arbitrary: c)
    case (Suc n)
    show ?case
    proof (cases "serve_turn env c")
      case (Next c')
      then obtain sv where "k_requests c' = k_requests c + 1" "k_requests c' < sc_keepalive_requests (e_core env sv)"
        by (rule serve_turn_Next)
      moreover from this(2) assms(1) have "k_requests c' < k" by (meson less_le_trans)
      ultimately have "0 < n" "k \<le> n + k_requests c'" using Suc.prems(2) by auto
      from Suc.IH [OF this] Next show ?thesis by simp
    qed auto
  qed simp
  from this [of k "conn_start prefix s"] assms(2) show ?thesis by simp
qed

theorem http1_serve_terminates_witness:
  "\<exists>t. serve_conn 1000 demo_env (conn_start [] [Data demo_head, Data demo_head]) = Some t"
  by (rule http1_serve_terminates) (simp_all add: demo_env_def demo_core_def)

section \<open>Persistence\<close>


lemma demo_receive:
  obtains r where "receive demo_env (conn_start demo_head []) = Received 0 (bs ''/'') r demo_head [] (Inr ([], [], 27))"
    "keep_alive r" "rmethod r = Get" "minor r = 1"
proof -
  have sub: "sub demo_head (0, 3) = bs ''GET''" "sub demo_head (4, 5) = bs ''/''"
    by (simp_all add: sub_def demo_head_def)
  have vals: "method_parse (bs ''GET'') = Get" "split_query (bs ''/'') = (bs ''/'', [])" "normalize (bs ''/'') = Inr (bs ''/'')"
    "slice demo_head (4, 5) = bs ''/''" "keep_alive_spec 1 (header_values demo_head (kept_headers demo_head demo_parts1) (bs ''connection''))"
    by code_simp+
  from parse_head_ok [OF demo_tokenized demo_head_ok, of req_new "[]"] obtain r where
    r: "req_parse demo_tokenizer req_new demo_head = (r, Complete)" "rbody r = NoBody" "req_head_len r = 27"
      "rmethod r = Get" "path r = (4, 5)" "minor r = 1" "keep_alive r"
    by (auto simp: sub vals line_fields_def demo_parts1_def demo_head_length simp del: bs_simps) (use vals(5) in \<open>simp add: demo_parts1_def del: bs_simps\<close>)
  have "read_head demo_tokenizer 32768 [] demo_head req_new = HeadDone r [] demo_head"
    using r(1) demo_head_length by (subst read_head.simps) auto
  then have "receive demo_env (conn_start demo_head []) = Received 0 (bs ''/'') r demo_head [] (Inr ([], [], 27))"
    using r(2,3,5) vals(3,4) by (simp add: receive_def demo_env_def conn_start_def read_body_def match_host_def all_names_def Let_def del: bs_simps)
  then show ?thesis using that r(4,6,7) by blast
qed


section \<open>Bodies that end early\<close>

text \<open>
  A proxied body that ends before its announced length does not close the connection: when the upstream closes after fewer bytes than
  the Content-Length that was sent, the turn still counts as written and the connection is kept, so the client reads the next response
  as the missing part of this one.\<close>

theorem http1_short_body_kept:
  assumes "receive env c = Received sv uri r b interim (Inr (body, s, pos))"
    and "e_handle env sv r b body uri (k_requests c + 1) = \<lparr>rresp = rs, reply_body = BStream pre [] (Some n)\<rparr>"
    and "resp_framing rs = FNone" "\<not> is_bodyless (status rs)" "length pre < unat n"
    and "resp_keep_alive rs" "keep_alive r" "k_requests c + 1 < sc_keepalive_requests (e_core env sv)"
    and "0 < sc_keepalive_timeout (e_core env sv)" "rmethod r \<noteq> Head"
  shows "\<exists>c'. serve_turn env c = Next c' \<and>
    k_out c' = k_out c @ interim @ write_head (sc_server_tokens (e_core env sv)) (w_version (e_writer env)) (w_date (e_writer env))
        (rs\<lparr>resp_keep_alive := True, resp_framing := FLength n\<rparr>) @ pre"
proof -
  have fin: "final_reply (e_core env sv) r (k_requests c + 1) True \<lparr>rresp = rs, reply_body = BStream pre [] (Some n)\<rparr> =
      \<lparr>rresp = rs\<lparr>resp_keep_alive := True, resp_framing := FLength n\<rparr>, reply_body = BStream pre [] (Some n)\<rparr>"
    using assms(3,4,6-10) by (simp add: final_reply_def conn_reply_def frame_def Let_def)
  have up: "stream_upstream pre [] (Some (unat n)) = (pre, True)"
    using assms(5) by (simp add: stream_upstream_def stream_upstream_loop.simps)
  show ?thesis
    unfolding serve_turn_def assms(1) received.case Let_def sum.case prod.case assms(2) fin
    using up assms(10) by (simp add: write_reply_def Let_def)
qed

theorem http1_short_body_kept_witness:
  "\<exists>c'. serve_turn demo_env (conn_start demo_head []) = Next c' \<and>
    k_out c' = [] @ [] @ write_head TokensOn (bs ''1'') (bs ''d'') (resp_new\<lparr>resp_keep_alive := True, resp_framing := FLength 10\<rparr>) @ bs ''ab''"
proof -
  obtain r where r: "receive demo_env (conn_start demo_head []) = Received 0 (bs ''/'') r demo_head [] (Inr ([], [], 27))"
    "keep_alive r" "rmethod r = Get" by (rule demo_receive) blast
  have "\<exists>c'. serve_turn demo_env (conn_start demo_head []) = Next c' \<and>
    k_out c' = k_out (conn_start demo_head []) @ [] @ write_head (sc_server_tokens (e_core demo_env 0)) (w_version (e_writer demo_env)) (w_date (e_writer demo_env))
        (resp_new\<lparr>resp_keep_alive := True, resp_framing := FLength 10\<rparr>) @ bs ''ab''"
    by (rule http1_short_body_kept [OF r(1)])
      (use r(2,3) in \<open>simp_all add: demo_env_def demo_stream_reply_def conn_start_def resp_new_def is_bodyless_def demo_core_def\<close>)
  then show ?thesis by (simp add: demo_env_def demo_core_def conn_start_def del: bs_simps)
qed

section \<open>The writers\<close>

lemma write_head_and_slice_from:
  "write_head_and_slice takes hb body i j = Some out \<Longrightarrow> i \<le> length hb \<Longrightarrow> (i < length hb \<longrightarrow> j = 0) \<Longrightarrow> out = drop i hb @ drop j body"
proof (induction takes arbitrary: i j out)
  case Nil
  then show ?case by (subst (asm) write_head_and_slice.simps) (auto split: if_splits)
next
  case (Cons n takes)
  show ?case
  proof (cases "i < length hb \<or> j < length body")
    case False
    with Cons.prems show ?thesis by (subst (asm) write_head_and_slice.simps) auto
  next
    case True
    let ?k = "min n (length hb - i)"
    from True Cons.prems(1) obtain out1 where o: "n \<noteq> 0" "write_head_and_slice takes hb body (i + ?k) (j + (n - ?k)) = Some out1"
      "out = take n (drop i hb @ drop j body) @ out1"
      by (subst (asm) write_head_and_slice.simps) (auto simp: Let_def split: if_splits)
    have "out1 = drop (i + ?k) hb @ drop (j + (n - ?k)) body"
      by (rule Cons.IH [OF o(2)]) (use Cons.prems(2,3) in auto)
    moreover have "drop n (drop i hb @ drop j body) = drop (i + ?k) hb @ drop (j + (n - ?k)) body"
      by (cases "n \<le> length hb - i") (auto simp: add.commute)
    ultimately have "out = take n (drop i hb @ drop j body) @ drop n (drop i hb @ drop j body)" using o(3) by simp
    then show ?thesis by (simp only: append_take_drop_id)
  qed
qed

text \<open>Reads of a file with given content: never more than asked, and something while there is something.\<close>

definition reads_file :: "(nat \<Rightarrow> nat \<Rightarrow> bytes) \<Rightarrow> bytes \<Rightarrow> bool" where
  "reads_file read_at content \<longleftrightarrow>
     (\<forall>pos want. \<exists>k \<le> want. read_at pos want = take k (drop pos content) \<and> (0 < want \<and> pos < length content \<longrightarrow> 0 < k))"

lemma stream_loop_exact:
  "reads_file read_at content \<Longrightarrow> 0 < chunk \<Longrightarrow> stream_loop read_at chunk len sent pos = take (len - sent) (drop pos content)"
proof (induction read_at chunk len sent pos rule: stream_loop.induct)
  case (1 read_at chunk len sent pos)
  show ?case
  proof (cases "sent < len")
    case True
    let ?want = "min chunk (len - sent)"
    from 1(2) obtain k where k: "k \<le> ?want" "read_at pos ?want = take k (drop pos content)"
      "0 < ?want \<and> pos < length content \<longrightarrow> 0 < k" unfolding reads_file_def by blast
    have got: "take ?want (read_at pos ?want) = take k (drop pos content)" using k(1,2) by (simp add: min_absorb2)
    show ?thesis
    proof (cases "take k (drop pos content) = []")
      case True': True
      then have "length content \<le> pos" using k(3) True 1(3) by (cases "pos < length content") auto
      with True True' got show ?thesis by (subst stream_loop.simps) (simp add: Let_def)
    next
      case False
      let ?g = "take k (drop pos content)"
      have "stream_loop read_at chunk len (sent + length ?g) (pos + length ?g) = take (len - (sent + length ?g)) (drop (pos + length ?g) content)"
        using 1(1) [OF True refl refl] 1(2,3) False got by simp
      then have "stream_loop read_at chunk len sent pos = ?g @ take (len - sent - length ?g) (drop (length ?g) (drop pos content))"
        using stream_loop.simps [of read_at chunk len sent pos] True False
        by (simp only: Let_def got if_True if_False drop_drop diff_diff_left add.commute)
      moreover have "?g = take (length ?g) (drop pos content)" "length ?g \<le> len - sent" using k(1) by (auto simp: min_def split: if_splits)
      ultimately show ?thesis by (metis le_add_diff_inverse take_add)
    qed
  qed (subst stream_loop.simps, simp)
qed

lemma stream_upstream_loop_exact:
  "live io \<Longrightarrow> n - sent \<le> length (incoming io) \<Longrightarrow> stream_upstream_loop io sent (Some n) = (take (n - sent) (incoming io), True)"
proof (induction io arbitrary: sent rule: live.induct)
  case 1
  then show ?case by (subst stream_upstream_loop.simps) simp
next
  case (2 d s)
  show ?case
  proof (cases "n \<le> sent")
    case False
    let ?k = "min (length d) (n - sent)"
    have "stream_upstream_loop (Data d # s) sent (Some n) = apfst ((@) (take ?k d)) (stream_upstream_loop s (sent + ?k) (Some n))"
      using False 2(2) by (subst stream_upstream_loop.simps) (simp add: Let_def)
    also have "\<dots> = (take ?k d @ take (n - (sent + ?k)) (incoming s), True)"
      using 2(1) [of "sent + ?k"] 2(2,3) by simp
    finally show ?thesis by (cases "length d \<le> n - sent") simp_all
  qed (subst stream_upstream_loop.simps, simp)
qed auto

text \<open>The source of a body holds at least what the head announces.\<close>

fun supplied :: "'f wenv \<Rightarrow> (bytes, 'f, sock, sock) reply_body \<Rightarrow> bool" where
  "supplied w (BMmap m i j) \<longleftrightarrow> i \<le> j \<and> j \<le> length m \<and> length m < 2 ^ 64"
| "supplied w (BBytes b) \<longleftrightarrow> length b < 2 ^ 64"
| "supplied w (BInline f off n) \<longleftrightarrow> unat n \<le> length (w_read_at w f (unat off) (unat n))"
| "supplied w (BFile f off n) \<longleftrightarrow> (\<exists>content. reads_file (w_read_at w f) content \<and> unat off + unat n \<le> length content)"
| "supplied w (BStream pre io (Some n)) \<longleftrightarrow> live io \<and> length pre \<le> unat n \<and> unat n \<le> length pre + length (incoming io)"
| "supplied w _ \<longleftrightarrow> True"

text \<open>
  A response body is as long as its head announces: for every kind of body with a known length whose source
  holds at least that many bytes (a mapped window, an open file read in pieces of any size, an upstream stream cut in any
  way), exactly that many bytes are written. For a body of bytes or a window of a mapped file in one vectored write with its
  head, the bytes are the head and the body, however the peer takes them.\<close>

theorem http1_body_complete:
  assumes "known_len b = Some n" "supplied w b"
  shows "snd (body_out w sv b) \<and> length (fst (body_out w sv b)) = unat n \<and>
    (\<forall>takes hb out. write_head_and_slice takes hb (fst (body_out w sv b)) 0 0 = Some out \<longrightarrow> out = hb @ fst (body_out w sv b))"
proof -
  have "snd (body_out w sv b) \<and> length (fst (body_out w sv b)) = unat n"
  proof (cases b)
    case (BBytes x)
    with assms show ?thesis by (auto simp: unat_of_nat)
  next
    case (BMmap m i j)
    with assms have "n = of_nat (j - i)" "j - i < 2 ^ 64" by auto
    then have "unat n = j - i" by (simp add: unat_of_nat del: of_nat_diff)
    with BMmap assms(2) show ?thesis by (auto intro: min_absorb2)
  next
    case (BFile f off k)
    with assms obtain content where c: "reads_file (w_read_at w f) content" "unat off + unat n \<le> length content" "k = n" by auto
    have "stream_file (w_read_at w f) (sc_output_buffer sv) sf (unat off) (unat n) = take (unat n) (drop (unat off) content)" for sf
      by (cases sf) (simp_all add: stream_file_def clamp_def stream_loop_exact [OF c(1)] less_max_iff_disj)
    with BFile c(2,3) show ?thesis by simp
  next
    case (BStream pre io m)
    with assms have "m = Some n" "live io" "length pre \<le> unat n" "unat n - length pre \<le> length (incoming io)" by auto
    with BStream stream_upstream_loop_exact [of io "unat n" "length pre"] show ?thesis by (simp add: stream_upstream_def)
  qed (use assms in auto)
  then show ?thesis using write_head_and_slice_from [of _ _ _ 0 0] by auto
qed

theorem http1_body_complete_witness:
  "snd (body_out (e_writer demo_env) demo_core (BStream (bs ''ab'') [Data (bs ''cd''), Data (bs ''ef'')] (Some 5))) \<and>
   length (fst (body_out (e_writer demo_env) demo_core (BStream (bs ''ab'') [Data (bs ''cd''), Data (bs ''ef'')] (Some 5)))) = 5"
  using http1_body_complete [of "BStream (bs ''ab'') [Data (bs ''cd''), Data (bs ''ef'')] (Some 5)" 5 "e_writer demo_env" demo_core] by simp



text \<open>
  A streamed body of unknown length is announced as chunked to an HTTP/1.1 client and written as it comes: the bytes of the stream
  follow the head without chunk lines, which is right only when the stream already has them.
\<close>

theorem stream_written_unchunked:
  fixes w :: "'f wenv"
  assumes "unframed rs" "\<not> is_bodyless (status rs)" "live io" "minor r = 1" "rmethod r \<noteq> Head"
    and "fin = final_reply sv r requests body_ok \<lparr>rresp = rs, reply_body = BStream pre io None\<rparr>"
  shows "write_reply w sv False fin =
      (write_head (sc_server_tokens sv) (w_version w) (w_date w) (rresp fin) @ pre @ incoming io, True) \<and>
    recipient False (status rs, head_fields (sc_server_tokens sv) (w_version w) (w_date w) (rresp fin)) = DChunks"
proof -
  have "stream_upstream_loop io k None = (incoming io, True)" for k
    using assms(3) by (induction io arbitrary: k rule: live.induct) (simp_all add: stream_upstream_loop.simps)
  moreover have "reply_body fin = BStream pre io None"
    using assms(2,5) unfolding assms(6) by (simp add: final_reply_def conn_reply_def frame_def Let_def)
  moreover have "recipient False (status rs, head_fields t v d (rresp fin)) = DChunks" for t v d
    using recipient_conn_reply [of "\<lparr>rresp = rs, reply_body = BStream pre io None\<rparr> :: 'f http_reply" False] assms(1,2,4,5)
    unfolding assms(6) final_reply_def by simp
  ultimately show ?thesis by (simp add: write_reply_def stream_upstream_def Let_def)
qed

theorem stream_written_unchunked_witness:
  "fst (write_reply (e_writer demo_env) demo_core False
      (final_reply demo_core (req_new\<lparr>minor := 1\<rparr>) 1 True \<lparr>rresp = resp_new, reply_body = BStream [] [Data (bs ''cd'')] None\<rparr>)) =
    write_head TokensOn (bs ''1'') (bs ''d'') (rresp (final_reply demo_core (req_new\<lparr>minor := 1\<rparr>) 1 True
      (\<lparr>rresp = resp_new, reply_body = BStream [] [Data (bs ''cd'')] None\<rparr> :: nat http_reply))) @ bs ''cd''"
proof -
  have "unframed resp_new" "\<not> is_bodyless (status resp_new)" "rmethod (req_new\<lparr>minor := 1\<rparr>) \<noteq> Head" "live [Data (bs ''cd'')]"
    by (simp_all add: unframed_def is_bodyless_def req_new_def) (simp_all add: resp_new_def)
  moreover have "sc_server_tokens demo_core = TokensOn" "w_version (e_writer demo_env) = bs ''1''" "w_date (e_writer demo_env) = bs ''d''"
    by (simp_all add: demo_env_def demo_core_def)
  ultimately show ?thesis using stream_written_unchunked [of resp_new "[Data (bs ''cd'')]" "req_new\<lparr>minor := 1\<rparr>" _ demo_core 1 True "[]" "e_writer demo_env"]
    by (simp del: bs_simps)
qed

section \<open>The pool of connection states\<close>

record conn_state =
  ps_read :: bytes
  ps_write :: bytes
  ps_body :: bytes
  ps_consumed :: nat
  ps_req :: req
  ps_capacity :: "nat \<times> nat \<times> nat"

abbreviation POOL_KEEP_MAX :: nat where "POOL_KEEP_MAX \<equiv> 65536"
abbreviation POOL_MAX :: nat where "POOL_MAX \<equiv> 512"

definition conn_state_default :: conn_state where
  "conn_state_default = \<lparr>ps_read = [], ps_write = [], ps_body = [], ps_consumed = 0, ps_req = req_new, ps_capacity = (8192, 8192, 0)\<rparr>"

definition state_take :: "conn_state list \<Rightarrow> conn_state \<times> conn_state list" where
  "state_take pool = (if pool = [] then (conn_state_default, []) else (last pool, butlast pool))"

definition state_drop :: "conn_state \<Rightarrow> conn_state list \<Rightarrow> conn_state list" where
  "state_drop st pool =
    (case ps_capacity st of (cr, cw, cb) \<Rightarrow>
       if POOL_KEEP_MAX < cr \<or> POOL_KEEP_MAX < cw \<or> POOL_KEEP_MAX < cb then pool
       else (let st = st\<lparr>ps_read := [], ps_write := [], ps_body := [], ps_consumed := 0, ps_req := req_reset (ps_req st)\<rparr>
             in if length pool < POOL_MAX then pool @ [st] else pool))"

text \<open>A worker takes a state for a connection, and gives any state back when the connection ends.\<close>

inductive pool_step :: "conn_state list \<Rightarrow> conn_state list \<Rightarrow> bool" where
  pool_taken: "pool_step pool (snd (state_take pool))"
| pool_given: "pool_step pool (state_drop st pool)"

inductive_cases pool_stepE: "pool_step pool pool'"

definition fresh_state :: "conn_state \<Rightarrow> bool" where
  "fresh_state st \<longleftrightarrow> ps_read st = [] \<and> ps_write st = [] \<and> ps_body st = [] \<and> ps_consumed st = 0 \<and>
     headers (ps_req st) = [] \<and> req_head_len (ps_req st) = 0 \<and> rbody (ps_req st) = NoBody \<and>
     (case ps_capacity st of (cr, cw, cb) \<Rightarrow> cr \<le> POOL_KEEP_MAX \<and> cw \<le> POOL_KEEP_MAX \<and> cb \<le> POOL_KEEP_MAX)"

definition pool_inv :: "conn_state list \<Rightarrow> bool" where
  "pool_inv pool \<longleftrightarrow> length pool \<le> POOL_MAX \<and> list_all fresh_state pool"

lemma state_drop_inv: "pool_inv pool \<Longrightarrow> pool_inv (state_drop st pool)"
  by (auto simp: pool_inv_def state_drop_def fresh_state_def req_reset_def Let_def split: prod.splits)

lemma state_take_inv: "pool_inv pool \<Longrightarrow> fresh_state (fst (state_take pool)) \<and> pool_inv (snd (state_take pool))"
proof -
  have "fresh_state conn_state_default" by (simp add: conn_state_default_def fresh_state_def req_new_def)
  then show "pool_inv pool \<Longrightarrow> ?thesis"
    by (auto simp: pool_inv_def state_take_def list_all_iff dest: in_set_butlastD)
qed

interpretation conn_pool: invariant_system "\<lambda>pool. pool = []" pool_step pool_inv
proof (unfold_locales, goal_cases)
  case (1 pool)
  then show ?case by (simp add: pool_inv_def)
next
  case (2 pool pool')
  from 2(2) show ?case by (rule pool_stepE) (use 2(1) in \<open>simp_all add: state_drop_inv state_take_inv\<close>)
qed

text \<open>
  A connection never sees the bytes of another one: in every reachable state of a worker's pool it holds at most 512 states with buffers
  of at most 64 KiB, and the state the next connection gets has empty buffers, nothing consumed and no parsed headers.\<close>

theorem conn_pool_fresh:
  assumes "reachable (\<lambda>pool. pool = []) pool_step pool"
  shows "length pool \<le> POOL_MAX \<and> fresh_state (fst (state_take pool))"
  using conn_pool.reachable_inv [OF assms] state_take_inv by (auto simp: pool_inv_def)

theorem conn_pool_fresh_witness:
  "length (state_drop (conn_state_default\<lparr>ps_read := [1, 2]\<rparr>) []) \<le> POOL_MAX \<and>
   fresh_state (fst (state_take (state_drop (conn_state_default\<lparr>ps_read := [1, 2]\<rparr>) [])))"
proof (rule conn_pool_fresh)
  show "reachable (\<lambda>pool. pool = []) pool_step (state_drop (conn_state_default\<lparr>ps_read := [1, 2]\<rparr>) [])"
    by (rule reach_step [of _ _ "[]"]) (auto intro: reach_init pool_given)
qed

end
