(* ===== verification/Handler.thy ===== *)
theory Handler
  imports Response Routing Request Uri
begin

text \<open>
  The life of a request (\<^verbatim>\<open>server/handler.rs\<close>): server rewrites and conditions, the location, limits, methods,
  authorisation by a subrequest, location rewrites, \<^verbatim>\<open>try_files\<close>, the action, error pages with their
  internal redirects, and the headers and compression added to the finished reply. A template is the function
  that renders it; regular expressions, file metadata, the limits, the content handlers, the clock's
  dates and the compressor are arguments. What the phases do that others can observe (a routing pass, a charge of
  the limits, a subrequest with the status of its reply, a content handler run) is logged in the context.
\<close>

section \<open>The context of a request\<close>

datatype 'r hevent = EvPass | EvLimits | EvSubrequest bytes req bytes nat | EvContent "'r location option"

record 'r hctx =
  h_buf :: bytes
  h_req :: req
  h_uri :: bytes
  h_args :: bytes
  h_captures :: "bytes list"
  h_set_vars :: "(bytes \<times> bytes) list"
  h_upstream_headers :: "(bytes \<times> bytes) list"
  h_auth_depth :: nat
  h_matched :: "'r location option"
  h_scheme :: bytes
  h_local_port :: "nat option"
  h_vars :: "(bytes \<times> bytes) list"
  h_log :: "'r hevent list"

type_synonym 'r tmpl = "'r hctx \<Rightarrow> bytes"

definition log_event :: "'r hevent \<Rightarrow> 'r hctx \<Rightarrow> 'r hctx" where
  "log_event ev ctx = ctx\<lparr>h_log := h_log ctx @ [ev]\<rparr>"

fun assoc_set :: "'k \<Rightarrow> 'v \<Rightarrow> ('k \<times> 'v) list \<Rightarrow> ('k \<times> 'v) list" where
  "assoc_set k v [] = [(k, v)]"
| "assoc_set k v ((k', v') # kvs) = (if k' = k then (k', v) # kvs else (k', v') # assoc_set k v kvs)"

definition ctx_set :: "bytes \<Rightarrow> bytes \<Rightarrow> 'r hctx \<Rightarrow> 'r hctx" where
  "ctx_set name value ctx = ctx\<lparr>h_set_vars := assoc_set name value (h_set_vars ctx)\<rparr>"

definition ctx_new :: "bytes \<Rightarrow> req \<Rightarrow> bytes \<Rightarrow> bytes \<Rightarrow> nat option \<Rightarrow> 'r hctx" where
  "ctx_new buf r uri scheme port =
    \<lparr>h_buf = buf, h_req = r, h_uri = uri, h_args = slice buf (query r), h_captures = [], h_set_vars = [],
     h_upstream_headers = [], h_auth_depth = 0, h_matched = None, h_scheme = scheme, h_local_port = port, h_vars = [], h_log = []\<rparr>"

section \<open>Configuration\<close>

datatype rewrite_flag = FlagNone | FlagLast | FlagBreak | FlagRedirect | FlagPermanent

record 'r rewrite =
  rw_re :: 'r
  rw_replacement :: "'r tmpl"
  rw_flag :: rewrite_flag

datatype 'r cond =
    CAlways
  | CTruthy "'r tmpl"
  | CEq "'r tmpl" "'r tmpl"
  | CNe "'r tmpl" "'r tmpl"
  | CMatch "'r tmpl" 'r bool
  | CFileExists "'r tmpl" bool
  | CDirExists "'r tmpl" bool
  | CAnyExists "'r tmpl" bool
  | CExecutable "'r tmpl" bool

record 'r add_header_conf =
  ah_name :: bytes
  ah_value :: "'r tmpl"
  ah_always :: bool

datatype 'r if_action =
    IReturn nat "'r tmpl option"
  | IRewrite "'r rewrite"
  | ISet bytes "'r tmpl"
  | IAddHeader "'r add_header_conf"
  | IBreak

type_synonym 'r if_block = "'r cond \<times> 'r if_action list"

datatype 'r error_target = TUri "'r tmpl" | TNamed bytes | TRedirect "'r tmpl"

record 'r error_page_conf =
  ep_codes :: "nat list"
  ep_replace :: "nat option"
  ep_target :: "'r error_target"

datatype 'r try_fallback = TryStatus nat | TryUri "'r tmpl" | TryNamed bytes

record 'r try_files_conf =
  tf_items :: "'r tmpl list"
  tf_fallback :: "'r try_fallback"

datatype ('r, 'p) action =
    AReturn nat "'r tmpl option"
  | AProxy 'p
  | AFastCgi 'p
  | AStubStatus bool
  | AStatic
  | ANone

datatype expires_conf = ExpOff | ExpEpoch | ExpMax | ExpSecs int | ExpDaily int

record gzip_conf =
  gz_enabled :: bool
  gz_level :: nat
  gz_min_length :: nat
  gz_types :: "bytes list"
  gz_vary :: bool
  gz_http10 :: bool

record 'r hcore =
  hc_root :: "'r tmpl"
  hc_alias :: "'r tmpl option"
  hc_internal :: bool
  hc_auth_request :: "bytes option"
  hc_auth_set :: "(bytes \<times> 'r tmpl) list"
  hc_default_type :: bytes
  hc_add_headers :: "'r add_header_conf list"
  hc_expires :: "expires_conf option"
  hc_gzip :: gzip_conf
  hc_server_tokens :: server_tokens

text \<open>The directives of a location beside its matcher, and of the server.\<close>

record ('r, 'p) hloc =
  hl_core :: "'r hcore"
  hl_action :: "('r, 'p) action"
  hl_try_files :: "'r try_files_conf option"
  hl_rewrites :: "'r rewrite list"
  hl_ifs :: "'r if_block list"
  hl_error_pages :: "'r error_page_conf list"
  hl_methods :: "bytes list option"

record ('r, 'p) hserver =
  hs_core :: "'r hcore"
  hs_locations :: "'r loc_set"
  hs_rewrites :: "'r rewrite list"
  hs_ifs :: "'r if_block list"
  hs_error_pages :: "'r error_page_conf list"
  hs_action :: "('r, 'p) action"
  hs_alt_svc :: "bytes option"

type_synonym 'f hreply = "(bytes, 'f, 'f, 'f) reply"

text \<open>What the file handler gives.\<close>

datatype 'f served_to = SReply "'f hreply" | SInternal bytes | SStatus nat

datatype 'f step = Done "'f hreply" | Fail nat | Internal bytes | Named bytes

record fmeta =
  fm_file :: bool
  fm_dir :: bool
  fm_exec :: bool

text \<open>What the handler calls: \<open>e_loc\<close> are the directives of a location.\<close>

record ('r, 'f, 'p) henv =
  e_server :: "('r, 'p) hserver"
  e_loc :: "'r location \<Rightarrow> ('r, 'p) hloc"
  e_captures :: "'r \<Rightarrow> bytes \<Rightarrow> bytes list option"
  e_meta :: "bytes \<Rightarrow> fmeta option"
  e_limits :: "'r hctx \<Rightarrow> 'r hcore \<Rightarrow> nat option"
  e_static :: "'r hctx \<Rightarrow> 'r location option \<Rightarrow> (bytes \<times> bytes) list \<times> 'f served_to"
  e_proxy :: "'r hctx \<Rightarrow> 'r location \<Rightarrow> 'p \<Rightarrow> (bytes \<times> bytes) list \<times> (nat + 'f hreply)"
  e_fastcgi :: "'r hctx \<Rightarrow> 'r location \<Rightarrow> 'p \<Rightarrow> (bytes \<times> bytes) list \<times> (nat + 'f hreply)"
  e_stub :: "bool \<Rightarrow> bytes"
  e_version :: bytes
  e_date :: "int \<Rightarrow> bytes"
  e_gzip :: "nat \<Rightarrow> bytes \<Rightarrow> bytes"
  e_file_read :: "'f \<Rightarrow> nat \<Rightarrow> nat \<Rightarrow> bytes option"

definition matched_core :: "('r, 'f, 'p) henv \<Rightarrow> 'r hctx \<Rightarrow> 'r hcore" where
  "matched_core env ctx = (case h_matched ctx of Some l \<Rightarrow> hl_core (e_loc env l) | None \<Rightarrow> hs_core (e_server env))"

section \<open>Replies made here\<close>

definition error_body :: "('r, 'f, 'p) henv \<Rightarrow> resp \<Rightarrow> nat \<Rightarrow> 'f hreply" where
  "error_body env r code =
    (if is_bodyless code then \<lparr>rresp = r, reply_body = BEmpty\<rparr>
     else (let body = error_page code (signature (hc_server_tokens (hs_core (e_server env))) (e_version env));
               r = (if \<not> resp_has (bs ''content-type'') r then add_header (bs ''Content-Type'') (bs ''text/html'') r else r)
           in \<lparr>rresp = r, reply_body = BBytes body\<rparr>))"

definition error_reply :: "('r, 'f, 'p) henv \<Rightarrow> nat \<Rightarrow> 'f hreply" where
  "error_reply env code =
    (let r = resp_new\<lparr>status := code\<rparr>;
         r = (if 400 \<le> code \<and> code \<in> {400, 408, 413, 414, 431, 500, 501, 505} then r\<lparr>resp_keep_alive := False\<rparr> else r)
     in error_body env r code)"

definition redirect :: "('r, 'f, 'p) henv \<Rightarrow> 'r hctx \<Rightarrow> nat \<Rightarrow> bytes \<Rightarrow> 'f hreply" where
  "redirect env ctx code tgt =
    (let loc = (if h_args ctx \<noteq> [] \<and> 0x3F \<notin> set tgt then tgt @ [0x3F] @ h_args ctx else tgt)
     in error_body env (add_header (bs ''Location'') loc (resp_new\<lparr>status := code\<rparr>)) code)"

definition return_reply :: "('r, 'f, 'p) henv \<Rightarrow> 'r hctx \<Rightarrow> nat \<Rightarrow> 'r tmpl option \<Rightarrow> 'f hreply" where
  "return_reply env ctx code body =
    (let r = resp_new\<lparr>status := code\<rparr>; text = map_option (\<lambda>t. t ctx) body
     in if 300 \<le> code \<and> code < 400
        then \<lparr>rresp = (case text of Some url \<Rightarrow> add_header (bs ''Location'') url r | None \<Rightarrow> r), reply_body = BEmpty\<rparr>
        else if code = 204 then \<lparr>rresp = r, reply_body = BEmpty\<rparr>
        else (case text of
                Some t \<Rightarrow> \<lparr>rresp = add_header (bs ''Content-Type'') (hc_default_type (matched_core env ctx)) r, reply_body = BBytes t\<rparr>
              | None \<Rightarrow> error_reply env code))"

section \<open>Rewrites, conditions, files\<close>

text \<open>A query string in a replacement replaces the arguments.\<close>

definition take_query :: "bytes \<Rightarrow> 'r hctx \<Rightarrow> bytes \<times> 'r hctx" where
  "take_query tgt ctx =
    (case position (\<lambda>c. c = 0x3F) tgt of
       Some i \<Rightarrow> (take i tgt, ctx\<lparr>h_args := drop (i + 1) tgt\<rparr>)
     | None \<Rightarrow> (tgt, ctx))"

definition is_absolute :: "bytes \<Rightarrow> bool" where
  "is_absolute t \<longleftrightarrow> starts_with t (bs ''http://'') \<or> starts_with t (bs ''https://'')"

fun run_rewrites :: "('r, 'f, 'p) henv \<Rightarrow> 'r rewrite list \<Rightarrow> 'r hctx \<Rightarrow> 'r hctx \<times> 'f step option" where
  "run_rewrites env [] ctx = (ctx, None)"
| "run_rewrites env (rw # rws) ctx =
    (case e_captures env (rw_re rw) (h_uri ctx) of
       None \<Rightarrow> run_rewrites env rws ctx
     | Some caps \<Rightarrow>
        (let ctx = ctx\<lparr>h_captures := caps\<rparr>; (tgt, ctx) = take_query (rw_replacement rw ctx) ctx
         in if rw_flag rw = FlagRedirect then (ctx, Some (Done (redirect env ctx 302 tgt)))
            else if rw_flag rw = FlagPermanent then (ctx, Some (Done (redirect env ctx 301 tgt)))
            else if is_absolute tgt then (ctx, Some (Done (redirect env ctx 302 tgt)))
            else if rw_flag rw = FlagLast then (ctx\<lparr>h_uri := tgt\<rparr>, Some (Internal tgt))
            else if rw_flag rw = FlagBreak then (ctx\<lparr>h_uri := tgt\<rparr>, None)
            else run_rewrites env rws (ctx\<lparr>h_uri := tgt\<rparr>)))"

definition eval_cond :: "('r, 'f, 'p) henv \<Rightarrow> 'r hctx \<Rightarrow> 'r cond \<Rightarrow> bool" where
  "eval_cond env ctx c =
    (case c of
       CAlways \<Rightarrow> True
     | CTruthy v \<Rightarrow> v ctx \<noteq> [] \<and> v ctx \<noteq> bs ''0''
     | CEq v t \<Rightarrow> v ctx = t ctx
     | CNe v t \<Rightarrow> v ctx \<noteq> t ctx
     | CMatch v re neg \<Rightarrow> (e_captures env re (v ctx) \<noteq> None) \<noteq> neg
     | CFileExists t neg \<Rightarrow> (case e_meta env (t ctx) of Some m \<Rightarrow> fm_file m | None \<Rightarrow> False) \<noteq> neg
     | CDirExists t neg \<Rightarrow> (case e_meta env (t ctx) of Some m \<Rightarrow> fm_dir m | None \<Rightarrow> False) \<noteq> neg
     | CAnyExists t neg \<Rightarrow> (e_meta env (t ctx) \<noteq> None) \<noteq> neg
     | CExecutable t neg \<Rightarrow> (case e_meta env (t ctx) of Some m \<Rightarrow> fm_exec m | None \<Rightarrow> False) \<noteq> neg)"

text \<open>The actions of one block; \<open>True\<close> when a \<^verbatim>\<open>break\<close> ends all blocks.\<close>

fun run_if_actions :: "('r, 'f, 'p) henv \<Rightarrow> 'r if_action list \<Rightarrow> 'r hctx \<Rightarrow> 'r hctx \<times> 'f step option \<times> bool" where
  "run_if_actions env [] ctx = (ctx, None, False)"
| "run_if_actions env (a # as) ctx =
    (case a of
       IReturn code body \<Rightarrow> (ctx, Some (Done (return_reply env ctx code body)), True)
     | ISet v t \<Rightarrow> run_if_actions env as (ctx_set v (t ctx) ctx)
     | IRewrite rw \<Rightarrow>
        (case run_rewrites env [rw] ctx of
           (ctx, Some s) \<Rightarrow> (ctx, Some s, True)
         | (ctx, None) \<Rightarrow> run_if_actions env as ctx)
     | IAddHeader _ \<Rightarrow> run_if_actions env as ctx
     | IBreak \<Rightarrow> (ctx, None, True))"

fun run_ifs :: "('r, 'f, 'p) henv \<Rightarrow> 'r if_block list \<Rightarrow> 'r hctx \<Rightarrow> 'r hctx \<times> 'f step option" where
  "run_ifs env [] ctx = (ctx, None)"
| "run_ifs env ((c, as) # bls) ctx =
    (if eval_cond env ctx c
     then (case run_if_actions env as ctx of
             (ctx, s, True) \<Rightarrow> (ctx, s)
           | (ctx, _, False) \<Rightarrow> run_ifs env bls ctx)
     else run_ifs env bls ctx)"

fun try_items :: "('r, 'f, 'p) henv \<Rightarrow> bytes \<Rightarrow> 'r tmpl list \<Rightarrow> 'r hctx \<Rightarrow> bytes option" where
  "try_items env root [] ctx = None"
| "try_items env root (t # ts) ctx =
    (let cand = t ctx
     in if cand = [] then try_items env root ts ctx
        else (let p = root @ (if hd cand = 0x2F then [] else [0x2F]) @ cand
              in case e_meta env p of
                   Some m \<Rightarrow> if (if last cand = 0x2F then fm_dir m else fm_file m) then Some cand else try_items env root ts ctx
                 | None \<Rightarrow> try_items env root ts ctx))"

definition run_try_files :: "('r, 'f, 'p) henv \<Rightarrow> 'r hcore \<Rightarrow> 'r try_files_conf \<Rightarrow> 'r hctx \<Rightarrow> 'r hctx \<times> 'f step option" where
  "run_try_files env core tf ctx =
    (let root = (case hc_alias core of Some a \<Rightarrow> a ctx | None \<Rightarrow> hc_root core ctx)
     in case try_items env root (tf_items tf) ctx of
          Some cand \<Rightarrow> if cand = h_uri ctx then (ctx, None) else (ctx, Some (Internal cand))
        | None \<Rightarrow>
           (case tf_fallback tf of
              TryStatus s \<Rightarrow> (ctx, Some (Fail s))
            | TryNamed n \<Rightarrow> (ctx, Some (Named n))
            | TryUri t \<Rightarrow> (let (tgt, ctx) = take_query (t ctx) ctx in (ctx, Some (Internal tgt)))))"

section \<open>Authorisation\<close>

text \<open>\<open>answer\<close> answers the subrequest; the log keeps the request that was made and the status of its answer.\<close>

definition auth_headers :: "'r hctx \<Rightarrow> (bytes \<times> bytes) list" where
  "auth_headers ctx =
    filter (\<lambda>(n, _). map to_ascii_lowercase n \<notin> {bs ''content-length'', bs ''transfer-encoding'', bs ''expect''})
      (map (\<lambda>h. (slice (h_buf ctx) (fst h), slice (h_buf ctx) (snd h))) (headers (h_req ctx)))"

definition run_auth_request ::
  "('r hctx \<Rightarrow> 'f hreply) \<Rightarrow> 'r hctx \<Rightarrow> bytes \<Rightarrow> 'r hcore \<Rightarrow> 'r hctx \<times> (nat + unit)" where
  "run_auth_request answer ctx uri core =
    (if 0 < h_auth_depth ctx then (ctx, Inl 500)
     else (let (buf, r) = from_parts (bs ''GET'') uri (auth_headers ctx)
           in case normalize (slice buf (path r)) of
                Inl _ \<Rightarrow> (ctx, Inl 500)
              | Inr u \<Rightarrow>
                 (let rp = answer ((ctx_new buf r u (h_scheme ctx) (h_local_port ctx))\<lparr>h_auth_depth := h_auth_depth ctx + 1\<rparr>);
                      ctx = ctx\<lparr>h_upstream_headers := resp_iter (rresp rp)\<rparr>;
                      ctx = fold (\<lambda>(n, t) ctx. ctx_set n (t ctx) ctx) (hc_auth_set core) ctx;
                      st = status (rresp rp);
                      ctx = log_event (EvSubrequest buf r u st) ctx
                  in if 200 \<le> st \<and> st \<le> 299 then (ctx, Inr ())
                     else if st = 401 \<or> st = 403 then (ctx, Inl st)
                     else (ctx, Inl 500))))"

section \<open>Dispatch and routing\<close>

definition method_allowed :: "bytes list option \<Rightarrow> http_method \<Rightarrow> bool" where
  "method_allowed allowed m =
    (case allowed of
       None \<Rightarrow> True
     | Some as \<Rightarrow> list_ex (\<lambda>a. a = method_as_str m \<or> a = bs ''GET'' \<and> m = Head) as)"

definition of_result :: "nat + 'f hreply \<Rightarrow> 'f step" where
  "of_result x = (case x of Inl code \<Rightarrow> Fail code | Inr rp \<Rightarrow> Done rp)"

definition served_to_step :: "'f served_to \<Rightarrow> 'f step" where
  "served_to_step x = (case x of SReply rp \<Rightarrow> Done rp | SInternal u \<Rightarrow> Internal u | SStatus code \<Rightarrow> Fail code)"

text \<open>A content handler leaves the variables it computed in the context.\<close>

definition keep_vars :: "'r hctx \<Rightarrow> (bytes \<times> bytes) list \<times> 'x \<Rightarrow> ('x \<Rightarrow> 'f step) \<Rightarrow> 'r hctx \<times> 'f step" where
  "keep_vars ctx x f = (ctx\<lparr>h_vars := fst x\<rparr>, f (snd x))"

definition run_action :: "('r, 'f, 'p) henv \<Rightarrow> 'r location \<Rightarrow> 'r hctx \<Rightarrow> 'r hctx \<times> 'f step" where
  "run_action env loc ctx0 =
    (let ctx = log_event (EvContent (Some loc)) ctx0
     in case hl_action (e_loc env loc) of
          AReturn code body \<Rightarrow> (ctx, Done (return_reply env ctx code body))
        | ANone \<Rightarrow> (ctx, Fail 404)
        | AProxy p \<Rightarrow> keep_vars ctx (e_proxy env ctx loc p) of_result
        | AFastCgi p \<Rightarrow> keep_vars ctx (e_fastcgi env ctx loc p) of_result
        | AStubStatus json \<Rightarrow>
           (ctx, Done \<lparr>rresp = add_header (bs ''Cache-Control'') (bs ''no-cache, no-store'')
                          (add_header (bs ''Content-Type'') (if json then bs ''application/json'' else bs ''text/plain'') resp_new),
                       reply_body = BBytes (e_stub env json)\<rparr>)
        | AStatic \<Rightarrow> keep_vars ctx (e_static env ctx (Some loc)) served_to_step)"

text \<open>The phases after the access checks.\<close>

definition run_content :: "('r, 'f, 'p) henv \<Rightarrow> 'r location \<Rightarrow> 'r hctx \<Rightarrow> 'r hctx \<times> 'f step" where
  "run_content env loc ctx =
    (let l = e_loc env loc
     in case run_rewrites env (hl_rewrites l) ctx of
          (ctx, Some s) \<Rightarrow> (ctx, s)
        | (ctx, None) \<Rightarrow>
           (case run_ifs env (hl_ifs l) ctx of
              (ctx, Some s) \<Rightarrow> (ctx, s)
            | (ctx, None) \<Rightarrow>
               (case hl_try_files l of
                  None \<Rightarrow> run_action env loc ctx
                | Some tf \<Rightarrow>
                   (case run_try_files env (hl_core l) tf ctx of
                      (ctx, Some s) \<Rightarrow> (ctx, s)
                    | (ctx, None) \<Rightarrow> run_action env loc ctx))))"

definition dispatch_loc ::
  "('r, 'f, 'p) henv \<Rightarrow> ('r hctx \<Rightarrow> bytes \<Rightarrow> 'r hcore \<Rightarrow> 'r hctx \<times> (nat + unit)) \<Rightarrow> bool \<Rightarrow> 'r location \<Rightarrow> 'r hctx
   \<Rightarrow> 'r hctx \<times> 'f step" where
  "dispatch_loc env auth internal loc ctx =
    (let l = e_loc env loc; core = hl_core l
     in if hc_internal core \<and> \<not> internal then (ctx, Fail 404)
        else
          (let lim = (if internal then None else e_limits env ctx core);
               ctx = (if internal then ctx else log_event EvLimits ctx)
           in case lim of
                Some st \<Rightarrow> (ctx, Fail st)
              | None \<Rightarrow>
                 if \<not> method_allowed (hl_methods l) (rmethod (h_req ctx)) then (ctx, Fail 405)
                 else (case hc_auth_request core of
                         None \<Rightarrow> run_content env loc ctx
                       | Some uri \<Rightarrow>
                          (case auth ctx uri core of
                             (ctx, Inl code) \<Rightarrow> (ctx, Fail code)
                           | (ctx, Inr _) \<Rightarrow> run_content env loc ctx))))"

definition route ::
  "('r, 'f, 'p) henv \<Rightarrow> ('r hctx \<Rightarrow> bytes \<Rightarrow> 'r hcore \<Rightarrow> 'r hctx \<times> (nat + unit)) \<Rightarrow> bool \<Rightarrow> 'r hctx \<Rightarrow> 'r hctx \<times> 'f step" where
  "route env auth internal ctx =
    (let sv = e_server env
     in case loc_find (e_captures env) (hs_locations sv) (h_uri ctx) of
          Some (loc, c) \<Rightarrow>
            (let (loc, caps) = descend (e_captures env) (h_uri ctx) loc c;
                 ctx = (case caps of Some c \<Rightarrow> ctx\<lparr>h_captures := c\<rparr> | None \<Rightarrow> ctx)
             in dispatch_loc env auth internal loc (ctx\<lparr>h_matched := Some loc\<rparr>))
        | None \<Rightarrow>
            (let ctx = ctx\<lparr>h_matched := None\<rparr>;
                 lim = (if internal then None else e_limits env ctx (hs_core sv));
                 ctx = (if internal then ctx else log_event EvLimits ctx)
             in case lim of
                  Some st \<Rightarrow> (ctx, Fail st)
                | None \<Rightarrow>
                   (let ctx = log_event (EvContent None) ctx
                    in case hs_action sv of
                         AReturn code body \<Rightarrow> (ctx, Done (return_reply env ctx code body))
                       | _ \<Rightarrow> keep_vars ctx (e_static env ctx None) served_to_step)))"

section \<open>Error pages\<close>

datatype error_route = RUri bytes "nat option" | RNamed bytes "nat option" | RRedirect bytes "nat option"

definition error_page_for :: "('r, 'f, 'p) henv \<Rightarrow> 'r hctx \<Rightarrow> nat \<Rightarrow> error_route option" where
  "error_page_for env ctx code =
    (let own = (case h_matched ctx of Some l \<Rightarrow> hl_error_pages (e_loc env l) | None \<Rightarrow> []);
         pages = (if own \<noteq> [] then own else hs_error_pages (e_server env))
     in case find (\<lambda>p. code \<in> set (ep_codes p)) pages of
          None \<Rightarrow> None
        | Some ep \<Rightarrow>
           (let rep = (case ep_replace ep of None \<Rightarrow> Some code | Some n \<Rightarrow> if n = 0 then None else Some n)
            in case ep_target ep of
                 TUri t \<Rightarrow> if t ctx = h_uri ctx then None else Some (RUri (t ctx) rep)
               | TNamed n \<Rightarrow> Some (RNamed n rep)
               | TRedirect t \<Rightarrow> Some (RRedirect (t ctx) rep)))"

section \<open>The finished reply\<close>

definition header_status_ok :: "nat \<Rightarrow> bool" where
  "header_status_ok st \<longleftrightarrow> 200 \<le> st \<and> st \<le> 299 \<or> st \<in> {301, 302, 303, 304, 307, 308}"

definition add_headers :: "'r hctx \<Rightarrow> 'r add_header_conf list \<Rightarrow> resp \<Rightarrow> resp" where
  "add_headers ctx hs r =
    fold (\<lambda>h r. if (ah_always h \<or> header_status_ok (status r)) \<and> ah_value h ctx \<noteq> []
                then add_header (ah_name h) (ah_value h ctx) r else r) hs r"

definition int_text :: "int \<Rightarrow> bytes" where
  "int_text i = (if i < 0 then bs ''-'' @ dec_digits (nat (- i)) else dec_digits (nat i))"

definition apply_expires :: "(int \<Rightarrow> bytes) \<Rightarrow> expires_conf \<Rightarrow> resp \<Rightarrow> resp" where
  "apply_expires date e r =
    (let put = \<lambda>cc ex. resp_set (bs ''Cache-Control'') cc (resp_set (bs ''Expires'') ex r)
     in case e of
          ExpOff \<Rightarrow> r
        | ExpEpoch \<Rightarrow> put (bs ''no-cache'') (bs ''Thu, 01 Jan 1970 00:00:00 GMT'')
        | ExpMax \<Rightarrow> put (bs ''max-age=315360000'') (bs ''Thu, 31 Dec 2037 23:55:55 GMT'')
        | ExpSecs n \<Rightarrow> if n < 0 then put (bs ''no-cache'') (date 0) else put (bs ''max-age='' @ int_text n) (date n)
        | ExpDaily n \<Rightarrow> put (bs ''max-age='' @ int_text n) (date n))"

abbreviation GZIP_MAX_FILE :: nat where "GZIP_MAX_FILE \<equiv> 8388608"

fun raw_body :: "('r, 'f, 'p) henv \<Rightarrow> (bytes, 'f, 'f, 'f) reply_body \<Rightarrow> bytes option" where
  "raw_body env (BBytes b) = Some b"
| "raw_body env (BMmap m i j) = Some (take (j - i) (drop i m))"
| "raw_body env (BInline f off n) = e_file_read env f (unat off) (unat n)"
| "raw_body env (BFile f off n) = e_file_read env f (unat off) (unat n)"
| "raw_body env _ = None"

definition gzip_wanted :: "'r hctx \<Rightarrow> gzip_conf \<Rightarrow> 'f hreply \<Rightarrow> bool" where
  "gzip_wanted ctx g rp =
    (gz_enabled g \<and> \<not> resp_has (bs ''content-encoding'') (rresp rp) \<and> accepts_gzip (h_req ctx) (h_buf ctx)
     \<and> (minor (h_req ctx) = 0 \<longrightarrow> gz_http10 g)
     \<and> (case resp_get (bs ''content-type'') (rresp rp) of
          None \<Rightarrow> False
        | Some ct \<Rightarrow> (let base = trim (hd (split_on 0x3B ct)) in base \<in> set (gz_types g) \<or> base = bs ''text/html''))
     \<and> (case known_len (reply_body rp) of
          None \<Rightarrow> False
        | Some n \<Rightarrow> gz_min_length g \<le> unat n \<and> unat n \<le> GZIP_MAX_FILE))"

definition maybe_gzip :: "('r, 'f, 'p) henv \<Rightarrow> 'r hctx \<Rightarrow> gzip_conf \<Rightarrow> 'f hreply \<Rightarrow> 'f hreply" where
  "maybe_gzip env ctx g rp =
    (if \<not> gzip_wanted ctx g rp then rp
     else (case raw_body env (reply_body rp) of
             None \<Rightarrow> rp
           | Some raw \<Rightarrow>
              (let r = add_header (bs ''Content-Encoding'') (bs ''gzip'') (rresp rp);
                   r = (if gz_vary g then add_header (bs ''Vary'') (bs ''Accept-Encoding'') r else r);
                   r = (case resp_get (bs ''etag'') r of
                          Some e \<Rightarrow> if starts_with e (bs ''W/'') then r else resp_set (bs ''ETag'') (bs ''W/'' @ e) r
                        | None \<Rightarrow> r)
               in \<lparr>rresp = r, reply_body = BBytes (e_gzip env (gz_level g) raw)\<rparr>)))"

definition decorate :: "('r, 'f, 'p) henv \<Rightarrow> 'r hctx \<Rightarrow> 'f hreply \<Rightarrow> 'f hreply" where
  "decorate env ctx rp =
    (let core = matched_core env ctx;
         r = add_headers ctx (hc_add_headers core) (rresp rp);
         r = (case hc_expires core of Some e \<Rightarrow> apply_expires (e_date env) e r | None \<Rightarrow> r);
         r = (case hs_alt_svc (e_server env) of
                Some alt \<Rightarrow> if list_ex (\<lambda>(n, _). eq_ignore_ascii_case n (bs ''alt-svc'')) (resp_iter r) then r
                            else add_header (bs ''Alt-Svc'') alt r
              | None \<Rightarrow> r)
     in maybe_gzip env ctx (hc_gzip core) (rp\<lparr>rresp := r\<rparr>))"

section \<open>The loop\<close>

abbreviation MAX_INTERNAL_REDIRECTS :: nat where "MAX_INTERNAL_REDIRECTS \<equiv> 10"

definition routing_pass ::
  "('r, 'f, 'p) henv \<Rightarrow> ('r hctx \<Rightarrow> bytes \<Rightarrow> 'r hcore \<Rightarrow> 'r hctx \<times> (nat + unit)) \<Rightarrow> bytes option \<Rightarrow> bool \<Rightarrow> 'r hctx
   \<Rightarrow> 'r hctx \<times> 'f step" where
  "routing_pass env auth nm internal ctx =
    (let ctx = log_event EvPass ctx
     in case nm of
          Some n \<Rightarrow>
            (case map_of (named_locs (hs_locations (e_server env))) n of
               Some loc \<Rightarrow> dispatch_loc env auth True loc (ctx\<lparr>h_matched := Some loc\<rparr>)
             | None \<Rightarrow> (ctx, Fail 500))
        | None \<Rightarrow> route env auth internal ctx)"

definition override :: "nat option \<Rightarrow> 'f hreply \<Rightarrow> 'f hreply" where
  "override ovr rp = (case ovr of Some st \<Rightarrow> rp\<lparr>rresp := (rresp rp)\<lparr>status := st\<rparr>\<rparr> | None \<Rightarrow> rp)"

function handle_loop ::
  "('r, 'f, 'p) henv \<Rightarrow> ('r hctx \<Rightarrow> bytes \<Rightarrow> 'r hcore \<Rightarrow> 'r hctx \<times> (nat + unit)) \<Rightarrow> bytes option \<Rightarrow> bool \<Rightarrow> nat option \<Rightarrow> nat
   \<Rightarrow> 'r hctx \<Rightarrow> 'r hctx \<times> 'f hreply" where
  "handle_loop env auth nm internal ovr redirects ctx =
    (case routing_pass env auth nm internal ctx of
       (ctx, s) \<Rightarrow>
        (let too_many = (\<lambda>ctx. (ctx, decorate env ctx (error_reply env 500)))
         in case s of
              Done rp \<Rightarrow> (ctx, decorate env ctx (override ovr rp))
            | Internal u \<Rightarrow>
               if MAX_INTERNAL_REDIRECTS < redirects + 1 then too_many ctx
               else handle_loop env auth None True ovr (redirects + 1) (ctx\<lparr>h_uri := u\<rparr>)
            | Named n \<Rightarrow>
               if MAX_INTERNAL_REDIRECTS < redirects + 1 then too_many ctx
               else handle_loop env auth (Some n) True ovr (redirects + 1) ctx
            | Fail code \<Rightarrow>
               (case error_page_for env ctx code of
                  Some (RUri u rep) \<Rightarrow>
                    if MAX_INTERNAL_REDIRECTS < redirects + 1 then too_many ctx
                    else handle_loop env auth None True rep (redirects + 1) (ctx\<lparr>h_uri := u\<rparr>)
                | Some (RNamed n rep) \<Rightarrow>
                    if MAX_INTERNAL_REDIRECTS < redirects + 1 then too_many ctx
                    else handle_loop env auth (Some n) True rep (redirects + 1) ctx
                | Some (RRedirect url rep) \<Rightarrow>
                    (ctx, decorate env ctx
                       \<lparr>rresp = add_header (bs ''Location'') url (resp_new\<lparr>status := (case rep of Some n \<Rightarrow> n | None \<Rightarrow> 302)\<rparr>),
                        reply_body = BEmpty\<rparr>)
                | None \<Rightarrow> (ctx, decorate env ctx (error_reply env code)))))"
  by pat_completeness auto
termination
  by (relation "measure (\<lambda>(_, _, _, _, _, n, _). 11 - n)") auto

declare handle_loop.simps [simp del]

text \<open>A step of the server phase: a reply ends the request, a new URI is routed.\<close>

definition finish :: "('r, 'f, 'p) henv \<Rightarrow> 'r hctx \<times> 'f step option \<Rightarrow> 'r hctx \<times> 'f hreply option" where
  "finish env x =
    (case x of
       (ctx, Some (Done rp)) \<Rightarrow> (ctx, Some (decorate env ctx rp))
     | (ctx, Some (Fail code)) \<Rightarrow> (ctx, Some (decorate env ctx (error_reply env code)))
     | (ctx, Some (Internal u)) \<Rightarrow> (ctx\<lparr>h_uri := u\<rparr>, None)
     | (ctx, _) \<Rightarrow> (ctx, None))"

definition handle_with ::
  "('r, 'f, 'p) henv \<Rightarrow> ('r hctx \<Rightarrow> bytes \<Rightarrow> 'r hcore \<Rightarrow> 'r hctx \<times> (nat + unit)) \<Rightarrow> 'r hctx \<Rightarrow> 'r hctx \<times> 'f hreply" where
  "handle_with env auth ctx =
    (case finish env (run_rewrites env (hs_rewrites (e_server env)) ctx) of
       (ctx, Some rp) \<Rightarrow> (ctx, rp)
     | (ctx, None) \<Rightarrow>
        (case finish env (run_ifs env (hs_ifs (e_server env)) ctx) of
           (ctx, Some rp) \<Rightarrow> (ctx, rp)
         | (ctx, None) \<Rightarrow> handle_loop env auth None (0 < h_auth_depth ctx) None 0 ctx))"

text \<open>A subrequest that asks for authorisation itself is refused, so one level of subrequests is all there is.\<close>

definition handle_sub :: "('r, 'f, 'p) henv \<Rightarrow> 'r hctx \<Rightarrow> 'f hreply" where
  "handle_sub env ctx = snd (handle_with env (\<lambda>ctx _ _. (ctx, Inl 500)) ctx)"

definition handle :: "('r, 'f, 'p) henv \<Rightarrow> 'r hctx \<Rightarrow> 'r hctx \<times> 'f hreply" where
  "handle env ctx = handle_with env (run_auth_request (handle_sub env)) ctx"

definition absolute_url :: "'r hctx \<Rightarrow> bytes \<Rightarrow> bytes" where
  "absolute_url ctx p =
    (let h = host (h_req ctx) (h_buf ctx); port = (case h_local_port ctx of Some n \<Rightarrow> n | None \<Rightarrow> 0);
         default = (if h_scheme ctx = bs ''https'' then 443 else 80)
     in h_scheme ctx @ bs ''://'' @ (if h = [] then bs ''localhost'' else h)
        @ (if port \<noteq> default then bs '':'' @ push_num [] (of_nat port) else []) @ p)"

section \<open>What the phases leave alone\<close>

text \<open>The rewrite and condition phases write neither the log nor the depth of subrequests.\<close>

abbreviation same_frame :: "'r hctx \<Rightarrow> 'r hctx \<Rightarrow> bool" where
  "same_frame ctx' ctx \<equiv> h_log ctx' = h_log ctx \<and> h_auth_depth ctx' = h_auth_depth ctx"

named_theorems frame_simps

lemma frame_ctx_set [frame_simps]: "h_log (ctx_set n v ctx) = h_log ctx" "h_auth_depth (ctx_set n v ctx) = h_auth_depth ctx"
  by (simp_all add: ctx_set_def)

lemma frame_take_query [frame_simps]:
  "h_log (snd (take_query t ctx)) = h_log ctx" "h_auth_depth (snd (take_query t ctx)) = h_auth_depth ctx"
  by (auto simp: take_query_def split: option.splits)

lemma frame_run_rewrites [frame_simps]: "same_frame (fst (run_rewrites env rws ctx)) ctx"
proof (induction rws arbitrary: ctx)
  case (Cons rw rws)
  have q: "take_query t c = (t', c') \<Longrightarrow> same_frame c' c" for t t' c c'
    using frame_take_query [of t c] by simp
  show ?case using Cons by (auto simp: Let_def split: option.splits prod.splits if_splits dest: q)
qed simp

lemma frame_run_if_actions [frame_simps]: "same_frame (fst (run_if_actions env as ctx)) ctx"
proof (induction "as" arbitrary: ctx)
  case (Cons a as)
  have q: "run_rewrites env rws c = (c', s) \<Longrightarrow> same_frame c' c" for rws c c' s
    using frame_run_rewrites [of env rws c] by simp
  show ?case using Cons
    by (auto simp: frame_simps simp del: run_rewrites.simps split: if_action.splits option.splits prod.splits dest: q)
qed simp

lemma frame_run_ifs [frame_simps]: "same_frame (fst (run_ifs env bls ctx)) ctx"
proof (induction bls arbitrary: ctx)
  case (Cons bl bls)
  obtain c as where bl: "bl = (c, as)" by fastforce
  obtain ctx' s b where r: "run_if_actions env as ctx = (ctx', s, b)" by (cases "run_if_actions env as ctx") auto
  have "same_frame ctx' ctx" using frame_run_if_actions [of env "as" ctx] r by simp
  then show ?case using Cons r by (cases b) (simp_all add: bl)
qed simp

lemma frame_run_try_files [frame_simps]: "same_frame (fst (run_try_files env core tf ctx)) ctx"
proof -
  have q: "take_query t c = (t', c') \<Longrightarrow> same_frame c' c" for t t' c c'
    using frame_take_query [of t c] by simp
  show ?thesis
    by (auto simp: run_try_files_def Let_def split: option.splits try_fallback.splits prod.splits dest: q)
qed

lemma frame_fold_ctx_set:
  "h_log (fold (\<lambda>(n, t) ctx. ctx_set n (t ctx) ctx) xs ctx) = h_log ctx"
  by (induction xs arbitrary: ctx) (auto simp: frame_simps)

text \<open>
  \<open>granted env u ev\<close>: the event is a subrequest for the URI \<open>u\<close>, handled by the server like any request, whose reply has a status
  of 200 to 299. An authoriser writes nothing but the subrequest it made, and lets a request pass only when it was granted.
\<close>

definition granted :: "('r, 'f, 'p) henv \<Rightarrow> bytes \<Rightarrow> 'r hevent \<Rightarrow> bool" where
  "granted env u ev \<longleftrightarrow>
    (\<exists>buf r p st hs scheme port. ev = EvSubrequest buf r p st \<and> from_parts (bs ''GET'') u hs = (buf, r) \<and> normalize (slice buf (path r)) = Inr p
      \<and> st = status (rresp (handle_sub env ((ctx_new buf r p scheme port)\<lparr>h_auth_depth := 1\<rparr>))) \<and> 200 \<le> st \<and> st \<le> 299)"

definition authoriser :: "('r, 'f, 'p) henv \<Rightarrow> ('r hctx \<Rightarrow> bytes \<Rightarrow> 'r hcore \<Rightarrow> 'r hctx \<times> (nat + unit)) \<Rightarrow> bool" where
  "authoriser env auth \<longleftrightarrow>
    (\<forall>ctx u core ctx' x. auth ctx u core = (ctx', x) \<longrightarrow>
       h_log ctx' = h_log ctx \<and> x \<noteq> Inr ()
       \<or> (\<exists>buf r p st. h_log ctx' = h_log ctx @ [EvSubrequest buf r p st] \<and> (x = Inr () \<longrightarrow> granted env u (EvSubrequest buf r p st))))"

lemma authoriser_run_auth_request: "authoriser env (run_auth_request (handle_sub env))"
  unfolding authoriser_def
proof (intro allI impI)
  fix ctx ctx' :: "'a hctx" and u core x
  assume a: "run_auth_request (handle_sub env) ctx u core = (ctx', x)"
  obtain buf r where fp: "from_parts (bs ''GET'') u (auth_headers ctx) = (buf, r)" by fastforce
  show "h_log ctx' = h_log ctx \<and> x \<noteq> Inr ()
    \<or> (\<exists>buf r p st. h_log ctx' = h_log ctx @ [EvSubrequest buf r p st] \<and> (x = Inr () \<longrightarrow> granted env u (EvSubrequest buf r p st)))"
  proof (cases "h_auth_depth ctx = 0 \<and> (\<exists>p. normalize (slice buf (path r)) = Inr p)")
    case False
    then show ?thesis using a by (auto simp: run_auth_request_def fp Let_def simp del: bs_simps split: if_splits sum.splits)
  next
    case True
    then obtain p where p: "normalize (slice buf (path r)) = Inr p" and d: "h_auth_depth ctx = 0" by blast
    let ?st = "status (rresp (handle_sub env ((ctx_new buf r p (h_scheme ctx) (h_local_port ctx))\<lparr>h_auth_depth := 1\<rparr>)))"
    have "h_log ctx' = h_log ctx @ [EvSubrequest buf r p ?st]"
      using a by (auto simp: run_auth_request_def fp p d Let_def log_event_def frame_fold_ctx_set simp del: bs_simps split: if_splits)
    moreover have "x = Inr () \<longrightarrow> 200 \<le> ?st \<and> ?st \<le> 299"
      using a by (auto simp: run_auth_request_def fp p d Let_def simp del: bs_simps split: if_splits)
    ultimately show ?thesis using fp p unfolding granted_def by blast
  qed
qed

section \<open>The trace of a request\<close>

text \<open>
  What one routing pass may leave in the log: the limits, unless the pass is internal; then, for a location that
  asks for authorisation, the content only after the authorisation.
\<close>

definition loc_events :: "('r, 'f, 'p) henv \<Rightarrow> 'r hevent list \<Rightarrow> bool" where
  "loc_events env es \<longleftrightarrow>
    es \<in> {[], [EvContent None]}
    \<or> (\<exists>buf r p st. es = [EvSubrequest buf r p st])
    \<or> (\<exists>loc u buf r p st. hc_auth_request (hl_core (e_loc env loc)) = Some u \<and> granted env u (EvSubrequest buf r p st)
         \<and> es = [EvSubrequest buf r p st, EvContent (Some loc)])
    \<or> (\<exists>loc. es = [EvContent (Some loc)] \<and> hc_auth_request (hl_core (e_loc env loc)) = None)"

definition pass_events :: "('r, 'f, 'p) henv \<Rightarrow> bool \<Rightarrow> 'r hevent list \<Rightarrow> bool" where
  "pass_events env internal es \<longleftrightarrow>
    (\<exists>lims rest. es = EvPass # lims @ rest \<and> loc_events env rest \<and> (lims = [] \<or> \<not> internal \<and> lims = [EvLimits]))"

lemma pass_eventsI:
  "loc_events env rest \<Longrightarrow> lims = [] \<or> \<not> internal \<and> lims = [EvLimits] \<Longrightarrow> pass_events env internal (EvPass # lims @ rest)"
  unfolding pass_events_def by blast

lemma log_log_event [frame_simps]: "h_log (log_event ev ctx) = h_log ctx @ [ev]"
  by (simp add: log_event_def)

lemma log_keep_vars [frame_simps]: "h_log (fst (keep_vars ctx x f)) = h_log ctx"
  by (simp add: keep_vars_def)

lemma run_action_log: "h_log (fst (run_action env loc ctx)) = h_log ctx @ [EvContent (Some loc)]"
  by (simp add: run_action_def Let_def frame_simps split: action.splits)

lemma run_content_log: "h_log (fst (run_content env loc ctx)) \<in> {h_log ctx, h_log ctx @ [EvContent (Some loc)]}"
proof -
  obtain ctx1 s1 where r1: "run_rewrites env (hl_rewrites (e_loc env loc)) ctx = (ctx1, s1)" by fastforce
  obtain ctx2 s2 where r2: "run_ifs env (hl_ifs (e_loc env loc)) ctx1 = (ctx2, s2)" by fastforce
  have "h_log ctx1 = h_log ctx" "h_log ctx2 = h_log ctx"
    using frame_run_rewrites [of env "hl_rewrites (e_loc env loc)" ctx] frame_run_ifs [of env "hl_ifs (e_loc env loc)" ctx1]
    by (simp_all add: r1 r2)
  then show ?thesis
    using frame_run_try_files [of env "hl_core (e_loc env loc)" _ ctx2] run_action_log [of env loc]
    by (auto simp: run_content_def Let_def r1 r2 split: option.splits prod.splits)
      (metis fst_conv frame_run_try_files)+
qed

lemma dispatch_loc_log:
  assumes "authoriser env auth"
  shows "\<exists>lims rest. h_log (fst (dispatch_loc env auth internal loc ctx)) = h_log ctx @ lims @ rest
           \<and> loc_events env rest \<and> (lims = [] \<or> \<not> internal \<and> lims = [EvLimits])"
proof -
  define ctx1 where "ctx1 = (if internal then ctx else log_event EvLimits ctx)"
  define lims where "lims = (if internal then [] else [EvLimits :: 'a hevent])"
  have l1: "h_log ctx1 = h_log ctx @ lims" by (simp add: ctx1_def lims_def frame_simps)
  let ?d = "dispatch_loc env auth internal loc ctx"
  have "h_log (fst ?d) = h_log ctx \<or> (\<exists>rest. h_log (fst ?d) = h_log ctx1 @ rest \<and> loc_events env rest)"
  proof (cases "hc_auth_request (hl_core (e_loc env loc))")
    case None
    then show ?thesis using run_content_log [of env loc ctx1]
      by (auto simp: dispatch_loc_def Let_def ctx1_def [symmetric] loc_events_def split: option.splits)
  next
    case (Some u)
    obtain c x where a: "auth ctx1 u (hl_core (e_loc env loc)) = (c, x)" by fastforce
    have d: "?d = (ctx, Fail 404) \<or> (\<exists>y. ?d = (ctx1, y)) \<or> (\<exists>y. ?d = (c, y) \<and> x \<noteq> Inr ()) \<or> ?d = run_content env loc c \<and> x = Inr ()"
      using Some a by (cases x) (simp_all add: dispatch_loc_def Let_def ctx1_def [symmetric] split: option.split)
    consider "h_log c = h_log ctx1" "x \<noteq> Inr ()"
      | buf r p st where "h_log c = h_log ctx1 @ [EvSubrequest buf r p st]" "x = Inr () \<longrightarrow> granted env u (EvSubrequest buf r p st)"
      using assms a unfolding authoriser_def by blast
    then show ?thesis
    proof cases
      case 1
      have "loc_events env []" by (simp add: loc_events_def)
      then show ?thesis using d 1 by (metis append_Nil2 fst_conv)
    next
      case (2 buf r p st)
      have "loc_events env []" "loc_events env [EvSubrequest buf r p st]"
        "x = Inr () \<Longrightarrow> loc_events env [EvSubrequest buf r p st, EvContent (Some loc)]"
        using 2(2) Some by (auto simp: loc_events_def)
      then show ?thesis using d 2(1) run_content_log [of env loc c]
        by (elim disjE exE conjE) (force intro: exI [where x = "[]"])+
    qed
  qed
  then show ?thesis
  proof (elim disjE exE conjE)
    assume "h_log (fst ?d) = h_log ctx"
    then show ?thesis by (intro exI [where x = "[]"]) (simp add: loc_events_def)
  next
    fix rest
    assume "h_log (fst ?d) = h_log ctx1 @ rest" "loc_events env rest"
    then show ?thesis by (intro exI [where x = lims] exI [where x = rest]) (simp add: l1 lims_def)
  qed
qed

lemma route_log:
  assumes "authoriser env auth"
  shows "\<exists>lims rest. h_log (fst (route env auth internal ctx)) = h_log ctx @ lims @ rest
           \<and> loc_events env rest \<and> (lims = [] \<or> \<not> internal \<and> lims = [EvLimits])"
proof (cases "loc_find (e_captures env) (hs_locations (e_server env)) (h_uri ctx)")
  case None
  define ctx1 where "ctx1 = (if internal then ctx\<lparr>h_matched := None\<rparr> else log_event EvLimits (ctx\<lparr>h_matched := None\<rparr>))"
  define lims where "lims = (if internal then [] else [EvLimits :: 'a hevent])"
  have l1: "h_log ctx1 = h_log ctx @ lims" by (simp add: ctx1_def lims_def frame_simps)
  have "h_log (fst (route env auth internal ctx)) \<in> {h_log ctx1 @ [], h_log ctx1 @ [EvContent None]}"
    unfolding ctx1_def using None by (auto simp: route_def Let_def frame_simps split: option.splits action.splits)
  moreover have "loc_events env []" "loc_events env [EvContent None]" by (simp_all add: loc_events_def)
  ultimately show ?thesis using l1 by (metis append.assoc insert_iff lims_def singletonD)
next
  case (Some x)
  obtain loc0 c where x: "x = (loc0, c)" by fastforce
  obtain loc caps where d: "descend (e_captures env) (h_uri ctx) loc0 c = (loc, caps)" by fastforce
  define ctx1 where "ctx1 = (case caps of Some c \<Rightarrow> ctx\<lparr>h_captures := c\<rparr> | None \<Rightarrow> ctx)\<lparr>h_matched := Some loc\<rparr>"
  have "h_log ctx1 = h_log ctx" by (simp add: ctx1_def split: option.split)
  then show ?thesis
    using dispatch_loc_log [OF assms, of internal loc ctx1] by (simp add: route_def Let_def Some x d ctx1_def del: descend.simps)
qed

lemma routing_pass_log:
  assumes "authoriser env auth"
  shows "\<exists>es. h_log (fst (routing_pass env auth nm internal ctx)) = h_log ctx @ es \<and> pass_events env (nm \<noteq> None \<or> internal) es"
proof -
  let ?c = "log_event EvPass ctx"
  have fin: ?thesis if "\<exists>lims rest. h_log (fst (routing_pass env auth nm internal ctx)) = h_log ?c @ lims @ rest
      \<and> loc_events env rest \<and> (lims = [] \<or> \<not> (nm \<noteq> None \<or> internal) \<and> lims = [EvLimits])"
  proof -
    from that obtain lims rest where "h_log (fst (routing_pass env auth nm internal ctx)) = h_log ctx @ (EvPass # lims @ rest)"
      "loc_events env rest" "lims = [] \<or> \<not> (nm \<noteq> None \<or> internal) \<and> lims = [EvLimits]" by (auto simp: frame_simps)
    then show ?thesis by (intro exI [where x = "EvPass # lims @ rest"] conjI pass_eventsI)
  qed
  show ?thesis
  proof (cases nm)
    case None
    then show ?thesis using route_log [OF assms, of internal ?c] by (intro fin) (simp add: routing_pass_def)
  next
    case (Some n)
    show ?thesis
    proof (cases "map_of (named_locs (hs_locations (e_server env))) n")
      case None
      then show ?thesis using Some by (intro fin) (simp add: routing_pass_def loc_events_def)
    next
      case (Some loc)
      then show ?thesis using \<open>nm = Some n\<close> dispatch_loc_log [OF assms, of True loc "?c\<lparr>h_matched := Some loc\<rparr>"]
        by (intro fin) (simp add: routing_pass_def)
    qed
  qed
qed

lemma handle_loop_done:
  "routing_pass env auth nm internal ctx = (c, Done rp) \<Longrightarrow>
    handle_loop env auth nm internal ovr n ctx = (c, decorate env c (override ovr rp))"
  by (subst handle_loop.simps) simp

text \<open>The loop either ends after this pass or goes on with an internal one.\<close>

lemma handle_loop_unfold:
  fixes env :: "('r, 'f, 'p) henv"
  obtains (fin) rp where "handle_loop env auth nm internal ovr n ctx = (fst (routing_pass env auth nm internal ctx), rp)"
  | (again) nm' ovr' ctx' where "handle_loop env auth nm internal ovr n ctx = handle_loop env auth nm' True ovr' (n + 1) ctx'"
      "n < 10" "h_log ctx' = h_log (fst (routing_pass env auth nm internal ctx))"
proof -
  obtain c s where p: "routing_pass env auth nm internal ctx = (c, s)" by fastforce
  have "(\<exists>rp. handle_loop env auth nm internal ovr n ctx = (c, rp))
     \<or> (\<exists>nm' ovr' ctx'. handle_loop env auth nm internal ovr n ctx = handle_loop env auth nm' True ovr' (n + 1) ctx'
           \<and> n < 10 \<and> h_log ctx' = h_log c)"
  proof (cases s)
    case (Done rp) then show ?thesis using p by (subst (1) handle_loop.simps) simp
  next
    case (Internal u)
    show ?thesis
    proof (cases "n < 10")
      case True
      then show ?thesis using p Internal
        by (intro disjI2 exI [where x = None] exI [where x = ovr] exI [where x = "c\<lparr>h_uri := u\<rparr>"])
          (subst (1) handle_loop.simps, simp)
    qed (use p Internal in \<open>subst handle_loop.simps, simp\<close>)
  next
    case (Named m)
    show ?thesis
    proof (cases "n < 10")
      case True
      then show ?thesis using p Named
        by (intro disjI2 exI [where x = "Some m"] exI [where x = ovr] exI [where x = c])
          (subst (1) handle_loop.simps, simp)
    qed (use p Named in \<open>subst handle_loop.simps, simp\<close>)
  next
    case (Fail code)
    show ?thesis
    proof (cases "error_page_for env c code")
      case None then show ?thesis using p Fail by (subst (1) handle_loop.simps) simp
    next
      case (Some er)
      show ?thesis
      proof (cases er)
        case (RUri u rep)
        show ?thesis
        proof (cases "n < 10")
          case True
          then show ?thesis using p Fail Some RUri
            by (intro disjI2 exI [where x = None] exI [where x = rep] exI [where x = "c\<lparr>h_uri := u\<rparr>"])
              (subst (1) handle_loop.simps, simp)
        qed (use p Fail Some RUri in \<open>subst handle_loop.simps, simp\<close>)
      next
        case (RNamed m rep)
        show ?thesis
        proof (cases "n < 10")
          case True
          then show ?thesis using p Fail Some RNamed
            by (intro disjI2 exI [where x = "Some m"] exI [where x = rep] exI [where x = c])
              (subst (1) handle_loop.simps, simp)
        qed (use p Fail Some RNamed in \<open>subst handle_loop.simps, simp\<close>)
      next
        case (RRedirect u rep) then show ?thesis using p Fail Some by (subst (1) handle_loop.simps) simp
      qed
    qed
  qed
  then show thesis using fin again by (auto simp: p)
qed

lemma handle_loop_log:
  assumes "authoriser env auth" and "n \<le> 10"
  shows "\<exists>es ess. h_log (fst (handle_loop env auth nm internal ovr n ctx)) = h_log ctx @ es @ concat ess
           \<and> length ess + n \<le> 10 \<and> pass_events env (nm \<noteq> None \<or> internal) es \<and> list_all (pass_events env True) ess"
  using assms(2)
proof (induction "10 - n" arbitrary: n nm internal ovr ctx)
  case 0
  then show ?case
    using routing_pass_log [OF assms(1), of nm internal ctx]
    by (cases rule: handle_loop_unfold [of env auth nm internal ovr n ctx]) (auto intro: exI [where x = "[]"])
next
  case (Suc m)
  obtain es where es: "h_log (fst (routing_pass env auth nm internal ctx)) = h_log ctx @ es"
    "pass_events env (nm \<noteq> None \<or> internal) es" using routing_pass_log [OF assms(1)] by blast
  show ?case
  proof (cases rule: handle_loop_unfold [of env auth nm internal ovr n ctx])
    case (fin rp)
    then show ?thesis using es Suc.prems by (intro exI [where x = es] exI [where x = "[]"]) simp
  next
    case (again nm' ovr' ctx')
    have "m = 10 - (n + 1)" "n + 1 \<le> 10" using Suc.hyps(2) again(2) by simp_all
    then obtain es' ess where "h_log (fst (handle_loop env auth nm' True ovr' (n + 1) ctx')) = h_log ctx' @ es' @ concat ess"
      "length ess + (n + 1) \<le> 10" "pass_events env True es'" "list_all (pass_events env True) ess"
      using Suc.hyps(1) [of "n + 1" nm' True ovr' ctx'] by auto
    then show ?thesis using es again by (intro exI [where x = es] exI [where x = "es' # ess"]) simp
  qed
qed

lemma frame_finish: "finish env (ctx, s) = (ctx', rp) \<Longrightarrow> same_frame ctx' ctx"
  by (auto simp: finish_def split: option.splits step.splits)

text \<open>The whole trace: nothing, or one pass and at most ten internal ones.\<close>

lemma handle_with_log:
  assumes "authoriser env auth"
  shows "\<exists>ess. h_log (fst (handle_with env auth ctx)) = h_log ctx @ concat ess \<and> length ess \<le> 11
    \<and> list_all (pass_events env True) (tl ess) \<and> (ess \<noteq> [] \<longrightarrow> pass_events env (0 < h_auth_depth ctx) (hd ess))"
proof -
  obtain c1 s1 where r1: "run_rewrites env (hs_rewrites (e_server env)) ctx = (c1, s1)" by fastforce
  obtain c2 o2 where r2: "finish env (c1, s1) = (c2, o2)" by fastforce
  obtain c3 s3 where r3: "run_ifs env (hs_ifs (e_server env)) c2 = (c3, s3)" by fastforce
  obtain c4 o4 where r4: "finish env (c3, s3) = (c4, o4)" by fastforce
  have f2: "same_frame c2 ctx" using frame_run_rewrites [of env "hs_rewrites (e_server env)" ctx] r1 frame_finish [OF r2] by simp
  have f4: "same_frame c4 ctx" using frame_run_ifs [of env "hs_ifs (e_server env)" c2] r3 frame_finish [OF r4] f2 by simp
  consider rp where "handle_with env auth ctx = (c2, rp)" | rp where "handle_with env auth ctx = (c4, rp)"
    | "handle_with env auth ctx = handle_loop env auth None (0 < h_auth_depth c4) None 0 c4"
    by (cases o2; cases o4) (simp_all add: handle_with_def r1 r2 r3 r4)
  then show ?thesis
  proof cases
    case 3
    obtain es ess where "h_log (fst (handle_with env auth ctx)) = h_log ctx @ es @ concat ess" "length ess \<le> 10"
      "pass_events env (0 < h_auth_depth ctx) es" "list_all (pass_events env True) ess"
      using handle_loop_log [OF assms, of 0 None "0 < h_auth_depth c4" None c4] f4 3 by auto
    then show ?thesis by (intro exI [where x = "es # ess"]) simp
  qed (use f2 f4 in \<open>auto intro: exI [where x = "[]"]\<close>)
qed

lemma handle_trace:
  "\<exists>ess. h_log (fst (handle env ctx)) = h_log ctx @ concat ess \<and> length ess \<le> 11
    \<and> list_all (pass_events env True) (tl ess) \<and> (ess \<noteq> [] \<longrightarrow> pass_events env (0 < h_auth_depth ctx) (hd ess))"
  unfolding handle_def by (rule handle_with_log [OF authoriser_run_auth_request])

section \<open>Subrequests do not nest\<close>

text \<open>
  The source handles the subrequest with the same function. At a positive depth that function never starts another
  subrequest, so refusing outright is the same.
\<close>

abbreviation refuse :: "'r hctx \<Rightarrow> bytes \<Rightarrow> 'r hcore \<Rightarrow> 'r hctx \<times> (nat + unit)" where
  "refuse \<equiv> \<lambda>ctx _ _. (ctx, Inl 500)"

lemma deep_auth: "0 < h_auth_depth ctx \<Longrightarrow> run_auth_request answer ctx uri core = refuse ctx uri core"
  by (simp add: run_auth_request_def)

lemma depth_events [frame_simps]:
  "h_auth_depth (log_event ev ctx) = h_auth_depth ctx" "h_auth_depth (fst (keep_vars ctx x f)) = h_auth_depth ctx"
  by (simp_all add: log_event_def keep_vars_def)

lemma depth_run_action [frame_simps]: "h_auth_depth (fst (run_action env loc ctx)) = h_auth_depth ctx"
  by (simp add: run_action_def Let_def frame_simps split: action.splits)

lemma depth_run_content [frame_simps]: "h_auth_depth (fst (run_content env loc ctx)) = h_auth_depth ctx"
proof -
  obtain ctx1 s1 where r1: "run_rewrites env (hl_rewrites (e_loc env loc)) ctx = (ctx1, s1)" by fastforce
  obtain ctx2 s2 where r2: "run_ifs env (hl_ifs (e_loc env loc)) ctx1 = (ctx2, s2)" by fastforce
  have "h_auth_depth ctx1 = h_auth_depth ctx" "h_auth_depth ctx2 = h_auth_depth ctx"
    using frame_run_rewrites [of env "hl_rewrites (e_loc env loc)" ctx] frame_run_ifs [of env "hl_ifs (e_loc env loc)" ctx1]
    by (simp_all add: r1 r2)
  then show ?thesis
    by (auto simp: run_content_def Let_def r1 r2 frame_simps split: option.splits prod.splits) (metis fst_conv frame_run_try_files)+
qed

lemma deep_dispatch:
  assumes "0 < h_auth_depth ctx"
  shows "dispatch_loc env (run_auth_request answer) internal loc ctx = dispatch_loc env refuse internal loc ctx"
    and "h_auth_depth (fst (dispatch_loc env refuse internal loc ctx)) = h_auth_depth ctx"
  using assms by (simp_all add: dispatch_loc_def Let_def deep_auth frame_simps split: option.splits)

lemma deep_route:
  assumes "0 < h_auth_depth ctx"
  shows "route env (run_auth_request answer) internal ctx = route env refuse internal ctx
    \<and> h_auth_depth (fst (route env refuse internal ctx)) = h_auth_depth ctx"
proof -
  have "h_auth_depth ((case caps of Some c \<Rightarrow> ctx\<lparr>h_captures := c\<rparr> | None \<Rightarrow> ctx)\<lparr>h_matched := l\<rparr>) = h_auth_depth ctx" for caps l
    by (simp split: option.split)
  then show ?thesis using assms
    by (auto simp: route_def Let_def deep_dispatch frame_simps simp del: descend.simps split: option.splits prod.splits action.splits)
qed

lemma deep_pass:
  assumes "0 < h_auth_depth ctx"
  shows "routing_pass env (run_auth_request answer) nm internal ctx = routing_pass env refuse nm internal ctx
    \<and> h_auth_depth (fst (routing_pass env refuse nm internal ctx)) = h_auth_depth ctx"
  using assms by (auto simp: routing_pass_def Let_def deep_route deep_dispatch frame_simps split: option.splits)

lemma deep_loop:
  "0 < h_auth_depth ctx \<Longrightarrow>
    handle_loop env (run_auth_request answer) nm internal ovr n ctx = handle_loop env refuse nm internal ovr n ctx"
proof (induction "10 - n" arbitrary: n nm internal ovr ctx rule: less_induct)
  case less
  obtain c s where p: "routing_pass env refuse nm internal ctx = (c, s)" by fastforce
  have d: "0 < h_auth_depth c" "routing_pass env (run_auth_request answer) nm internal ctx = (c, s)"
    using deep_pass [OF less.prems, of env answer nm internal] less.prems p by simp_all
  have ih: "handle_loop env (run_auth_request answer) nm' i' ovr' (Suc n) c' = handle_loop env refuse nm' i' ovr' (Suc n) c'"
    if "\<not> 9 < n" "h_auth_depth c' = h_auth_depth c" for nm' i' ovr' c'
    using less.hyps [of "Suc n" c' nm' i' ovr'] that d(1) by simp
  show ?case
    by (subst (1 2) handle_loop.simps) (simp add: p d(2) ih Let_def cong: if_cong split: step.split option.split error_route.split)
qed

lemma handle_sub_handle:
  assumes "0 < h_auth_depth ctx"
  shows "handle_sub env ctx = snd (handle env ctx)"
proof -
  obtain c1 s1 where r1: "run_rewrites env (hs_rewrites (e_server env)) ctx = (c1, s1)" by fastforce
  obtain c2 o2 where r2: "finish env (c1, s1) = (c2, o2)" by fastforce
  obtain c3 s3 where r3: "run_ifs env (hs_ifs (e_server env)) c2 = (c3, s3)" by fastforce
  obtain c4 o4 where r4: "finish env (c3, s3) = (c4, o4)" by fastforce
  have "same_frame c2 ctx" using frame_run_rewrites [of env "hs_rewrites (e_server env)" ctx] r1 frame_finish [OF r2] by simp
  then have "same_frame c4 ctx" using frame_run_ifs [of env "hs_ifs (e_server env)" c2] r3 frame_finish [OF r4] by simp
  then show ?thesis using assms
    by (simp add: handle_sub_def handle_def handle_with_def r1 r2 r3 r4 deep_loop split: option.split)
qed

section \<open>Counting\<close>

lemma count_loc_events: "loc_events env es \<Longrightarrow> count_list es EvPass = 0 \<and> count_list es EvLimits = 0"
  by (auto simp: loc_events_def)

lemma count_pass_events:
  "pass_events env internal es \<Longrightarrow> count_list es EvPass = 1 \<and> count_list es EvLimits \<le> (if internal then 0 else 1)"
  by (auto simp: pass_events_def dest: count_loc_events)

lemma count_passes:
  "list_all (pass_events env True) ess \<Longrightarrow> count_list (concat ess) EvPass = length ess \<and> count_list (concat ess) EvLimits = 0"
  by (induction ess) (auto dest!: count_pass_events)

lemma count_trace:
  assumes "list_all (pass_events env True) (tl ess)" "ess \<noteq> [] \<longrightarrow> pass_events env internal (hd ess)"
  shows "count_list (concat ess) EvPass = length ess" "count_list (concat ess) EvLimits \<le> (if internal then 0 else 1)"
  using assms by (cases ess; fastforce dest: count_pass_events count_passes)+

text \<open>C16.
  The whole handling of a request makes at most eleven routing passes, however rewrites, \<^verbatim>\<open>try_files\<close>, error
  pages and named locations send it around, and charges the limits at most once; a subrequest of
  \<^verbatim>\<open>auth_request\<close> never charges them.
\<close>

theorem handler_bounded:
  "let log = h_log (fst (handle env ctx))
   in count_list log EvPass \<le> count_list (h_log ctx) EvPass + 11
    \<and> count_list log EvLimits \<le> count_list (h_log ctx) EvLimits + (if 0 < h_auth_depth ctx then 0 else 1)"
proof -
  obtain ess where "h_log (fst (handle env ctx)) = h_log ctx @ concat ess" "length ess \<le> 11"
    "list_all (pass_events env True) (tl ess)" "ess \<noteq> [] \<longrightarrow> pass_events env (0 < h_auth_depth ctx) (hd ess)"
    using handle_trace [of env ctx] by blast
  then show ?thesis using count_trace [of env ess "0 < h_auth_depth ctx"] by (simp add: Let_def)
qed

section \<open>Content only after authorisation\<close>

definition gated :: "('r, 'f, 'p) henv \<Rightarrow> 'r hevent list \<Rightarrow> bool" where
  "gated env log \<longleftrightarrow>
    (\<forall>pre loc post. log = pre @ EvContent (Some loc) # post \<and> hc_auth_request (hl_core (e_loc env loc)) \<noteq> None
       \<longrightarrow> pre \<noteq> [] \<and> (\<exists>u. hc_auth_request (hl_core (e_loc env loc)) = Some u \<and> granted env u (last pre)))"

lemma gated_append:
  assumes "gated env a" "gated env b"
  shows "gated env (a @ b)"
  unfolding gated_def
proof (intro allI impI, elim conjE)
  fix pre loc post
  assume eq: "a @ b = pre @ EvContent (Some loc) # post" and au: "hc_auth_request (hl_core (e_loc env loc)) \<noteq> None"
  from eq obtain us where "a = pre @ us \<and> us @ b = EvContent (Some loc) # post \<or> a @ us = pre \<and> b = us @ EvContent (Some loc) # post"
    by (auto simp: append_eq_append_conv2)
  then show "pre \<noteq> [] \<and> (\<exists>u. hc_auth_request (hl_core (e_loc env loc)) = Some u \<and> granted env u (last pre))"
  proof (elim disjE conjE)
    assume "a = pre @ us" "us @ b = EvContent (Some loc) # post"
    then show ?thesis using assms au unfolding gated_def by (cases us) fastforce+
  next
    assume "a @ us = pre" "b = us @ EvContent (Some loc) # post"
    then show ?thesis using assms(2) au unfolding gated_def by (metis append_is_Nil_conv last_appendR)
  qed
qed

lemma gated_Nil: "gated env []"
  by (simp add: gated_def)

lemma gated_concat: "list_all (gated env) ess \<Longrightarrow> gated env (concat ess)"
  by (induction ess) (auto intro: gated_append gated_Nil)

lemma gated_pass:
  assumes "pass_events env internal es"
  shows "gated env es"
proof -
  have one: "gated env [e]" if "\<And>loc. e \<noteq> EvContent (Some loc)" for e :: "'a hevent"
    using that by (simp add: gated_def append_eq_Cons_conv Cons_eq_append_conv)
  have rest: "gated env rest" if "loc_events env rest" for rest
    using that by (auto simp: loc_events_def gated_def append_eq_Cons_conv)
  obtain lims rest where es: "es = EvPass # lims @ rest" "loc_events env rest" "lims = [] \<or> lims = [EvLimits]"
    using assms by (auto simp: pass_events_def)
  have "gated env lims" using es(3) one [of EvLimits] gated_Nil by auto
  then have "list_all (gated env) [[EvPass], lims, rest]" using one [of EvPass] rest [OF es(2)] by simp
  then show ?thesis using gated_concat [of env "[[EvPass], lims, rest]"] by (simp add: es(1))
qed

text \<open>C3.
  No content handler of a location that asks for authorisation runs unless the authorisation was granted immediately before, on every
  path of every request: what comes before it is a subrequest, a \<^verbatim>\<open>GET\<close> for the URI the location names, and the server's own handling of that
  subrequest gives a reply with a status of 200 to 299.
\<close>

theorem handler_auth_gate:
  assumes "h_log (fst (handle env (ctx_new buf r uri scheme port))) = pre @ EvContent (Some loc) # post"
    and "hc_auth_request (hl_core (e_loc env loc)) = Some u"
  shows "\<exists>pre' sbuf sr p st hs scheme' port'. pre = pre' @ [EvSubrequest sbuf sr p st]
    \<and> from_parts (bs ''GET'') u hs = (sbuf, sr) \<and> normalize (slice sbuf (path sr)) = Inr p
    \<and> st = status (rresp (snd (handle env ((ctx_new sbuf sr p scheme' port')\<lparr>h_auth_depth := 1\<rparr>)))) \<and> 200 \<le> st \<and> st \<le> 299"
proof -
  obtain ess where t: "h_log (fst (handle env (ctx_new buf r uri scheme port))) = concat ess"
    "list_all (pass_events env True) (tl ess)" "ess \<noteq> [] \<longrightarrow> pass_events env False (hd ess)"
    using handle_trace [of env "ctx_new buf r uri scheme port"] by (auto simp: ctx_new_def)
  have "list_all (gated env) ess" using t(2,3) by (cases ess) (auto simp: list_all_iff intro: gated_pass)
  then have "gated env (h_log (fst (handle env (ctx_new buf r uri scheme port))))" using gated_concat t(1) by simp
  then have "pre \<noteq> []" and g: "granted env u (last pre)" using assms unfolding gated_def by (blast, fastforce)
  then have pre: "pre = butlast pre @ [last pre]" by simp
  have "handle_sub env ((ctx_new b r' p s o')\<lparr>h_auth_depth := 1\<rparr>) = snd (handle env ((ctx_new b r' p s o')\<lparr>h_auth_depth := 1\<rparr>))" for b r' p s o'
    by (rule handle_sub_handle) simp
  with g pre show ?thesis unfolding granted_def by metis
qed

section \<open>A server to run\<close>

text \<open>Everything under \<^verbatim>\<open>/\<close> asks \<^verbatim>\<open>/auth\<close>, an internal location that grants; the server core asks too.\<close>

definition demo_core :: "bytes option \<Rightarrow> bool \<Rightarrow> unit hcore" where
  "demo_core auth internal =
    \<lparr>hc_root = (\<lambda>_. bs ''/srv''), hc_alias = None, hc_internal = internal, hc_auth_request = auth, hc_auth_set = [],
     hc_default_type = bs ''text/plain'', hc_add_headers = [], hc_expires = None,
     hc_gzip = \<lparr>gz_enabled = False, gz_level = 1, gz_min_length = 20, gz_types = [], gz_vary = False, gz_http10 = False\<rparr>,
     hc_server_tokens = TokensOff\<rparr>"

definition demo_root :: "unit location" where
  "demo_root = Location (LPrefix (bs ''/'')) 1 None"

definition demo_auth :: "unit location" where
  "demo_auth = Location (LExact (bs ''/auth'')) 2 None"

definition demo_loc :: "unit location \<Rightarrow> (unit, unit) hloc" where
  "demo_loc l =
    \<lparr>hl_core = (if raw_line l = 2 then demo_core None True else demo_core (Some (bs ''/auth'')) False),
     hl_action = (if raw_line l = 2 then AReturn 204 None else AReturn 200 (Some (\<lambda>_. bs ''secret''))),
     hl_try_files = None, hl_rewrites = [], hl_ifs = [], hl_error_pages = [], hl_methods = None\<rparr>"

definition demo_env :: "unit loc_set \<Rightarrow> (unit, unit, unit) henv" where
  "demo_env locs =
    \<lparr>e_server = \<lparr>hs_core = demo_core (Some (bs ''/auth'')) False, hs_locations = locs, hs_rewrites = [], hs_ifs = [],
                 hs_error_pages = [], hs_action = AStatic, hs_alt_svc = None\<rparr>,
     e_loc = demo_loc, e_captures = (\<lambda>_ _. None), e_meta = (\<lambda>_. None), e_limits = (\<lambda>_ _. None),
     e_static = (\<lambda>_ _. ([], SReply \<lparr>rresp = resp_new, reply_body = BBytes (bs ''secret'')\<rparr>)),
     e_proxy = (\<lambda>_ _ _. ([], Inl 502)), e_fastcgi = (\<lambda>_ _ _. ([], Inl 502)), e_stub = (\<lambda>_. []), e_version = [],
     e_date = (\<lambda>_. []), e_gzip = (\<lambda>_ b. b), e_file_read = (\<lambda>_ _ _. None)\<rparr>"

definition demo_ctx :: "unit hctx" where
  "demo_ctx = ctx_new [] req_new (bs ''/x'') (bs ''http'') None"

lemma demo_select:
  "hs_rewrites (e_server (demo_env locs)) = []" "hs_ifs (e_server (demo_env locs)) = []"
  "hs_locations (e_server (demo_env locs)) = locs" "hs_core (e_server (demo_env locs)) = demo_core (Some (bs ''/auth'')) False"
  "hs_alt_svc (e_server (demo_env locs)) = None" "hs_action (e_server (demo_env locs)) = AStatic" "e_loc (demo_env locs) = demo_loc"
  "e_captures (demo_env locs) = (\<lambda>_ _. None)" "e_limits (demo_env locs) = (\<lambda>_ _. None)"
  "e_static (demo_env locs) = (\<lambda>_ _. ([], SReply \<lparr>rresp = resp_new, reply_body = BBytes (bs ''secret'')\<rparr>))"
  by (simp_all add: demo_env_def)

lemma demo_locations:
  "nested demo_root = None" "raw_line demo_root = 1" "nested demo_auth = None" "raw_line demo_auth = 2"
  by (simp_all add: demo_root_def demo_auth_def)

lemmas demo_simps = demo_select demo_locations demo_loc_def demo_core_def

lemmas handler_defs = handle_with_def finish_def routing_pass_def route_def dispatch_loc_def run_content_def run_action_def
  log_event_def return_reply_def override_def decorate_def matched_core_def add_headers_def maybe_gzip_def gzip_wanted_def
  method_allowed_def

lemma demo_find:
  "loc_find (\<lambda>_ _. None) (LocSet [demo_auth] [demo_root] [] []) (bs ''/auth'') = Some (demo_auth, None)"
  "loc_find (\<lambda>_ _. None) (LocSet [demo_auth] [demo_root] [] []) (bs ''/x'') = Some (demo_root, None)"
  by code_simp+

lemma demo_sub:
  assumes "h_uri c = bs ''/auth''" "0 < h_auth_depth c"
  shows "status (rresp (handle_sub (demo_env (LocSet [demo_auth] [demo_root] [] [])) c)) = 204"
  using assms demo_find(1)
  by (simp add: handle_sub_def handler_defs handle_loop.simps [of _ _ None] demo_simps del: bs_simps)

lemma demo_auth_parts:
  assumes "from_parts (bs ''GET'') (bs ''/auth'') [] = (buf, r)"
  shows "normalize (slice buf (path r)) = Inr (bs ''/auth'')"
proof -
  have "split_query (bs ''/auth'') = (bs ''/auth'', [])" by code_simp
  then have "sub buf (path r) = bs ''/auth''" using from_parts_reads [OF assms, of "[]"] by (simp del: bs_simps)
  moreover have "utf8_valid (bs ''/auth'')" by code_simp
  ultimately have "slice buf (path r) = bs ''/auth''" using utf8_slice by metis
  moreover have "normalize (bs ''/auth'') = Inr (bs ''/auth'')" by code_simp
  ultimately show ?thesis by simp
qed

lemma demo_granted:
  assumes "h_auth_depth c = 0" "headers (h_req c) = []" "from_parts (bs ''GET'') (bs ''/auth'') [] = (buf, r)"
  shows "\<exists>c'. run_auth_request (handle_sub (demo_env (LocSet [demo_auth] [demo_root] [] []))) c (bs ''/auth'') (demo_core au i) = (c', Inr ())
    \<and> h_log c' = h_log c @ [EvSubrequest buf r (bs ''/auth'') 204]"
proof -
  have "auth_headers c = []" by (simp add: auth_headers_def assms(2))
  then show ?thesis using assms(1,3) demo_auth_parts [OF assms(3)]
    by (simp add: run_auth_request_def Let_def demo_sub ctx_new_def demo_core_def log_event_def del: bs_simps)
qed

lemma demo_run:
  assumes "from_parts (bs ''GET'') (bs ''/auth'') [] = (buf, r)"
  shows "h_log (fst (handle (demo_env (LocSet [demo_auth] [demo_root] [] [])) demo_ctx))
    = [EvPass, EvLimits, EvSubrequest buf r (bs ''/auth'') 204, EvContent (Some demo_root)]"
proof -
  let ?env = "demo_env (LocSet [demo_auth] [demo_root] [] [])"
  let ?c = "demo_ctx\<lparr>h_matched := Some demo_root, h_log := [EvPass, EvLimits]\<rparr>"
  have c: "h_uri demo_ctx = bs ''/x''" "h_log demo_ctx = []" "h_auth_depth demo_ctx = 0" "headers (h_req demo_ctx) = []"
    by (simp_all add: demo_ctx_def ctx_new_def req_new_def)
  obtain c' where "run_auth_request (handle_sub ?env) ?c (bs ''/auth'') (demo_core (Some (bs ''/auth'')) False) = (c', Inr ())"
    "h_log c' = [EvPass, EvLimits, EvSubrequest buf r (bs ''/auth'') 204]"
    using demo_granted [of ?c buf r "Some (bs ''/auth'')" False] assms c by (auto simp del: bs_simps)
  then show ?thesis
    using c demo_find(2)
    by (simp add: handle_def handler_defs handle_loop.simps [of _ _ None] demo_select demo_locations demo_loc_def
        demo_core_def [of "Some _"] del: bs_simps)
qed

theorem handler_auth_gate_witness:
  "let env = demo_env (LocSet [demo_auth] [demo_root] [] [])
   in \<exists>pre sbuf sr p st scheme port. h_log (fst (handle env demo_ctx)) = pre @ [EvSubrequest sbuf sr p st, EvContent (Some demo_root)]
     \<and> st = status (rresp (snd (handle env ((ctx_new sbuf sr p scheme port)\<lparr>h_auth_depth := 1\<rparr>)))) \<and> 200 \<le> st \<and> st \<le> 299"
proof -
  obtain buf r where p: "from_parts (bs ''GET'') (bs ''/auth'') [] = (buf, r)" by fastforce
  have log: "h_log (fst (handle (demo_env (LocSet [demo_auth] [demo_root] [] [])) demo_ctx)) =
      [EvPass, EvLimits, EvSubrequest buf r (bs ''/auth'') 204] @ EvContent (Some demo_root) # []" using demo_run [OF p] by simp
  have "hc_auth_request (hl_core (e_loc (demo_env (LocSet [demo_auth] [demo_root] [] [])) demo_root)) = Some (bs ''/auth'')"
    by (simp add: demo_simps del: bs_simps)
  from handler_auth_gate [OF log [unfolded demo_ctx_def] this] show ?thesis
    unfolding log Let_def by (elim exE conjE) (simp only: append.assoc append.simps, blast)
qed

text \<open>
  Authorisation asked for by the server block is never enforced where no location matches: the request
  reaches the file handler, and its reply is sent, without any authorisation.
\<close>

theorem server_auth_unchecked:
  assumes "hc_auth_request (hs_core (e_server env)) = Some u"
    and "loc_find (e_captures env) (hs_locations (e_server env)) (h_uri ctx) = None"
    and "hs_rewrites (e_server env) = []" "hs_ifs (e_server env) = []" "hs_action (e_server env) = AStatic"
    and "\<And>c. e_limits env c (hs_core (e_server env)) = None" "\<And>c. snd (e_static env c None) = SReply rp"
    and "h_auth_depth ctx = 0"
  shows "\<exists>c. h_log c = h_log ctx @ [EvPass, EvLimits, EvContent None] \<and> handle env ctx = (c, decorate env c rp)"
proof -
  have "\<exists>c. h_log c = h_log ctx @ [EvPass, EvLimits, EvContent None] \<and>
      routing_pass env (run_auth_request (handle_sub env)) None False ctx = (c, Done rp)"
    using assms by (simp add: routing_pass_def route_def log_event_def keep_vars_def served_to_step_def Let_def)
  then show ?thesis
    using assms by (auto simp: handle_def handle_with_def finish_def handle_loop_done override_def)
qed

theorem server_auth_unchecked_witness:
  "h_log (fst (handle (demo_env (LocSet [] [] [] [])) demo_ctx)) = [EvPass, EvLimits, EvContent None]
     \<and> reply_body (snd (handle (demo_env (LocSet [] [] [] [])) demo_ctx)) = BBytes (bs ''secret'')"
proof -
  have find: "loc_find (\<lambda>_ _. None) (LocSet [] [] [] []) (bs ''/x'') = (None :: (unit location \<times> bytes list option) option)"
    by code_simp
  have c: "h_uri demo_ctx = bs ''/x''" "h_auth_depth demo_ctx = 0" "h_log demo_ctx = []" by (simp_all add: demo_ctx_def ctx_new_def)
  obtain c where "h_log c = [EvPass, EvLimits, EvContent None]" "handle (demo_env (LocSet [] [] [] [])) demo_ctx =
      (c, decorate (demo_env (LocSet [] [] [] [])) c \<lparr>rresp = resp_new, reply_body = BBytes (bs ''secret'')\<rparr>)"
    using server_auth_unchecked [of "demo_env (LocSet [] [] [] [])" "bs ''/auth''" demo_ctx] find c
    by (auto simp: demo_select demo_core_def simp del: bs_simps)
  then show ?thesis
    by (simp add: decorate_def maybe_gzip_def gzip_wanted_def matched_core_def demo_select demo_loc_def
        demo_core_def Let_def del: bs_simps split: option.splits)
qed

section \<open>Compression\<close>

lemma resp_set_pairs:
  assumes "resp_wf r"
  shows "resp_wf (resp_set n v r)" "resp_get m (resp_set n v r) = (if eq_ignore_ascii_case n m then Some v else resp_get m r)"
proof -
  have *: "find (\<lambda>(k, _). eq_ignore_ascii_case k m) (filter (\<lambda>(k, _). \<not> eq_ignore_ascii_case k n) xs) =
      find (\<lambda>(k, _). eq_ignore_ascii_case k m) xs" if "\<not> eq_ignore_ascii_case n m" for xs :: "(bytes \<times> bytes) list"
    using that by (induction xs) (auto simp: eq_ignore_ascii_case_def)
  show "resp_wf (resp_set n v r)" using assms by (simp add: resp_set_def add_header_pairs resp_remove_pairs)
  show "resp_get m (resp_set n v r) = (if eq_ignore_ascii_case n m then Some v else resp_get m r)"
    using assms * response.lookup_removed [OF assms, of n m]
    by (simp add: resp_set_def response.lookup_add resp_remove_pairs) (simp add: resp_get_pairs resp_remove_pairs split: option.splits)
qed

lemma add_header_simps [simp]:
  "status (add_header n v r) = status r" "resp_framing (add_header n v r) = resp_framing r"
  "resp_keep_alive (add_header n v r) = resp_keep_alive r"
  by (simp_all add: add_header_def header_with_def Let_def)

lemma resp_set_simps [simp]: "status (resp_set n v r) = status r" "resp_framing (resp_set n v r) = resp_framing r"
  by (simp_all add: resp_set_def resp_remove_def)

lemma gzip_names:
  "eq_ignore_ascii_case (bs ''Content-Encoding'') n \<longleftrightarrow> eq_ignore_ascii_case n (bs ''content-encoding'')"
  "eq_ignore_ascii_case (bs ''Vary'') n \<longleftrightarrow> eq_ignore_ascii_case n (bs ''vary'')"
  "eq_ignore_ascii_case (bs ''ETag'') n \<longleftrightarrow> eq_ignore_ascii_case n (bs ''etag'')"
  "eq_ignore_ascii_case (bs ''content-encoding'') (bs ''content-encoding'')" "eq_ignore_ascii_case (bs ''etag'') (bs ''etag'')"
  "\<not> eq_ignore_ascii_case (bs ''etag'') (bs ''content-encoding'')" "\<not> eq_ignore_ascii_case (bs ''etag'') (bs ''vary'')"
  "\<not> eq_ignore_ascii_case (bs ''content-encoding'') (bs ''etag'')" "\<not> eq_ignore_ascii_case (bs ''content-encoding'') (bs ''vary'')"
  by (auto simp: eq_ignore_ascii_case_def to_ascii_lowercase_def)

lemma gzip_result:
  assumes "resp_wf (rresp rp)" "gzip_wanted ctx g rp" "raw_body env (reply_body rp) = Some raw"
  defines "rp' \<equiv> maybe_gzip env ctx g rp"
  shows "reply_body rp' = BBytes (e_gzip env (gz_level g) raw) \<and> status (rresp rp') = status (rresp rp)
    \<and> resp_framing (rresp rp') = resp_framing (rresp rp)
    \<and> resp_get (bs ''content-encoding'') (rresp rp') = Some (bs ''gzip'')
    \<and> (\<forall>e. resp_get (bs ''etag'') (rresp rp') = Some e \<longrightarrow> starts_with e (bs ''W/''))
    \<and> (\<forall>n. \<not> eq_ignore_ascii_case n (bs ''content-encoding'') \<and> \<not> eq_ignore_ascii_case n (bs ''vary'')
          \<and> \<not> eq_ignore_ascii_case n (bs ''etag'') \<longrightarrow> resp_get n (rresp rp') = resp_get n (rresp rp))"
proof -
  let ?r = "rresp rp"
  define r1 where "r1 = add_header (bs ''Content-Encoding'') (bs ''gzip'') ?r"
  define r2 where "r2 = (if gz_vary g then add_header (bs ''Vary'') (bs ''Accept-Encoding'') r1 else r1)"
  define r3 where "r3 = (case resp_get (bs ''etag'') r2 of
      Some e \<Rightarrow> if starts_with e (bs ''W/'') then r2 else resp_set (bs ''ETag'') (bs ''W/'' @ e) r2 | None \<Rightarrow> r2)"
  have rp': "rp' = \<lparr>rresp = r3, reply_body = BBytes (e_gzip env (gz_level g) raw)\<rparr>"
    unfolding rp'_def maybe_gzip_def r3_def r2_def r1_def Let_def using assms(2,3) by (simp del: bs_simps)
  have wf: "resp_wf r1" "resp_wf r2" using assms(1) by (simp_all add: r1_def r2_def add_header_pairs del: bs_simps)
  have g1: "resp_get n r1 = (case resp_get n ?r of Some w \<Rightarrow> Some w
      | None \<Rightarrow> if eq_ignore_ascii_case n (bs ''content-encoding'') then Some (bs ''gzip'') else None)" for n
    unfolding r1_def response.lookup_add [OF assms(1)] gzip_names(1) ..
  have g2: "resp_get n r2 = (case resp_get n r1 of Some w \<Rightarrow> Some w
      | None \<Rightarrow> if gz_vary g \<and> eq_ignore_ascii_case n (bs ''vary'') then Some (bs ''Accept-Encoding'') else None)" for n
    by (simp add: r2_def response.lookup_add [OF wf(1)] gzip_names(2) del: bs_simps split: option.split)
  have g3: "resp_get n r3 = (if eq_ignore_ascii_case n (bs ''etag'') then resp_get n r3 else resp_get n r2)" for n
    by (simp add: r3_def resp_set_pairs [OF wf(2)] gzip_names(3) del: bs_simps split: option.split)
  have "resp_get (bs ''content-encoding'') ?r = None" using assms(2) by (simp add: gzip_wanted_def resp_has_def del: bs_simps)
  then have "resp_get (bs ''content-encoding'') r3 = Some (bs ''gzip'')"
    by (subst g3) (simp add: g1 g2 gzip_names del: bs_simps)
  moreover have "starts_with e (bs ''W/'')" if "resp_get (bs ''etag'') r3 = Some e" for e
  proof -
    have "starts_with (bs ''W/'' @ x) (bs ''W/'')" for x by (simp add: starts_with_def)
    then show ?thesis using that
      by (auto simp: r3_def resp_set_pairs [OF wf(2)] gzip_names simp del: bs_simps split: option.splits if_splits)
  qed
  moreover have "resp_get n r3 = resp_get n ?r" if "\<not> eq_ignore_ascii_case n (bs ''content-encoding'')"
    "\<not> eq_ignore_ascii_case n (bs ''vary'')" "\<not> eq_ignore_ascii_case n (bs ''etag'')" for n
    using that by (subst g3) (simp add: g1 g2 del: bs_simps split: option.split)
  moreover have "status r3 = status ?r" "resp_framing r3 = resp_framing ?r"
    by (simp_all add: r3_def r2_def r1_def del: bs_simps split: option.split)
  ultimately show ?thesis by (simp add: rp' del: bs_simps)
qed

text \<open>
  A compressed reply carries the compressed body, says so, and weakens its entity tag; the status, the chosen
  framing and every other header stay.
\<close>

theorem gzip_reply:
  assumes "resp_wf (rresp rp)" "gzip_wanted ctx g rp" "raw_body env (reply_body rp) = Some raw"
  shows "let rp' = maybe_gzip env ctx g rp
    in reply_body rp' = BBytes (e_gzip env (gz_level g) raw) \<and> status (rresp rp') = status (rresp rp)
    \<and> resp_framing (rresp rp') = resp_framing (rresp rp)
    \<and> resp_get (bs ''content-encoding'') (rresp rp') = Some (bs ''gzip'')
    \<and> (\<forall>e. resp_get (bs ''etag'') (rresp rp') = Some e \<longrightarrow> starts_with e (bs ''W/''))
    \<and> (\<forall>n. \<not> eq_ignore_ascii_case n (bs ''content-encoding'') \<and> \<not> eq_ignore_ascii_case n (bs ''vary'')
          \<and> \<not> eq_ignore_ascii_case n (bs ''etag'') \<longrightarrow> resp_get n (rresp rp') = resp_get n (rresp rp))"
  unfolding Let_def by (rule gzip_result [OF assms])

text \<open>A request that accepts compression, and the configuration that grants it.\<close>

definition gzip_ctx :: "unit hctx" where
  "gzip_ctx = ctx_new (bs ''gzip'') (req_new\<lparr>headers := [((0, 0), (0, 4))],
      hot_slots := (replicate HOT_COUNT NO_HEADER)[hot_index AcceptEncoding := 0]\<rparr>) (bs ''/x'') (bs ''http'') None"

definition gzip_on :: gzip_conf where
  "gzip_on = \<lparr>gz_enabled = True, gz_level = 1, gz_min_length = 2, gz_types = [], gz_vary = True, gz_http10 = False\<rparr>"

definition gzip_env :: "(unit, unit, unit) henv" where
  "gzip_env = (demo_env (LocSet [] [] [] []))\<lparr>e_gzip := \<lambda>_ b. take 2 b\<rparr>"

definition page_reply :: "nat \<Rightarrow> framing \<Rightarrow> unit hreply" where
  "page_reply code f =
    \<lparr>rresp = (add_header (bs ''Content-Range'') (bs ''bytes 0-3/9'') (add_header (bs ''Content-Type'') (bs ''text/html'') resp_new))
        \<lparr>status := code, resp_framing := f\<rparr>,
     reply_body = BBytes (bs ''abcd'')\<rparr>"

lemma gzip_accepts: "accepts_gzip (h_req gzip_ctx) (h_buf gzip_ctx)" "minor (h_req gzip_ctx) = 1"
proof -
  have "header_has_token (slice (bs ''gzip'') (0, 4)) (bs ''gzip'')" by code_simp
  then show "accepts_gzip (h_req gzip_ctx) (h_buf gzip_ctx)"
    by (simp add: accepts_gzip_def hot_value_def gzip_ctx_def ctx_new_def del: bs_simps)
  show "minor (h_req gzip_ctx) = 1" by (simp add: gzip_ctx_def ctx_new_def req_new_def)
qed

lemma page_reply_wf: "resp_wf (rresp (page_reply code f))"
  by (simp add: page_reply_def resp_wf_def add_header_def header_with_def resp_new_def Let_def)

lemma page_reply_wanted: "gzip_wanted gzip_ctx gzip_on (page_reply code f)"
proof -
  have h: "resp_get (bs ''content-encoding'') (rresp (page_reply code f)) = None"
    "resp_get (bs ''content-type'') (rresp (page_reply code f)) = Some (bs ''text/html'')"
    by code_simp+
  have "trim (hd (split_on 0x3B (bs ''text/html''))) = bs ''text/html''" by code_simp
  moreover have "known_len (reply_body (page_reply code f)) = Some 4" by (simp add: page_reply_def)
  ultimately show ?thesis using gzip_accepts h by (simp add: gzip_wanted_def resp_has_def gzip_on_def del: bs_simps)
qed

lemma content_range_other:
  "\<not> eq_ignore_ascii_case (bs ''content-range'') (bs ''content-encoding'')"
  "\<not> eq_ignore_ascii_case (bs ''content-range'') (bs ''vary'')" "\<not> eq_ignore_ascii_case (bs ''content-range'') (bs ''etag'')"
  by (simp_all add: eq_ignore_ascii_case_def to_ascii_lowercase_def)

theorem gzip_reply_witness:
  "let rp = maybe_gzip gzip_env gzip_ctx gzip_on (page_reply 206 FNone)
   in status (rresp rp) = 206 \<and> reply_body rp = BBytes (bs ''ab'')
    \<and> resp_get (bs ''content-range'') (rresp rp) = Some (bs ''bytes 0-3/9'')"
proof -
  have "raw_body gzip_env (reply_body (page_reply 206 FNone)) = Some (bs ''abcd'')" by (simp add: page_reply_def)
  moreover have "resp_get (bs ''content-range'') (rresp (page_reply 206 FNone)) = Some (bs ''bytes 0-3/9'')" by code_simp
  moreover have "status (rresp (page_reply 206 FNone)) = 206" by (simp add: page_reply_def)
  moreover have "e_gzip gzip_env (gz_level gzip_on) (bs ''abcd'') = bs ''ab''" by (simp add: gzip_env_def)
  ultimately show ?thesis
    using gzip_reply [OF page_reply_wf page_reply_wanted, of gzip_env 206 FNone "bs ''abcd''"] content_range_other
    by (simp add: Let_def del: bs_simps)
qed

text \<open>
  A reply whose handler fixed its length before (a proxied body that arrived with its head, a
  cached one) still declares that length after compression: the connection announces \<open>n\<close> bytes and writes the compressed ones.
\<close>

theorem gzip_declares_plain_length:
  assumes "gzip_wanted ctx g rp" "reply_body rp = BBytes b" "resp_framing (rresp rp) = FLength n"
    and "resp_wf (rresp rp)" "\<not> is_bodyless (status (rresp rp))"
  shows "let rp' = conn_reply want over ok pos http11 False (maybe_gzip env ctx g rp)
    in resp_framing (rresp rp') = FLength n \<and> reply_body rp' = BBytes (e_gzip env (gz_level g) b)"
proof -
  have raw: "raw_body env (reply_body rp) = Some b" by (simp add: assms(2))
  from gzip_result [OF assms(4,1) raw] have "reply_body (maybe_gzip env ctx g rp) = BBytes (e_gzip env (gz_level g) b)"
    "status (rresp (maybe_gzip env ctx g rp)) = status (rresp rp)" "resp_framing (rresp (maybe_gzip env ctx g rp)) = FLength n"
    using assms(3) by simp_all
  then show ?thesis using assms(5) by (simp add: conn_reply_def frame_def Let_def)
qed

theorem gzip_declares_plain_length_witness:
  "let rp = conn_reply True False True True True False (maybe_gzip gzip_env gzip_ctx gzip_on (page_reply 200 (FLength 4)))
   in resp_framing (rresp rp) = FLength 4 \<and> reply_body rp = BBytes (bs ''ab'')"
proof -
  have "resp_framing (rresp (page_reply 200 (FLength 4))) = FLength 4" "reply_body (page_reply 200 (FLength 4)) = BBytes (bs ''abcd'')"
    "\<not> is_bodyless (status (rresp (page_reply 200 (FLength 4))))" by (simp_all add: page_reply_def is_bodyless_def)
  moreover have "e_gzip gzip_env (gz_level gzip_on) (bs ''abcd'') = bs ''ab''" by (simp add: gzip_env_def)
  ultimately show ?thesis
    using gzip_declares_plain_length [OF page_reply_wanted _ _ page_reply_wf, of 200 "FLength 4" "bs ''abcd''" 4 True False True True True gzip_env]
    by (simp add: Let_def del: bs_simps)
qed

section \<open>Added headers\<close>

text \<open>
  The configured headers are appended in their order, after those of the handler, each when it is marked
  \<^verbatim>\<open>always\<close> or the status allows it, and none with an empty value.
\<close>

theorem add_headers_appends:
  assumes "resp_wf r"
  shows "resp_iter (add_headers ctx hs r) =
    resp_iter r @ [(ah_name h, ah_value h ctx). h \<leftarrow> hs, ah_always h \<or> header_status_ok (status r), ah_value h ctx \<noteq> []]"
  using assms
proof (induction hs arbitrary: r)
  case (Cons h hs)
  then show ?case
    by (cases "(ah_always h \<or> header_status_ok (status r)) \<and> ah_value h ctx \<noteq> []") (auto simp: add_headers_def add_header_pairs)
qed (simp add: add_headers_def)

theorem add_headers_appends_witness:
  "resp_iter (add_headers demo_ctx
      [\<lparr>ah_name = bs ''A'', ah_value = (\<lambda>_. bs ''1''), ah_always = False\<rparr>, \<lparr>ah_name = bs ''B'', ah_value = (\<lambda>_. bs ''2''), ah_always = True\<rparr>]
      (resp_new\<lparr>status := 404\<rparr>)) = [(bs ''B'', bs ''2'')]"
proof -
  have "resp_wf (resp_new\<lparr>status := 404\<rparr>)" "resp_iter (resp_new\<lparr>status := 404\<rparr>) = []"
    by (simp_all add: resp_wf_def resp_iter_def resp_new_def)
  then show ?thesis using add_headers_appends [of "resp_new\<lparr>status := 404\<rparr>" demo_ctx] by (simp add: header_status_ok_def)
qed

section \<open>Line breaks in the decoded URI\<close>

text \<open>
  A \<^verbatim>\<open>return\<close> that redirects to the request's own decoded path, the usual \<^verbatim>\<open>return 302 $uri\<close>, lets the client
  write header lines of its own: an encoded line break is decoded by the normalisation and written as it is.
\<close>

theorem redirect_splits_head:
  "\<exists>u. normalize (bs ''/a%0d%0aX: y'') = Inr u \<and>
     head_of_bytes (write_head TokensOff [] (bs ''now'') (rresp (return_reply env (ctx\<lparr>h_uri := u\<rparr>) 302 (Some h_uri)))) =
       Some (302, [(bs ''Server'', bs ''oxiserve''), (bs ''Date'', bs ''now''), (bs ''Connection'', bs ''keep-alive''),
                   (bs ''Location'', bs ''/a''), (bs ''X'', bs ''y'')])"
proof -
  have n: "normalize (bs ''/a%0d%0aX: y'') = Inr (bs ''/a'' @ crlf @ bs ''X: y'')" by code_simp
  have "head_of_bytes (write_head TokensOff [] (bs ''now'')
      (add_header (bs ''Location'') (bs ''/a'' @ crlf @ bs ''X: y'') (resp_new\<lparr>status := 302\<rparr>))) =
       Some (302, [(bs ''Server'', bs ''oxiserve''), (bs ''Date'', bs ''now''), (bs ''Connection'', bs ''keep-alive''),
                   (bs ''Location'', bs ''/a''), (bs ''X'', bs ''y'')])" by code_simp
  then show ?thesis using n by (intro exI [where x = "bs ''/a'' @ crlf @ bs ''X: y''"]) (simp add: return_reply_def Let_def del: bs_simps)
qed

end
