(* ===== verification/Vars.thy ===== *)
theory Vars
  imports Routing
begin

text \<open>
  Variables and templates (\<^verbatim>\<open>config/vars.rs\<close>): the names of variables, the compilation of a string with
  embedded variables into segments, and its rendering against a source of values.
\<close>

section \<open>Variables\<close>

datatype var =
    VUri | VDocumentUri | VRequestUri | VArgs | VIsArgs | VArg bytes | VHost | VHostname | VScheme | VRequestMethod
  | VRequest | VServerProtocol | VServerName | VServerPort | VServerAddr | VRemoteAddr | VBinaryRemoteAddr | VRemotePort
  | VRemoteUser | VStatus | VBodyBytesSent | VBytesSent | VRequestLength | VRequestTime | VMsec | VTimeLocal
  | VTimeIso8601 | VDocumentRoot | VRequestFilename | VContentType | VContentLength | VConnection
  | VConnectionRequests | VPid | VNginxVersion | VHttp bytes | VSentHttp bytes | VFastcgiScriptName
  | VFastcgiPathInfo | VHttps | VProxyHost | VProxyPort | VProxyAddXForwardedFor | VUpstreamHttp bytes
  | VUpstreamAddr | VUpstreamStatus | VUpstreamCacheStatus | VUpstreamResponseTime | VUpstreamConnectTime
  | VCookie bytes | VSslPrereadServerName | VSslPrereadAlpnProtocols | VSslPrereadProtocol | VCapture u8 | VUser bytes

definition header_name :: "bytes \<Rightarrow> bytes" where
  "header_name s = map (\<lambda>c. if c = 0x5F then 0x2D else to_ascii_lowercase c) s"

text \<open>The names with a meaning of their own.\<close>

definition fixed_vars :: "(bytes \<times> var) list" where
  "fixed_vars =
    [(bs ''uri'', VUri), (bs ''document_uri'', VDocumentUri), (bs ''request_uri'', VRequestUri), (bs ''args'', VArgs),
     (bs ''query_string'', VArgs), (bs ''is_args'', VIsArgs), (bs ''host'', VHost), (bs ''hostname'', VHostname),
     (bs ''scheme'', VScheme), (bs ''request_method'', VRequestMethod), (bs ''request'', VRequest),
     (bs ''server_protocol'', VServerProtocol), (bs ''server_name'', VServerName), (bs ''server_port'', VServerPort),
     (bs ''server_addr'', VServerAddr), (bs ''remote_addr'', VRemoteAddr), (bs ''binary_remote_addr'', VBinaryRemoteAddr),
     (bs ''remote_port'', VRemotePort), (bs ''remote_user'', VRemoteUser), (bs ''status'', VStatus),
     (bs ''body_bytes_sent'', VBodyBytesSent), (bs ''bytes_sent'', VBytesSent), (bs ''request_length'', VRequestLength),
     (bs ''request_time'', VRequestTime), (bs ''msec'', VMsec), (bs ''time_local'', VTimeLocal),
     (bs ''time_iso8601'', VTimeIso8601), (bs ''document_root'', VDocumentRoot), (bs ''request_filename'', VRequestFilename),
     (bs ''content_type'', VContentType), (bs ''content_length'', VContentLength), (bs ''connection'', VConnection),
     (bs ''connection_requests'', VConnectionRequests), (bs ''pid'', VPid), (bs ''nginx_version'', VNginxVersion),
     (bs ''fastcgi_script_name'', VFastcgiScriptName), (bs ''fastcgi_path_info'', VFastcgiPathInfo), (bs ''https'', VHttps),
     (bs ''proxy_host'', VProxyHost), (bs ''proxy_port'', VProxyPort),
     (bs ''proxy_add_x_forwarded_for'', VProxyAddXForwardedFor), (bs ''upstream_addr'', VUpstreamAddr),
     (bs ''upstream_status'', VUpstreamStatus), (bs ''upstream_cache_status'', VUpstreamCacheStatus),
     (bs ''upstream_response_time'', VUpstreamResponseTime), (bs ''upstream_connect_time'', VUpstreamConnectTime),
     (bs ''ssl_preread_server_name'', VSslPrereadServerName), (bs ''ssl_preread_alpn_protocols'', VSslPrereadAlpnProtocols),
     (bs ''ssl_preread_protocol'', VSslPrereadProtocol)]"

definition var_parse :: "bytes \<Rightarrow> var" where
  "var_parse name =
    (case strip_prefix (bs ''http_'') name of Some rest \<Rightarrow> VHttp (header_name rest) | None \<Rightarrow>
     case strip_prefix (bs ''upstream_http_'') name of Some rest \<Rightarrow> VUpstreamHttp (header_name rest) | None \<Rightarrow>
     case strip_prefix (bs ''sent_http_'') name of Some rest \<Rightarrow> VSentHttp (header_name rest) | None \<Rightarrow>
     case strip_prefix (bs ''arg_'') name of Some rest \<Rightarrow> VArg rest | None \<Rightarrow>
     case strip_prefix (bs ''cookie_'') name of Some rest \<Rightarrow> VCookie rest | None \<Rightarrow>
     case map_of fixed_vars name of Some v \<Rightarrow> v | None \<Rightarrow> VUser name)"

definition underscored :: "bytes \<Rightarrow> bytes" where
  "underscored h = map (\<lambda>c. if c = 0x2D then 0x5F else c) h"

primrec field_name :: "var \<Rightarrow> bytes" where
  "field_name (VHttp h) = bs ''http_'' @ underscored h"
| "field_name (VUpstreamHttp h) = bs ''upstream_http_'' @ underscored h"
| "field_name (VSentHttp h) = bs ''sent_http_'' @ underscored h"
| "field_name (VArg a) = bs ''arg_'' @ a"
| "field_name (VCookie c) = bs ''cookie_'' @ c"
| "field_name (VCapture i) = bs ''capture_'' @ dec_digits (unat i)"
| "field_name (VUser u) = u"
| "field_name VUri = bs ''uri''"
| "field_name VDocumentUri = bs ''document_uri''"
| "field_name VRequestUri = bs ''request_uri''"
| "field_name VArgs = bs ''args''"
| "field_name VIsArgs = bs ''is_args''"
| "field_name VHost = bs ''host''"
| "field_name VHostname = bs ''hostname''"
| "field_name VScheme = bs ''scheme''"
| "field_name VRequestMethod = bs ''request_method''"
| "field_name VRequest = bs ''request''"
| "field_name VServerProtocol = bs ''server_protocol''"
| "field_name VServerName = bs ''server_name''"
| "field_name VServerPort = bs ''server_port''"
| "field_name VServerAddr = bs ''server_addr''"
| "field_name VRemoteAddr = bs ''remote_addr''"
| "field_name VBinaryRemoteAddr = bs ''binary_remote_addr''"
| "field_name VRemotePort = bs ''remote_port''"
| "field_name VRemoteUser = bs ''remote_user''"
| "field_name VStatus = bs ''status''"
| "field_name VBodyBytesSent = bs ''body_bytes_sent''"
| "field_name VBytesSent = bs ''bytes_sent''"
| "field_name VRequestLength = bs ''request_length''"
| "field_name VRequestTime = bs ''request_time''"
| "field_name VMsec = bs ''msec''"
| "field_name VTimeLocal = bs ''time_local''"
| "field_name VTimeIso8601 = bs ''time_iso8601''"
| "field_name VDocumentRoot = bs ''document_root''"
| "field_name VRequestFilename = bs ''request_filename''"
| "field_name VContentType = bs ''content_type''"
| "field_name VContentLength = bs ''content_length''"
| "field_name VConnection = bs ''connection''"
| "field_name VConnectionRequests = bs ''connection_requests''"
| "field_name VPid = bs ''pid''"
| "field_name VNginxVersion = bs ''nginx_version''"
| "field_name VFastcgiScriptName = bs ''fastcgi_script_name''"
| "field_name VFastcgiPathInfo = bs ''fastcgi_path_info''"
| "field_name VHttps = bs ''https''"
| "field_name VProxyHost = bs ''proxy_host''"
| "field_name VProxyPort = bs ''proxy_port''"
| "field_name VProxyAddXForwardedFor = bs ''proxy_add_x_forwarded_for''"
| "field_name VUpstreamAddr = bs ''upstream_addr''"
| "field_name VUpstreamStatus = bs ''upstream_status''"
| "field_name VUpstreamCacheStatus = bs ''upstream_cache_status''"
| "field_name VUpstreamResponseTime = bs ''upstream_response_time''"
| "field_name VUpstreamConnectTime = bs ''upstream_connect_time''"
| "field_name VSslPrereadServerName = bs ''ssl_preread_server_name''"
| "field_name VSslPrereadAlpnProtocols = bs ''ssl_preread_alpn_protocols''"
| "field_name VSslPrereadProtocol = bs ''ssl_preread_protocol''"

section \<open>Templates\<close>

datatype seg = SLit bytes | SVar var

record template =
  segs :: "seg list"
  literal :: "bytes option"

abbreviation dollar :: u8 where "dollar \<equiv> 0x24"

definition name_char :: "u8 \<Rightarrow> bool" where
  "name_char c \<longleftrightarrow> is_ascii_alphanumeric c \<or> c = 0x5F"

definition seg_var :: "bytes \<Rightarrow> var" where
  "seg_var name = (if length name = 1 \<and> is_ascii_digit (hd name) then VCapture (hd name - 0x30) else var_parse name)"

definition flush_lit :: "bytes \<Rightarrow> seg list" where
  "flush_lit lit = (if lit = [] then [] else [SLit (from_utf8_lossy lit)])"

text \<open>What follows a dollar sign: a name and the text after it, or nothing that is a name.\<close>

definition take_name :: "bytes \<Rightarrow> (bytes \<times> bytes) option" where
  "take_name b =
    (if b \<noteq> [] \<and> hd b = 0x7B
     then (case position (\<lambda>c. c = 0x7D) (tl b) of
             Some off \<Rightarrow> Some (take off (tl b), drop (off + 1) (tl b)) | None \<Rightarrow> None)
     else (let n = takeWhile name_char b in if n = [] then None else Some (n, dropWhile name_char b)))"

lemma take_name_shorter: "take_name b = Some (n, r) \<Longrightarrow> length r \<le> length b"
  by (auto simp: take_name_def Let_def length_dropWhile_le split: option.splits if_splits)

function compile_loop :: "bytes \<Rightarrow> bytes \<Rightarrow> seg list" where
  "compile_loop [] lit = flush_lit lit"
| "compile_loop (c # b) lit =
    (if c \<noteq> dollar then compile_loop b (lit @ [c])
     else (case take_name b of
             None \<Rightarrow> compile_loop b (lit @ [dollar])
           | Some (name, next) \<Rightarrow> flush_lit lit @ [SVar (seg_var name)] @ compile_loop next []))"
  by pat_completeness auto
termination
  by (relation "measure (\<lambda>(b, _). length b)") (auto dest: take_name_shorter)

definition compile :: "bytes \<Rightarrow> template" where
  "compile src =
    (let ss = compile_loop src []
     in \<lparr>segs = ss, literal = (case ss of [] \<Rightarrow> Some [] | [SLit l] \<Rightarrow> Some l | _ \<Rightarrow> None)\<rparr>)"

definition is_literal :: "template \<Rightarrow> bool" where
  "is_literal t \<longleftrightarrow> literal t \<noteq> None"

definition template_vars :: "template \<Rightarrow> var list" where
  "template_vars t = concat (map (\<lambda>s. case s of SVar v \<Rightarrow> [v] | SLit _ \<Rightarrow> []) (segs t))"

definition render_into :: "template \<Rightarrow> (var \<Rightarrow> bytes) \<Rightarrow> bytes \<Rightarrow> bytes" where
  "render_into t src out =
    (case literal t of
       Some l \<Rightarrow> out @ l
     | None \<Rightarrow> fold (\<lambda>s out. case s of SLit l \<Rightarrow> out @ l | SVar v \<Rightarrow> out @ src v) (segs t) out)"

definition render :: "template \<Rightarrow> (var \<Rightarrow> bytes) \<Rightarrow> bytes" where
  "render t src = (case literal t of Some l \<Rightarrow> l | None \<Rightarrow> render_into t src [])"

section \<open>Names\<close>

definition plain_char :: "u8 \<Rightarrow> bool" where
  "plain_char c \<longleftrightarrow> c \<noteq> 0x2D \<and> to_ascii_lowercase c = c"

lemma underscored_header_name: "list_all plain_char s \<Longrightarrow> underscored (header_name s) = s"
  by (induction s) (auto simp: underscored_def header_name_def plain_char_def)

lemma strip_prefix_Some: "strip_prefix p s = Some r \<longleftrightarrow> s = p @ r"
  by (auto simp: strip_prefix_def starts_with_def) (metis append_take_drop_id)

lemma fixed_names: "list_all (\<lambda>(n, v). n = bs ''query_string'' \<or> field_name v = n) fixed_vars"
  by (simp add: fixed_vars_def del: bs_simps)

text \<open>
  The field a variable becomes in a log record is the name the configuration wrote, for every name in lower case and
  without dashes, except the second name of the arguments.
\<close>

theorem var_name_roundtrip:
  assumes "list_all plain_char n" "n \<noteq> bs ''query_string''"
  shows "field_name (var_parse n) = n"
proof -
  have fixed: "field_name v = n" if "map_of fixed_vars n = Some v" for v
    using map_of_SomeD [OF that] fixed_names assms(2) by (auto simp: list_all_iff)
  show ?thesis
    using assms(1) fixed underscored_header_name
    by (auto simp: var_parse_def strip_prefix_Some simp del: bs_simps split: option.split)
qed

theorem var_name_roundtrip_witness: "field_name (var_parse (bs ''http_user_agent'')) = bs ''http_user_agent''"
  by (rule var_name_roundtrip) (simp_all add: plain_char_def to_ascii_lowercase_def)

section \<open>Rendering\<close>

fun seg_value :: "(var \<Rightarrow> bytes) \<Rightarrow> seg \<Rightarrow> bytes" where
  "seg_value src (SLit l) = l"
| "seg_value src (SVar v) = src v"

lemma fold_segs: "fold (\<lambda>s out. case s of SLit l \<Rightarrow> out @ l | SVar v \<Rightarrow> out @ src v) ss out = out @ concat (map (seg_value src) ss)"
  by (induction ss arbitrary: out) (auto split: seg.split)

text \<open>The path without variables renders the same as the segments.\<close>

lemma render_compile:
  "render (compile s) src = concat (map (seg_value src) (compile_loop s []))"
  "render_into (compile s) src out = out @ render (compile s) src"
proof -
  have lit: "literal (compile s) = Some l \<Longrightarrow> concat (map (seg_value src) (compile_loop s [])) = l" for l
    by (auto simp: compile_def Let_def split: list.splits seg.splits)
  have sg: "segs (compile s) = compile_loop s []" by (simp add: compile_def Let_def)
  show "render (compile s) src = concat (map (seg_value src) (compile_loop s []))"
    using lit by (simp add: render_def render_into_def fold_segs sg split: option.split)
  then show "render_into (compile s) src out = out @ render (compile s) src"
    using lit by (simp add: render_into_def fold_segs sg split: option.split)
qed

text \<open>A template as it is written: text, a name in braces, a bare name.\<close>

datatype item = Text bytes | Braced bytes | Bare bytes

fun print_item :: "item \<Rightarrow> bytes" where
  "print_item (Text t) = t"
| "print_item (Braced n) = [dollar, 0x7B] @ n @ [0x7D]"
| "print_item (Bare n) = dollar # n"

definition print_items :: "item list \<Rightarrow> bytes" where
  "print_items is = concat (map print_item is)"

fun item_value :: "(var \<Rightarrow> bytes) \<Rightarrow> item \<Rightarrow> bytes" where
  "item_value src (Text t) = t"
| "item_value src (Braced n) = src (seg_var n)"
| "item_value src (Bare n) = src (seg_var n)"

text \<open>Text has no dollar sign; a bare name ends where the next item starts.\<close>

fun well_written :: "item list \<Rightarrow> bool" where
  "well_written [] = True"
| "well_written (Text t # is) = (dollar \<notin> set t \<and> utf8_valid t \<and> well_written is)"
| "well_written (Braced n # is) = (0x7D \<notin> set n \<and> well_written is)"
| "well_written (Bare n # is) =
    (n \<noteq> [] \<and> list_all name_char n \<and> (print_items is \<noteq> [] \<longrightarrow> \<not> name_char (hd (print_items is))) \<and> well_written is)"

lemma compile_text: "dollar \<notin> set t \<Longrightarrow> compile_loop (t @ b) lit = compile_loop b (lit @ t)"
  by (induction t arbitrary: lit) auto

lemma flush_value: "utf8_valid lit \<Longrightarrow> concat (map (seg_value src) (flush_lit lit)) = lit"
  by (simp add: flush_lit_def from_utf8_lossy_valid)

lemma position_first: "x \<notin> set n \<Longrightarrow> position (\<lambda>c. c = x) (n @ x # r) = Some (length n)"
  by (induction n) auto

lemma take_name_braced: "0x7D \<notin> set n \<Longrightarrow> take_name (0x7B # n @ 0x7D # r) = Some (n, r)"
  by (simp add: take_name_def position_first)

lemma take_name_bare:
  assumes "n \<noteq> []" "list_all name_char n" "r \<noteq> [] \<longrightarrow> \<not> name_char (hd r)"
  shows "take_name (n @ r) = Some (n, r)"
proof -
  have "\<not> name_char 0x7B" by (simp add: name_char_def is_ascii_alphanumeric_def is_ascii_digit_def)
  then have "hd (n @ r) \<noteq> 0x7B" using assms(1,2) by (cases n) auto
  moreover have "takeWhile name_char (n @ r) = n" "dropWhile name_char (n @ r) = r"
    using assms by (cases r; simp add: list_all_iff takeWhile_append dropWhile_append)+
  ultimately show ?thesis using assms(1) by (simp add: take_name_def Let_def)
qed

lemma compile_items:
  "well_written is \<Longrightarrow> utf8_valid lit \<Longrightarrow>
    concat (map (seg_value src) (compile_loop (print_items is) lit)) = lit @ concat (map (item_value src) is)"
proof (induction "is" arbitrary: lit rule: well_written.induct)
  case (2 t "is")
  then show ?case
    using "2.IH" [of "lit @ t"] by (simp add: print_items_def compile_text utf8_valid_append)
next
  case (3 n "is")
  then show ?case using "3.IH" [of "[]"] by (simp add: print_items_def take_name_braced flush_value)
next
  case (4 n "is")
  then have "take_name (n @ print_items is) = Some (n, print_items is)" using take_name_bare by simp
  then show ?case using 4 "4.IH" [of "[]"] by (simp add: print_items_def flush_value)
qed (simp add: print_items_def flush_value)

text \<open>C29.
  A compiled template means what its source says: rendering it concatenates the text and the values of the named
  variables, in braces or bare, for every source of values, whether or not the literal shortcut is taken.
\<close>

theorem template_meaning:
  assumes "well_written is"
  shows "render (compile (print_items is)) src = concat (map (item_value src) is)
    \<and> render_into (compile (print_items is)) src out = out @ concat (map (item_value src) is)"
  using compile_items [OF assms, of "[]" src] by (simp add: render_compile)

theorem template_meaning_witness:
  "render (compile (bs ''http://${host}x$uri/'')) (\<lambda>v. if v = VHost then bs ''h'' else bs ''/u'') = bs ''http://hx/u/''"
proof -
  let ?is = "[Text (bs ''http://''), Braced (bs ''host''), Text (bs ''x''), Bare (bs ''uri''), Text (bs ''/'')]"
  have "well_written ?is" "print_items ?is = bs ''http://${host}x$uri/''" by code_simp+
  moreover have "concat (map (item_value (\<lambda>v. if v = VHost then bs ''h'' else bs ''/u'')) ?is) = bs ''http://hx/u/''" by code_simp
  ultimately show ?thesis using template_meaning [of ?is "\<lambda>v. if v = VHost then bs ''h'' else bs ''/u''" "[]"] by simp
qed

text \<open>
  A capture directly followed by a letter or digit is taken for a variable of that longer name.
\<close>

theorem capture_swallows_word: "segs (compile (bs ''/$1x'')) = [SLit (bs ''/''), SVar (VUser (bs ''1x''))]"
  by code_simp

end
