(* ===== verification/Proxy.thy ===== *)
theory Proxy
  imports Handler Upstream Cache
begin

text \<open>
  \<^verbatim>\<open>proxy_pass\<close> (\<^verbatim>\<open>server/proxy.rs\<close>): the lookup in the cache, the choice of a peer, the head sent upstream, the retries
  of \<^verbatim>\<open>proxy_next_upstream\<close>, and the reply made of the answer. Connections, their reads, the clock and the tokenizer of
  the response head are arguments; the attempts of a request are numbered by the peers tried before.
  Which head was sent to which peer is recorded in the state.
\<close>

section \<open>Configuration\<close>

definition HOP_BY_HOP :: "bytes list" where
  "HOP_BY_HOP = [bs ''connection'', bs ''keep-alive'', bs ''proxy-authenticate'', bs ''proxy-authorization'', bs ''te'',
     bs ''trailer'', bs ''transfer-encoding'', bs ''upgrade'']"

record next_upstream =
  nu_error :: bool
  nu_timeout :: bool
  nu_invalid_header :: bool
  nu_statuses :: "nat list"
  nu_non_idempotent :: bool
  nu_off :: bool

definition next_upstream_default :: next_upstream where
  "next_upstream_default =
    \<lparr>nu_error = True, nu_timeout = True, nu_invalid_header = False, nu_statuses = [], nu_non_idempotent = False, nu_off = False\<rparr>"

record 'r proxy_conf =
  pc_set_headers :: "(bytes \<times> 'r tmpl) list"
  pc_hide_headers :: "bytes list"
  pc_http11 :: bool
  pc_next :: next_upstream
  pc_tries :: nat

datatype 'r proxy_target = PUpstream bytes | PAddr bytes u16 | PUnix bytes | PDynamic "'r tmpl"

record 'r proxy_pass =
  pp_target :: "'r proxy_target"
  pp_uri :: "'r tmpl option"
  pp_tls :: bool

record 'r cache_conf =
  cz_zone :: "zone option"
  cz_key :: "'r tmpl"
  cz_valid :: "(nat list \<times> u64) list"
  cz_methods :: "bytes list"
  cz_min_uses :: nat
  cz_bypass :: "'r tmpl list"
  cz_no_cache :: "'r tmpl list"
  cz_use_stale :: "stale_when list"
  cz_lock :: bool

record sticky_cookie =
  sc_name :: bytes
  sc_expires :: "nat option"
  sc_domain :: "bytes option"
  sc_path :: "bytes option"
  sc_httponly :: bool
  sc_secure :: bool
  sc_samesite :: "bytes option"

definition set_cookie :: "sticky_cookie \<Rightarrow> bytes \<Rightarrow> bytes" where
  "set_cookie sc ident =
    sc_name sc @ bs ''='' @ ident @ bs ''; Path='' @ (case sc_path sc of Some p \<Rightarrow> p | None \<Rightarrow> bs ''/'')
    @ (case sc_domain sc of Some d \<Rightarrow> bs ''; Domain='' @ d | None \<Rightarrow> [])
    @ (case sc_expires sc of Some e \<Rightarrow> bs ''; Max-Age='' @ dec_digits e | None \<Rightarrow> [])
    @ (case sc_samesite sc of Some s \<Rightarrow> bs ''; SameSite='' @ s | None \<Rightarrow> [])
    @ (if sc_secure sc then bs ''; Secure'' else []) @ (if sc_httponly sc then bs ''; HttpOnly'' else [])"

text \<open>A group of peers: \<open>g_fails\<close> are \<^verbatim>\<open>max_fails\<close> and \<^verbatim>\<open>fail_timeout\<close> of each server.\<close>

record group =
  g_up :: upstream
  g_sticky :: "sticky_cookie option"
  g_keepalive :: nat
  g_fails :: "nat \<Rightarrow> u32 \<times> nat"

section \<open>State\<close>

record 'c pstate =
  ps_groups :: "bytes \<rightharpoonup> group"
  ps_cursor :: "bytes \<Rightarrow> u64"
  ps_pool :: "bytes \<rightharpoonup> 'c idle list"
  ps_fs :: cfs
  ps_idx :: cindex
  ps_locks :: "lock_key set"
  ps_cache_status :: "cache_status option"
  ps_sent :: "(nat option \<times> bytes) list"

text \<open>A read of no bytes is the end of the stream; after the last read the peer is silent until the timeout.\<close>

datatype read_event = RData bytes | RError

datatype rsp_parse = HComplete nat "nat option" "(bytes \<times> bytes) list" | HPartial | HInvalid

record 'c penv =
  pe_reusable :: "'c \<Rightarrow> bool"
  pe_connect :: "nat \<Rightarrow> bytes \<Rightarrow> 'c option"
  pe_write_head :: "nat \<Rightarrow> bool"
  pe_write_body :: "nat \<Rightarrow> bool"
  pe_reads :: "nat \<Rightarrow> 'c \<Rightarrow> read_event list"
  pe_parse :: "bytes \<Rightarrow> rsp_parse"
  pe_now_ms :: "nat \<Rightarrow> nat"
  pe_late :: "nat \<Rightarrow> bool"
  pe_now :: u64
  pe_remote :: bytes
  pe_polls :: "(bool \<times> (decoded \<times> cache_status) option) list"
  pe_store :: store_io
  pe_tmp :: bytes

type_synonym chosen = "(bytes \<times> nat) option"

definition map_group :: "bytes \<Rightarrow> (group \<Rightarrow> group) \<Rightarrow> 'c pstate \<Rightarrow> 'c pstate" where
  "map_group n f st = st\<lparr>ps_groups := (case ps_groups st n of Some g \<Rightarrow> (ps_groups st)(n \<mapsto> f g) | None \<Rightarrow> ps_groups st)\<rparr>"

definition map_health :: "chosen \<Rightarrow> (group \<Rightarrow> nat \<Rightarrow> peer_health \<Rightarrow> peer_health) \<Rightarrow> 'c pstate \<Rightarrow> 'c pstate" where
  "map_health ch f st =
    (case ch of
       None \<Rightarrow> st
     | Some (n, i) \<Rightarrow> map_group n (\<lambda>g. g\<lparr>g_up := (g_up g)\<lparr>health := (health (g_up g))[i := f g i (health (g_up g) ! i)]\<rparr>\<rparr>) st)"

definition note_failure :: "nat \<Rightarrow> chosen \<Rightarrow> 'c pstate \<Rightarrow> 'c pstate" where
  "note_failure now_ms ch = map_health ch (\<lambda>g i h. record_failure h now_ms (fst (g_fails g i)) (snd (g_fails g i)))"

section \<open>Choosing a peer\<close>

definition peer_addr :: "bytes \<Rightarrow> bytes" where
  "peer_addr a = (if starts_with a (bs ''unix:'') \<or> 0x3A \<in> set a then a else a @ bs '':80'')"

fun find_cookie :: "bytes \<Rightarrow> bytes list \<Rightarrow> bytes option" where
  "find_cookie name [] = None"
| "find_cookie name (p # ps) =
    (case split_once 0x3D (trim p) of
       Some (k, v) \<Rightarrow> if trim k = name then Some (trim v) else find_cookie name ps
     | None \<Rightarrow> find_cookie name ps)"

definition request_cookie :: "'r hctx \<Rightarrow> bytes \<Rightarrow> bytes option" where
  "request_cookie ctx name =
    (case hot_value (h_req ctx) (h_buf ctx) Cookie of Some ck \<Rightarrow> find_cookie name (split_on 0x3B ck) | None \<Rightarrow> None)"

definition select_peer_excluding ::
  "'c penv \<Rightarrow> 'r hctx \<Rightarrow> nat \<Rightarrow> bytes \<Rightarrow> group \<Rightarrow> nat list \<Rightarrow> 'c pstate \<Rightarrow> 'c pstate \<times> (nat + nat)" where
  "select_peer_excluding env ctx now_ms n g exclude st =
    (let pinned = (case g_sticky g of
           Some sc \<Rightarrow> sticky_peer (g_up g) now_ms (request_cookie ctx (sc_name sc)) exclude
         | None \<Rightarrow> None)
     in case pinned of
          Some i \<Rightarrow> (st, Inr i)
        | None \<Rightarrow>
           (let hash = (if lb (g_up g) = IpHash then Some (unat (fnv1a 0 (pe_remote env))) else None);
                cursor = ps_cursor st n
            in (st\<lparr>ps_cursor := (ps_cursor st)(n := cursor + 1)\<rparr>,
                case select_excluding (g_up g) now_ms hash (unat cursor) exclude of Some i \<Rightarrow> Inr i | None \<Rightarrow> Inl 502)))"

section \<open>The head sent upstream\<close>

definition host_of :: "bytes \<Rightarrow> bytes" where
  "host_of a = (if starts_with a (bs ''unix:'') then bs ''localhost'' else a)"

text \<open>\<^verbatim>\<open>str::get(n..)\<close>: nothing past the end or inside a character.\<close>

definition tail_from :: "bytes \<Rightarrow> nat \<Rightarrow> bytes" where
  "tail_from s n = (if n = length s \<or> n < length s \<and> \<not> is_cont (s ! n) then drop n s else [])"

definition upstream_uri :: "'r hctx \<Rightarrow> 'r location \<Rightarrow> 'r proxy_pass \<Rightarrow> bytes" where
  "upstream_uri ctx loc pp =
    (case pp_uri pp of
       Some t \<Rightarrow>
        (let base = t ctx
         in base @ (case loc_prefix (matcher loc) of
                      Some prefix \<Rightarrow>
                        if base \<noteq> [] \<and> last base = 0x2F then dropWhile (\<lambda>c. c = 0x2F) (tail_from (h_uri ctx) (length prefix)) else []
                    | None \<Rightarrow> []))
     | None \<Rightarrow> h_uri ctx)
    @ (if h_args ctx \<noteq> [] then [0x3F] @ h_args ctx else [])"

definition set_fields :: "'r hctx \<Rightarrow> 'r proxy_conf \<Rightarrow> (bytes \<times> bytes) list" where
  "set_fields ctx conf = filter (\<lambda>(_, v). v \<noteq> []) (map (\<lambda>(n, t). (n, t ctx)) (pc_set_headers conf))"

definition overridden :: "'r proxy_conf \<Rightarrow> bytes list" where
  "overridden conf = map (\<lambda>(n, _). map to_ascii_lowercase n) (pc_set_headers conf)"

definition host_set :: "'r proxy_conf \<Rightarrow> bool" where
  "host_set conf \<longleftrightarrow> list_ex (\<lambda>(n, _). eq_ignore_ascii_case n (bs ''host'')) (pc_set_headers conf)"

definition forwarded :: "'r hctx \<Rightarrow> 'r proxy_conf \<Rightarrow> (bytes \<times> bytes) list" where
  "forwarded ctx conf =
    filter (\<lambda>(n, _). let lower = map to_ascii_lowercase n
        in \<not> (lower \<in> set HOP_BY_HOP \<or> lower = bs ''host'' \<or> lower = bs ''content-length'' \<or> lower = bs ''expect''
              \<or> lower \<in> set (overridden conf) \<or> lower \<in> set (pc_hide_headers conf)))
      (map (\<lambda>h. (slice (h_buf ctx) (fst h), slice (h_buf ctx) (snd h))) (headers (h_req ctx)))"

definition build_request_head ::
  "'r hctx \<Rightarrow> 'r location \<Rightarrow> 'r proxy_pass \<Rightarrow> 'r proxy_conf \<Rightarrow> bytes \<Rightarrow> bytes \<Rightarrow> bool \<Rightarrow> bytes" where
  "build_request_head ctx loc pp conf body a want_keepalive =
    slice (h_buf ctx) (method_raw (h_req ctx)) @ bs '' '' @ upstream_uri ctx loc pp
    @ (if pc_http11 conf then bs '' HTTP/1.1'' @ crlf else bs '' HTTP/1.0'' @ crlf)
    @ concat (map (\<lambda>(n, v). field_line n v) (set_fields ctx conf))
    @ (if \<not> host_set conf then field_line (bs ''Host'') (host_of a) else [])
    @ concat (map (\<lambda>(n, v). field_line n v) (forwarded ctx conf))
    @ (if body \<noteq> [] then bs ''Content-Length: '' @ push_num [] (of_nat (length body)) @ crlf else [])
    @ (if want_keepalive then bs ''Connection: keep-alive'' @ crlf @ crlf else bs ''Connection: close'' @ crlf @ crlf)"

section \<open>One attempt\<close>

text \<open>A failed attempt: whether it counts against the peer, whether it may go to another, its status, and the stale answer it allows.\<close>

record pfail =
  f_noted :: bool
  f_enabled :: bool
  f_code :: nat
  f_stale :: "stale_when option"

record up_head =
  uh_headers :: "(bytes \<times> bytes) list"
  uh_chunked :: bool
  uh_len :: "nat option"
  uh_close :: bool
  uh_upgrade :: "bytes option"

definition up_head_new :: up_head where
  "up_head_new = \<lparr>uh_headers = [], uh_chunked = False, uh_len = None, uh_close = False, uh_upgrade = None\<rparr>"

fun collect_headers :: "bytes list \<Rightarrow> (bytes \<times> bytes) list \<Rightarrow> up_head \<Rightarrow> up_head" where
  "collect_headers hide [] u = u"
| "collect_headers hide ((n, raw) # hs) u =
    (if n = [] then u
     else (let v = from_utf8_lossy raw; lower = map to_ascii_lowercase n
           in collect_headers hide hs
                (if lower = bs ''transfer-encoding'' then u\<lparr>uh_chunked := eq_ignore_ascii_case v (bs ''chunked'')\<rparr>
                 else if lower = bs ''content-length'' then u\<lparr>uh_len := parse_unsigned 64 (trim v)\<rparr>
                 else if lower = bs ''connection'' then u\<lparr>uh_close := eq_ignore_ascii_case v (bs ''close'')\<rparr>
                 else if lower = bs ''upgrade'' then u\<lparr>uh_upgrade := Some v\<rparr>
                 else if lower \<in> set HOP_BY_HOP \<or> lower \<in> set hide then u
                 else u\<lparr>uh_headers := uh_headers u @ [(n, v)]\<rparr>)))"

record 'c answer =
  an_chosen :: chosen
  an_keepalive :: nat
  an_addr :: bytes
  an_conn :: 'c
  an_want_keepalive :: bool
  an_buf :: bytes
  an_head_len :: nat
  an_status :: nat
  an_head :: up_head

fun read_answer ::
  "(bytes \<Rightarrow> rsp_parse) \<Rightarrow> next_upstream \<Rightarrow> bool \<Rightarrow> read_event list \<Rightarrow> bytes \<Rightarrow> pfail + bytes \<times> nat \<times> nat \<times> (bytes \<times> bytes) list" where
  "read_answer parse nu reused [] buf =
    Inl \<lparr>f_noted = True, f_enabled = nu_timeout nu, f_code = 504, f_stale = Some WTimeout\<rparr>"
| "read_answer parse nu reused (RError # evs) buf =
    Inl \<lparr>f_noted = \<not> (reused \<and> buf = []), f_enabled = nu_error nu, f_code = 502, f_stale = Some WError\<rparr>"
| "read_answer parse nu reused (RData d # evs) buf =
    (if d = [] then Inl \<lparr>f_noted = \<not> (reused \<and> buf = []), f_enabled = nu_error nu, f_code = 502, f_stale = Some WError\<rparr>
     else (case parse (buf @ d) of
             HComplete len code hs \<Rightarrow> Inr (buf @ d, len, case code of Some c \<Rightarrow> c | None \<Rightarrow> 502, hs)
           | HPartial \<Rightarrow>
              if 65536 < length (buf @ d)
              then Inl \<lparr>f_noted = True, f_enabled = nu_invalid_header nu, f_code = 502, f_stale = None\<rparr>
              else read_answer parse nu reused evs (buf @ d)
           | HInvalid \<Rightarrow> Inl \<lparr>f_noted = True, f_enabled = nu_invalid_header nu, f_code = 502, f_stale = Some WInvalidHeader\<rparr>))"

definition attempt ::
  "'c penv \<Rightarrow> 'r hctx \<Rightarrow> 'r location \<Rightarrow> 'r proxy_pass \<Rightarrow> 'r proxy_conf \<Rightarrow> bytes \<Rightarrow> nat \<Rightarrow> chosen \<Rightarrow> nat \<Rightarrow> bytes \<Rightarrow> 'c pstate
   \<Rightarrow> 'c pstate \<times> (pfail + 'c answer)" where
  "attempt env ctx loc pp conf body k ch keepalive a st =
    (let nu = pc_next conf;
         (pool, idle) = pool_take (pe_reusable env) (pe_now_ms env k) (ps_pool st) a;
         st = st\<lparr>ps_pool := pool\<rparr>;
         reused = (idle \<noteq> None)
     in case (case idle of Some c \<Rightarrow> Some c | None \<Rightarrow> pe_connect env k a) of
          None \<Rightarrow> (st, Inl \<lparr>f_noted = True, f_enabled = nu_error nu, f_code = 502, f_stale = Some WError\<rparr>)
        | Some c \<Rightarrow>
           (let want = (0 < keepalive \<and> pc_http11 conf);
                head = build_request_head ctx loc pp conf body a want;
                st = st\<lparr>ps_sent := ps_sent st @ [(map_option snd ch, head)]\<rparr>
            in if \<not> pe_write_head env k
               then (st, Inl \<lparr>f_noted = \<not> reused, f_enabled = nu_error nu, f_code = 502, f_stale = None\<rparr>)
               else if body \<noteq> [] \<and> \<not> pe_write_body env k
               then (st, Inl \<lparr>f_noted = True, f_enabled = nu_error nu, f_code = 502, f_stale = None\<rparr>)
               else (case read_answer (pe_parse env) nu reused (pe_reads env k c) [] of
                       Inl f \<Rightarrow> (st, Inl f)
                     | Inr (buf, len, code, hs) \<Rightarrow>
                        (st, Inr \<lparr>an_chosen = ch, an_keepalive = keepalive, an_addr = a, an_conn = c, an_want_keepalive = want,
                                  an_buf = buf, an_head_len = len, an_status = code,
                                  an_head = collect_headers (pc_hide_headers conf) hs up_head_new\<rparr>))))"

section \<open>The next peer\<close>

definition next_peer ::
  "nat \<Rightarrow> chosen \<Rightarrow> bool \<Rightarrow> bool \<Rightarrow> bool \<Rightarrow> nat \<Rightarrow> nat \<Rightarrow> nat list \<times> nat option \<Rightarrow> bool \<times> nat list \<times> nat option" where
  "next_peer n_servers ch enabled may_retry late code tries_limit ts =
    (case ts of (tried, first) \<Rightarrow>
      (let first = (case first of None \<Rightarrow> Some code | Some c \<Rightarrow> Some c)
       in case ch of
            None \<Rightarrow> (False, tried, first)
          | Some (_, idx) \<Rightarrow>
             if \<not> may_retry \<or> \<not> enabled \<or> late \<or> idx \<in> set tried then (False, tried, first)
             else (let tried = tried @ [idx]
                   in (\<not> (0 < tries_limit \<and> tries_limit \<le> length tried) \<and> length tried < n_servers, tried, first))))"

definition idempotent :: "http_method \<Rightarrow> bool" where
  "idempotent m \<longleftrightarrow> m \<in> {Get, Head, Put, Delete, Options, Trace}"

definition may_retry :: "'r proxy_conf \<Rightarrow> http_method \<Rightarrow> bool" where
  "may_retry conf m \<longleftrightarrow> \<not> nu_off (pc_next conf) \<and> (idempotent m \<or> nu_non_idempotent (pc_next conf))"

text \<open>\<^verbatim>\<open>trim_start_matches("http://")\<close> takes the prefix away as often as it is there.\<close>

fun trim_http :: "nat \<Rightarrow> bytes \<Rightarrow> bytes" where
  "trim_http 0 s = s"
| "trim_http (Suc n) s = (if starts_with s (bs ''http://'') then trim_http n (drop 7 s) else s)"

definition dynamic_addr :: "bytes \<Rightarrow> nat + bytes \<times> bool" where
  "dynamic_addr rendered =
    (let scheme_tls = starts_with rendered (bs ''https://'');
         rest = (if scheme_tls then drop 8 rendered else trim_http (length rendered) rendered);
         authority = hd (split_on 0x2F rest)
     in if authority = [] then Inl 502
        else Inr (if 0x3A \<in> set authority then authority
                  else authority @ (if scheme_tls then bs '':443'' else bs '':80''), scheme_tls))"

definition choose_peer ::
  "'c penv \<Rightarrow> 'r hctx \<Rightarrow> 'r proxy_pass \<Rightarrow> nat list \<Rightarrow> nat option \<Rightarrow> 'c pstate \<Rightarrow> 'c pstate \<times> (nat + chosen \<times> bytes \<times> bool)" where
  "choose_peer env ctx pp tried first st =
    (case pp_target pp of
       PAddr h p \<Rightarrow> (st, Inr (None, h @ bs '':'' @ dec_digits (unat p), pp_tls pp))
     | PUnix p \<Rightarrow> (st, Inr (None, bs ''unix:'' @ p, False))
     | PDynamic t \<Rightarrow> (st, case dynamic_addr (t ctx) of Inl c \<Rightarrow> Inl c | Inr (a, tls) \<Rightarrow> Inr (None, a, tls))
     | PUpstream n \<Rightarrow>
        (case ps_groups st n of
           None \<Rightarrow> (st, Inl 502)
         | Some g \<Rightarrow>
            (case select_peer_excluding env ctx (pe_now_ms env (length tried)) n g tried st of
               (st, Inl c) \<Rightarrow> (st, Inl (case first of Some e \<Rightarrow> e | None \<Rightarrow> c))
             | (st, Inr i) \<Rightarrow> (st, Inr (Some (n, i), peer_addr (addr (servers (g_up g) ! i)), pp_tls pp)))))"

definition group_of :: "chosen \<Rightarrow> 'c pstate \<Rightarrow> group option" where
  "group_of ch st = (case ch of Some (n, _) \<Rightarrow> ps_groups st n | None \<Rightarrow> None)"

definition n_servers :: "chosen \<Rightarrow> 'c pstate \<Rightarrow> nat" where
  "n_servers ch st = (case group_of ch st of Some g \<Rightarrow> length (servers (g_up g)) | None \<Rightarrow> 0)"

datatype 'c attempted = AFail nat "stale_when option" | AOk "'c answer"

text \<open>One turn of the loop: an end, or the peers tried and the first error with which it goes on.\<close>

definition proxy_turn ::
  "'c penv \<Rightarrow> 'r hctx \<Rightarrow> 'r location \<Rightarrow> 'r proxy_pass \<Rightarrow> 'r proxy_conf \<Rightarrow> bytes \<Rightarrow> nat list \<times> nat option \<Rightarrow> 'c pstate
   \<Rightarrow> 'c pstate \<times> ('c attempted + nat list \<times> nat option)" where
  "proxy_turn env ctx loc pp conf body ts st =
    (let k = length (fst ts); retry = may_retry conf (rmethod (h_req ctx))
     in case choose_peer env ctx pp (fst ts) (snd ts) st of
          (st, Inl code) \<Rightarrow> (st, Inl (AFail code None))
        | (st, Inr (ch, a, tls)) \<Rightarrow>
           if tls then (st, Inl (AFail 502 None))
           else
             (let keepalive = (case group_of ch st of Some g \<Rightarrow> g_keepalive g | None \<Rightarrow> 0);
                  st = map_health ch (\<lambda>_ _. guard_enter) st;
                  (st, res) = attempt env ctx loc pp conf body k ch keepalive a st;
                  st = map_health ch (\<lambda>_ _. guard_drop) st;
                  now_ms = pe_now_ms env k
              in case res of
                   Inl f \<Rightarrow>
                    (let st = (if f_noted f then note_failure now_ms ch st else st)
                     in case next_peer (n_servers ch st) ch (f_enabled f) retry (pe_late env k) (f_code f) (pc_tries conf) ts of
                          (True, ts) \<Rightarrow> (st, Inr ts)
                        | (False, _) \<Rightarrow> (st, Inl (AFail (f_code f) (f_stale f))))
                 | Inr an \<Rightarrow>
                    if an_status an \<in> set (nu_statuses (pc_next conf))
                    then (let st = note_failure now_ms ch st
                          in case next_peer (n_servers ch st) ch True retry (pe_late env k) (an_status an) (pc_tries conf) ts of
                               (True, ts) \<Rightarrow> (st, Inr ts)
                             | (False, _) \<Rightarrow> (st, Inl (AOk an)))
                    else (st, Inl (AOk an))))"

text \<open>The size of the group the target names never changes, so the loop ends.\<close>

definition sizes :: "'c pstate \<Rightarrow> bytes \<Rightarrow> nat" where
  "sizes st n = (case ps_groups st n of Some g \<Rightarrow> length (servers (g_up g)) | None \<Rightarrow> 0)"

lemma sizes_map_health [simp]: "sizes (map_health ch f st) = sizes st"
  by (rule ext) (auto simp: sizes_def map_health_def map_group_def split: option.splits)

lemma sizes_note_failure [simp]: "sizes (note_failure t ch st) = sizes st"
  by (simp add: note_failure_def)

lemma sizes_fields [simp]:
  "sizes (st\<lparr>ps_cursor := c\<rparr>) = sizes st" "sizes (st\<lparr>ps_pool := p\<rparr>) = sizes st" "sizes (st\<lparr>ps_sent := l\<rparr>) = sizes st"
  by (simp_all add: sizes_def fun_eq_iff)

lemma sizes_attempt: "sizes (fst (attempt env ctx loc pp conf body k ch keepalive a st)) = sizes st"
  by (auto simp: attempt_def Let_def split: option.splits prod.splits sum.splits)

lemma choose_peer_sizes: "sizes (fst (choose_peer env ctx pp tried first st)) = sizes st"
  by (auto simp: choose_peer_def select_peer_excluding_def Let_def split: proxy_target.splits option.splits prod.splits sum.splits)

lemma choose_peer_chosen:
  assumes "choose_peer env ctx pp tried first st = (st', Inr (ch, a, tls))"
  shows "ch = None \<or> (\<exists>n i. pp_target pp = PUpstream n \<and> ch = Some (n, i))"
  using assms by (auto simp: choose_peer_def split: proxy_target.splits option.splits prod.splits sum.splits)

lemma next_peer_True:
  assumes "next_peer m ch enabled retry late code limit ts = (True, ts')"
  obtains n i where "ch = Some (n, i)" "fst ts' = fst ts @ [i]" "i \<notin> set (fst ts)" "retry" "length (fst ts') < m"
    "limit = 0 \<or> length (fst ts') < limit"
  using assms by (auto simp: next_peer_def Let_def split: prod.splits option.splits if_splits)

lemma proxy_turn_Inr:
  fixes st :: "'c pstate"
  assumes "proxy_turn env ctx loc pp conf body ts st = (st', Inr ts')"
  obtains n i a where "pp_target pp = PUpstream n" "fst ts' = fst ts @ [i]" "i \<notin> set (fst ts)"
    "may_retry conf (rmethod (h_req ctx))" "length (fst ts') < sizes st n" "sizes st' = sizes st"
    "pc_tries conf = 0 \<or> length (fst ts') < pc_tries conf"
proof -
  let ?retry = "may_retry conf (rmethod (h_req ctx))"
  obtain st1 r where c: "choose_peer env ctx pp (fst ts) (snd ts) st = (st1, r)" by fastforce
  then obtain ch a where r: "r = Inr (ch, a, False)"
    using assms by (cases r) (auto simp: proxy_turn_def Let_def split: prod.splits if_splits)
  define k where "k = (case group_of ch st1 of Some g \<Rightarrow> g_keepalive g | None \<Rightarrow> 0)"
  obtain st2 res where at: "attempt env ctx loc pp conf body (length (fst ts)) ch k a (map_health ch (\<lambda>_ _. guard_enter) st1) = (st2, res)"
    by fastforce
  have sz: "sizes st2 = sizes st" using sizes_attempt [of env ctx loc pp conf body "length (fst ts)" ch k a] at
    choose_peer_sizes [of env ctx pp "fst ts" "snd ts" st] c by (metis fst_conv sizes_map_health)
  have "\<exists>en code (st3 :: 'c pstate). sizes st3 = sizes st \<and> sizes st' = sizes st \<and>
      next_peer (n_servers ch st3) ch en ?retry (pe_late env (length (fst ts))) code (pc_tries conf) ts = (True, ts')"
  proof (cases res)
    case (Inl f)
    let ?st = "map_health ch (\<lambda>_ _. guard_drop) st2"
    let ?st' = "if f_noted f then note_failure (pe_now_ms env (length (fst ts))) ch ?st else ?st"
    show ?thesis using assms Inl at r c sz unfolding k_def
      by (intro exI [where x = "f_enabled f"] exI [where x = "f_code f"] exI [where x = ?st'])
        (auto simp: proxy_turn_def Let_def split: prod.splits bool.splits)
  next
    case (Inr an)
    let ?st = "note_failure (pe_now_ms env (length (fst ts))) ch (map_health ch (\<lambda>_ _. guard_drop) st2)"
    show ?thesis using assms Inr at r c sz unfolding k_def
      by (intro exI [where x = True] exI [where x = "an_status an"] exI [where x = ?st])
        (auto simp: proxy_turn_def Let_def split: prod.splits bool.splits if_splits)
  qed
  then obtain en code and st3 :: "'c pstate" where st3: "sizes st3 = sizes st" "sizes st' = sizes st"
    and np: "next_peer (n_servers ch st3) ch en ?retry (pe_late env (length (fst ts))) code (pc_tries conf) ts = (True, ts')" by blast
  from next_peer_True [OF np] obtain n i where n: "ch = Some (n, i)" "fst ts' = fst ts @ [i]" "i \<notin> set (fst ts)" ?retry
    "length (fst ts') < n_servers ch st3" "pc_tries conf = 0 \<or> length (fst ts') < pc_tries conf" .
  moreover have "n_servers ch st3 = sizes st n" using st3(1) n(1) by (simp add: n_servers_def group_of_def fun_eq_iff sizes_def)
  moreover have "pp_target pp = PUpstream n" using choose_peer_chosen [OF c [unfolded r]] n(1) by auto
  ultimately show thesis using that st3(2) by metis
qed

definition group_size :: "'r proxy_pass \<Rightarrow> 'c pstate \<Rightarrow> nat" where
  "group_size pp st = (case pp_target pp of PUpstream n \<Rightarrow> sizes st n | _ \<Rightarrow> 0)"

function proxy_attempts ::
  "'c penv \<Rightarrow> 'r hctx \<Rightarrow> 'r location \<Rightarrow> 'r proxy_pass \<Rightarrow> 'r proxy_conf \<Rightarrow> bytes \<Rightarrow> nat list \<times> nat option \<Rightarrow> 'c pstate
   \<Rightarrow> 'c pstate \<times> 'c attempted" where
  "proxy_attempts env ctx loc pp conf body ts st =
    (case proxy_turn env ctx loc pp conf body ts st of
       (st, Inl r) \<Rightarrow> (st, r)
     | (st, Inr ts) \<Rightarrow> proxy_attempts env ctx loc pp conf body ts st)"
  by pat_completeness auto
termination
  by (relation "measure (\<lambda>(_, _, _, pp, _, _, ts, st). group_size pp st - length (fst ts))")
    (auto elim!: proxy_turn_Inr [OF sym] simp: group_size_def)

declare proxy_attempts.simps [simp del]

section \<open>The cache around it\<close>

record 'r cache_ctx =
  cc_zone :: zone
  cc_key :: bytes
  cc_hash :: key_hash
  cc_bypassed :: bool
  cc_conf :: "'r cache_conf"

definition truthy :: "bytes \<Rightarrow> bool" where
  "truthy s \<longleftrightarrow> s \<noteq> [] \<and> s \<noteq> bs ''0''"

definition cache_context :: "'r hctx \<Rightarrow> 'r cache_conf \<Rightarrow> 'r cache_ctx option" where
  "cache_context ctx c =
    (case cz_zone c of
       None \<Rightarrow> None
     | Some z \<Rightarrow>
        if \<not> list_ex (\<lambda>m. m = method_as_str (rmethod (h_req ctx))) (cz_methods c) then None
        else (let key = cz_key c ctx
              in Some \<lparr>cc_zone = z, cc_key = key, cc_hash = key_hash_of key,
                       cc_bypassed = list_ex (\<lambda>t. truthy (t ctx)) (cz_bypass c), cc_conf = c\<rparr>))"

definition lock_of :: "'r cache_ctx \<Rightarrow> lock_key" where
  "lock_of cc = (z_name (cc_zone cc), cc_hash cc)"

definition cacheable_ttl :: "u64 \<Rightarrow> 'r cache_ctx \<Rightarrow> 'r hctx \<Rightarrow> nat \<Rightarrow> cindex \<Rightarrow> u64 option \<times> cindex" where
  "cacheable_ttl now cc ctx st idx =
    (let c = cc_conf cc
     in if list_ex (\<lambda>t. truthy (t ctx)) (cz_no_cache c) then (None, idx)
        else (let (uses, idx) = (if 1 < cz_min_uses c then note_use now (cc_zone cc) (cc_hash cc) idx else (cz_min_uses c, idx))
              in if uses < cz_min_uses c then (None, idx)
                 else (map_option snd
                         (case find (\<lambda>v. st \<in> set (fst v)) (cz_valid c) of
                            Some v \<Rightarrow> Some v
                          | None \<Rightarrow> find (\<lambda>v. fst v = []) (cz_valid c)), idx)))"

definition cached_reply :: "decoded \<Rightarrow> ('m, 'f, 'c, 'c) reply" where
  "cached_reply d =
    (let r = fold (\<lambda>(n, v) r. if eq_ignore_ascii_case n (bs ''content-length'') \<or> eq_ignore_ascii_case n (bs ''transfer-encoding'')
                 then r else add_header n v r) (d_headers d) (resp_new\<lparr>status := unat (d_status d)\<rparr>)
     in \<lparr>rresp = r\<lparr>resp_framing := FLength (of_nat (length (d_body d)))\<rparr>, reply_body = BBytes (d_body d)\<rparr>)"

definition try_stale :: "'r cache_ctx option \<Rightarrow> decoded option \<Rightarrow> stale_when \<Rightarrow> 'c pstate \<Rightarrow> ('c pstate \<times> ('m, 'f, 'c, 'c) reply) option" where
  "try_stale cache stale outcome st =
    (case (cache, stale) of
       (Some cc, Some d) \<Rightarrow>
         if stale_allowed (cz_use_stale (cc_conf cc)) outcome
         then Some (st\<lparr>ps_cache_status := Some Stale\<rparr>, cached_reply d) else None
     | _ \<Rightarrow> None)"

text \<open>The polls until the deadline: whether the key is locked, and what a lookup finds.\<close>

fun wait_for_fetch :: "(bool \<times> (decoded \<times> cache_status) option) list \<Rightarrow> decoded option" where
  "wait_for_fetch [] = None"
| "wait_for_fetch ((locked, found) # ps) =
    (if locked then wait_for_fetch ps else (case found of Some (d, Hit) \<Rightarrow> Some d | _ \<Rightarrow> None))"

datatype ('m, 'f, 'c) looked_up = LReply "('m, 'f, 'c, 'c) reply" | LFetch "decoded option" bool

text \<open>The lookup: an answer, or the stale entry in hand and whether this request holds the fetch lock.\<close>

definition lookup_phase :: "'c penv \<Rightarrow> 'r cache_ctx option \<Rightarrow> 'c pstate \<Rightarrow> 'c pstate \<times> ('m, 'f, 'c) looked_up" where
  "lookup_phase env cache st =
    (case cache of
       None \<Rightarrow> (st, LFetch None False)
     | Some cc \<Rightarrow>
        if cc_bypassed cc then (st\<lparr>ps_cache_status := Some Bypass\<rparr>, LFetch None False)
        else
          (let (found, fs, idx) = load (pe_now env) (cc_zone cc) (cc_key cc) (cc_hash cc) (ps_fs st) (ps_idx st);
               st = st\<lparr>ps_fs := fs, ps_idx := idx\<rparr>
           in case found of
                Some (d, Hit) \<Rightarrow> (st\<lparr>ps_cache_status := Some Hit\<rparr>, LReply (cached_reply d))
              | _ \<Rightarrow>
                 (let stale = map_option fst found;
                      st = st\<lparr>ps_cache_status := Some (if found = None then Miss else Expired)\<rparr>
                  in if \<not> cz_lock (cc_conf cc) then (st, LFetch stale False)
                     else (case try_lock (lock_of cc) (ps_locks st) of
                             (True, ls) \<Rightarrow> (st\<lparr>ps_locks := ls\<rparr>, LFetch stale True)
                           | (False, _) \<Rightarrow>
                              (case try_stale cache stale WUpdating st of
                                 Some (st, rp) \<Rightarrow> (st, LReply rp)
                               | None \<Rightarrow>
                                  (case wait_for_fetch (pe_polls env) of
                                     Some d \<Rightarrow> (st\<lparr>ps_cache_status := Some Hit\<rparr>, LReply (cached_reply d))
                                   | None \<Rightarrow> (st, LFetch stale False)))))))"

section \<open>The reply\<close>

definition sticky_fields :: "'r hctx \<Rightarrow> chosen \<Rightarrow> 'c pstate \<Rightarrow> (bytes \<times> bytes) list" where
  "sticky_fields ctx ch st =
    (case ch of
       None \<Rightarrow> []
     | Some (n, i) \<Rightarrow>
        (case ps_groups st n of
           None \<Rightarrow> []
         | Some g \<Rightarrow>
            (case g_sticky g of
               None \<Rightarrow> []
             | Some sc \<Rightarrow>
                (let ident = sticky_id (servers (g_up g) ! i)
                 in if request_cookie ctx (sc_name sc) \<noteq> Some ident then [(bs ''Set-Cookie'', set_cookie sc ident)] else []))))"

definition with_headers :: "(bytes \<times> bytes) list \<Rightarrow> resp \<Rightarrow> resp" where
  "with_headers hs r = fold (\<lambda>(n, v). add_header n v) hs r"

definition answer_reply ::
  "'c penv \<Rightarrow> 'r hctx \<Rightarrow> 'r cache_ctx option \<Rightarrow> nat \<Rightarrow> 'c answer \<Rightarrow> nat \<Rightarrow> 'c pstate \<Rightarrow> 'c pstate \<times> (nat + ('m, 'f, 'c, 'c) reply)" where
  "answer_reply env ctx cache idle an code st =
    (let hs = uh_headers (an_head an) @ sticky_fields ctx (an_chosen an) st;
         r = with_headers hs (resp_new\<lparr>status := code\<rparr>);
         pre = drop (an_head_len an) (an_buf an)
     in if code = 101
        then (if hot_value (h_req ctx) (h_buf ctx) Upgrade = None
              then (note_failure (pe_now_ms env 0) (an_chosen an) st, Inl 502)
              else (let r = (case uh_upgrade (an_head an) of Some p \<Rightarrow> add_header (bs ''Upgrade'') p r | None \<Rightarrow> r);
                        r = add_header (bs ''Connection'') (bs ''Upgrade'') r
                    in (st, Inr \<lparr>rresp = r, reply_body = BUpgraded pre (an_conn an) idle\<rparr>)))
        else
          (let (ttl, idx) = (case cache of Some cc \<Rightarrow> cacheable_ttl (pe_now env) cc ctx code (ps_idx st) | None \<Rightarrow> (None, ps_idx st));
               st = st\<lparr>ps_idx := idx\<rparr>
           in if uh_chunked (an_head an)
              then (st, Inr \<lparr>rresp = r\<lparr>resp_framing := FChunked\<rparr>, reply_body = BStream pre (an_conn an) None\<rparr>)
              else (case uh_len (an_head an) of
                      Some n \<Rightarrow>
                        (let r = r\<lparr>resp_framing := FLength (of_nat n)\<rparr>
                         in if n - length pre = 0
                            then (let st = (if an_want_keepalive an \<and> \<not> uh_close (an_head an)
                                            then st\<lparr>ps_pool := pool_put (ps_pool st) (an_addr an) (an_conn an) (an_keepalive an) (pe_now_ms env 0)\<rparr>
                                            else st);
                                      st = (case (cache, ttl) of
                                              (Some cc, Some t) \<Rightarrow>
                                                (let (_, fs, idx) = store (pe_store env) (pe_tmp env) (pe_now env) (cc_zone cc) (cc_hash cc)
                                                       (encode_entry (pe_now env) (cc_key cc) (of_nat code) hs pre t) (ps_fs st) (ps_idx st)
                                                 in st\<lparr>ps_fs := fs, ps_idx := idx\<rparr>)
                                            | _ \<Rightarrow> st)
                                  in (st, Inr \<lparr>rresp = r, reply_body = BBytes pre\<rparr>))
                            else (st, Inr \<lparr>rresp = r, reply_body = BStream pre (an_conn an) (Some (of_nat n))\<rparr>))
                    | None \<Rightarrow>
                        (st, Inr \<lparr>rresp = r\<lparr>resp_framing := FUntilClose, resp_keep_alive := False\<rparr>,
                                  reply_body = BStream pre (an_conn an) None\<rparr>))))"

definition conclude ::
  "'c penv \<Rightarrow> 'r hctx \<Rightarrow> 'r cache_ctx option \<Rightarrow> decoded option \<Rightarrow> nat \<Rightarrow> 'c attempted \<Rightarrow> 'c pstate
   \<Rightarrow> 'c pstate \<times> (nat + ('m, 'f, 'c, 'c) reply)" where
  "conclude env ctx cache stale idle a st =
    (case a of
       AFail code w \<Rightarrow>
        (case (case w of Some w \<Rightarrow> try_stale cache stale w st | None \<Rightarrow> None) of
           Some (st, rp) \<Rightarrow> (st, Inr rp)
         | None \<Rightarrow> (st, Inl code))
     | AOk an \<Rightarrow>
        (let code = (if an_status an = 0 then 502 else an_status an);
             st = map_health (an_chosen an) (\<lambda>_ _. record_success) st
         in case (if 400 \<le> code then try_stale cache stale (WStatus code) st else None) of
              Some (st, rp) \<Rightarrow> (st, Inr rp)
            | None \<Rightarrow> answer_reply env ctx cache idle an code st))"

definition proxy ::
  "'c penv \<Rightarrow> 'r hctx \<Rightarrow> 'r location \<Rightarrow> 'r proxy_pass \<Rightarrow> 'r proxy_conf \<Rightarrow> 'r cache_conf \<Rightarrow> bytes \<Rightarrow> nat \<Rightarrow> 'c pstate
   \<Rightarrow> 'c pstate \<times> (nat + ('m, 'f, 'c, 'c) reply)" where
  "proxy env ctx loc pp conf cconf body idle st =
    (let cache = cache_context ctx cconf
     in case lookup_phase env cache st of
          (st, LReply rp) \<Rightarrow> (st, Inr rp)
        | (st, LFetch stale locked) \<Rightarrow>
           (let (st, a) = proxy_attempts env ctx loc pp conf body ([], None) st;
                (st, res) = conclude env ctx cache stale idle a st
            in (case cache of
                  Some cc \<Rightarrow> if locked then st\<lparr>ps_locks := drop_lock (lock_of cc) (ps_locks st)\<rparr> else st
                | None \<Rightarrow> st, res)))"

section \<open>Retries\<close>

lemma select_excluding_fresh:
  assumes "select_excluding up now hash cur exclude = Some i"
  shows "i \<notin> set exclude"
proof -
  have mem: "pick_from up (filter (eligible up now exclude b) xs) hash cur \<in> set (filter (eligible up now exclude b) xs)"
    if "filter (eligible up now exclude b) xs \<noteq> []" for b xs using pick_from_mem [OF that] .
  show ?thesis
    using assms mem by (auto simp: select_excluding_def Let_def eligible_def split: if_splits dest!: min_by_key_Some)
qed

lemma sticky_peer_fresh: "sticky_peer up now c exclude = Some i \<Longrightarrow> i \<notin> set exclude"
  by (auto simp: sticky_peer_def split: option.splits if_splits)

lemma choose_peer_fresh:
  assumes "choose_peer env ctx pp tried first st = (st', Inr (Some (n, i), a, tls))"
  shows "i \<notin> set tried"
  using assms
  by (auto simp: choose_peer_def select_peer_excluding_def Let_def split: proxy_target.splits option.splits prod.splits sum.splits
      dest: select_excluding_fresh sticky_peer_fresh)

text \<open>What the parts leave alone: the record of the heads sent and the locks.\<close>

abbreviation same_sent :: "'c pstate \<Rightarrow> 'c pstate \<Rightarrow> bool" where
  "same_sent st' st \<equiv> ps_sent st' = ps_sent st \<and> ps_locks st' = ps_locks st"

lemma same_sent_health [simp]: "same_sent (map_health ch f st) st" "same_sent (note_failure t ch st) st"
  by (auto simp: note_failure_def map_health_def map_group_def split: option.splits)

lemma same_sent_choose: "same_sent (fst (choose_peer env ctx pp tried first st)) st"
  by (auto simp: choose_peer_def select_peer_excluding_def Let_def split: proxy_target.splits option.splits prod.splits sum.splits)

lemma attempt_sent:
  "ps_locks (fst (attempt env ctx loc pp conf body k ch keepalive a st)) = ps_locks st
   \<and> (\<exists>new. ps_sent (fst (attempt env ctx loc pp conf body k ch keepalive a st)) = ps_sent st @ new
        \<and> (new = [] \<or> (\<exists>h. new = [(map_option snd ch, h)])))"
  by (auto simp: attempt_def Let_def split: option.splits prod.splits sum.splits)

lemma proxy_turn_sent:
  assumes "proxy_turn env ctx loc pp conf body ts st = (st', r)"
  shows "ps_locks st' = ps_locks st \<and> (\<exists>new. ps_sent st' = ps_sent st @ new
    \<and> (new = [] \<or> (\<exists>p h. new = [(p, h)] \<and> p \<notin> Some ` set (fst ts) \<and> (\<forall>ts'. r = Inr ts' \<longrightarrow> p \<in> Some ` set (fst ts')))))"
proof -
  obtain st1 c where c: "choose_peer env ctx pp (fst ts) (snd ts) st = (st1, c)" by fastforce
  have s1: "same_sent st1 st" using same_sent_choose [of env ctx pp "fst ts" "snd ts" st] c by simp
  show ?thesis
  proof (cases "\<exists>ch a. c = Inr (ch, a, False)")
    case False
    then have "st' = st1" using assms c by (cases c) (auto simp: proxy_turn_def Let_def split: prod.splits if_splits)
    then show ?thesis using s1 by (intro conjI exI [where x = "[]"]) simp_all
  next
    case True
    then obtain ch a where r: "c = Inr (ch, a, False)" by blast
    define k where "k = (case group_of ch st1 of Some g \<Rightarrow> g_keepalive g | None \<Rightarrow> 0)"
    obtain st2 res where at: "attempt env ctx loc pp conf body (length (fst ts)) ch k a (map_health ch (\<lambda>_ _. guard_enter) st1) = (st2, res)"
      by fastforce
    obtain new where new: "ps_sent st2 = ps_sent st @ new" "ps_locks st2 = ps_locks st" "new = [] \<or> (\<exists>h. new = [(map_option snd ch, h)])"
      using attempt_sent [of env ctx loc pp conf body "length (fst ts)" ch k a "map_health ch (\<lambda>_ _. guard_enter) st1"] at s1 by auto
    have st': "same_sent st' st2" using assms c r at unfolding k_def
      by (auto simp: proxy_turn_def Let_def split: prod.splits sum.splits bool.splits if_splits)
    have fresh: "map_option snd ch \<notin> Some ` set (fst ts)"
    proof (cases ch)
      case (Some x)
      obtain n i where "x = (n, i)" by fastforce
      then show ?thesis using choose_peer_fresh [of env ctx pp "fst ts" "snd ts" st st1 n i a False] c r Some by auto
    qed auto
    have "map_option snd ch \<in> Some ` set (fst ts')" if "r = Inr ts'" for ts'
    proof -
      have "\<exists>m en late code. next_peer m ch en (may_retry conf (rmethod (h_req ctx))) late code (pc_tries conf) ts = (True, ts')"
        using assms c r at that unfolding k_def
        by (auto simp: proxy_turn_def Let_def split: prod.splits sum.splits bool.splits if_splits)
      then show ?thesis by (auto elim!: next_peer_True)
    qed
    then show ?thesis using new st' fresh by (intro conjI exI [where x = new]) auto
  qed
qed

lemma proxy_attempts_sent:
  fixes st :: "'c pstate" and ctx :: "'r hctx"
  defines "run \<equiv> \<lambda>env (ctx :: 'r hctx) loc pp conf body ts (st :: 'c pstate). fst (proxy_attempts env ctx loc pp conf body ts st)"
  shows "ps_locks (run env ctx loc pp conf body ts st) = ps_locks st \<and>
    (\<exists>new. ps_sent (run env ctx loc pp conf body ts st) = ps_sent st @ new
      \<and> distinct (map fst new) \<and> fst ` set new \<inter> Some ` set (fst ts) = {}
      \<and> (may_retry conf (rmethod (h_req ctx)) \<or> length new \<le> 1)
      \<and> (pc_tries conf = 0 \<or> length (fst ts) + length new \<le> max (length (fst ts) + 1) (pc_tries conf))
      \<and> length (fst ts) + length new \<le> max (length (fst ts) + 1) (group_size pp st))"
proof (induction env ctx loc pp conf body ts st rule: proxy_attempts.induct)
  case (1 env ctx loc pp conf body ts st)
  obtain st1 r where t: "proxy_turn env ctx loc pp conf body ts st = (st1, r)" by fastforce
  obtain new1 where new1: "ps_locks st1 = ps_locks st" "ps_sent st1 = ps_sent st @ new1"
    "new1 = [] \<or> (\<exists>p h. new1 = [(p, h)] \<and> p \<notin> Some ` set (fst ts) \<and> (\<forall>ts'. r = Inr ts' \<longrightarrow> p \<in> Some ` set (fst ts')))"
    using proxy_turn_sent [OF t] by blast
  show ?case
  proof (cases r)
    case (Inl x)
    then have "run env ctx loc pp conf body ts st = st1" using t unfolding run_def by (subst proxy_attempts.simps) simp
    then show ?thesis using new1 by (intro conjI exI [where x = new1]) auto
  next
    case (Inr ts')
    then have step: "run env ctx loc pp conf body ts st = run env ctx loc pp conf body ts' st1"
      using t unfolding run_def by (subst proxy_attempts.simps) simp
    obtain n i where n: "pp_target pp = PUpstream n" "fst ts' = fst ts @ [i]" "may_retry conf (rmethod (h_req ctx))"
      "length (fst ts') < sizes st n" "sizes st1 = sizes st" "pc_tries conf = 0 \<or> length (fst ts') < pc_tries conf"
      using proxy_turn_Inr [OF t [unfolded Inr]] by metis
    have gs: "group_size pp st1 = group_size pp st" "length (fst ts') < group_size pp st" using n by (simp_all add: group_size_def)
    obtain new2 where new2: "ps_locks (run env ctx loc pp conf body ts' st1) = ps_locks st1"
      "ps_sent (run env ctx loc pp conf body ts' st1) = ps_sent st1 @ new2"
      "distinct (map fst new2)" "fst ` set new2 \<inter> Some ` set (fst ts') = {}"
      "pc_tries conf = 0 \<or> length (fst ts') + length new2 \<le> max (length (fst ts') + 1) (pc_tries conf)"
      "length (fst ts') + length new2 \<le> max (length (fst ts') + 1) (group_size pp st1)"
      using "1.IH" [OF t [symmetric] Inr] by blast
    have "length new1 \<le> 1" "fst ` set new1 \<subseteq> Some ` set (fst ts')" "fst ` set new1 \<inter> Some ` set (fst ts) = {}" "distinct (map fst new1)"
      using new1(3) Inr by auto
    moreover from this have "fst ` set new1 \<inter> fst ` set new2 = {}" using new2(4) by blast
    moreover from calculation have "distinct (map fst (new1 @ new2))" using new2(3) by simp
    moreover have "fst ` set (new1 @ new2) \<inter> Some ` set (fst ts) = {}" using calculation(3) new2(4) n(2) by auto
    moreover have "pc_tries conf = 0 \<or> length (fst ts) + length (new1 @ new2) \<le> max (length (fst ts) + 1) (pc_tries conf)"
      using new2(5) n(2,6) calculation(1) by auto
    moreover have "length (fst ts) + length (new1 @ new2) \<le> max (length (fst ts) + 1) (group_size pp st)"
      using new2(6) n(2) gs calculation(1) by auto
    ultimately show ?thesis unfolding step using new1(1,2) new2(1,2) n(3)
      by (intro conjI exI [where x = "new1 @ new2"]) simp_all
  qed
qed

text \<open>C5.
  However the peers of a group fail, one request sends its head to each of them at most once; it sends it once only
  when the method is not safe to repeat and the configuration does not ask for it, and never more often
  than \<^verbatim>\<open>proxy_next_upstream_tries\<close> or the group allow.
\<close>

theorem proxy_retries_sound:
  "\<exists>new. ps_sent (fst (proxy_attempts env ctx loc pp conf body ([], None) st)) = ps_sent st @ new
     \<and> distinct (map fst new)
     \<and> length new \<le> (if may_retry conf (rmethod (h_req ctx)) then max 1 (group_size pp st) else 1)
     \<and> (pc_tries conf = 0 \<or> length new \<le> pc_tries conf)"
  using proxy_attempts_sent [of env ctx loc pp conf body "([], None)" st] by fastforce

lemma lookup_phase_locks:
  assumes "lookup_phase env cache st = (st', r)"
  shows "case r of LReply _ \<Rightarrow> ps_locks st' = ps_locks st
    | LFetch _ locked \<Rightarrow> if locked then (\<exists>cc. cache = Some cc \<and> lock_of cc \<notin> ps_locks st \<and> ps_locks st' = insert (lock_of cc) (ps_locks st))
                        else ps_locks st' = ps_locks st"
  using assms
  by (auto simp: lookup_phase_def Let_def try_lock_def try_stale_def
      split: option.splits if_splits prod.splits cache_status.splits looked_up.splits)

lemma answer_reply_locks: "ps_locks (fst (answer_reply env ctx cache idle an code st)) = ps_locks st"
  by (simp add: answer_reply_def Let_def split: option.split prod.split)

lemma conclude_locks: "ps_locks (fst (conclude env ctx cache stale idle a st)) = ps_locks st"
proof -
  have ts: "try_stale cache stale w s = Some (s', rp) \<Longrightarrow> ps_locks s' = ps_locks s" for w s s' rp
    by (auto simp: try_stale_def split: option.splits if_splits)
  show ?thesis
    by (auto simp: conclude_def Let_def answer_reply_locks split: attempted.split option.split dest: ts)
qed

text \<open>C20.
  Whatever happens to a proxied request, it leaves the fetch locks as they were: a lock it took is released when
  it answers, fails or runs out of peers.
\<close>

theorem proxy_lock_released:
  "ps_locks (fst (proxy env ctx loc pp conf cconf body idle st :: 'c pstate \<times> (nat + ('m, 'f, 'c, 'c) reply))) = ps_locks st"
proof -
  let ?cache = "cache_context ctx cconf"
  obtain st1 and l :: "('m, 'f, 'c) looked_up" where l: "lookup_phase env ?cache st = (st1, l)" by fastforce
  note lk = lookup_phase_locks [OF l]
  show ?thesis
  proof (cases l)
    case (LReply rp)
    then show ?thesis using l lk by (simp add: proxy_def Let_def)
  next
    case (LFetch stale locked)
    obtain st2 a where a: "proxy_attempts env ctx loc pp conf body ([], None) st1 = (st2, a)" by fastforce
    obtain st3 and res :: "nat + ('m, 'f, 'c, 'c) reply" where c: "conclude env ctx ?cache stale idle a st2 = (st3, res)" by fastforce
    have "ps_locks st2 = ps_locks st1" using proxy_attempts_sent [of env ctx loc pp conf body "([], None)" st1] a by simp
    moreover have "ps_locks (fst (st3, res)) = ps_locks st2" unfolding c [symmetric] by (rule conclude_locks)
    ultimately have "ps_locks st3 = ps_locks st1" by simp
    then show ?thesis using l lk LFetch a c by (auto simp: proxy_def Let_def drop_lock_def split: if_splits option.splits)
  qed
qed

section \<open>What the upstream reads\<close>

definition request_fields :: "'r hctx \<Rightarrow> 'r proxy_conf \<Rightarrow> bytes \<Rightarrow> bytes \<Rightarrow> bool \<Rightarrow> (bytes \<times> bytes) list" where
  "request_fields ctx conf body a want =
    set_fields ctx conf @ (if host_set conf then [] else [(bs ''Host'', host_of a)]) @ forwarded ctx conf
    @ (if body = [] then [] else [(bs ''Content-Length'', dec_digits (length body))])
    @ [(bs ''Connection'', if want then bs ''keep-alive'' else bs ''close'')]"

lemma build_request_head_lines:
  assumes "length body < 2 ^ 64"
  shows "build_request_head ctx loc pp conf body a want =
    (slice (h_buf ctx) (method_raw (h_req ctx)) @ bs '' '' @ upstream_uri ctx loc pp @ (if pc_http11 conf then bs '' HTTP/1.1'' else bs '' HTTP/1.0''))
    @ 0x0D # 0x0A # (concat (map (\<lambda>(n, v). field_line n v) (request_fields ctx conf body a want)) @ crlf)"
proof -
  have "unat (of_nat (length body) :: u64) = length body" using assms by (simp add: unsigned_of_nat take_bit_nat_eq_self_iff)
  then show ?thesis by (simp add: build_request_head_def request_fields_def field_line_def)
qed

lemma forwarded_excludes:
  "(n, v) \<in> set (forwarded ctx conf) \<Longrightarrow>
    \<not> eq_ignore_ascii_case n (bs ''content-length'') \<and> \<not> eq_ignore_ascii_case n (bs ''transfer-encoding'')
    \<and> \<not> eq_ignore_ascii_case n (bs ''host'') \<and> map to_ascii_lowercase n \<notin> set HOP_BY_HOP"
  by (auto simp: forwarded_def Let_def HOP_BY_HOP_def eq_ignore_ascii_case_def to_ascii_lowercase_def)

lemma forwarded_values:
  assumes "x = bs ''content-length'' \<or> x = bs ''transfer-encoding'' \<or> x = bs ''host''"
  shows "values_of x (forwarded ctx conf) = []"
  using assms forwarded_excludes [of _ _ ctx conf] by (intro values_of_none) (auto simp: list_all_iff simp del: bs_simps)

lemma framing_names:
  "\<not> eq_ignore_ascii_case (bs ''Host'') (bs ''content-length'')" "\<not> eq_ignore_ascii_case (bs ''Host'') (bs ''transfer-encoding'')"
  "\<not> eq_ignore_ascii_case (bs ''Connection'') (bs ''content-length'')"
  "\<not> eq_ignore_ascii_case (bs ''Connection'') (bs ''transfer-encoding'')"
  "eq_ignore_ascii_case (bs ''Content-Length'') (bs ''content-length'')"
  "\<not> eq_ignore_ascii_case (bs ''Content-Length'') (bs ''transfer-encoding'')"
  by (simp_all add: eq_ignore_ascii_case_def to_ascii_lowercase_def)

text \<open>C11.
  The head sent upstream, read line by line, is the request line and exactly the configured, forwarded and framing
  fields, when the request line and the fields it is made of hold no line break and the configuration sets neither a length nor a transfer coding
  itself: no hop-by-hop field of the client passes, there is no transfer coding, and the one
  length is that of the body sent after it. (A path with an encoded line break does not meet the first condition.)
\<close>

theorem proxy_head_exact:
  assumes "clean (slice (h_buf ctx) (method_raw (h_req ctx)) @ upstream_uri ctx loc pp)" "clean (host_of a)"
    and "list_all clean_field (set_fields ctx conf)" "list_all clean_field (forwarded ctx conf)" "length body < 2 ^ 64"
    and "values_of (bs ''content-length'') (set_fields ctx conf) = []" "values_of (bs ''transfer-encoding'') (set_fields ctx conf) = []"
  shows "let fs = request_fields ctx conf body a want in
    crlf_split (build_request_head ctx loc pp conf body a want) =
      (slice (h_buf ctx) (method_raw (h_req ctx)) @ bs '' '' @ upstream_uri ctx loc pp
        @ (if pc_http11 conf then bs '' HTTP/1.1'' else bs '' HTTP/1.0'')) # map line_of fs @ [[], []]
    \<and> map field_split (map line_of fs) = fs
    \<and> values_of (bs ''content-length'') fs = (if body = [] then [] else [dec_digits (length body)])
    \<and> values_of (bs ''transfer-encoding'') fs = []
    \<and> list_all (\<lambda>(n, _). map to_ascii_lowercase n \<notin> set HOP_BY_HOP) (forwarded ctx conf)"
proof -
  let ?fs = "request_fields ctx conf body a want"
  have cf: "list_all clean_field ?fs" using assms(2-4) by (simp add: request_fields_def)
  have "clean (slice (h_buf ctx) (method_raw (h_req ctx)) @ bs '' '' @ upstream_uri ctx loc pp
      @ (if pc_http11 conf then bs '' HTTP/1.1'' else bs '' HTTP/1.0''))" using assms(1) by simp
  then have "crlf_split (build_request_head ctx loc pp conf body a want) =
      (slice (h_buf ctx) (method_raw (h_req ctx)) @ bs '' '' @ upstream_uri ctx loc pp
        @ (if pc_http11 conf then bs '' HTTP/1.1'' else bs '' HTTP/1.0'')) # map line_of ?fs @ [[], []]"
    unfolding build_request_head_lines [OF assms(5)] by (simp only: crlf_split_line crlf_split_fields [OF cf])
  moreover have "map field_split (map line_of ?fs) = ?fs" using map_field_split [OF cf] by simp
  moreover have "values_of (bs ''content-length'') ?fs = (if body = [] then [] else [dec_digits (length body)])"
    "values_of (bs ''transfer-encoding'') ?fs = []"
    using assms(6,7) framing_names by (simp_all add: request_fields_def forwarded_values del: bs_simps)
  moreover have "list_all (\<lambda>(n, _). map to_ascii_lowercase n \<notin> set HOP_BY_HOP) (forwarded ctx conf)"
    using forwarded_excludes by (fastforce simp: list_all_iff)
  ultimately show ?thesis unfolding Let_def by blast
qed

definition proxy_ctx :: "bytes \<Rightarrow> unit hctx" where
  "proxy_ctx u = ctx_new (bs ''GETTexAb'') (req_new\<lparr>method_raw := (0, 3), headers := [((3, 5), (5, 6)), ((6, 7), (7, 8))]\<rparr>)
     u (bs ''http'') None"

definition plain_conf :: "unit proxy_conf" where
  "plain_conf = \<lparr>pc_set_headers = [(bs ''X-R'', \<lambda>_. bs ''1'')], pc_hide_headers = [], pc_http11 = True, pc_next = next_upstream_default, pc_tries = 0\<rparr>"

definition plain_pass :: "unit proxy_pass" where
  "plain_pass = \<lparr>pp_target = PAddr (bs ''h'') 80, pp_uri = None, pp_tls = False\<rparr>"

lemma proxy_ctx_simps:
  "slice (h_buf (proxy_ctx u)) (method_raw (h_req (proxy_ctx u))) = bs ''GET''" "upstream_uri (proxy_ctx u) loc plain_pass = u"
  "map (\<lambda>h. (slice (h_buf (proxy_ctx u)) (fst h), slice (h_buf (proxy_ctx u)) (snd h))) (headers (h_req (proxy_ctx u))) =
    [(bs ''Te'', bs ''x''), (bs ''A'', bs ''b'')]"
proof -
  have sl: "slice (bs ''GETTexAb'') (0, 3) = bs ''GET''" "slice (bs ''GETTexAb'') (3, 5) = bs ''Te''" "slice (bs ''GETTexAb'') (5, 6) = bs ''x''"
    "slice (bs ''GETTexAb'') (6, 7) = bs ''A''" "slice (bs ''GETTexAb'') (7, 8) = bs ''b''" "slice (bs ''GETTexAb'') (0, 0) = []"
    by code_simp+
  show "slice (h_buf (proxy_ctx u)) (method_raw (h_req (proxy_ctx u))) = bs ''GET''" "upstream_uri (proxy_ctx u) loc plain_pass = u"
    "map (\<lambda>h. (slice (h_buf (proxy_ctx u)) (fst h), slice (h_buf (proxy_ctx u)) (snd h))) (headers (h_req (proxy_ctx u))) =
      [(bs ''Te'', bs ''x''), (bs ''A'', bs ''b'')]"
    by (simp_all add: proxy_ctx_def ctx_new_def req_new_def upstream_uri_def plain_pass_def sl del: bs_simps)
qed

lemma plain_fields:
  "set_fields (proxy_ctx u) plain_conf = [(bs ''X-R'', bs ''1'')]" "forwarded (proxy_ctx u) plain_conf = [(bs ''A'', bs ''b'')]"
  "host_set plain_conf = False"
proof -
  show "set_fields (proxy_ctx u) plain_conf = [(bs ''X-R'', bs ''1'')]" by (simp add: set_fields_def plain_conf_def)
  have "map to_ascii_lowercase (bs ''Te'') \<in> set HOP_BY_HOP" "map to_ascii_lowercase (bs ''A'') \<notin> set HOP_BY_HOP" by code_simp+
  then show "forwarded (proxy_ctx u) plain_conf = [(bs ''A'', bs ''b'')]"
    unfolding forwarded_def proxy_ctx_simps by (simp add: overridden_def plain_conf_def to_ascii_lowercase_def)
  show "host_set plain_conf = False" by (simp add: host_set_def plain_conf_def eq_ignore_ascii_case_def)
qed

theorem proxy_head_exact_witness:
  "crlf_split (build_request_head (proxy_ctx (bs ''/a'')) demo_root plain_pass plain_conf (bs ''hi'') (bs ''h:80'') False) =
    [bs ''GET /a HTTP/1.1'', bs ''X-R: 1'', bs ''Host: h:80'', bs ''A: b'', bs ''Content-Length: 2'', bs ''Connection: close'', [], []]"
proof -
  have "clean (slice (h_buf (proxy_ctx (bs ''/a''))) (method_raw (h_req (proxy_ctx (bs ''/a'')))) @ upstream_uri (proxy_ctx (bs ''/a'')) demo_root plain_pass)"
    "clean (host_of (bs ''h:80''))" "list_all clean_field (set_fields (proxy_ctx (bs ''/a'')) plain_conf)"
    "list_all clean_field (forwarded (proxy_ctx (bs ''/a'')) plain_conf)" "length (bs ''hi'') < 2 ^ 64"
    "values_of (bs ''content-length'') (set_fields (proxy_ctx (bs ''/a'')) plain_conf) = []"
    "values_of (bs ''transfer-encoding'') (set_fields (proxy_ctx (bs ''/a'')) plain_conf) = []"
    unfolding proxy_ctx_simps plain_fields by (simp_all add: host_of_def starts_with_def eq_ignore_ascii_case_def)
  note exact = proxy_head_exact [OF this, of False]
  have "host_of (bs ''h:80'') = bs ''h:80''" "pc_http11 plain_conf" by (simp_all add: host_of_def starts_with_def plain_conf_def)
  then show ?thesis using exact unfolding Let_def request_fields_def proxy_ctx_simps plain_fields
    by (simp add: line_of_def dec_digits.simps)
qed

text \<open>C38.
  The decoded path goes into the request line as it is. Take any path with two line breaks that is otherwise one a client may ask for: its percent
  encoding is accepted and decoded to it, and, where the request URI is passed on, the head sent upstream has the request line cut at the first line break and then,
  as a line of its own, whatever the client put between the two.
\<close>

theorem proxy_request_splits:
  assumes "h_uri ctx = before @ crlf @ field @ crlf @ behind" "safe_path (h_uri ctx)" "utf8_valid (h_uri ctx)"
    and "clean before" "clean field" "clean (slice (h_buf ctx) (method_raw (h_req ctx)))" "pp_uri pp = None"
  shows "normalize (encode_path (h_uri ctx)) = Inr (h_uri ctx) \<and>
    (\<exists>rest. crlf_split (build_request_head ctx loc pp conf rb a want) =
       (slice (h_buf ctx) (method_raw (h_req ctx)) @ bs '' '' @ before) # field # rest)"
proof -
  have "clean (slice (h_buf ctx) (method_raw (h_req ctx)) @ bs '' '' @ before)" using assms(4,6) by simp
  moreover obtain rest where "build_request_head ctx loc pp conf rb a want =
      (slice (h_buf ctx) (method_raw (h_req ctx)) @ bs '' '' @ before) @ 0x0D # 0x0A # (field @ 0x0D # 0x0A # rest)"
    using assms(1,7) unfolding build_request_head_def upstream_uri_def by simp
  ultimately have "crlf_split (build_request_head ctx loc pp conf rb a want) =
      (slice (h_buf ctx) (method_raw (h_req ctx)) @ bs '' '' @ before) # field # crlf_split rest"
    using assms(5) by (simp only: crlf_split_line)
  then show ?thesis using normalize_encode_path [OF assms(2,3)] by blast
qed

theorem proxy_request_splits_witness:
  "let u = bs ''/a HTTP/1.1'' @ crlf @ bs ''X-Admin: yes'' @ crlf @ bs ''Z: ''
   in normalize (encode_path u) = Inr u \<and>
     (\<exists>rest. crlf_split (build_request_head (proxy_ctx u) demo_root plain_pass plain_conf [] (bs ''h:80'') False) =
        bs ''GET /a HTTP/1.1'' # bs ''X-Admin: yes'' # rest)"
proof -
  let ?u = "bs ''/a HTTP/1.1'' @ crlf @ bs ''X-Admin: yes'' @ crlf @ bs ''Z: ''"
  have u: "h_uri (proxy_ctx ?u) = ?u" "pp_uri plain_pass = None" by (simp_all add: proxy_ctx_def ctx_new_def plain_pass_def del: bs_simps)
  have ok: "safe_path ?u" "utf8_valid ?u" by code_simp+
  have c: "clean (bs ''/a HTTP/1.1'')" "clean (bs ''X-Admin: yes'')" "clean (bs ''GET'')" by simp_all
  have "bs ''GET'' @ bs '' '' @ bs ''/a HTTP/1.1'' = bs ''GET /a HTTP/1.1''" by simp
  then show ?thesis
    using proxy_request_splits [of "proxy_ctx ?u" "bs ''/a HTTP/1.1''" "bs ''X-Admin: yes''" "bs ''Z: ''" plain_pass demo_root plain_conf "[]" "bs ''h:80''" False]
      ok c u unfolding proxy_ctx_simps by (simp del: bs_simps)
qed

section \<open>The body and the cache\<close>

text \<open>
  An upstream that sends more than it announced has all of it forwarded: the reply declares \<open>n\<close> bytes and carries more, so the
  client takes the excess for the start of the next response.
\<close>

theorem proxy_excess_forwarded:
  assumes "\<not> uh_chunked (an_head an)" "uh_len (an_head an) = Some n" "n < length (drop (an_head_len an) (an_buf an))" "code \<noteq> 101"
  shows "\<exists>r. snd (answer_reply env ctx cache idle an code st) = Inr \<lparr>rresp = r, reply_body = BBytes (drop (an_head_len an) (an_buf an))\<rparr>
    \<and> resp_framing r = FLength (of_nat n)"
  using assms by (auto simp: answer_reply_def Let_def split: prod.split)

lemma cached_reply_headers:
  assumes "resp_wf r"
  shows "let r' = fold (\<lambda>(n, v) r. if eq_ignore_ascii_case n (bs ''content-length'') \<or> eq_ignore_ascii_case n (bs ''transfer-encoding'')
                 then r else add_header n v r) hs r
    in resp_iter r' = resp_iter r @ filter (\<lambda>(n, _). \<not> eq_ignore_ascii_case n (bs ''content-length'') \<and> \<not> eq_ignore_ascii_case n (bs ''transfer-encoding'')) hs
      \<and> status r' = status r"
  using assms
proof (induction hs arbitrary: r)
  case (Cons h hs)
  obtain n v where h: "h = (n, v)" by fastforce
  show ?case
    using Cons.IH [of r] Cons.IH [of "add_header n v r"] Cons.prems by (simp add: h Let_def add_header_pairs del: bs_simps)
qed simp

text \<open>What a stored answer is when it is loaded again.\<close>

lemma stored_loads:
  assumes "fits key hs body" "list_all storable hs" "later < now + ttl"
    and "store IoOk tmp now z h (encode_entry now key code hs body ttl) fs idx = (ok, fs', idx')"
  shows "fst (load later z key h fs' idx') =
    Some (\<lparr>d_status = code, d_headers = hs, d_body = body, d_expires = now + ttl, d_created = now\<rparr>, Hit)"
proof -
  have "fs' (entry_path (z_root z) (z_levels z) h) = Some (encode_entry now key code hs body ttl, now)"
    using assms(4) by (auto simp: store_def Let_def)
  then show ?thesis using decode_encode_entry [OF assms(1,2), of now code ttl key] assms(3) by (simp add: load_def Let_def)
qed

lemma lookup_hit:
  assumes "\<not> cc_bypassed cc" "fst (load (pe_now env) (cc_zone cc) (cc_key cc) (cc_hash cc) (ps_fs st) (ps_idx st)) = Some (d, Hit)"
  shows "\<exists>st'. lookup_phase env (Some cc) st = (st', LReply (cached_reply d)) \<and> ps_sent st' = ps_sent st"
  using assms by (auto simp: lookup_phase_def Let_def split: prod.splits)

text \<open>C19.
  A complete answer that may be cached is what the next request for its key gets, within its lifetime: the same status, the
  same headers and the same body, without a connection to any peer.
\<close>

theorem proxy_cache_roundtrip:
  fixes st :: "'c pstate" and ctx' :: "'r hctx"
  assumes "\<not> uh_chunked (an_head an)" "uh_len (an_head an) = Some n" "n = length (drop (an_head_len an) (an_buf an))"
    and "code \<noteq> 101" "code < 65536" "fst (cacheable_ttl (pe_now env) cc ctx code (ps_idx st)) = Some ttl" "pe_store env = IoOk"
    and "hs = uh_headers (an_head an) @ sticky_fields ctx (an_chosen an) st"
    and "fits (cc_key cc) hs (drop (an_head_len an) (an_buf an))" "list_all storable hs"
    and "cache_context ctx' cconf' = Some cc'" "cc_zone cc' = cc_zone cc" "cc_key cc' = cc_key cc" "cc_hash cc' = cc_hash cc" "\<not> cc_bypassed cc'"
    and "pe_now env' < pe_now env + ttl"
  shows "let st' = fst (answer_reply env ctx (Some cc) idle an code st :: 'c pstate \<times> (nat + ('m, 'f, 'c, 'c) reply))
    in \<exists>st'' rp. proxy env' ctx' loc' pp' conf' cconf' body' idle' st' = (st'', Inr (rp :: ('m, 'f, 'c, 'c) reply)) \<and> ps_sent st'' = ps_sent st'
      \<and> status (rresp rp) = code \<and> reply_body rp = BBytes (drop (an_head_len an) (an_buf an))
      \<and> resp_iter (rresp rp) = filter (\<lambda>(n, _). \<not> eq_ignore_ascii_case n (bs ''content-length'') \<and> \<not> eq_ignore_ascii_case n (bs ''transfer-encoding'')) hs"
proof -
  let ?pre = "drop (an_head_len an) (an_buf an)"
  let ?e = "encode_entry (pe_now env) (cc_key cc) (of_nat code) hs ?pre ttl"
  define st' where "st' = fst (answer_reply env ctx (Some cc) idle an code st :: 'c pstate \<times> (nat + ('m, 'f, 'c, 'c) reply))"
  define d where "d = \<lparr>d_status = of_nat code, d_headers = hs, d_body = ?pre, d_expires = pe_now env + ttl, d_created = pe_now env\<rparr>"
  obtain idx where idx: "cacheable_ttl (pe_now env) cc ctx code (ps_idx st) = (Some ttl, idx)" using assms(6) by (metis prod.collapse)
  have stored: "\<exists>ok fs i. store IoOk (pe_tmp env) (pe_now env) (cc_zone cc) (cc_hash cc) ?e fs i = (ok, ps_fs st', ps_idx st')"
    using assms(1-4,7) idx unfolding st'_def answer_reply_def assms(8) by (auto simp: Let_def split: prod.split)
  then obtain ok fs i where "store IoOk (pe_tmp env) (pe_now env) (cc_zone cc) (cc_hash cc) ?e fs i = (ok, ps_fs st', ps_idx st')" by blast
  from stored_loads [OF assms(9,10,16) this]
  have "fst (load (pe_now env') (cc_zone cc') (cc_key cc') (cc_hash cc') (ps_fs st') (ps_idx st')) = Some (d, Hit)"
    by (simp add: assms(12-14) d_def)
  from lookup_hit [OF assms(15) this] obtain st'' where l: "lookup_phase env' (Some cc') st' = (st'', LReply (cached_reply d :: ('m, 'f, 'c, 'c) reply))"
    "ps_sent st'' = ps_sent st'" by blast
  then have "proxy env' ctx' loc' pp' conf' cconf' body' idle' st' = (st'', Inr (cached_reply d :: ('m, 'f, 'c, 'c) reply))"
    by (simp add: proxy_def Let_def assms(11))
  moreover have wf: "resp_wf (resp_new\<lparr>status := code\<rparr>)" "resp_iter (resp_new\<lparr>status := code\<rparr>) = []"
    by (simp_all add: resp_wf_def resp_iter_def resp_new_def)
  moreover have "unat (of_nat code :: u16) = code" using assms(5) by (simp add: unsigned_of_nat take_bit_nat_eq_self_iff)
  ultimately show ?thesis
    using l(2) cached_reply_headers [OF wf(1), of hs] unfolding st'_def [symmetric] Let_def
    by (intro exI [where x = st''] exI [where x = "cached_reply d"]) (simp add: cached_reply_def d_def Let_def del: bs_simps)
qed

definition demo_penv :: "u64 \<Rightarrow> unit penv" where
  "demo_penv now =
    \<lparr>pe_reusable = (\<lambda>_. True), pe_connect = (\<lambda>_ _. None), pe_write_head = (\<lambda>_. True), pe_write_body = (\<lambda>_. True), pe_reads = (\<lambda>_ _. []),
     pe_parse = (\<lambda>_. HPartial), pe_now_ms = (\<lambda>_. 0), pe_late = (\<lambda>_. False), pe_now = now, pe_remote = [], pe_polls = [],
     pe_store = IoOk, pe_tmp = bs ''tmp''\<rparr>"

definition demo_pstate :: "unit pstate" where
  "demo_pstate =
    \<lparr>ps_groups = Map.empty, ps_cursor = (\<lambda>_. 0), ps_pool = Map.empty, ps_fs = Map.empty, ps_idx = [], ps_locks = {},
     ps_cache_status = None, ps_sent = []\<rparr>"

definition demo_answer :: "nat \<Rightarrow> unit answer" where
  "demo_answer n =
    \<lparr>an_chosen = None, an_keepalive = 0, an_addr = bs ''h:80'', an_conn = (), an_want_keepalive = False, an_buf = bs ''HEADhi'',
     an_head_len = 4, an_status = 200, an_head = up_head_new\<lparr>uh_len := Some n\<rparr>\<rparr>"

definition demo_zone :: zone where
  "demo_zone = \<lparr>z_name = bs ''z'', z_root = [bs ''c''], z_levels = [], z_max_entries = 10, z_max_size = 0, z_inactive = 0\<rparr>"

definition demo_cache_conf :: "unit cache_conf" where
  "demo_cache_conf =
    \<lparr>cz_zone = Some demo_zone, cz_key = h_uri, cz_valid = [([200], 60)], cz_methods = [bs ''GET''], cz_min_uses = 1, cz_bypass = [],
     cz_no_cache = [], cz_use_stale = [], cz_lock = False\<rparr>"

definition demo_cc :: "unit cache_ctx" where
  "demo_cc = \<lparr>cc_zone = demo_zone, cc_key = bs ''/a'', cc_hash = key_hash_of (bs ''/a''), cc_bypassed = False, cc_conf = demo_cache_conf\<rparr>"

lemma demo_answer_simps:
  "uh_len (an_head (demo_answer n)) = Some n" "\<not> uh_chunked (an_head (demo_answer n))" "an_chosen (demo_answer n) = None"
  "uh_headers (an_head (demo_answer n)) = []" "drop (an_head_len (demo_answer n)) (an_buf (demo_answer n)) = bs ''hi''"
  by (simp_all add: demo_answer_def up_head_new_def)

theorem proxy_excess_forwarded_witness:
  "\<exists>r. snd (answer_reply (demo_penv 5) (proxy_ctx (bs ''/a'')) None 0 (demo_answer 1) 200 demo_pstate) =
      Inr (\<lparr>rresp = r, reply_body = BBytes (bs ''hi'')\<rparr> :: (unit, unit, unit, unit) reply) \<and> resp_framing r = FLength 1"
  using proxy_excess_forwarded [of "demo_answer 1" 1 200 "demo_penv 5" "proxy_ctx (bs ''/a'')" None 0 demo_pstate]
  demo_answer_simps(2) [of 1] unfolding demo_answer_simps(1,5) by simp

lemma demo_context: "cache_context (proxy_ctx (bs ''/a'')) demo_cache_conf = Some demo_cc"
proof -
  have "rmethod (h_req (proxy_ctx (bs ''/a''))) = Get" "h_uri (proxy_ctx (bs ''/a'')) = bs ''/a''"
    by (simp_all add: proxy_ctx_def ctx_new_def req_new_def)
  then show ?thesis by (simp add: cache_context_def demo_cache_conf_def demo_cc_def Let_def)
qed

theorem proxy_cache_roundtrip_witness:
  "let st' = fst (answer_reply (demo_penv 5) (proxy_ctx (bs ''/a'')) (Some demo_cc) 0 (demo_answer 2) 200 demo_pstate
        :: unit pstate \<times> (nat + (unit, unit, unit, unit) reply))
   in \<exists>st'' rp. proxy (demo_penv 64) (proxy_ctx (bs ''/a'')) demo_root plain_pass plain_conf demo_cache_conf [] 0 st' = (st'', Inr rp)
     \<and> ps_sent st'' = ps_sent st' \<and> status (rresp rp) = 200 \<and> reply_body rp = (BBytes (bs ''hi'') :: (unit, unit, unit, unit) reply_body)"
proof -
  have hs: "[] = uh_headers (an_head (demo_answer 2)) @ sticky_fields (proxy_ctx (bs ''/a'')) (an_chosen (demo_answer 2)) demo_pstate"
    by (simp add: demo_answer_simps sticky_fields_def)
  have ttl: "fst (cacheable_ttl (pe_now (demo_penv 5)) demo_cc (proxy_ctx (bs ''/a'')) 200 (ps_idx demo_pstate)) = Some 60"
    by (simp add: cacheable_ttl_def demo_cc_def demo_cache_conf_def)
  have fits: "fits (cc_key demo_cc) [] (drop (an_head_len (demo_answer 2)) (an_buf (demo_answer 2)))"
    unfolding demo_answer_simps by (simp add: fits_def encode_headers_def demo_cc_def)
  have "length (drop (an_head_len (demo_answer 2)) (an_buf (demo_answer 2))) = 2" unfolding demo_answer_simps by simp
  note rt = proxy_cache_roundtrip [OF demo_answer_simps(2,1) this [symmetric] _ _ ttl _ hs fits _ demo_context refl refl refl,
      where env' = "demo_penv 64" and idle = 0 and idle' = 0 and loc' = demo_root and pp' = plain_pass and conf' = plain_conf and body' = "[]"]
  have "pe_store (demo_penv 5) = IoOk" "pe_now (demo_penv 64) < pe_now (demo_penv 5) + 60" "\<not> cc_bypassed demo_cc"
    by (simp_all add: demo_penv_def demo_cc_def)
  then show ?thesis using rt unfolding demo_answer_simps Let_def by fastforce
qed

end
