(* ===== verification/Fastcgi.thy ===== *)
theory Fastcgi
  imports Proxy Fcgi_Proto
begin

text \<open>
  \<^verbatim>\<open>fastcgi_pass\<close> (\<^verbatim>\<open>server/fastcgi.rs\<close>): the parameters of the application, the exchange of records, the collection of its output,
  buffered or handed on while it arrives, and the response made of its CGI headers. The connection is what its reads
  return; the script regular expression is an argument.
\<close>

section \<open>Parameters\<close>

record 'r fcgi_param =
  fp_name :: bytes
  fp_value :: "'r hctx \<Rightarrow> bytes \<times> bytes \<Rightarrow> bytes"
  fp_if_not_empty :: bool

text \<open>A parameter's value may read \<^verbatim>\<open>$fastcgi_script_name\<close> and \<^verbatim>\<open>$fastcgi_path_info\<close>, the pair it is given.\<close>

record 'r fcgi_conf =
  fc_params :: "'r fcgi_param list"
  fc_script_index :: "bytes option"
  fc_split :: "'r option"
  fc_keep_conn :: bool
  fc_hide_headers :: "bytes list"
  fc_buffering :: bool
  fc_budget :: nat

definition append_index_if_directory :: "'r fcgi_conf \<Rightarrow> bytes \<Rightarrow> bytes" where
  "append_index_if_directory conf script =
    (if script \<noteq> [] \<and> last script = 0x2F then script @ (case fc_script_index conf of Some i \<Rightarrow> i | None \<Rightarrow> []) else script)"

text \<open>\<open>captures\<close> gives the groups of a match from the first on; a group that took no part is empty.\<close>

definition split_script_and_path_info :: "('r \<Rightarrow> bytes \<Rightarrow> bytes list option) \<Rightarrow> 'r fcgi_conf \<Rightarrow> bytes \<Rightarrow> bytes \<times> bytes" where
  "split_script_and_path_info captures conf uri =
    (case (case fc_split conf of Some re \<Rightarrow> captures re uri | None \<Rightarrow> None) of
       Some cs \<Rightarrow> (append_index_if_directory conf (if cs = [] then [] else hd cs), if length cs < 2 then [] else cs ! 1)
     | None \<Rightarrow> (append_index_if_directory conf uri, []))"

definition build_params :: "'r hctx \<Rightarrow> 'r fcgi_conf \<Rightarrow> bytes \<times> bytes \<Rightarrow> bytes" where
  "build_params ctx conf sp =
    concat (map (\<lambda>p. let v = fp_value p ctx sp in if fp_if_not_empty p \<and> v = [] then [] else push_nv_pair (fp_name p) v) (fc_params conf))
    @ concat (map (\<lambda>h. let n = slice (h_buf ctx) (fst h); v = slice (h_buf ctx) (snd h)
                       in if eq_ignore_ascii_case n (bs ''content-type'') \<or> eq_ignore_ascii_case n (bs ''content-length'') then []
                          else push_nv_pair (http_param_name n) v) (headers (h_req ctx)))"

section \<open>The application's output\<close>

abbreviation MAX_RESPONSE :: nat where "MAX_RESPONSE \<equiv> 67108864"
abbreviation MAX_HEADERS :: nat where "MAX_HEADERS \<equiv> 262144"

text \<open>The bytes read and not parsed yet, the application's status, and whether the request ended.\<close>

record fcgi_body =
  fb_raw :: bytes
  fb_app_status :: u32
  fb_done :: bool

definition fcgi_body_new :: fcgi_body where
  "fcgi_body_new = \<lparr>fb_raw = [], fb_app_status = 0, fb_done = False\<rparr>"

lemma parse_record_min: "parse_record b = Inr r \<Longrightarrow> 8 \<le> total r"
  by (auto simp: parse_record_def Let_def split: if_splits option.splits)

function drain_records :: "fcgi_body \<Rightarrow> bytes \<Rightarrow> fcgi_body \<times> bytes \<times> (nat + bool)" where
  "drain_records b sink =
    (case parse_record (fb_raw b) of
       Inl Incomplete \<Rightarrow> (b, sink, Inr False)
     | Inl Malformed \<Rightarrow> (b, sink, Inl 502)
     | Inr r \<Rightarrow>
        if ty r = EndRequest
        then (case end_request_status (body r) of
                Some (app, proto) \<Rightarrow>
                  if proto \<noteq> 0 then (b\<lparr>fb_app_status := app\<rparr>, sink, Inl 502)
                  else (b\<lparr>fb_app_status := app, fb_raw := drop (total r) (fb_raw b), fb_done := True\<rparr>, sink, Inr True)
              | None \<Rightarrow> (b\<lparr>fb_raw := drop (total r) (fb_raw b), fb_done := True\<rparr>, sink, Inr True))
        else drain_records (b\<lparr>fb_raw := drop (total r) (fb_raw b)\<rparr>) (if ty r = Stdout then sink @ body r else sink))"
  by pat_completeness auto
termination
proof (relation "measure (\<lambda>(b, _). length (fb_raw b))")
  fix b and sink and r
  assume "parse_record (fb_raw b) = Inr r"
  then show "((b\<lparr>fb_raw := drop (total r) (fb_raw b)\<rparr>, if ty r = Stdout then sink @ body r else sink), b, sink)
      \<in> measure (\<lambda>(b, _). length (fb_raw b))"
    using parse_record_min [of "fb_raw b" r] parse_record_total [of "fb_raw b" r] by simp
qed simp

declare drain_records.simps [simp del]

datatype pumped = More fcgi_body bytes "read_event list" | Ended fcgi_body bytes

definition pump :: "fcgi_body \<Rightarrow> bytes \<Rightarrow> read_event list \<Rightarrow> nat + pumped" where
  "pump b sink evs =
    (case drain_records b sink of
       (_, _, Inl c) \<Rightarrow> Inl c
     | (b, sink, Inr True) \<Rightarrow> Inr (Ended b sink)
     | (b, sink, Inr False) \<Rightarrow>
        (case evs of
           [] \<Rightarrow> Inl 504
         | RError # _ \<Rightarrow> Inl 502
         | RData d # evs \<Rightarrow>
            if d = [] then Inr (Ended (b\<lparr>fb_done := True\<rparr>) sink)
            else (case drain_records (b\<lparr>fb_raw := fb_raw b @ d\<rparr>) sink of
                    (_, _, Inl c) \<Rightarrow> Inl c
                  | (b, sink, Inr True) \<Rightarrow> Inr (Ended b sink)
                  | (b, sink, Inr False) \<Rightarrow> Inr (More b sink evs))))"

text \<open>Where the headers end and where the body starts.\<close>

fun find_header_end_from :: "bytes \<Rightarrow> nat \<Rightarrow> (nat \<times> nat) option" where
  "find_header_end_from [] i = None"
| "find_header_end_from (c # cs) i =
    (if c = 0x0A \<and> take 1 cs = [0x0A] then Some (i, i + 2)
     else if c = 0x0A \<and> take 2 cs = [0x0D, 0x0A] then Some (i, i + 3)
     else if c = 0x0A \<and> cs = [] then Some (i, i + 1)
     else find_header_end_from cs (i + 1))"

definition find_header_end :: "bytes \<Rightarrow> (nat \<times> nat) option" where
  "find_header_end b = find_header_end_from b 0"

datatype collected = Complete bytes u32 | Streaming bytes bytes fcgi_body "read_event list"

lemma pump_More: "pump b sink evs = Inr (More b' sink' evs') \<Longrightarrow> length evs' < length evs"
  by (auto simp: pump_def split: prod.splits sum.splits bool.splits list.splits read_event.splits if_splits)

function read_response :: "'r fcgi_conf \<Rightarrow> fcgi_body \<Rightarrow> bytes \<Rightarrow> nat option \<Rightarrow> read_event list \<Rightarrow> nat + collected" where
  "read_response conf b stdout head_end evs =
    (case pump b stdout evs of
       Inl c \<Rightarrow> Inl c
     | Inr (Ended b stdout) \<Rightarrow> Inr (Complete stdout (fb_app_status b))
     | Inr (More b stdout evs) \<Rightarrow>
        (let head_end = (case head_end of None \<Rightarrow> map_option snd (find_header_end stdout) | Some e \<Rightarrow> Some e)
         in case head_end of
              None \<Rightarrow> if MAX_HEADERS < length stdout then Inl 502 else read_response conf b stdout head_end evs
            | Some e \<Rightarrow>
               if \<not> fc_buffering conf \<or> fc_budget conf < length stdout - e
               then Inr (Streaming (take e stdout) (drop e stdout) b evs)
               else if MAX_RESPONSE < length stdout then Inl 502
               else read_response conf b stdout head_end evs))"
  by pat_completeness auto
termination
  by (relation "measure (\<lambda>(_, _, _, _, evs). length evs)") (auto dest: pump_More)

declare read_response.simps [simp del]

text \<open>
  What a reader of a streamed body gets, and whether the stream ended well: the payload of one pass over the buffered records, then
  more reads. A peer that stays silent ends it like an error.
\<close>

fun stream_rest :: "fcgi_body \<Rightarrow> read_event list \<Rightarrow> bytes \<times> bool" where
  "stream_rest b evs =
    (if fb_done b then ([], True)
     else (case drain_records b [] of
             (_, _, Inl _) \<Rightarrow> ([], False)
           | (_, out, Inr True) \<Rightarrow> (out, True)
           | (b, out, Inr False) \<Rightarrow>
              (case evs of
                 [] \<Rightarrow> (out, False)
               | RError # _ \<Rightarrow> (out, False)
               | RData d # evs \<Rightarrow>
                  if d = [] then (out, True)
                  else (let (more, ok) = stream_rest (b\<lparr>fb_raw := fb_raw b @ d\<rparr>) evs in (out @ more, ok)))))"

declare stream_rest.simps [simp del]

section \<open>The response\<close>

definition FCGI_HOP_BY_HOP :: "bytes list" where
  "FCGI_HOP_BY_HOP = [bs ''connection'', bs ''keep-alive'', bs ''transfer-encoding'', bs ''upgrade'', bs ''content-length'']"

definition split_lines :: "bytes \<Rightarrow> bytes list" where
  "split_lines b = filter (\<lambda>l. l \<noteq> []) (map (\<lambda>l. if l \<noteq> [] \<and> last l = 0x0D then butlast l else l) (split_on 0x0A b))"

definition split_header :: "bytes \<Rightarrow> (bytes \<times> bytes) option" where
  "split_header line =
    (case position (\<lambda>c. c = 0x3A) line of
       None \<Rightarrow> None
     | Some i \<Rightarrow>
        (case (from_utf8 (take i line), from_utf8 (drop (i + 1) line)) of
           (Some n, Some v) \<Rightarrow> if trim n = [] then None else Some (trim n, trim v)
         | _ \<Rightarrow> None))"

fun first_word :: "bytes \<Rightarrow> bytes" where
  "first_word [] = []"
| "first_word (c # cs) = (if ws_len (c # cs) \<noteq> 0 then [] else c # first_word cs)"

record cgi_head =
  cg_resp :: resp
  cg_status :: nat
  cg_location :: bool
  cg_len :: "nat option"

definition cgi_line :: "bytes list \<Rightarrow> bytes \<Rightarrow> cgi_head \<Rightarrow> cgi_head" where
  "cgi_line hide line g =
    (case split_header line of
       None \<Rightarrow> g
     | Some (n, v) \<Rightarrow>
        (let lname = map to_ascii_lowercase n;
             g = (if lname = bs ''content-length'' then g\<lparr>cg_len := parse_unsigned 64 (trim v)\<rparr> else g)
         in if lname = bs ''status''
            then g\<lparr>cg_status := (case parse_unsigned 16 (first_word v) of Some c \<Rightarrow> c | None \<Rightarrow> 200)\<rparr>
            else if lname \<in> set FCGI_HOP_BY_HOP \<or> lname \<in> set hide then g
            else (let g = (if lname = bs ''location'' then g\<lparr>cg_location := True\<rparr> else g)
                  in g\<lparr>cg_resp := add_header n v (cg_resp g)\<rparr>)))"

definition parse_cgi_headers :: "'r fcgi_conf \<Rightarrow> bytes \<Rightarrow> resp \<times> nat option" where
  "parse_cgi_headers conf head =
    (let g = fold (cgi_line (fc_hide_headers conf)) (split_lines head)
           \<lparr>cg_resp = resp_new, cg_status = 200, cg_location = False, cg_len = None\<rparr>;
         code = (if cg_location g \<and> cg_status g = 200 then 302 else cg_status g)
     in ((cg_resp g)\<lparr>status := code\<rparr>, cg_len g))"

definition build_reply :: "'r fcgi_conf \<Rightarrow> bytes \<Rightarrow> nat + ('m, 'f, fcgi_body \<times> read_event list, 'd) reply" where
  "build_reply conf stdout =
    (case find_header_end stdout of
       None \<Rightarrow> Inl 502
     | Some (head_len, body_at) \<Rightarrow>
        Inr \<lparr>rresp = fst (parse_cgi_headers conf (take head_len stdout)), reply_body = BBytes (drop body_at stdout)\<rparr>)"

definition build_streaming_reply ::
  "'r fcgi_conf \<Rightarrow> bytes \<Rightarrow> bytes \<Rightarrow> fcgi_body \<times> read_event list \<Rightarrow> nat + ('m, 'f, fcgi_body \<times> read_event list, 'd) reply" where
  "build_streaming_reply conf head pre reader =
    (case find_header_end head of
       None \<Rightarrow> Inl 502
     | Some (head_len, _) \<Rightarrow>
        (let (r, len) = parse_cgi_headers conf (take head_len head)
         in Inr \<lparr>rresp = r, reply_body = BStream pre reader (map_option of_nat len)\<rparr>))"

section \<open>The exchange\<close>

text \<open>What the connection does: it cannot be opened (502) or not in time (504), the request cannot be written, or what its reads return.\<close>

datatype fcgi_io = ConnectFails | ConnectTimeout | FWriteFails | Reads "read_event list"

definition fcgi_target ::
  "'c penv \<Rightarrow> 'r hctx \<Rightarrow> 'r proxy_target \<Rightarrow> 'c pstate \<Rightarrow> 'c pstate \<times> (nat + bytes)" where
  "fcgi_target env ctx tg st =
    (case tg of
       PAddr h p \<Rightarrow> (st, Inr (h @ bs '':'' @ dec_digits (unat p)))
     | PUnix p \<Rightarrow> (st, Inr (bs ''unix:'' @ p))
     | PUpstream n \<Rightarrow>
        (case ps_groups st n of
           None \<Rightarrow> (st, Inl 502)
         | Some g \<Rightarrow>
            (case select_peer_excluding env ctx (pe_now_ms env 0) n g [] st of
               (st, Inl c) \<Rightarrow> (st, Inl c)
             | (st, Inr i) \<Rightarrow> (st, Inr (peer_addr (addr (servers (g_up g) ! i))))))
     | PDynamic t \<Rightarrow>
        (let a = t ctx
         in (st, if a = [] then Inl 502 else Inr (if 0x3A \<in> set a then a else a @ bs '':9000''))))"

definition fcgi_request :: "('r \<Rightarrow> bytes \<Rightarrow> bytes list option) \<Rightarrow> 'r hctx \<Rightarrow> 'r fcgi_conf \<Rightarrow> bytes \<Rightarrow> bytes" where
  "fcgi_request captures ctx conf rb =
    push_begin_request (fc_keep_conn conf)
    @ push_params (build_params ctx conf (split_script_and_path_info captures conf (h_uri ctx))) @ push_stdin rb"

definition fcgi_answer :: "'r fcgi_conf \<Rightarrow> collected \<Rightarrow> nat + ('m, 'f, fcgi_body \<times> read_event list, 'd) reply" where
  "fcgi_answer conf c =
    (case c of
       Complete stdout app \<Rightarrow>
        if stdout = [] then (if app \<noteq> 0 then Inl 502 else Inr \<lparr>rresp = resp_new\<lparr>status := 200\<rparr>, reply_body = BEmpty\<rparr>)
        else build_reply conf stdout
     | Streaming head pre b evs \<Rightarrow> build_streaming_reply conf head pre (b, evs))"

text \<open>\<open>io\<close> is what the connection to an address does with the request written to it.\<close>

definition fastcgi ::
  "'c penv \<Rightarrow> ('r \<Rightarrow> bytes \<Rightarrow> bytes list option) \<Rightarrow> (bytes \<Rightarrow> bytes \<Rightarrow> fcgi_io) \<Rightarrow> 'r hctx \<Rightarrow> 'r proxy_target \<Rightarrow> 'r fcgi_conf \<Rightarrow> bytes
   \<Rightarrow> 'c pstate \<Rightarrow> 'c pstate \<times> (nat + ('m, 'f, fcgi_body \<times> read_event list, 'd) reply)" where
  "fastcgi env captures io ctx tg conf rb st =
    (case fcgi_target env ctx tg st of
       (st, Inl c) \<Rightarrow> (st, Inl c)
     | (st, Inr a) \<Rightarrow>
        (st, case io a (fcgi_request captures ctx conf rb) of
               ConnectFails \<Rightarrow> Inl 502
             | ConnectTimeout \<Rightarrow> Inl 504
             | FWriteFails \<Rightarrow> Inl 502
             | Reads evs \<Rightarrow>
                (case read_response conf fcgi_body_new [] None evs of
                   Inl c \<Rightarrow> Inl c
                 | Inr c \<Rightarrow> fcgi_answer conf c)))"

section \<open>Records in any cut\<close>

abbreviation append_raw :: "fcgi_body \<Rightarrow> bytes \<Rightarrow> fcgi_body" where
  "append_raw b x \<equiv> b\<lparr>fb_raw := fb_raw b @ x\<rparr>"

lemma drain_append:
  "drain_records b sink = (b', sink', r) \<Longrightarrow>
    drain_records (append_raw b x) sink =
      (case r of Inr False \<Rightarrow> drain_records (append_raw b' x) sink' | _ \<Rightarrow> (append_raw b' x, sink', r))"
proof (induction b sink arbitrary: b' sink' r rule: drain_records.induct)
  case (1 b sink)
  show ?case
  proof (cases "parse_record (fb_raw b)")
    case (Inl e)
    then show ?thesis using "1.prems" parse_record_stable [of "fb_raw b" x]
      by (cases e) (auto simp: drain_records.simps [of b] drain_records.simps [of "append_raw b' x"])
  next
    case (Inr rc)
    then have p: "parse_record (fb_raw b @ x) = Inr rc" using parse_record_stable [of "fb_raw b" x] by simp
    have tot: "total rc \<le> length (fb_raw b)" using parse_record_total [OF Inr] .
    show ?thesis
    proof (cases "ty rc = EndRequest")
      case True
      then show ?thesis using "1.prems" Inr p tot
        by (auto simp: drain_records.simps [of b] drain_records.simps [of "append_raw b x"] split: option.splits prod.splits if_splits)
    next
      case False
      have "drain_records (b\<lparr>fb_raw := drop (total rc) (fb_raw b)\<rparr>) (if ty rc = Stdout then sink @ body rc else sink) = (b', sink', r)"
        using "1.prems" Inr False by (simp add: drain_records.simps [of b])
      from "1.IH" [OF Inr False this] show ?thesis using p False tot by (simp add: drain_records.simps [of "append_raw b x"])
    qed
  qed
qed

lemma drain_sink: "drain_records b sink = (b', sink', r) \<Longrightarrow> drain_records b (pre @ sink) = (b', pre @ sink', r)"
proof (induction b sink arbitrary: b' sink' r rule: drain_records.induct)
  case (1 b sink)
  show ?case
  proof (cases "parse_record (fb_raw b)")
    case (Inl e)
    then show ?thesis using "1.prems" by (cases e) (auto simp: drain_records.simps [of b] drain_records.simps [of b'])
  next
    case (Inr rc)
    show ?thesis
    proof (cases "ty rc = EndRequest")
      case True
      then show ?thesis using "1.prems" Inr by (auto simp: drain_records.simps [of b] split: option.splits prod.splits if_splits)
    next
      case False
      have "drain_records (b\<lparr>fb_raw := drop (total rc) (fb_raw b)\<rparr>) (if ty rc = Stdout then sink @ body rc else sink) = (b', sink', r)"
        using "1.prems" Inr False by (simp add: drain_records.simps [of b])
      from "1.IH" [OF Inr False this] show ?thesis using Inr False by (simp add: drain_records.simps [of b] split: if_splits)
    qed
  qed
qed

text \<open>
  The output an application writes, from the FastCGI specification: records of a type, a content and any padding of up to 255 bytes, then the end
  of the request with the status of the application.
\<close>

type_synonym app_record = "record_type \<times> bytes \<times> bytes"

fun wire_record :: "app_record \<Rightarrow> bytes" where
  "wire_record (t, content, padding) =
    [VERSION, record_type_u8 t] @ to_be16 REQUEST_ID @ to_be16 (of_nat (length content)) @ [of_nat (length padding), 0] @ content @ padding"

fun record_ok :: "app_record \<Rightarrow> bool" where
  "record_ok (t, content, padding) \<longleftrightarrow> t \<noteq> EndRequest \<and> length content < 65536 \<and> length padding < 256"

definition app_output :: "app_record list \<Rightarrow> u32 \<Rightarrow> bytes \<Rightarrow> bytes" where
  "app_output rs app padding = concat (map wire_record rs) @ wire_record (EndRequest, to_be32 app @ [0, 0, 0, 0], padding)"

definition payload :: "app_record list \<Rightarrow> bytes" where
  "payload rs = concat (map (\<lambda>(t, content, _). if t = Stdout then content else []) rs)"

definition app_records :: "app_record list \<Rightarrow> bytes \<Rightarrow> bool" where
  "app_records rs padding \<longleftrightarrow> list_all record_ok rs \<and> length padding < 256"

lemma parse_wire_record:
  assumes "length content < 65536" "length padding < 256"
  shows "\<exists>i n. parse_record (wire_record (t, content, padding) @ rest) = Inr \<lparr>ty = t, request_id = i, body = content, total = n\<rparr>
    \<and> n = length (wire_record (t, content, padding))"
proof -
  define w :: u16 where "w = of_nat (length content)"
  define p :: u8 where "p = of_nat (length padding)"
  have un: "unat w = length content" "unat p = length padding"
    using assms by (simp_all add: w_def p_def unsigned_of_nat take_bit_nat_eq_self)
  have r: "wire_record (t, content, padding) = VERSION # record_type_u8 t # ucast (drop_bit 8 REQUEST_ID) # ucast REQUEST_ID #
      ucast (drop_bit 8 w) # ucast w # p # 0 # content @ padding"
    by (simp add: to_be16_def flip: w_def p_def del: drop_bit_of_1)
  show ?thesis unfolding r append_Cons append_assoc parse_record_Cons from_be16_to_be16 un by simp
qed

lemma drain_app_output:
  assumes "app_records rs pad" "fb_raw b = app_output rs app pad"
  shows "\<exists>b'. drain_records b sink = (b', sink @ payload rs, Inr True) \<and> fb_app_status b' = app"
  using assms
proof (induction rs arbitrary: b sink)
  case Nil
  have e: "end_request_status (to_be32 app @ [0, 0, 0, 0]) = Some (app, 0)"
    by (simp add: end_request_status_def to_be32_def from_be32_to_be32)
  have "length (to_be32 app @ [0, 0, 0, 0]) < 65536" by (simp add: to_be32_def)
  from parse_wire_record [OF this, of pad EndRequest "[]"] Nil show ?case
    by (auto simp: drain_records.simps [of b] app_output_def payload_def app_records_def e simp del: wire_record.simps)
next
  case (Cons rc rs)
  obtain t c pd where rc: "rc = (t, c, pd)" by (cases rc) auto
  have ok: "t \<noteq> EndRequest" "length c < 65536" "length pd < 256" "app_records rs pad" using Cons.prems(1) by (simp_all add: rc app_records_def)
  have raw: "fb_raw b = wire_record (t, c, pd) @ app_output rs app pad" using Cons.prems(2) by (simp add: rc app_output_def del: wire_record.simps)
  have d: "drain_records b sink = drain_records (b\<lparr>fb_raw := app_output rs app pad\<rparr>) (if t = Stdout then sink @ c else sink)"
    using parse_wire_record [OF ok(2,3), of t "app_output rs app pad"] ok(1)
    by (auto simp: drain_records.simps [of b] raw simp del: wire_record.simps)
  have p: "payload (rc # rs) = (if t = Stdout then c else []) @ payload rs" by (simp add: payload_def rc)
  from Cons.IH [OF ok(4), of "b\<lparr>fb_raw := app_output rs app pad\<rparr>" "if t = Stdout then sink @ c else sink"]
  show ?case unfolding d p by auto
qed

text \<open>What is still to come, in any cut, ends well with the whole payload.\<close>

definition on_track :: "fcgi_body \<Rightarrow> bytes \<Rightarrow> bytes list \<Rightarrow> bytes \<Rightarrow> u32 \<Rightarrow> bool" where
  "on_track b sink ds out app \<longleftrightarrow>
    \<not> fb_done b \<and> [] \<notin> set ds \<and> (\<exists>b'. drain_records (append_raw b (concat ds)) sink = (b', out, Inr True) \<and> fb_app_status b' = app)"

lemma drain_frame:
  assumes "drain_records b sink = (b', sink', r)"
  shows "(\<exists>x. sink' = sink @ x) \<and> (r = Inr True \<or> fb_done b' = fb_done b)"
  using assms
proof (induction b sink arbitrary: b' sink' r rule: drain_records.induct)
  case (1 b sink)
  show ?case
  proof (cases "\<exists>rc. parse_record (fb_raw b) = Inr rc \<and> ty rc \<noteq> EndRequest")
    case True
    then obtain rc where rc: "parse_record (fb_raw b) = Inr rc" "ty rc \<noteq> EndRequest" by blast
    have "drain_records (b\<lparr>fb_raw := drop (total rc) (fb_raw b)\<rparr>) (if ty rc = Stdout then sink @ body rc else sink) = (b', sink', r)"
      using "1.prems" rc by (simp add: drain_records.simps [of b])
    from "1.IH" [OF rc this] show ?thesis by (auto split: if_splits)
  next
    case False
    then show ?thesis using "1.prems"
      by (auto simp: drain_records.simps [of b] split: sum.splits parse_error.splits option.splits prod.splits if_splits)
  qed
qed

lemma drained_again: "drain_records b sink = (b', sink', Inr False) \<Longrightarrow> drain_records b' sink' = (b', sink', Inr False)"
  using drain_append [of b sink b' sink' "Inr False" "[]"] by simp

lemma on_track_drain:
  assumes "on_track b sink ds out app" "drain_records b sink = (b', sink', r)"
  shows "r = Inr True \<and> sink' = out \<and> fb_app_status b' = app
    \<or> r = Inr False \<and> on_track b' sink' ds out app \<and> ds \<noteq> []"
proof -
  obtain bf where bf: "drain_records (append_raw b (concat ds)) sink = (bf, out, Inr True)" "fb_app_status bf = app"
    "\<not> fb_done b" "[] \<notin> set ds" using assms(1) unfolding on_track_def by blast
  note a = drain_append [OF assms(2), of "concat ds"]
  consider c where "r = Inl c" | "r = Inr True" | "r = Inr False" by (cases r) auto
  then show ?thesis
  proof cases
    case 3
    have "ds \<noteq> []"
    proof
      assume "ds = []"
      then show False using a bf 3 drained_again [OF assms(2) [unfolded 3]] by simp
    qed
    moreover have "\<not> fb_done b'" using drain_frame [OF assms(2)] bf(3) 3 by simp
    moreover have "drain_records (append_raw b' (concat ds)) sink' = (bf, out, Inr True)" using a bf(1) 3 by simp
    ultimately show ?thesis using bf(2,4) 3 by (auto simp: on_track_def)
  qed (use a bf in simp_all)
qed

lemma on_track_read: "on_track b sink (d # ds) out app \<Longrightarrow> d \<noteq> [] \<and> on_track (append_raw b d) sink ds out app"
  by (auto simp: on_track_def)

lemma on_track_out: "on_track b sink ds out app \<Longrightarrow> \<exists>x. out = sink @ x \<and> on_track b [] ds x app"
proof -
  assume t: "on_track b sink ds out app"
  then obtain bf where bf: "drain_records (append_raw b (concat ds)) sink = (bf, out, Inr True)" "fb_app_status bf = app"
    unfolding on_track_def by blast
  obtain b1 x r1 where d: "drain_records (append_raw b (concat ds)) [] = (b1, x, r1)" by (cases "drain_records (append_raw b (concat ds)) []") auto
  from drain_sink [OF d, of sink] bf have "b1 = bf" "out = sink @ x" "r1 = Inr True" by simp_all
  then show ?thesis using t d bf by (auto simp: on_track_def)
qed

lemma pump_on_track:
  assumes "on_track b sink ds out app"
  shows "(\<exists>b'. pump b sink (map RData ds) = Inr (Ended b' out) \<and> fb_app_status b' = app)
    \<or> (\<exists>b' sink' ds'. pump b sink (map RData ds) = Inr (More b' sink' (map RData ds')) \<and> on_track b' sink' ds' out app \<and> length ds' < length ds
        \<and> length sink \<le> length sink')"
proof -
  obtain b1 s1 r1 where d1: "drain_records b sink = (b1, s1, r1)" by (cases "drain_records b sink") auto
  from on_track_drain [OF assms d1] show ?thesis
  proof (elim disjE conjE)
    assume f: "r1 = Inr False" and t: "on_track b1 s1 ds out app" and "ds \<noteq> []"
    then obtain d ds' where ds: "ds = d # ds'" by (cases ds) auto
    from on_track_read [OF t [unfolded ds]] have d: "d \<noteq> []" and t2: "on_track (append_raw b1 d) s1 ds' out app" by simp_all
    obtain b2 s2 r2 where d2: "drain_records (append_raw b1 d) s1 = (b2, s2, r2)" by (cases "drain_records (append_raw b1 d) s1") auto
    have "length sink \<le> length s2" using drain_frame [OF d1] drain_frame [OF d2] by auto
    then show ?thesis using on_track_drain [OF t2 d2] d1 f ds d d2 by (auto simp: pump_def)
  qed (use d1 in \<open>auto simp: pump_def\<close>)
qed

lemma stream_rest_on_track: "on_track b [] ds out app \<Longrightarrow> stream_rest b (map RData ds) = (out, True)"
proof (induction ds arbitrary: b out)
  case Nil
  obtain b1 s1 r1 where d1: "drain_records b [] = (b1, s1, r1)" by (cases "drain_records b []") auto
  from on_track_drain [OF Nil d1] Nil show ?case by (auto simp: stream_rest.simps [of b] d1 on_track_def)
next
  case (Cons d ds)
  obtain b1 s1 r1 where d1: "drain_records b [] = (b1, s1, r1)" by (cases "drain_records b []") auto
  have nd: "\<not> fb_done b" using Cons.prems by (simp add: on_track_def)
  from on_track_drain [OF Cons.prems d1] show ?case
  proof (elim disjE conjE)
    assume f: "r1 = Inr False" and t: "on_track b1 s1 (d # ds) out app"
    from on_track_read [OF t] have d: "d \<noteq> []" and t2: "on_track (append_raw b1 d) s1 ds out app" by simp_all
    from on_track_out [OF t2] obtain x where x: "out = s1 @ x" "on_track (append_raw b1 d) [] ds x app" by blast
    from Cons.IH [OF x(2)] show ?thesis using nd f d x(1) by (simp add: stream_rest.simps [of b] d1)
  qed (use d1 nd in \<open>auto simp: stream_rest.simps [of b]\<close>)
qed

lemma find_header_end_le: "find_header_end b = Some (h, e) \<Longrightarrow> e \<le> length b"
proof -
  have "find_header_end_from b i = Some (h, e) \<Longrightarrow> e \<le> i + length b" for i
  proof (induction b arbitrary: i)
    case (Cons c cs)
    have "take 2 cs = [0x0D, 0x0A] \<Longrightarrow> 2 \<le> length cs" "take 1 cs = [0x0A] \<Longrightarrow> 1 \<le> length cs" by (cases cs; cases "tl cs"; auto)+
    then show ?case using Cons.prems Cons.IH [of "i + 1"] by (auto split: if_splits)
  qed simp
  then show "find_header_end b = Some (h, e) \<Longrightarrow> e \<le> length b" by (fastforce simp: find_header_end_def)
qed

text \<open>What is refused: no head ends in the first 256 KiB of the output, or a buffered response grows past 64 MiB.\<close>

definition refusable :: "'r fcgi_conf \<Rightarrow> bytes \<Rightarrow> bool" where
  "refusable conf out \<longleftrightarrow>
    (\<exists>n. 262144 < n \<and> n \<le> length out \<and> find_header_end (take n out) = None) \<or> fc_buffering conf \<and> 67108864 < length out"

lemma read_response_on_track:
  assumes "on_track b sink ds out app" "case he of None \<Rightarrow> True | Some e \<Rightarrow> e \<le> length sink"
  shows "read_response conf b sink he (map RData ds) = Inr (Complete out app)
    \<or> (\<exists>h p b' evs. read_response conf b sink he (map RData ds) = Inr (Streaming h p b' evs)
        \<and> (h @ p @ fst (stream_rest b' evs), snd (stream_rest b' evs)) = (out, True))
    \<or> read_response conf b sink he (map RData ds) = Inl 502 \<and> refusable conf out"
  using assms
proof (induction "length ds" arbitrary: b sink ds he rule: less_induct)
  case less
  from pump_on_track [OF less.prems(1)] show ?case
  proof (elim disjE exE conjE)
    fix b' assume "pump b sink (map RData ds) = Inr (Ended b' out)" "fb_app_status b' = app"
    then show ?thesis by (simp add: read_response.simps [of conf b])
  next
    fix b' sink' ds'
    assume p: "pump b sink (map RData ds) = Inr (More b' sink' (map RData ds'))" and t: "on_track b' sink' ds' out app"
      and l: "length ds' < length ds" "length sink \<le> length sink'"
    from on_track_out [OF t] obtain x where x: "out = sink' @ x" "on_track b' [] ds' x app" by blast
    define he' where "he' = (case he of None \<Rightarrow> map_option snd (find_header_end sink') | Some e \<Rightarrow> Some e)"
    have he': "case he' of None \<Rightarrow> True | Some e \<Rightarrow> e \<le> length sink'"
      using less.prems(2) l(2) find_header_end_le [of sink'] by (auto simp: he'_def split: option.splits)
    have none: "find_header_end sink' = None" if "he' = None" using that by (simp add: he'_def split: option.splits)
    note ih = less.hyps [OF l(1) t he']
    have rr: "read_response conf b sink he (map RData ds) =
       (case he' of
          None \<Rightarrow> if MAX_HEADERS < length sink' then Inl 502 else read_response conf b' sink' he' (map RData ds')
        | Some e \<Rightarrow>
           if \<not> fc_buffering conf \<or> fc_budget conf < length sink' - e
           then Inr (Streaming (take e sink') (drop e sink') b' (map RData ds'))
           else if MAX_RESPONSE < length sink' then Inl 502
           else read_response conf b' sink' he' (map RData ds'))"
      using p by (simp add: read_response.simps [of conf b] he'_def Let_def split: option.split)
    consider e where "he' = Some e" "\<not> fc_buffering conf \<or> fc_budget conf < length sink' - e"
      | "he' = None" "MAX_HEADERS < length sink'" | "fc_buffering conf" "MAX_RESPONSE < length sink'" "read_response conf b sink he (map RData ds) = Inl 502"
      | "read_response conf b sink he (map RData ds) = read_response conf b' sink' he' (map RData ds')"
      using rr by (auto split: option.splits if_splits)
    then show ?thesis
    proof cases
      case 1
      then show ?thesis using rr stream_rest_on_track [OF x(2)] x(1) by auto
    next
      case 2
      then have "refusable conf out" using x(1) none by (auto simp: refusable_def intro!: exI [of _ "length sink'"])
      then show ?thesis using rr 2 by simp
    next
      case 3
      then have "refusable conf out" using x(1) by (simp add: refusable_def)
      then show ?thesis using 3(3) by simp
    next
      case 4
      then show ?thesis using ih by simp
    qed
  qed
qed

text \<open>C39.
  Whatever a FastCGI application writes and however its records, with any padding, are cut on the way, nothing of its output is lost, repeated or taken
  from elsewhere: it is collected whole, with the application's status, or handed on in order as head, first
  bytes and the rest of the stream, and what it logs never gets in between. The one other outcome is 502, and only when no end of a head
  shows in some 256 KiB or more of the output, or when a response that is buffered is longer than 64 MiB.
\<close>

theorem fcgi_output_exact:
  assumes "app_records rs pad" "concat ds = app_output rs app pad" "[] \<notin> set ds"
  shows "read_response conf fcgi_body_new [] None (map RData ds) = Inr (Complete (payload rs) app)
    \<or> (\<exists>h p b evs. read_response conf fcgi_body_new [] None (map RData ds) = Inr (Streaming h p b evs)
        \<and> h @ p @ fst (stream_rest b evs) = payload rs \<and> snd (stream_rest b evs))
    \<or> read_response conf fcgi_body_new [] None (map RData ds) = Inl 502
      \<and> ((\<exists>n. 262144 < n \<and> n \<le> length (payload rs) \<and> find_header_end (take n (payload rs)) = None)
         \<or> fc_buffering conf \<and> 67108864 < length (payload rs))"
proof -
  have "on_track fcgi_body_new [] ds (payload rs) app"
    using drain_app_output [OF assms(1), of "append_raw fcgi_body_new (concat ds)" app "[]"] assms(2,3)
    by (simp add: on_track_def fcgi_body_new_def)
  from read_response_on_track [OF this, of None conf] show ?thesis unfolding refusable_def by auto
qed

theorem fcgi_output_exact_witness:
  "let out = app_output [(Stdout, bs ''A: b'', [7]), (Stderr, bs ''log'', []), (Stdout, [0x0A, 0x0A] @ bs ''hi'', [])] 0 [];
       res = read_response \<lparr>fc_params = ([] :: unit fcgi_param list), fc_script_index = None, fc_split = None, fc_keep_conn = False, fc_hide_headers = [],
         fc_buffering = True, fc_budget = 100\<rparr> fcgi_body_new [] None [RData (take 20 out), RData (drop 20 out)];
       text = bs ''A: b'' @ [0x0A, 0x0A] @ bs ''hi''
   in res = Inr (Complete text 0)
    \<or> (\<exists>h p b evs. res = Inr (Streaming h p b evs) \<and> h @ p @ fst (stream_rest b evs) = text \<and> snd (stream_rest b evs))"
proof -
  let ?rs = "[(Stdout, bs ''A: b'', [7]), (Stderr, bs ''log'', []), (Stdout, [0x0A, 0x0A] @ bs ''hi'', [])]"
  let ?conf = "\<lparr>fc_params = ([] :: unit fcgi_param list), fc_script_index = None, fc_split = None, fc_keep_conn = False, fc_hide_headers = [],
         fc_buffering = True, fc_budget = 100\<rparr>"
  let ?out = "app_output ?rs 0 []"
  have ok: "app_records ?rs []" by (simp add: app_records_def)
  have cat: "concat [take 20 ?out, drop 20 ?out] = ?out" by simp
  have ne: "[] \<notin> set [take 20 ?out, drop 20 ?out]" by (simp add: app_output_def to_be16_def to_be32_def)
  have pl: "payload ?rs = bs ''A: b'' @ [0x0A, 0x0A] @ bs ''hi''" by (simp add: payload_def)
  have short: "length (bs ''A: b'' @ [0x0A, 0x0A] @ bs ''hi'') = 8" by simp
  show ?thesis using fcgi_output_exact [OF ok cat ne, of ?conf] unfolding pl short Let_def list.map by (auto simp del: bs_simps append.simps)
qed

section \<open>Headers cut by a read\<close>

lemma find_header_end_line: "0x0A \<notin> set l \<Longrightarrow> find_header_end (l @ [0x0A]) = Some (length l, length l + 1)"
proof -
  have "0x0A \<notin> set l \<Longrightarrow> find_header_end_from (l @ [0x0A]) i = Some (i + length l, i + length l + 1)" for i
    by (induction l arbitrary: i) auto
  then show "0x0A \<notin> set l \<Longrightarrow> ?thesis" by (simp add: find_header_end_def)
qed

text \<open>
  Without buffering, a read that ends with the first header line is taken for the whole head: the headers that arrive later, with the empty
  line after them, are sent to the client as body.
\<close>

theorem fcgi_headers_become_body:
  assumes "\<not> fc_buffering conf" "0x0A \<notin> set l" "length (l @ [0x0A]) \<le> MAX_CONTENT"
    and "app_records rs pad" "concat ds = app_output rs app pad" "[] \<notin> set ds"
  shows "\<exists>b. read_response conf fcgi_body_new [] None (RData (push_record Stdout (l @ [0x0A])) # map RData ds) =
      Inr (Streaming (l @ [0x0A]) [] b (map RData ds)) \<and> stream_rest b (map RData ds) = (payload rs, True)"
proof -
  have d0: "drain_records fcgi_body_new [] = (fcgi_body_new, [], Inr False)"
    by (simp add: drain_records.simps fcgi_body_new_def parse_record_def)
  have ne: "push_record Stdout (l @ [0x0A]) \<noteq> []" by (simp add: push_record_def push_header_def Let_def)
  have "drain_records (append_raw fcgi_body_new (push_record Stdout (l @ [0x0A]))) [] =
      drain_records (fcgi_body_new) (l @ [0x0A])"
    using parse_push_record [OF assms(3), of Stdout "[]"] by (subst drain_records.simps) (simp add: fcgi_body_new_def)
  also have "\<dots> = (fcgi_body_new, l @ [0x0A], Inr False)" using drain_sink [OF d0, of "l @ [0x0A]"] by simp
  finally have "pump fcgi_body_new [] (RData (push_record Stdout (l @ [0x0A])) # map RData ds) =
      Inr (More fcgi_body_new (l @ [0x0A]) (map RData ds))" using d0 ne by (simp add: pump_def)
  then have "read_response conf fcgi_body_new [] None (RData (push_record Stdout (l @ [0x0A])) # map RData ds) =
      Inr (Streaming (l @ [0x0A]) [] fcgi_body_new (map RData ds))"
    using assms(1) find_header_end_line [OF assms(2)] by (simp add: read_response.simps [of conf fcgi_body_new])
  moreover have "on_track fcgi_body_new [] ds (payload rs) app"
    using drain_app_output [OF assms(4), of "append_raw fcgi_body_new (concat ds)" app "[]"] assms(5,6)
    by (simp add: on_track_def fcgi_body_new_def)
  ultimately show ?thesis using stream_rest_on_track by blast
qed

theorem fcgi_headers_become_body_witness:
  "\<exists>b. read_response \<lparr>fc_params = ([] :: unit fcgi_param list), fc_script_index = None, fc_split = None, fc_keep_conn = False, fc_hide_headers = [],
         fc_buffering = False, fc_budget = 100\<rparr> fcgi_body_new [] None
       [RData (push_record Stdout (bs ''A: b'' @ [0x0A])), RData (app_output [(Stdout, bs ''Set-Cookie: s'' @ [0x0A, 0x0A] @ bs ''hi'', [])] 0 [])] =
      Inr (Streaming (bs ''A: b'' @ [0x0A]) [] b [RData (app_output [(Stdout, bs ''Set-Cookie: s'' @ [0x0A, 0x0A] @ bs ''hi'', [])] 0 [])])
    \<and> stream_rest b [RData (app_output [(Stdout, bs ''Set-Cookie: s'' @ [0x0A, 0x0A] @ bs ''hi'', [])] 0 [])] =
      (bs ''Set-Cookie: s'' @ [0x0A, 0x0A] @ bs ''hi'', True)"
proof -
  let ?rs = "[(Stdout, bs ''Set-Cookie: s'' @ [0x0A, 0x0A] @ bs ''hi'', [])]"
  have "app_records ?rs []" "payload ?rs = bs ''Set-Cookie: s'' @ [0x0A, 0x0A] @ bs ''hi''" by (simp_all add: app_records_def payload_def)
  moreover have "[] \<notin> set [app_output ?rs 0 []]" by (simp add: app_output_def push_record_def push_header_def Let_def)
  ultimately show ?thesis
    using fcgi_headers_become_body [of "\<lparr>fc_params = ([] :: unit fcgi_param list), fc_script_index = None, fc_split = None, fc_keep_conn = False,
        fc_hide_headers = [], fc_buffering = False, fc_budget = 100\<rparr>" "bs ''A: b''" ?rs "[]" "[app_output ?rs 0 []]" 0] by simp
qed

section \<open>The head of a complete answer\<close>

definition cgi_field :: "bytes \<times> bytes \<Rightarrow> bytes" where
  "cgi_field f = fst f @ bs '': '' @ snd f @ crlf"

fun cgi_ok :: "bytes \<times> bytes \<Rightarrow> bool" where
  "cgi_ok (n, v) \<longleftrightarrow> n \<noteq> [] \<and> hd n \<noteq> 0x0D \<and> 0x0A \<notin> set n \<and> 0x3A \<notin> set n \<and> 0x0A \<notin> set v \<and> utf8_valid n \<and> utf8_valid v
     \<and> trim n = n \<and> trim v = v"

lemma find_header_end_from_skip:
  "0x0A \<notin> set l \<Longrightarrow> find_header_end_from (l @ b) i = find_header_end_from b (i + length l)"
  by (induction l arbitrary: i) auto

lemma cgi_field_parts: "cgi_field (n, v) = (n @ bs '': '' @ v @ [0x0D]) @ [0x0A]"
  by (simp add: cgi_field_def)

lemma find_header_end_fields:
  "list_all cgi_ok hs \<Longrightarrow> hs \<noteq> [] \<Longrightarrow>
    find_header_end_from (concat (map cgi_field hs) @ crlf @ rb) i =
      Some (i + length (concat (map cgi_field hs)) - 1, i + length (concat (map cgi_field hs)) + 2)"
proof (induction hs arbitrary: i)
  case (Cons h hs)
  obtain n v where h: "h = (n, v)" by fastforce
  let ?l = "n @ bs '': '' @ v @ [0x0D]"
  have nl: "0x0A \<notin> set ?l" using Cons.prems(1) by (simp add: h)
  let ?rest = "concat (map cgi_field hs) @ crlf @ rb"
  have step: "find_header_end_from (concat (map cgi_field (h # hs)) @ crlf @ rb) i = find_header_end_from (0x0A # ?rest) (i + length ?l)"
    using find_header_end_from_skip [OF nl, of "0x0A # ?rest" i] unfolding h list.map concat.simps cgi_field_parts append_assoc by simp
  show ?case
  proof (cases hs)
    case Nil
    then show ?thesis unfolding step by (simp add: h cgi_field_def)
  next
    case (Cons h' hs')
    obtain n' v' where h': "h' = (n', v')" by fastforce
    have "cgi_ok h'" using Cons.prems(1) Cons by simp
    then have n': "n' \<noteq> []" "hd n' \<noteq> 0x0D" "hd n' \<noteq> 0x0A" by (auto simp: h' dest: hd_in_set)
    have r: "?rest = n' @ (bs '': '' @ v' @ crlf @ concat (map cgi_field hs') @ crlf @ rb)" by (simp add: Cons h' cgi_field_def)
    have "take 1 ?rest \<noteq> [0x0A] \<and> take 2 ?rest \<noteq> [0x0D, 0x0A] \<and> ?rest \<noteq> []" unfolding r using n' by (cases n') auto
    then have "find_header_end_from (0x0A # ?rest) (i + length ?l) = find_header_end_from ?rest (i + length ?l + 1)" by simp
    also have "\<dots> = Some (i + length ?l + 1 + length (concat (map cgi_field hs)) - 1, i + length ?l + 1 + length (concat (map cgi_field hs)) + 2)"
      using Cons.IH [of "i + length ?l + 1"] Cons.prems(1) Cons by simp
    finally show ?thesis unfolding step by (simp add: h cgi_field_parts)
  qed
qed simp

lemma split_lines_fields:
  assumes "list_all cgi_ok hs"
  shows "split_lines (concat (map cgi_field hs)) = map (\<lambda>(n, v). n @ bs '': '' @ v) hs"
  using assms
proof (induction hs)
  case (Cons h hs)
  obtain n v where h: "h = (n, v)" by fastforce
  have nl: "0x0A \<notin> set (n @ bs '': '' @ v @ [0x0D])" using Cons.prems by (simp add: h)
  have "concat (map cgi_field (h # hs)) = (n @ bs '': '' @ v @ [0x0D]) @ 0x0A # concat (map cgi_field hs)"
    unfolding h list.map concat.simps cgi_field_parts by simp
  then have "split_lines (concat (map cgi_field (h # hs))) = (n @ bs '': '' @ v) # split_lines (concat (map cgi_field hs))"
    unfolding split_lines_def by (simp only: split_on_append [OF nl]) (simp add: butlast_append)
  then show ?case using Cons by (simp add: h)
qed (simp add: split_lines_def)

lemma split_on_snoc: "split_on c (xs @ [c]) = split_on c xs @ [[]]"
  by (induction xs) (auto split: list.splits)

lemma split_lines_snoc: "split_lines (b @ [0x0A]) = split_lines b"
  by (simp add: split_lines_def split_on_snoc)

lemma trim_blank: "trim (0x20 # v) = trim v"
  by (subst (1) trim_def, subst trim_start.simps) (simp add: trim_def)

lemma position_fresh: "x \<notin> set n \<Longrightarrow> position (\<lambda>c. c = x) (n @ x # r) = Some (length n)"
  by (induction n) auto

lemma split_header_field: "cgi_ok (n, v) \<Longrightarrow> split_header (n @ bs '': '' @ v) = Some (n, v)"
  by (simp add: split_header_def position_fresh from_utf8_def utf8_valid_Cons_ascii trim_blank)

text \<open>What a field of the application does to the response.\<close>

definition cgi_kept :: "'r fcgi_conf \<Rightarrow> bytes \<times> bytes \<Rightarrow> bool" where
  "cgi_kept conf f \<longleftrightarrow> (let l = map to_ascii_lowercase (fst f) in l \<noteq> bs ''status'' \<and> l \<notin> set FCGI_HOP_BY_HOP \<and> l \<notin> set (fc_hide_headers conf))"

definition cgi_named :: "bytes \<Rightarrow> (bytes \<times> bytes) list \<Rightarrow> (bytes \<times> bytes) list" where
  "cgi_named x hs = filter (\<lambda>f. map to_ascii_lowercase (fst f) = x) hs"

definition cgi_code :: "(bytes \<times> bytes) list \<Rightarrow> nat" where
  "cgi_code hs = (case rev (cgi_named (bs ''status'') hs) of
     f # _ \<Rightarrow> (case parse_unsigned 16 (first_word (snd f)) of Some c \<Rightarrow> c | None \<Rightarrow> 200) | [] \<Rightarrow> 200)"

lemma cgi_line_field:
  assumes "cgi_ok (n, v)" "resp_wf (cg_resp g)"
  assumes "g' = cgi_line (fc_hide_headers conf) (n @ bs '': '' @ v) g"
  shows "resp_wf (cg_resp g')" "resp_iter (cg_resp g') = resp_iter (cg_resp g) @ (if cgi_kept conf (n, v) then [(n, v)] else [])"
    "cg_status g' = (if map to_ascii_lowercase n = bs ''status''
       then (case parse_unsigned 16 (first_word v) of Some c \<Rightarrow> c | None \<Rightarrow> 200) else cg_status g)"
    "cg_location g' = (cg_location g \<or> map to_ascii_lowercase n = bs ''location'' \<and> cgi_kept conf (n, v))"
  using assms(2) unfolding assms(3) cgi_line_def split_header_field [OF assms(1)] cgi_kept_def
  by (auto simp: Let_def add_header_pairs simp del: bs_simps)

lemma cgi_fold:
  assumes "list_all cgi_ok hs" "resp_wf (cg_resp g0)"
  shows "let g = fold (cgi_line (fc_hide_headers conf)) (map (\<lambda>(n, v). n @ bs '': '' @ v) hs) g0
    in resp_wf (cg_resp g) \<and> resp_iter (cg_resp g) = resp_iter (cg_resp g0) @ filter (cgi_kept conf) hs
     \<and> cg_status g = (if cgi_named (bs ''status'') hs = [] then cg_status g0 else cgi_code hs)
     \<and> (cg_location g \<longleftrightarrow> cg_location g0 \<or> filter (cgi_kept conf) (cgi_named (bs ''location'') hs) \<noteq> [])"
  using assms
proof (induction hs arbitrary: g0)
  case (Cons h hs)
  obtain n v where h: "h = (n, v)" by fastforce
  have ok: "cgi_ok (n, v)" "list_all cgi_ok hs" using Cons.prems(1) by (simp_all add: h)
  define g1 where "g1 = cgi_line (fc_hide_headers conf) (n @ bs '': '' @ v) g0"
  note g1 = cgi_line_field [OF ok(1) Cons.prems(2) g1_def]
  have f: "fold (cgi_line (fc_hide_headers conf)) (map (\<lambda>(n, v). n @ bs '': '' @ v) (h # hs)) g0 =
      fold (cgi_line (fc_hide_headers conf)) (map (\<lambda>(n, v). n @ bs '': '' @ v) hs) g1"
    unfolding g1_def h list.map prod.case fold_Cons comp_apply ..
  have code: "cgi_named (bs ''status'') hs \<noteq> [] \<Longrightarrow> cgi_code (h # hs) = cgi_code hs"
    by (simp add: cgi_code_def cgi_named_def split: list.split del: bs_simps)
  have code1: "cgi_named (bs ''status'') hs = [] \<Longrightarrow> map to_ascii_lowercase n = bs ''status'' \<Longrightarrow>
      cgi_code (h # hs) = (case parse_unsigned 16 (first_word v) of Some c \<Rightarrow> c | None \<Rightarrow> 200)"
    by (simp add: cgi_code_def cgi_named_def h del: bs_simps)
  show ?case
    using Cons.IH [OF ok(2) g1(1)] g1 code code1 unfolding f Let_def
    by (auto simp: h cgi_named_def simp del: bs_simps)
qed (simp add: cgi_named_def)

text \<open>
  A complete answer in CGI form becomes the response it describes: its headers in order without those of the hop, the hidden ones and the
  status line, the status it asked for, 302 for a bare redirect, and its body byte for byte.
\<close>

theorem cgi_answer_exact:
  assumes "list_all cgi_ok hs" "hs \<noteq> []"
  shows "\<exists>r. build_reply conf (concat (map cgi_field hs) @ crlf @ rb) =
        Inr (\<lparr>rresp = r, reply_body = BBytes rb\<rparr> :: ('m, 'f, fcgi_body \<times> read_event list, 'd) reply)
    \<and> resp_iter r = filter (cgi_kept conf) hs
    \<and> status r = (if cgi_code hs = 200 \<and> filter (cgi_kept conf) (cgi_named (bs ''location'') hs) \<noteq> [] then 302 else cgi_code hs)"
proof -
  let ?X = "concat (map cgi_field hs)"
  have ne: "?X \<noteq> []" using assms(2) by (cases hs) (simp_all add: cgi_field_def)
  have last: "last ?X = 0x0A"
  proof -
    have "concat (map cgi_field (butlast hs @ [last hs])) = concat (map cgi_field (butlast hs)) @ cgi_field (last hs)"
      unfolding map_append concat_append by simp
    then have "?X = concat (map cgi_field (butlast hs)) @ cgi_field (last hs)" unfolding append_butlast_last_id [OF assms(2)] .
    then show ?thesis by (simp add: cgi_field_def)
  qed
  have he: "find_header_end (?X @ crlf @ rb) = Some (length ?X - 1, length ?X + 2)"
    using find_header_end_fields [OF assms, of rb 0] by (simp add: find_header_end_def)
  have head: "take (length ?X - 1) (?X @ crlf @ rb) = butlast ?X" by (simp add: butlast_conv_take)
  have lines: "split_lines (butlast ?X) = map (\<lambda>(n, v). n @ bs '': '' @ v) hs"
    using split_lines_snoc [of "butlast ?X"] split_lines_fields [OF assms(1)] append_butlast_last_id [OF ne] last by simp
  let ?g0 = "\<lparr>cg_resp = resp_new, cg_status = 200, cg_location = False, cg_len = None\<rparr>"
  have wf: "resp_wf (cg_resp ?g0)" by simp
  define g where "g = fold (cgi_line (fc_hide_headers conf)) (map (\<lambda>(n, v). n @ bs '': '' @ v) hs) ?g0"
  have code: "cgi_named (bs ''status'') hs = [] \<Longrightarrow> cgi_code hs = 200" by (simp add: cgi_code_def)
  have g: "resp_iter (cg_resp g) = filter (cgi_kept conf) hs" "cg_status g = cgi_code hs"
    "cg_location g \<longleftrightarrow> filter (cgi_kept conf) (cgi_named (bs ''location'') hs) \<noteq> []"
    using cgi_fold [OF assms(1) wf, of conf] code unfolding g_def [symmetric] Let_def by (auto simp del: bs_simps)
  have st: "resp_iter (x\<lparr>status := c\<rparr>) = resp_iter x" for x :: resp and c by (simp add: resp_iter_def)
  have "drop (length ?X + 2) (?X @ crlf @ rb) = rb" by simp
  then show ?thesis
    unfolding build_reply_def he option.case prod.case head parse_cgi_headers_def lines g_def [symmetric]
    using g by (simp add: Let_def st del: bs_simps)
qed

theorem cgi_answer_exact_witness:
  "\<exists>r. build_reply \<lparr>fc_params = ([] :: unit fcgi_param list), fc_script_index = None, fc_split = None, fc_keep_conn = False, fc_hide_headers = [],
         fc_buffering = True, fc_budget = 100\<rparr> (concat (map cgi_field [(bs ''Location'', bs ''/x''), (bs ''Connection'', bs ''close'')]) @ crlf @ bs ''hi'') =
      Inr (\<lparr>rresp = r, reply_body = BBytes (bs ''hi'')\<rparr> :: (unit, unit, fcgi_body \<times> read_event list, unit) reply)
    \<and> resp_iter r = [(bs ''Location'', bs ''/x'')] \<and> status r = 302"
proof -
  let ?hs = "[(bs ''Location'', bs ''/x''), (bs ''Connection'', bs ''close'')]"
  let ?conf = "\<lparr>fc_params = ([] :: unit fcgi_param list), fc_script_index = None, fc_split = None, fc_keep_conn = False, fc_hide_headers = [],
         fc_buffering = True, fc_budget = 100\<rparr>"
  have ok: "list_all cgi_ok ?hs" by code_simp
  have k: "filter (cgi_kept ?conf) ?hs = [(bs ''Location'', bs ''/x'')]" "cgi_code ?hs = 200"
    "filter (cgi_kept ?conf) (cgi_named (bs ''location'') ?hs) = [(bs ''Location'', bs ''/x'')]"
    by (simp_all add: cgi_kept_def cgi_named_def cgi_code_def FCGI_HOP_BY_HOP_def to_ascii_lowercase_def Let_def)
  from cgi_answer_exact [OF ok, of ?conf "bs ''hi''", where ?'m = unit and ?'f = unit and ?'d = unit] show ?thesis
    unfolding k by (simp del: bs_simps)
qed

end
