(* ===== verification/Spec2Isabelle.thy ===== *)
theory Spec2Isabelle
  imports Uri Limit_Req Limit_Conn Huffman Hpack H3_Frame Qpack H2_Frame Fcgi_Proto Upstream Preread Request H2_Request H2_Conn Routing Number_Text Http_Date Response Files Cache Config_Syntax Http1_Body Http1_Conn Handler Vars Proxy Fastcgi
begin

text \<open>
  \<^bold>\<open>OxiServe\<close> is a web server and reverse proxy that reads nginx configurations. A connection delivers
  bytes; the protocol layers (HTTP/1, HTTP/2, HTTP/3) turn them into a request head and a body; the path is
  decoded and normalised; the virtual host and the location are chosen; rewrites, limits, authorisation and
  \<^verbatim>\<open>try_files\<close> run; a handler (files, proxy, FastCGI, \<^verbatim>\<open>return\<close>) makes a reply; the reply is decorated, framed and
  written. All state that survives a request is in a few places: the tables of the limits in shared memory,
  the health and the idle connections of upstream peers, the response cache, and the state of a connection.

  \<^bold>\<open>Style of the model.\<close> Rust functions are HOL functions with the state passed explicitly, structures are records,
  enumerations datatypes, \<^verbatim>\<open>Result\<close> and \<^verbatim>\<open>Option\<close> sums and options; \<^verbatim>\<open>u8\<close> to \<^verbatim>\<open>u64\<close> are words where they can wrap, and
  naturals where the source checks or cannot reach the bound. Text is a list of bytes, with UTF-8 checked where Rust checks it.
  What is not in the repository is an argument of the definitions that use it: sockets and files (as what their reads
  return), clocks, regular expressions, the head tokenizer \<^verbatim>\<open>httparse\<close>, the compressor. Concurrent code
  (the table of the connection limit, the fetch locks, the HTTP/2 connection) is a step relation whose steps are the atomic actions of the source.

  \<^bold>\<open>Theories, in the order of a request.\<close>

  \<^item> \<^verbatim>\<open>Prelude\<close>: bytes, UTF-8, trimming and number parsing as in the Rust library, and the three interfaces
    shared by the components: \<open>incremental\<close> (a parser that says when it needs more input gives the same answer for every cut
    of the stream), \<open>codec\<close> (a decoder inverts an encoder, also on lists), \<open>invariant_system\<close> (an invariant kept by every step
    holds in every reachable state). Every wire format and every step relation below is an interpretation of one of them.
  \<^item> \<^verbatim>\<open>Request\<close> (\<^verbatim>\<open>http/request.rs\<close>): request heads, the index of frequent headers, body framing. \<^verbatim>\<open>Http1_Body\<close> and \<^verbatim>\<open>Http1_Conn\<close>
    (\<^verbatim>\<open>server/conn.rs\<close>): bodies with a length or in chunks, the connection loop, persistence, the writers of every kind of
    body, the pool of connection states.
  \<^item> \<^verbatim>\<open>Huffman\<close>, \<^verbatim>\<open>Hpack\<close>, \<^verbatim>\<open>H2_Frame\<close>, \<^verbatim>\<open>H2_Conn\<close>, \<^verbatim>\<open>H2_Request\<close> (\<^verbatim>\<open>http2/\<close>): header compression, frames, the state of a connection with
    its streams and windows, and the mapping to a request, which HTTP/3 shares.
  \<^item> \<^verbatim>\<open>H3_Frame\<close>, \<^verbatim>\<open>Qpack\<close> (\<^verbatim>\<open>http3/\<close>): variable-length integers, frames, settings, header sections.
  \<^item> \<^verbatim>\<open>Uri\<close> (\<^verbatim>\<open>http/uri.rs\<close>): decoding and normalisation with its fast path, encoding, query parameters.
  \<^item> \<^verbatim>\<open>Config_Syntax\<close> (\<^verbatim>\<open>config/lexer.rs\<close>, \<^verbatim>\<open>config/ast.rs\<close>), \<^verbatim>\<open>Vars\<close> (\<^verbatim>\<open>config/vars.rs\<close>), \<^verbatim>\<open>Routing\<close> (\<^verbatim>\<open>config/model.rs\<close>, the ordering in
    \<^verbatim>\<open>config/build.rs\<close>): the configuration language with includes, templates, virtual hosts and locations.
  \<^item> \<^verbatim>\<open>Limit_Req\<close>, \<^verbatim>\<open>Limit_Conn\<close> (\<^verbatim>\<open>server/limit_req.rs\<close>, \<^verbatim>\<open>server/limit_conn.rs\<close>): the lock-free tables of the two limits.
  \<^item> \<^verbatim>\<open>Handler\<close> (\<^verbatim>\<open>server/handler.rs\<close>, \<^verbatim>\<open>server/ctx.rs\<close>): the phases of a request and its internal redirects, error pages, decoration.
    What the phases do that others can observe is logged in the context, and the properties are about the log.
  \<^item> \<^verbatim>\<open>Files\<close> (\<^verbatim>\<open>server/files.rs\<close>): path mapping, conditional requests, ranges. \<^verbatim>\<open>Proxy\<close> (\<^verbatim>\<open>server/proxy.rs\<close>) over \<^verbatim>\<open>Upstream\<close> (\<^verbatim>\<open>server/upstream.rs\<close>:
    health, balancing, idle connections) and \<^verbatim>\<open>Cache\<close> (\<^verbatim>\<open>server/cache.rs\<close>: entries on disk, index, locks, maintenance).
    \<^verbatim>\<open>Fcgi_Proto\<close> (\<^verbatim>\<open>server/fcgi_proto.rs\<close>): FastCGI records; \<^verbatim>\<open>Fastcgi\<close> (\<^verbatim>\<open>server/fastcgi.rs\<close>): the parameters of an application, its output
    collected or streamed, its CGI headers. \<^verbatim>\<open>Preread\<close> (\<^verbatim>\<open>server/preread.rs\<close>): the TLS ClientHello.
  \<^item> \<^verbatim>\<open>Number_Text\<close>, \<^verbatim>\<open>Http_Date\<close>, \<^verbatim>\<open>Response\<close> (\<^verbatim>\<open>http/response.rs\<close>, \<^verbatim>\<open>http/date.rs\<close>, \<^verbatim>\<open>http/status.rs\<close>, \<^verbatim>\<open>server/reply.rs\<close>): numbers, dates, the
    response head over its arena (the interface \<open>header_store\<close>), framing.

  \<^bold>\<open>What the lemmas show.\<close> Safety: a normalised path has no segment that climbs, and a mapped file stays under its root; a connection
  takes exactly one request at a time off the stream, for every cut; a request is dispatched once per HTTP/2 stream and
  senders respect both windows; the limit of connections holds under every interleaving of its atomic
  actions, the limit of the request rate for every sequence of requests (its checks are taken one after the other); no content handler of a protected
  location runs without a subrequest that was answered with success; a proxied request reaches each peer at most once and is never repeated when that is unsafe; fetch
  locks exclude each other and are always released. Round trips: header compression, frames, FastCGI output, chunked bodies, response heads, cache entries,
  configuration dumps. Refinement and equivalence: the normalisation against a specification by segments, the response arena
  against a list of pairs, the search of locations and hosts against the documented choice. Termination: every loop of the
  model is total; the loops that depend on the network end with the list of what it delivers, the internal redirects with their bound of
  ten, the retries with the size of the group, includes with the depth limit of the source. Where fuel is used
  (nested includes, the HTTP/1 loop) a theorem gives the amount that is enough.
  Errors: a few theorems show inputs on which the code does something it does not mean to.

  \<^bold>\<open>Not modelled.\<close> The start of the process, listeners, TLS, QUIC and sockets (\<^verbatim>\<open>main.rs\<close>, \<^verbatim>\<open>server/mod.rs\<close>, \<^verbatim>\<open>server/transport.rs\<close>, \<^verbatim>\<open>server/quic.rs\<close>,
  \<^verbatim>\<open>http3/conn.rs\<close>, \<^verbatim>\<open>server/stream.rs\<close>, \<^verbatim>\<open>server/udp.rs\<close>): system and library calls whose results are arguments here. The
  translation of single directives (\<^verbatim>\<open>config/build.rs\<close>): one arm per directive without state; the configuration is an argument.
  Access logs, counters and the open-file cache: no decision about a reply reads them. The ModSecurity build (\<^verbatim>\<open>waf.rs\<close>, \<^verbatim>\<open>server/modsec.rs\<close>):
  bindings to a foreign library. How a variable gets its value (\<^verbatim>\<open>server/ctx.rs\<close>): the values are an argument of the templates.
\<close>

end
